(* ===== verification/Prelude.thy ===== *)
theory Prelude
  imports Complex_Main "HOL-Library.Multiset" "HOL-Library.Product_Lexorder"
begin

text \<open>
  Shared vocabulary of the development: error results, the relational tables the
  SQLAlchemy code reads and writes, stable sorting by a Python key tuple, and the
  generic invariant argument for components that are driven by a sequence of requests.

  A table is a list of records, one per row. \<open>UPDATE ... WHERE\<close> is
  \<open>update_where\<close>, \<open>SELECT ... WHERE\<close> is \<open>filter\<close>, a lookup by primary key is
  \<open>get_row\<close>. Times are seconds since the epoch (\<open>int\<close>); finite Python floats that
  the code only compares are \<open>rat\<close>.
\<close>

named_theorems table_simps \<open>laws of tables\<close>

type_synonym time = int

datatype http_error = Http nat

subsection \<open>Results that may be errors\<close>

definition bind_ok :: "'e + 'a \<Rightarrow> ('a \<Rightarrow> 'e + 'b) \<Rightarrow> 'e + 'b" where
  "bind_ok r f = (case r of Inl e \<Rightarrow> Inl e | Inr a \<Rightarrow> f a)"

lemma bind_ok_simps [simp]:
  "bind_ok (Inl e) f = Inl e"
  "bind_ok (Inr a) f = f a"
  by (simp_all add: bind_ok_def)

lemma bind_ok_eq_Inr: "bind_ok r f = Inr b \<longleftrightarrow> (\<exists>a. r = Inr a \<and> f a = Inr b)"
  by (cases r) auto

lemma map_sum_eq_Inr [simp]: "map_sum f g v = Inr b \<longleftrightarrow> (\<exists>a. v = Inr a \<and> g a = b)"
  by (cases v) auto

fun check_all :: "('a \<Rightarrow> 'e option) \<Rightarrow> 'a list \<Rightarrow> 'e option" where
  "check_all chk [] = None"
| "check_all chk (x # xs) = (case chk x of Some e \<Rightarrow> Some e | None \<Rightarrow> check_all chk xs)"

lemma check_all_None_iff: "check_all chk xs = None \<longleftrightarrow> (\<forall>x\<in>set xs. chk x = None)"
  by (induction xs) (auto split: option.splits)

text \<open>Python truthiness of an optional string.\<close>

definition truthy :: "string option \<Rightarrow> bool" where
  "truthy v = (case v of None \<Rightarrow> False | Some s \<Rightarrow> s \<noteq> [])"

definition or_else :: "'a option \<Rightarrow> 'a \<Rightarrow> 'a" where
  "or_else v d = (case v of None \<Rightarrow> d | Some x \<Rightarrow> x)"

lemma or_else_simps [simp]: "or_else None d = d" "or_else (Some x) d = x"
  by (simp_all add: or_else_def)

subsection \<open>Strings\<close>

text \<open>
  A Python \<open>str\<close> is its UTF-8 byte sequence. \<open>is_space\<close> holds of the ASCII characters
  that \<open>str.strip\<close> and \<open>str.isspace\<close> treat as white space.
\<close>

definition is_space :: "char \<Rightarrow> bool" where
  "is_space c \<longleftrightarrow> (of_char c :: nat) \<in> {9, 10, 11, 12, 13, 28, 29, 30, 31, 32}"

definition strip :: "string \<Rightarrow> string" where
  "strip s = rev (dropWhile is_space (rev (dropWhile is_space s)))"

definition is_ascii :: "string \<Rightarrow> bool" where
  "is_ascii s \<longleftrightarrow> (\<forall>c\<in>set s. (of_char c :: nat) < 128)"

definition replace_char :: "char \<Rightarrow> char \<Rightarrow> string \<Rightarrow> string" where
  "replace_char a b s = map (\<lambda>c. if c = a then b else c) s"

lemma replace_char_gone [simp]: "a \<noteq> b \<Longrightarrow> a \<notin> set (replace_char a b s)"
  by (auto simp: replace_char_def)

text \<open>\<open>s.split(c, n)\<close>: at most \<open>n\<close> cuts, from the left.\<close>

fun split_max :: "char \<Rightarrow> nat \<Rightarrow> string \<Rightarrow> string list" where
  "split_max c 0 s = [s]"
| "split_max c (Suc n) s =
     (if c \<in> set s then takeWhile (\<lambda>x. x \<noteq> c) s # split_max c n (tl (dropWhile (\<lambda>x. x \<noteq> c) s))
      else [s])"

lemma split_max_cut:
  "c \<notin> set p \<Longrightarrow> split_max c (Suc n) (p @ c # rest) = p # split_max c n rest"
proof -
  assume p: "c \<notin> set p"
  then have "takeWhile (\<lambda>x. x \<noteq> c) (p @ c # rest) = p"
    by (induction p) auto
  moreover have "dropWhile (\<lambda>x. x \<noteq> c) (p @ c # rest) = c # rest"
    using p by (induction p) auto
  ultimately show ?thesis by simp
qed

subsection \<open>Tables\<close>

definition update_where :: "('r \<Rightarrow> bool) \<Rightarrow> ('r \<Rightarrow> 'r) \<Rightarrow> 'r list \<Rightarrow> 'r list" where
  "update_where P f rows = map (\<lambda>r. if P r then f r else r) rows"

definition get_row :: "('r \<Rightarrow> 'k) \<Rightarrow> 'k \<Rightarrow> 'r list \<Rightarrow> 'r option" where
  "get_row key k rows = find (\<lambda>r. key r = k) rows"

definition primary :: "('r \<Rightarrow> 'k) \<Rightarrow> 'r list \<Rightarrow> bool" where
  "primary key rows \<longleftrightarrow> distinct (map key rows)"

lemma update_where_Nil [simp]: "update_where P f [] = []"
  and update_where_Cons [simp]:
    "update_where P f (r # rows) = (if P r then f r else r) # update_where P f rows"
  by (simp_all add: update_where_def)

lemma length_update_where [simp]: "length (update_where P f rows) = length rows"
  by (simp add: update_where_def)

lemma set_update_where: "set (update_where P f rows) = (\<lambda>r. if P r then f r else r) ` set rows"
  by (auto simp: update_where_def)

lemma update_where_none [table_simps]: "\<forall>r\<in>set rows. \<not> P r \<Longrightarrow> update_where P f rows = rows"
  by (induction rows) auto

lemma get_row_Some: "get_row key k rows = Some r \<Longrightarrow> r \<in> set rows \<and> key r = k"
  by (induction rows) (auto simp: get_row_def split: if_splits)

lemma get_row_None_iff: "get_row key k rows = None \<longleftrightarrow> k \<notin> key ` set rows"
  by (auto simp: get_row_def find_None_iff)

lemma get_row_append:
  "get_row key k (xs @ ys) = (case get_row key k xs of None \<Rightarrow> get_row key k ys | Some r \<Rightarrow> Some r)"
  by (induction xs) (auto simp: get_row_def)

lemma get_row_snoc: "k \<notin> key ` set xs \<Longrightarrow> key r = k \<Longrightarrow> get_row key k (xs @ [r]) = Some r"
  by (induction xs) (auto simp: get_row_def)

lemma get_row_primary:
  "primary key rows \<Longrightarrow> r \<in> set rows \<Longrightarrow> get_row key (key r) rows = Some r"
  by (induction rows) (auto simp: get_row_def primary_def)

lemma primary_same: "primary key rows \<Longrightarrow> a \<in> set rows \<Longrightarrow> b \<in> set rows \<Longrightarrow> key a = key b \<Longrightarrow> a = b"
  by (metis get_row_primary option.inject)

lemma primary_append:
  "primary key rows \<Longrightarrow> key r \<notin> key ` set rows \<Longrightarrow> primary key (rows @ [r])"
  by (auto simp: primary_def)

text \<open>Updates that a second update reverts.\<close>

lemma update_where_revert:
  assumes "\<And>r. r \<in> set rows \<Longrightarrow> Q (if P r then f r else r) \<longleftrightarrow> P r"
    and "\<And>r. r \<in> set rows \<Longrightarrow> P r \<Longrightarrow> g (f r) = r"
  shows "update_where Q g (update_where P f rows) = rows"
    and "length (filter Q (update_where P f rows)) = length (filter P rows)"
  using assms by (induction rows) (auto split: if_splits)

text \<open>The next value of an id sequence: one no row holds.\<close>

definition next_id :: "('r \<Rightarrow> nat) \<Rightarrow> 'r list \<Rightarrow> nat" where
  "next_id key rows = Suc (fold max (map key rows) 0)"

lemma fold_max_ge: "(a::nat) \<le> fold max xs a \<and> (\<forall>x\<in>set xs. x \<le> fold max xs a)"
proof (induction xs arbitrary: a)
  case (Cons y xs)
  from Cons [of "max y a"] show ?case by auto
qed simp

lemma next_id_fresh: "next_id key rows \<notin> key ` set rows"
proof -
  have "key r \<le> fold max (map key rows) 0" if "r \<in> set rows" for r
    using fold_max_ge [of 0 "map key rows"] that by simp
  then show ?thesis by (force simp: next_id_def)
qed

text \<open>An \<open>UPDATE\<close> that leaves the primary key alone.\<close>

locale row_update =
  fixes key :: "'r \<Rightarrow> 'k" and upd :: "'r \<Rightarrow> 'r"
  assumes key_upd: "key (upd r) = key r"
begin

lemma keys_update: "map key (update_where P upd rows) = map key rows"
  by (induction rows) (auto simp: key_upd)

lemma primary_update: "primary key (update_where P upd rows) \<longleftrightarrow> primary key rows"
  by (simp add: primary_def keys_update)

lemma get_update:
  "get_row key k (update_where P upd rows)
     = map_option (\<lambda>r. if P r then upd r else r) (get_row key k rows)"
  by (induction rows) (auto simp: get_row_def key_upd)

end

lemma list_all2_right: "list_all2 R xs ys \<Longrightarrow> y \<in> set ys \<Longrightarrow> \<exists>x\<in>set xs. R x y"
  by (induction rule: list_all2_induct) auto

lemma list_all2_left: "list_all2 R xs ys \<Longrightarrow> x \<in> set xs \<Longrightarrow> \<exists>y\<in>set ys. R x y"
  by (induction rule: list_all2_induct) auto

subsection \<open>Grouping\<close>

text \<open>\<open>defaultdict(list)\<close> filled in a loop: keys in order of first use, values in order.\<close>

fun dict_append :: "'k \<Rightarrow> 'a \<Rightarrow> ('k \<times> 'a list) list \<Rightarrow> ('k \<times> 'a list) list" where
  "dict_append k x [] = [(k, [x])]"
| "dict_append k x ((k', xs) # rest) =
     (if k = k' then (k', xs @ [x]) # rest else (k', xs) # dict_append k x rest)"

definition group_by :: "('a \<Rightarrow> 'k) \<Rightarrow> 'a list \<Rightarrow> ('k \<times> 'a list) list" where
  "group_by f xs = fold (\<lambda>x. dict_append (f x) x) xs []"

lemma dict_append_keys: "set (map fst (dict_append k x d)) = insert k (set (map fst d))"
  by (induction k x d rule: dict_append.induct) auto

lemma dict_append_distinct: "distinct (map fst d) \<Longrightarrow> distinct (map fst (dict_append k x d))"
proof (induction k x d rule: dict_append.induct)
  case (2 k x k' xs rest)
  then show ?case using dict_append_keys [of k x rest] by auto
qed simp

lemma dict_append_map_of:
  "map_of (dict_append k x d) = (map_of d)(k \<mapsto> (case map_of d k of None \<Rightarrow> [x] | Some ys \<Rightarrow> ys @ [x]))"
  by (induction k x d rule: dict_append.induct) (auto simp: fun_eq_iff)

lemma group_by_map_of:
  "map_of (group_by f xs) k
     = (if k \<in> f ` set xs then Some (filter (\<lambda>y. f y = k) xs) else None)"
proof (induction xs rule: rev_induct)
  case (snoc x xs)
  have "group_by f (xs @ [x]) = dict_append (f x) x (group_by f xs)" by (simp add: group_by_def)
  then show ?case using snoc
    by (auto simp: dict_append_map_of image_iff filter_empty_conv split: if_splits; metis)
qed (simp add: group_by_def)

lemma group_by_distinct_keys: "distinct (map fst (group_by f xs))"
  by (induction xs rule: rev_induct) (simp_all add: group_by_def dict_append_distinct)

lemma group_by_member:
  "(k, ys) \<in> set (group_by f xs) \<longleftrightarrow> k \<in> f ` set xs \<and> ys = filter (\<lambda>y. f y = k) xs"
  using group_by_map_of [of f xs k] map_of_eq_Some_iff [OF group_by_distinct_keys, of f xs k ys]
  by (auto split: if_splits)

lemma group_by_spec:
  "distinct (map fst (group_by f xs)) \<and> set (map fst (group_by f xs)) = f ` set xs
    \<and> (\<forall>(k, ys)\<in>set (group_by f xs). ys = filter (\<lambda>y. f y = k) xs)"
  using group_by_distinct_keys [of f xs] group_by_member [of _ _ f xs]
  by (auto simp: image_iff; metis fst_conv)

lemma group_by_eq: "group_by f xs = map (\<lambda>k. (k, filter (\<lambda>y. f y = k) xs)) (map fst (group_by f xs))"
  using group_by_spec [of f xs] unfolding map_map by (intro map_idI [symmetric]) (auto simp: split_beta prod_eq_iff)

lemma set_group_by: "set (group_by f xs) = (\<lambda>k. (k, filter (\<lambda>y. f y = k) xs)) ` f ` set xs"
  by (auto simp: group_by_member)

lemma mset_group_by_map:
  assumes "set xs = set ys" and "\<And>k. k \<in> f ` set xs \<Longrightarrow>
      g (k, filter (\<lambda>y. f y = k) xs) = g (k, filter (\<lambda>y. f y = k) ys)"
  shows "mset (map g (group_by f xs)) = mset (map g (group_by f ys))"
proof -
  let ?k = "\<lambda>zs. map fst (group_by f zs)"
  have "mset (?k xs) = mset (?k ys)"
    using group_by_spec [of f xs] group_by_spec [of f ys] assms(1)
      set_eq_iff_mset_eq_distinct [of "?k xs" "?k ys"] by metis
  moreover have "map g (group_by f xs) = map (\<lambda>k. g (k, filter (\<lambda>y. f y = k) ys)) (?k xs)"
  proof -
    have "g (k, filter (\<lambda>y. f y = k) xs) = g (k, filter (\<lambda>y. f y = k) ys)" if "k \<in> set (?k xs)" for k
      using that assms(2) group_by_spec [of f xs] by blast
    then show ?thesis by (subst group_by_eq) (auto simp only: map_map o_def list.set_map intro!: map_cong)
  qed
  moreover have "map g (group_by f ys) = map (\<lambda>k. g (k, filter (\<lambda>y. f y = k) ys)) (?k ys)"
    by (subst group_by_eq) simp
  ultimately show ?thesis by (simp only: mset_map)
qed

text \<open>\<open>min(xs, key=f)\<close> of a non-empty list: the first element with the least key.\<close>

definition min_by :: "('a \<Rightarrow> 'k::linorder) \<Rightarrow> 'a list \<Rightarrow> 'a" where
  "min_by f xs = foldl (\<lambda>b y. if f y < f b then y else b) (hd xs) (tl xs)"

lemma min_by_foldl:
  fixes f :: "'a \<Rightarrow> 'k::linorder"
  shows "(foldl (\<lambda>b y. if f y < f b then y else b) x xs) \<in> insert x (set xs)
    \<and> (\<forall>y\<in>insert x (set xs). f (foldl (\<lambda>b y. if f y < f b then y else b) x xs) \<le> f y)"
proof (induction xs arbitrary: x)
  case (Cons y xs)
  let ?b = "if f y < f x then y else x"
  let ?m = "foldl (\<lambda>b y. if f y < f b then y else b) ?b xs"
  have b: "f ?b \<le> f x \<and> f ?b \<le> f y \<and> ?b \<in> {x, y}" by auto
  have m: "?m \<in> insert ?b (set xs)" and le: "\<forall>z\<in>insert ?b (set xs). f ?m \<le> f z"
    using Cons [of ?b] by blast+
  from le b have "f ?m \<le> f x" "f ?m \<le> f y" by (meson insertI1 order_trans)+
  moreover from m b have "?m \<in> insert x (set (y # xs))" by auto
  ultimately show ?case using le by simp
qed simp

lemma min_by_in: "xs \<noteq> [] \<Longrightarrow> min_by f xs \<in> set xs"
  and min_by_le: "y \<in> set xs \<Longrightarrow> f (min_by f xs) \<le> f y"
  using min_by_foldl [of f "hd xs" "tl xs"] by (cases xs; auto simp: min_by_def)+

lemma min_by_set_cong:
  fixes f :: "'a \<Rightarrow> 'k::linorder"
  assumes "set xs = set ys" and "xs \<noteq> []" and "inj_on f (set xs)"
  shows "min_by f xs = min_by f ys"
proof -
  have ys: "ys \<noteq> []" using assms(1,2) by auto
  note in_xs = min_by_in [OF assms(2), of f] and in_ys = min_by_in [OF ys, of f]
  have "f (min_by f xs) = f (min_by f ys)"
    by (rule antisym; rule min_by_le) (use in_xs in_ys assms(1) in auto)
  with assms(1,3) in_xs in_ys show ?thesis by (auto simp: inj_on_def)
qed

subsection \<open>Sorting by a key that ends in an identifier\<close>

text \<open>
  The code breaks every ranking tie on an id, so that an ordering does not depend on the
  order rows came back from the database. \<open>sort_key\<close> is stable, like Python's
  \<open>sorted\<close>; when equal keys mean equal ids, the result is a function of the multiset.
\<close>

lemma filter_eq_singleton: "distinct zs \<Longrightarrow> k \<in> set zs \<Longrightarrow> filter (\<lambda>x. k = x) zs = [k]"
  by (induction zs) (auto simp: filter_empty_conv)

locale deterministic_ranking =
  fixes rank :: "'a \<Rightarrow> 'k::linorder" and ident :: "'a \<Rightarrow> 'i"
  assumes rank_ident: "rank x = rank y \<Longrightarrow> ident x = ident y"
begin

lemma inj_rank: "distinct (map ident xs) \<Longrightarrow> inj_on rank (set xs)"
  by (auto simp: distinct_map inj_on_def dest: rank_ident)

lemma order_independent:
  assumes "distinct (map ident xs)" and "mset xs = mset ys"
  shows "sort_key rank xs = sort_key rank ys"
proof (rule properties_for_sort_key)
  show "mset (sort_key rank ys) = mset xs" using assms(2) by simp
  show "\<And>k. k \<in> set (sort_key rank ys) \<Longrightarrow>
      filter (\<lambda>x. rank k = rank x) (sort_key rank ys) = filter (\<lambda>x. rank k = rank x) xs"
  proof -
    fix k assume "k \<in> set (sort_key rank ys)"
    then have k: "k \<in> set xs" using assms(2) by (metis set_mset_mset set_sort)
    have inj: "inj_on rank (set xs)" using assms(1) by (rule inj_rank)
    have dx: "distinct xs" using assms(1) by (simp add: distinct_map)
    have one: "filter (\<lambda>x. rank k = rank x) zs = [k]" if "mset zs = mset xs" for zs
    proof -
      have sz: "set zs = set xs" and dz: "distinct zs"
        using that dx by (metis set_mset_mset, metis distinct_count_atmost_1 set_mset_mset)
      have "filter (\<lambda>x. rank k = rank x) zs = filter (\<lambda>x. k = x) zs"
        by (rule filter_cong) (use inj k sz in \<open>auto simp: inj_on_def\<close>)
      also have "\<dots> = [k]" using dz k sz by (simp add: filter_eq_singleton)
      finally show ?thesis .
    qed
    show "filter (\<lambda>x. rank k = rank x) (sort_key rank ys) = filter (\<lambda>x. rank k = rank x) xs"
      using one [of "sort_key rank ys"] one [of xs] assms(2) by simp
  qed
  show "sorted (map rank (sort_key rank ys))" by simp
qed

end

subsection \<open>Components driven by a sequence of requests\<close>

locale driven_system =
  fixes step :: "'ev \<Rightarrow> 's \<Rightarrow> 's" and inv :: "'s \<Rightarrow> bool"
  assumes step_inv: "inv s \<Longrightarrow> inv (step e s)"
begin

lemma run_inv: "inv s \<Longrightarrow> inv (fold step es s)"
  by (induction es arbitrary: s) (auto intro: step_inv)

end

end
