(* ===== verification/Access.thy ===== *)
theory Access
  imports Prelude
begin

text \<open>
  \<^verbatim>\<open>app/services/authorization.py\<close>: API keys, principals and the site ownership checks
  every route runs first. An HTTP error is \<open>Inl (Http status)\<close>; the explanatory text of the
  response is not modelled. \<open>hmac\<close> is the keyed digest of the standard library, a
  parameter: nothing here depends on what it computes.
\<close>

section \<open>Data\<close>

datatype platform = WordPress | Html | Pool

record site =
  site_id :: nat
  site_tenant :: nat
  site_base_url :: string
  site_platform :: platform
  wp_username :: "string option"
  pool_source_approved :: bool
  pool_source_failures :: nat
  pool_source_quarantined :: bool
  pool_source_quarantine_reason :: "string option"
  domain_registered_at :: "int option"

datatype principal_source = Legacy_env | Operator | Db

record principal =
  is_admin :: bool
  psource :: principal_source
  tenant_id :: "nat option"
  key_id :: "nat option"
  operator_id :: "string option"

record api_key_row =
  k_id :: nat
  k_tenant :: "nat option"
  k_prefix :: string
  k_hash :: string
  k_admin :: bool
  k_last_used :: "time option"
  k_expires :: "time option"
  k_revoked :: "time option"

record auth_settings =
  cfg_api_key :: string
  cfg_operator_keys :: "(string \<times> string) list"
  cfg_environment :: string
  cfg_pepper :: string

record tenant =
  tn_id :: nat
  tn_slug :: string

definition has_wordpress_credentials :: "site \<Rightarrow> bool" where
  "has_wordpress_credentials s \<longleftrightarrow> site_platform s = WordPress \<and> truthy (wp_username s)"

section \<open>Keys\<close>

definition unconfigured_pepper :: string where
  "unconfigured_pepper = ''linkmesh-unconfigured-pepper''"

definition pepper :: "auth_settings \<Rightarrow> http_error + string" where
  "pepper cfg =
     (let value = strip (cfg_pepper cfg)
      in if value = [] then
           (if cfg_environment cfg \<noteq> ''development'' then Inl (Http 500)
            else Inr unconfigured_pepper)
         else Inr value)"

definition require_configured_pepper :: "auth_settings \<Rightarrow> http_error option" where
  "require_configured_pepper cfg =
     (if strip (cfg_pepper cfg) \<noteq> [] then None
      else if cfg_environment cfg = ''development'' then None
      else Some (Http 503))"

definition hash_api_key ::
  "auth_settings \<Rightarrow> (string \<Rightarrow> string \<Rightarrow> string) \<Rightarrow> string \<Rightarrow> http_error + string" where
  "hash_api_key cfg hmac raw = bind_ok (pepper cfg) (\<lambda>p. Inr (hmac p raw))"

text \<open>The two random draws \<open>token_hex\<close> and \<open>token_urlsafe\<close> are the arguments.\<close>

definition generate_api_key ::
  "auth_settings \<Rightarrow> (string \<Rightarrow> string \<Rightarrow> string) \<Rightarrow> string option \<Rightarrow> string \<Rightarrow> string
     \<Rightarrow> http_error + (string \<times> string \<times> string)" where
  "generate_api_key cfg hmac environment prefix secret =
     (let chosen = (if truthy environment then or_else environment []
                    else if cfg_environment cfg \<noteq> [] then cfg_environment cfg else ''dev'');
          env = replace_char (CHR ''_'') (CHR ''-'') (take 12 chosen);
          plaintext = ''lm_'' @ env @ ''_'' @ prefix @ ''_'' @ secret
      in bind_ok (hash_api_key cfg hmac plaintext) (\<lambda>h. Inr (plaintext, prefix, h)))"

definition parse_key_prefix :: "string \<Rightarrow> string option" where
  "parse_key_prefix raw =
     (case split_max (CHR ''_'') 3 raw of
        [lm, env, prefix, secret] \<Rightarrow> if lm \<noteq> ''lm'' \<or> prefix = [] then None else Some prefix
      | _ \<Rightarrow> None)"

text \<open>\<open>secrets.compare_digest\<close> on two \<open>str\<close> arguments raises \<open>TypeError\<close> unless both are
  ASCII; nothing catches it, so the request ends as a 500.\<close>

definition compare_digest :: "string \<Rightarrow> string \<Rightarrow> http_error + bool" where
  "compare_digest a b = (if is_ascii a \<and> is_ascii b then Inr (a = b) else Inl (Http 500))"

fun match_operator :: "string \<Rightarrow> (string \<times> string) list \<Rightarrow> http_error + string option" where
  "match_operator raw [] = Inr None"
| "match_operator raw ((op_id, key) # rest) =
     bind_ok (compare_digest raw key)
       (\<lambda>hit. if hit then Inr (Some op_id) else match_operator raw rest)"

definition touch_last_used :: "time \<Rightarrow> api_key_row \<Rightarrow> api_key_row" where
  "touch_last_used now r =
     (case k_last_used r of
        Some previous \<Rightarrow> if now - previous < 60 then r else r\<lparr>k_last_used := Some now\<rparr>
      | None \<Rightarrow> r\<lparr>k_last_used := Some now\<rparr>)"

text \<open>The database half of \<open>authenticate_api_key\<close>: look the key up by its public prefix.\<close>

definition authenticate_db_key ::
  "auth_settings \<Rightarrow> (string \<Rightarrow> string \<Rightarrow> string) \<Rightarrow> time \<Rightarrow> api_key_row list \<Rightarrow> string
     \<Rightarrow> http_error + (principal \<times> api_key_row list)" where
  "authenticate_db_key cfg hmac now keys raw =
     (case parse_key_prefix raw of
        None \<Rightarrow> Inl (Http 401)
      | Some prefix \<Rightarrow>
          (case get_row k_prefix prefix keys of
             None \<Rightarrow> Inl (Http 401)
           | Some r \<Rightarrow>
               if k_revoked r \<noteq> None then Inl (Http 401)
               else if (case k_expires r of Some t \<Rightarrow> t \<le> now | None \<Rightarrow> False) then Inl (Http 401)
               else bind_ok (hash_api_key cfg hmac raw) (\<lambda>h.
                 bind_ok (compare_digest (k_hash r) h) (\<lambda>same.
                   if \<not> same then Inl (Http 401)
                   else if k_admin r \<and> k_tenant r \<noteq> None then Inl (Http 401)
                   else if \<not> k_admin r \<and> k_tenant r = None then Inl (Http 401)
                   else Inr (\<lparr>is_admin = k_admin r, psource = Db, tenant_id = k_tenant r,
                              key_id = Some (k_id r), operator_id = None\<rparr>,
                             update_where (\<lambda>q. k_prefix q = prefix) (touch_last_used now) keys)))))"

definition authenticate_api_key ::
  "auth_settings \<Rightarrow> (string \<Rightarrow> string \<Rightarrow> string) \<Rightarrow> time \<Rightarrow> api_key_row list \<Rightarrow> string option
     \<Rightarrow> http_error + (principal \<times> api_key_row list)" where
  "authenticate_api_key cfg hmac now keys raw_key =
     (if cfg_api_key cfg = [] \<and> cfg_operator_keys cfg = [] \<and> keys = [] then Inl (Http 503)
      else case raw_key of
        None \<Rightarrow> Inl (Http 401)
      | Some raw \<Rightarrow>
          bind_ok (if cfg_api_key cfg = [] then Inr False else compare_digest raw (cfg_api_key cfg))
            (\<lambda>legacy.
              if legacy then
                Inr (\<lparr>is_admin = True, psource = Legacy_env, tenant_id = None, key_id = None,
                       operator_id = None\<rparr>, keys)
              else bind_ok (match_operator raw (cfg_operator_keys cfg)) (\<lambda>hit.
                case hit of
                  Some op_id \<Rightarrow>
                    Inr (\<lparr>is_admin = True, psource = Operator, tenant_id = None, key_id = None,
                           operator_id = Some op_id\<rparr>, keys)
                | None \<Rightarrow> authenticate_db_key cfg hmac now keys raw)))"

section \<open>Ownership checks\<close>

definition require_admin_principal :: "principal \<Rightarrow> http_error + principal" where
  "require_admin_principal p = (if \<not> is_admin p then Inl (Http 403) else Inr p)"

definition authorize_site :: "site list \<Rightarrow> principal \<Rightarrow> nat \<Rightarrow> http_error + site" where
  "authorize_site sites p i =
     (case get_row site_id i sites of
        None \<Rightarrow> Inl (Http 404)
      | Some s \<Rightarrow>
          if is_admin p then Inr s
          else if site_platform s = Pool then Inl (Http 403)
          else if tenant_id p = None \<or> Some (site_tenant s) \<noteq> tenant_id p then Inl (Http 403)
          else Inr s)"

definition authorize_site_read :: "site list \<Rightarrow> principal \<Rightarrow> nat \<Rightarrow> http_error + site" where
  "authorize_site_read sites p i =
     (case get_row site_id i sites of
        None \<Rightarrow> Inl (Http 404)
      | Some s \<Rightarrow>
          if is_admin p \<or> site_platform s = Pool then Inr s
          else if tenant_id p = None \<or> Some (site_tenant s) \<noteq> tenant_id p then Inl (Http 403)
          else Inr s)"

definition require_creatable_platform :: "principal \<Rightarrow> platform option \<Rightarrow> http_error option" where
  "require_creatable_platform p pf =
     (if pf \<noteq> Some Pool \<or> is_admin p then None else Some (Http 403))"

definition check_site_access :: "principal \<Rightarrow> nat \<Rightarrow> http_error option" where
  "check_site_access p tenant =
     (if is_admin p then None
      else if tenant_id p = None \<or> Some tenant \<noteq> tenant_id p then Some (Http 403)
      else None)"

definition tenant_site_filter :: "principal \<Rightarrow> http_error + (site \<Rightarrow> bool) option" where
  "tenant_site_filter p =
     (if is_admin p then Inr None
      else if tenant_id p = None then Inl (Http 403)
      else Inr (Some (\<lambda>s. Some (site_tenant s) = tenant_id p)))"

definition readable_site_filter :: "principal \<Rightarrow> http_error + (site \<Rightarrow> bool) option" where
  "readable_site_filter p =
     bind_ok (tenant_site_filter p) (\<lambda>owned.
       case owned of
         None \<Rightarrow> Inr None
       | Some f \<Rightarrow> Inr (Some (\<lambda>s. f s \<or> site_platform s = Pool)))"

definition tenant_scope :: "principal \<Rightarrow> http_error + nat option" where
  "tenant_scope p =
     (if is_admin p then Inr None
      else if tenant_id p = None then Inl (Http 403)
      else Inr (tenant_id p))"

definition default_tenant_slug :: string where "default_tenant_slug = ''default''"

definition ensure_default_tenant :: "nat \<Rightarrow> tenant list \<Rightarrow> tenant \<times> tenant list" where
  "ensure_default_tenant fresh tenants =
     (case get_row tn_slug default_tenant_slug tenants of
        Some t \<Rightarrow> (t, tenants)
      | None \<Rightarrow>
          let t = \<lparr>tn_id = fresh, tn_slug = default_tenant_slug\<rparr> in (t, tenants @ [t]))"

definition resolve_create_tenant_id ::
  "nat \<Rightarrow> tenant list \<Rightarrow> principal \<Rightarrow> nat option \<Rightarrow> http_error + (nat \<times> tenant list)" where
  "resolve_create_tenant_id fresh tenants p wanted =
     (if is_admin p then
        (case wanted of
           Some t \<Rightarrow> if get_row tn_id t tenants = None then Inl (Http 404) else Inr (t, tenants)
         | None \<Rightarrow> (case ensure_default_tenant fresh tenants of (t, ts) \<Rightarrow> Inr (tn_id t, ts)))
      else case tenant_id p of
        None \<Rightarrow> Inl (Http 403)
      | Some own \<Rightarrow> if wanted \<noteq> None \<and> wanted \<noteq> Some own then Inl (Http 403) else Inr (own, tenants))"

section \<open>Lemmas\<close>

interpretation touch: row_update k_prefix "touch_last_used now" for now
  by unfold_locales (auto simp: touch_last_used_def split: option.splits)

lemma touch_last_used_frame:
  "k_id (touch_last_used now r) = k_id r" "k_tenant (touch_last_used now r) = k_tenant r"
  "k_hash (touch_last_used now r) = k_hash r" "k_admin (touch_last_used now r) = k_admin r"
  "k_revoked (touch_last_used now r) = k_revoked r"
  "k_expires (touch_last_used now r) = k_expires r"
  by (simp_all add: touch_last_used_def split: option.splits)

text \<open>After a request the stored time lags by less than one refresh interval.\<close>

lemma touch_last_used_recent:
  "\<exists>t. k_last_used (touch_last_used now r) = Some t \<and> now - t < 60"
  by (auto simp: touch_last_used_def split: option.splits)

lemma compare_digest_ok: "compare_digest a b = Inr v \<Longrightarrow> v = (a = b)"
  by (simp add: compare_digest_def split: if_splits)

lemma match_operator_miss:
  "is_ascii raw \<Longrightarrow> \<forall>(n, k)\<in>set ops. is_ascii k \<and> k \<noteq> raw \<Longrightarrow> match_operator raw ops = Inr None"
  by (induction ops) (auto simp: compare_digest_def)

lemma parse_minted_prefix:
  assumes "CHR ''_'' \<notin> set env" and "CHR ''_'' \<notin> set prefix" and "prefix \<noteq> []"
  shows "parse_key_prefix (''lm_'' @ env @ ''_'' @ prefix @ ''_'' @ secret) = Some prefix"
proof -
  let ?u = "CHR ''_''" and ?s3 = "Suc (Suc (Suc 0))"
  have "split_max ?u ?s3 (''lm'' @ ?u # (env @ ?u # (prefix @ ?u # secret)))
      = ''lm'' # split_max ?u (Suc (Suc 0)) (env @ ?u # (prefix @ ?u # secret))"
    by (rule split_max_cut) simp
  also have "split_max ?u (Suc (Suc 0)) (env @ ?u # (prefix @ ?u # secret))
      = env # split_max ?u (Suc 0) (prefix @ ?u # secret)"
    by (rule split_max_cut) (rule assms(1))
  also have "split_max ?u (Suc 0) (prefix @ ?u # secret) = prefix # split_max ?u 0 secret"
    by (rule split_max_cut) (rule assms(2))
  finally have "split_max ?u 3 (''lm'' @ ?u # (env @ ?u # (prefix @ ?u # secret)))
      = [''lm'', env, prefix, secret]"
    by (simp only: numeral_3_eq_3 split_max.simps(1))
  then show ?thesis using assms(3) unfolding parse_key_prefix_def by simp
qed

lemma generated_key_shape:
  assumes "generate_api_key cfg hmac environment prefix secret = Inr (plaintext, pre, h)"
  shows "pre = prefix" and "hash_api_key cfg hmac plaintext = Inr h"
    and "CHR ''_'' \<notin> set prefix \<Longrightarrow> prefix \<noteq> [] \<Longrightarrow> parse_key_prefix plaintext = Some prefix"
proof -
  define env where "env = replace_char (CHR ''_'') (CHR ''-'')
    (take 12 (if truthy environment then or_else environment []
              else if cfg_environment cfg \<noteq> [] then cfg_environment cfg else ''dev''))"
  have env: "CHR ''_'' \<notin> set env" by (simp add: env_def)
  have eq: "plaintext = ''lm_'' @ env @ ''_'' @ prefix @ ''_'' @ secret \<and> pre = prefix
      \<and> hash_api_key cfg hmac plaintext = Inr h"
    using assms unfolding generate_api_key_def Let_def env_def [symmetric] bind_ok_eq_Inr by auto
  from eq show "pre = prefix" by blast
  from eq show "hash_api_key cfg hmac plaintext = Inr h" by blast
  show "parse_key_prefix plaintext = Some prefix" if "CHR ''_'' \<notin> set prefix" and "prefix \<noteq> []"
    using parse_minted_prefix [OF env that] eq by simp
qed

text \<open>Minting and presenting an API key agree: whatever environment label is used and whatever
  the random secret contains (it may hold underscores), presenting the freshly minted plaintext
  is parsed back to its public prefix and authenticates as exactly the stored row's principal,
  provided the row is live and properly scoped; and the row's use is recorded.\<close>

lemma minted_key_authenticates:
  assumes mint: "generate_api_key cfg hmac environment prefix secret = Inr (plaintext, pre, h)"
    and prefix: "CHR ''_'' \<notin> set prefix" "prefix \<noteq> []"
    and table: "primary k_prefix keys" "r \<in> set keys" "k_prefix r = pre" "k_hash r = h"
    and live: "k_revoked r = None" "k_expires r = None \<or> k_expires r = Some t \<and> now < t"
    and scope: "k_admin r \<longleftrightarrow> k_tenant r = None"
    and ascii: "is_ascii plaintext" "is_ascii h" "is_ascii (cfg_api_key cfg)"
      "\<forall>(n, k)\<in>set (cfg_operator_keys cfg). is_ascii k \<and> k \<noteq> plaintext"
    and other: "cfg_api_key cfg \<noteq> plaintext"
  shows "\<exists>keys' r'. authenticate_api_key cfg hmac now keys (Some plaintext)
      = Inr (\<lparr>is_admin = k_admin r, psource = Db, tenant_id = k_tenant r,
              key_id = Some (k_id r), operator_id = None\<rparr>, keys')
    \<and> get_row k_prefix pre keys' = Some r' \<and> (\<exists>s. k_last_used r' = Some s \<and> now - s < 60)"
proof -
  note shape = generated_key_shape [OF mint]
  have row: "get_row k_prefix prefix keys = Some r"
    using get_row_primary [OF table(1,2)] table(3) shape(1) by simp
  have db: "authenticate_db_key cfg hmac now keys plaintext
      = Inr (\<lparr>is_admin = k_admin r, psource = Db, tenant_id = k_tenant r,
              key_id = Some (k_id r), operator_id = None\<rparr>,
             update_where (\<lambda>q. k_prefix q = prefix) (touch_last_used now) keys)"
    using shape(2) shape(3) [OF prefix] row live scope ascii(2) table(4)
    by (auto simp: authenticate_db_key_def compare_digest_def)
  have miss: "match_operator plaintext (cfg_operator_keys cfg) = Inr None"
    using ascii(1,4) by (rule match_operator_miss)
  have "authenticate_api_key cfg hmac now keys (Some plaintext)
      = authenticate_db_key cfg hmac now keys plaintext"
    using table(2) other miss ascii(1,3)
    by (auto simp: authenticate_api_key_def compare_digest_def)
  moreover have "get_row k_prefix pre (update_where (\<lambda>q. k_prefix q = prefix) (touch_last_used now) keys)
      = Some (touch_last_used now r)"
    using row table(3) shape(1) by (simp add: touch.get_update)
  ultimately show ?thesis using db touch_last_used_recent [of now r] by simp
qed

text \<open>A key minted for tenant 7 in a development configuration, presented a second later.\<close>

lemma minted_key_authenticates_witness:
  "\<exists>cfg hmac keys keys' r'. authenticate_api_key cfg hmac 100 keys (Some ''lm_dev-x_ab_s_t'')
      = Inr (\<lparr>is_admin = False, psource = Db, tenant_id = Some 7, key_id = Some 1,
              operator_id = None\<rparr>, keys')
    \<and> get_row k_prefix ''ab'' keys' = Some r' \<and> (\<exists>s. k_last_used r' = Some s \<and> 100 - s < 60)"
proof -
  define cfg where "cfg = \<lparr>cfg_api_key = ''root'', cfg_operator_keys = [(''ann'', ''k'')],
    cfg_environment = ''dev_x'', cfg_pepper = ''p''\<rparr>"
  define hmac :: "string \<Rightarrow> string \<Rightarrow> string" where "hmac = (\<lambda>p k. p @ rev k)"
  define r where "r = \<lparr>k_id = 1, k_tenant = Some 7, k_prefix = ''ab'',
    k_hash = ''pt_s_ba_x-ved_ml'', k_admin = False, k_last_used = Some 99, k_expires = Some 101,
    k_revoked = None\<rparr>"
  have "generate_api_key cfg hmac None ''ab'' ''s_t'' = Inr (''lm_dev-x_ab_s_t'', ''ab'', k_hash r)"
    by (simp add: generate_api_key_def hash_api_key_def pepper_def cfg_def hmac_def r_def
        truthy_def strip_def is_space_def replace_char_def)
  from minted_key_authenticates [OF this, of "[r]" r 101 100] show ?thesis
    by (simp add: primary_def cfg_def r_def is_ascii_def) blast
qed

lemma authenticate_db_key_sound:
  assumes "authenticate_db_key cfg hmac now keys raw = Inr (p, keys')"
  obtains r where "r \<in> set keys" and "p = \<lparr>is_admin = k_admin r, psource = Db,
      tenant_id = k_tenant r, key_id = Some (k_id r), operator_id = None\<rparr>"
    and "k_revoked r = None" and "\<forall>t. k_expires r = Some t \<longrightarrow> now < t"
    and "hash_api_key cfg hmac raw = Inr (k_hash r)" and "k_admin r \<longleftrightarrow> k_tenant r = None"
proof -
  from assms obtain prefix where prefix: "parse_key_prefix raw = Some prefix"
    by (cases "parse_key_prefix raw") (simp_all add: authenticate_db_key_def)
  with assms obtain r where row: "get_row k_prefix prefix keys = Some r"
    by (cases "get_row k_prefix prefix keys") (simp_all add: authenticate_db_key_def)
  note body = assms [unfolded authenticate_db_key_def prefix row option.case bind_ok_eq_Inr
      compare_digest_def]
  show ?thesis
    by (rule that [of r]) (use body get_row_Some [OF row] in
      \<open>auto simp: bind_ok_eq_Inr split: if_splits option.splits\<close>)
qed

lemma authenticate_api_key_cases:
  assumes "authenticate_api_key cfg hmac now keys raw_key = Inr (p, keys')"
  obtains (configured) "is_admin p" "tenant_id p = None" "psource p \<noteq> Db" "keys' = keys"
  | (db) raw where "raw_key = Some raw" "authenticate_db_key cfg hmac now keys raw = Inr (p, keys')"
  using assms
  by (auto simp: authenticate_api_key_def bind_ok_eq_Inr split: option.splits if_splits)

text \<open>C34. Containment of a scoped credential. Whenever a request is authenticated and then authorised
  for a site without being an administrator, the credential was a live database key (not
  revoked, not expired, its digest matching what was presented), the site belongs to exactly
  that key's tenant, and it is not a shared content-pool source.\<close>

theorem scoped_key_confined:
  assumes "authenticate_api_key cfg hmac now keys (Some raw) = Inr (p, keys')"
    and "authorize_site sites p i = Inr s" and "\<not> is_admin p"
  shows "\<exists>r\<in>set keys. k_tenant r = Some (site_tenant s) \<and> \<not> k_admin r \<and> k_revoked r = None
    \<and> (case k_expires r of None \<Rightarrow> True | Some t \<Rightarrow> now < t)
    \<and> hash_api_key cfg hmac raw = Inr (k_hash r)
    \<and> site_platform s \<noteq> Pool \<and> site_id s = i"
  using assms(1)
proof (cases rule: authenticate_api_key_cases)
  case configured
  then show ?thesis using assms(3) by simp
next
  case (db raw')
  from db(2) obtain r where r: "r \<in> set keys" "p = \<lparr>is_admin = k_admin r, psource = Db,
      tenant_id = k_tenant r, key_id = Some (k_id r), operator_id = None\<rparr>"
    "k_revoked r = None" "\<forall>t. k_expires r = Some t \<longrightarrow> now < t"
    "hash_api_key cfg hmac raw' = Inr (k_hash r)" "k_admin r \<longleftrightarrow> k_tenant r = None"
    by (rule authenticate_db_key_sound)
  from assms(2,3) have "tenant_id p = Some (site_tenant s) \<and> site_platform s \<noteq> Pool \<and> site_id s = i"
    by (auto simp: authorize_site_def dest: get_row_Some split: option.splits if_splits)
  with r db(1) assms(3) show ?thesis by (auto split: option.splits intro!: bexI [of _ r])
qed

lemma scoped_key_confined_witness:
  "\<exists>cfg hmac keys keys' sites p s.
     authenticate_api_key cfg hmac 5 keys (Some ''lm_d_ab_s'') = Inr (p, keys')
     \<and> authorize_site sites p 3 = Inr s \<and> \<not> is_admin p
     \<and> (\<exists>r\<in>set keys. k_tenant r = Some (site_tenant s))"
proof -
  define cfg where "cfg = \<lparr>cfg_api_key = [], cfg_operator_keys = [],
    cfg_environment = ''dev'', cfg_pepper = ''p''\<rparr>"
  define hmac :: "string \<Rightarrow> string \<Rightarrow> string" where "hmac = (\<lambda>p k. p @ k)"
  define r where "r = \<lparr>k_id = 1, k_tenant = Some 7, k_prefix = ''ab'', k_hash = ''plm_d_ab_s'',
    k_admin = False, k_last_used = None, k_expires = None, k_revoked = None\<rparr>"
  define p where "p = \<lparr>is_admin = False, psource = Db, tenant_id = Some 7, key_id = Some 1,
    operator_id = None\<rparr>"
  define s where "s = \<lparr>site_id = 3, site_tenant = 7, site_base_url = ''u'',
    site_platform = WordPress, wp_username = None, pool_source_approved = False,
    pool_source_failures = 0, pool_source_quarantined = False,
    pool_source_quarantine_reason = None, domain_registered_at = None\<rparr>"
  have a: "authenticate_api_key cfg hmac 5 [r] (Some ''lm_d_ab_s'')
      = Inr (p, [touch_last_used 5 r])"
    by (simp add: authenticate_api_key_def authenticate_db_key_def parse_key_prefix_def
        hash_api_key_def pepper_def compare_digest_def is_ascii_def strip_def is_space_def
        get_row_def cfg_def hmac_def r_def p_def numeral_3_eq_3)
  have b: "authorize_site [s] p 3 = Inr s"
    by (simp add: authorize_site_def get_row_def s_def p_def)
  have c: "\<not> is_admin p" by (simp add: p_def)
  from a b c have "\<exists>r'\<in>set [r]. k_tenant r' = Some (site_tenant s) \<and> \<not> k_admin r' \<and> k_revoked r' = None
    \<and> (case k_expires r' of None \<Rightarrow> True | Some t \<Rightarrow> 5 < t)
    \<and> hash_api_key cfg hmac ''lm_d_ab_s'' = Inr (k_hash r')
    \<and> site_platform s \<noteq> Pool \<and> site_id s = 3"
    by (rule scoped_key_confined)
  then have "\<exists>r\<in>set [r]. k_tenant r = Some (site_tenant s)" by blast
  with a b c show ?thesis by blast
qed

text \<open>The sites listing and the site detail page agree: for a caller whose listing is not
  itself refused, a stored site is readable by id exactly when the listing's filter admits it,
  and everything a caller may operate on it may also read.\<close>

lemma listing_agrees_with_detail:
  assumes "primary site_id sites" and "s \<in> set sites" and "readable_site_filter p = Inr flt"
  shows "(authorize_site_read sites p (site_id s) = Inr s
      \<longleftrightarrow> (case flt of None \<Rightarrow> True | Some f \<Rightarrow> f s))
    \<and> (authorize_site sites p (site_id s) = Inr s
      \<longrightarrow> authorize_site_read sites p (site_id s) = Inr s)"
  using assms get_row_primary [OF assms(1,2)]
  by (auto simp: authorize_site_read_def authorize_site_def readable_site_filter_def
      tenant_site_filter_def split: if_splits option.splits)

lemma listing_agrees_with_detail_witness:
  "\<exists>sites s p. authorize_site_read sites p (site_id s) = Inr s \<and> authorize_site sites p (site_id s) \<noteq> Inr s"
proof -
  define s where "s = \<lparr>site_id = 3, site_tenant = 9, site_base_url = ''u'',
    site_platform = Pool, wp_username = None, pool_source_approved = False,
    pool_source_failures = 0, pool_source_quarantined = False,
    pool_source_quarantine_reason = None, domain_registered_at = None\<rparr>"
  define p where "p = \<lparr>is_admin = False, psource = Db, tenant_id = Some 7, key_id = Some 1,
    operator_id = None\<rparr>"
  have "readable_site_filter p
      = Inr (Some (\<lambda>s. Some (site_tenant s) = tenant_id p \<or> site_platform s = Pool))"
    by (simp add: readable_site_filter_def tenant_site_filter_def p_def)
  from listing_agrees_with_detail [of "[s]" s, OF _ _ this]
  have "authorize_site_read [s] p (site_id s) = Inr s"
    by (simp add: primary_def s_def)
  moreover have "authorize_site [s] p (site_id s) \<noteq> Inr s"
    by (simp add: authorize_site_def get_row_def s_def p_def)
  ultimately show ?thesis by blast
qed

text \<open>A caller never creates a site for a tenant it does not own, and only an administrator may
  introduce a content-pool source.\<close>

lemma create_scope:
  assumes "resolve_create_tenant_id fresh tenants p wanted = Inr (t, ts)" and "\<not> is_admin p"
  shows "tenant_id p = Some t" and "ts = tenants"
  using assms by (auto simp: resolve_create_tenant_id_def split: option.splits if_splits)

end
