(* ===== verification/Json.thy ===== *)
theory Json
  imports Prelude "HOL-Library.List_Lexorder" "HOL-Library.Char_ord"
begin

text \<open>
  JSON values as the JSONB columns hold them, and \<open>json.dumps(..., sort_keys=True,
  separators=(",", ":"), ensure_ascii=False)\<close> followed by \<open>.encode("utf-8")\<close>, the canonical
  encoding the plan hash of \<^verbatim>\<open>app/services/publication_plan_service.py\<close> is taken over. The
  main lemma is that the encoding is unambiguous: it can be undone even when more text follows.
  How a float is printed is a parameter; the hashed artifact holds no floats.
\<close>

datatype json = JNull | JBool bool | JInt int | JFloat rat | JStr string
  | JArr "json list" | JObj "(string \<times> json) list"

definition jget :: "json option \<Rightarrow> string \<Rightarrow> json option" where
  "jget v k = (case v of Some (JObj kvs) \<Rightarrow> map_of kvs k | _ \<Rightarrow> None)"

section \<open>Scalars\<close>

definition hex_digit :: "nat \<Rightarrow> char" where
  "hex_digit n = char_of (if n < 10 then 48 + n else 87 + n)"

definition escape_char :: "char \<Rightarrow> string" where
  "escape_char c =
     (let n = (of_char c :: nat) in
      if n = 34 then [CHR 0x5C, CHR 0x22]
      else if n = 92 then [CHR 0x5C, CHR 0x5C]
      else if n = 10 then [CHR 0x5C, CHR ''n'']
      else if n = 13 then [CHR 0x5C, CHR ''r'']
      else if n = 9 then [CHR 0x5C, CHR ''t'']
      else if n = 12 then [CHR 0x5C, CHR ''f'']
      else if n = 8 then [CHR 0x5C, CHR ''b'']
      else if n < 32 then CHR 0x5C # ''u00'' @ [hex_digit (n div 16), hex_digit (n mod 16)]
      else [c])"

definition json_string :: "string \<Rightarrow> string" where
  "json_string s = CHR 0x22 # concat (map escape_char s) @ [CHR 0x22]"

fun digits :: "nat \<Rightarrow> string" where
  "digits n = (if n < 10 then [char_of (48 + n)] else digits (n div 10) @ [char_of (48 + n mod 10)])"

declare digits.simps [simp del]

definition json_int :: "int \<Rightarrow> string" where
  "json_int i = (if i < 0 then CHR ''-'' # digits (nat (- i)) else digits (nat i))"

section \<open>Values\<close>

text \<open>\<open>sort_keys=True\<close> orders the members of every object, at every depth.\<close>

fun sort_members :: "json \<Rightarrow> json" where
  "sort_members (JArr js) = JArr (map sort_members js)"
| "sort_members (JObj kvs) = JObj (sort_key fst (map (\<lambda>(k, v). (k, sort_members v)) kvs))"
| "sort_members j = j"

fun commas :: "string list \<Rightarrow> string" where
  "commas [] = []"
| "commas [x] = x"
| "commas (x # xs) = x @ CHR '','' # commas xs"

fun encode :: "(rat \<Rightarrow> string) \<Rightarrow> json \<Rightarrow> string" where
  "encode fr JNull = ''null''"
| "encode fr (JBool b) = (if b then ''true'' else ''false'')"
| "encode fr (JInt i) = json_int i"
| "encode fr (JFloat x) = fr x"
| "encode fr (JStr s) = json_string s"
| "encode fr (JArr js) = CHR ''['' # commas (map (encode fr) js) @ '']''"
| "encode fr (JObj kvs) =
     CHR ''{'' # commas (map (\<lambda>(k, v). json_string k @ CHR '':'' # encode fr v) kvs) @ ''}''"

definition json_dumps :: "(rat \<Rightarrow> string) \<Rightarrow> json \<Rightarrow> string" where
  "json_dumps fr j = encode fr (sort_members j)"

fun float_free :: "json \<Rightarrow> bool" where
  "float_free (JFloat x) = False"
| "float_free (JArr js) = (\<forall>j\<in>set js. float_free j)"
| "float_free (JObj kvs) = (\<forall>kv\<in>set kvs. float_free (snd kv))"
| "float_free _ = True"

section \<open>The encoding is unambiguous\<close>

text \<open>What may follow a value inside a larger one.\<close>

definition ends :: "string \<Rightarrow> bool" where
  "ends r \<longleftrightarrow> r = [] \<or> hd r \<in> {CHR '','', CHR '']'', CHR ''}''}"

lemma ends_simps [simp]:
  "ends []" "ends (c # r) \<longleftrightarrow> c = CHR '','' \<or> c = CHR '']'' \<or> c = CHR ''}''"
  by (auto simp: ends_def)

text \<open>Reading one escaped character back.\<close>

definition hex_value :: "char \<Rightarrow> nat" where
  "hex_value c = (let n = of_char c in if n < 58 then n - 48 else n - 87)"

definition unescape :: "string \<Rightarrow> char \<times> string" where
  "unescape s =
     (let c = hd s; e = hd (tl s); r = tl (tl s) in
      if c \<noteq> CHR 0x5C then (c, tl s)
      else if e = CHR ''n'' then (char_of (10::nat), r)
      else if e = CHR ''r'' then (char_of (13::nat), r)
      else if e = CHR ''t'' then (char_of (9::nat), r)
      else if e = CHR ''f'' then (char_of (12::nat), r)
      else if e = CHR ''b'' then (char_of (8::nat), r)
      else if e = CHR ''u'' then
        (char_of (16 * hex_value (r ! 2) + hex_value (r ! 3)), drop 4 r)
      else (e, r))"

lemma hex_value_digit: "n < 16 \<Longrightarrow> hex_value (hex_digit n) = n"
  by (auto simp: hex_value_def hex_digit_def take_bit_eq_mod Let_def)

lemma unescape_escape [simp]: "unescape (escape_char c @ r) = (c, r)"
proof -
  define n where "n = (of_char c :: nat)"
  have c: "c = char_of n" by (simp add: n_def)
  have n: "n < 256" unfolding n_def using of_char_mod_256 [of c, where 'a = nat]
    by (metis mod_less_divisor zero_less_numeral)
  have ctl: "unescape ((CHR 0x5C # ''u00'' @ [hex_digit (n div 16), hex_digit (n mod 16)]) @ r)
      = (c, r)" if "n < 32"
  proof -
    have "n div 16 < 16" using that by linarith
    then show ?thesis by (simp add: unescape_def hex_value_digit c)
  qed
  show ?thesis
  proof (cases "n \<in> {34, 92, 10, 13, 9, 12, 8}")
    case True
    have q: "n = 34 \<Longrightarrow> c = CHR 0x22" "n = 92 \<Longrightarrow> c = CHR 0x5C" by (simp_all add: c char_of_def bit_0)
    from True q show ?thesis
      by (elim insertE emptyE)
        (simp_all add: escape_char_def n_def [symmetric] unescape_def Let_def c)
  next
    case False
    have "c \<noteq> CHR 0x5C" if "n \<noteq> 92" using that by (auto simp: n_def)
    with False ctl show ?thesis
      by (auto simp: escape_char_def n_def [symmetric] unescape_def Let_def)
  qed
qed

lemma escape_char_not_quote: "\<exists>d t. escape_char c = d # t \<and> d \<noteq> CHR 0x22"
proof -
  have "c \<noteq> CHR 0x22" if "(of_char c :: nat) \<noteq> 34"
    using that by auto
  then show ?thesis by (auto simp: escape_char_def Let_def)
qed

lemma escape_char_inj: "escape_char c @ r = escape_char d @ s \<Longrightarrow> c = d \<and> r = s"
  by (metis unescape_escape prod.inject)

lemma escapes_inj:
  "concat (map escape_char xs) @ CHR 0x22 # r = concat (map escape_char ys) @ CHR 0x22 # s
    \<Longrightarrow> xs = ys \<and> r = s"
proof (induction xs arbitrary: ys)
  case Nil
  show ?case
  proof (cases ys)
    case (Cons y ys')
    obtain d t where "escape_char y = d # t" "d \<noteq> CHR 0x22" using escape_char_not_quote by blast
    with Nil Cons show ?thesis by simp
  qed (use Nil in simp)
next
  case (Cons x xs)
  show ?case
  proof (cases ys)
    case Nil
    obtain d t where "escape_char x = d # t" "d \<noteq> CHR 0x22" using escape_char_not_quote by blast
    with Cons.prems Nil show ?thesis by simp
  next
    case (Cons y ys')
    with Cons.prems have "escape_char x @ (concat (map escape_char xs) @ CHR 0x22 # r)
        = escape_char y @ (concat (map escape_char ys') @ CHR 0x22 # s)" by simp
    from escape_char_inj [OF this] Cons.IH Cons show ?thesis by simp
  qed
qed

lemma json_string_inj: "json_string a @ r = json_string b @ s \<Longrightarrow> a = b \<and> r = s"
  by (auto simp: json_string_def dest: escapes_inj)

lemma json_string_quote: "json_string a = CHR 0x22 # tl (json_string a)"
  by (simp add: json_string_def)

text \<open>Numbers end where something that is not a digit follows.\<close>

definition is_digit :: "char \<Rightarrow> bool" where
  "is_digit c \<longleftrightarrow> (of_char c :: nat) \<in> {48..57}"

definition digits_value :: "string \<Rightarrow> nat" where
  "digits_value s = foldl (\<lambda>a c. 10 * a + (of_char c - 48)) 0 s"

lemma digit_char: "d < 10 \<Longrightarrow> is_digit (char_of (48 + d :: nat)) \<and> (of_char (char_of (48 + d :: nat) :: char) :: nat) = 48 + d"
  by (auto simp: is_digit_def take_bit_eq_mod)

lemma digits_are_digits: "\<forall>c\<in>set (digits n). is_digit c"
  by (induction n rule: digits.induct) (subst digits.simps, auto simp: digit_char)

lemma digits_value [simp]: "digits_value (digits n) = n"
proof (induction n rule: digits.induct)
  case (1 n)
  show ?case
  proof (cases "n < 10")
    case True
    then show ?thesis by (subst digits.simps) (simp add: digits_value_def digit_char)
  next
    case False
    with 1 have "foldl (\<lambda>a c. 10 * a + (of_char c - 48)) 0 (digits (n div 10)) = n div 10"
      by (simp add: digits_value_def)
    with False show ?thesis by (subst digits.simps) (simp add: digits_value_def digit_char)
  qed
qed

lemma digits_not_Nil: "digits n \<noteq> []"
  by (subst digits.simps) simp

lemma digits_head: "\<exists>c t. digits n = c # t \<and> is_digit c"
  using digits_not_Nil digits_are_digits by (metis list.set_intros(1) neq_Nil_conv)

lemma digits_span:
  assumes "r = [] \<or> \<not> is_digit (hd r)"
  shows "takeWhile is_digit (digits n @ r) = digits n \<and> dropWhile is_digit (digits n @ r) = r"
  using assms digits_are_digits [of n]
  by (cases r) (auto simp: takeWhile_append2 dropWhile_append2)

lemma ends_not_digit: "ends r \<Longrightarrow> r = [] \<or> \<not> is_digit (hd r)"
  by (auto simp: ends_def is_digit_def)

lemma digits_inj: "digits m @ r = digits n @ s \<Longrightarrow> ends r \<Longrightarrow> ends s \<Longrightarrow> m = n \<and> r = s"
  by (metis digits_span digits_value ends_not_digit)

lemma digit_not_minus: "is_digit c \<Longrightarrow> c \<noteq> CHR ''-''"
  by (auto simp: is_digit_def)

lemma json_int_inj:
  assumes "json_int i @ r = json_int j @ s" and "ends r" and "ends s"
  shows "i = j \<and> r = s"
proof -
  have *: "\<not> (\<exists>m n r s. CHR ''-'' # digits m @ r = digits n @ s)"
    using digits_head digit_not_minus by (metis append_Cons list.inject)
  show ?thesis
  proof (cases "i < 0")
    case True
    with assms(1) * have "j < 0" by (auto simp: json_int_def split: if_splits)
    with True assms digits_inj [of "nat (- i)" r "nat (- j)" s] show ?thesis
      by (auto simp: json_int_def)
  next
    case False
    with assms(1) * have "\<not> j < 0" by (auto simp: json_int_def split: if_splits) metis
    with False assms digits_inj [of "nat i" r "nat j" s] show ?thesis
      by (auto simp: json_int_def)
  qed
qed

lemma json_int_head: "\<exists>c t. json_int i = c # t \<and> (c = CHR ''-'' \<or> is_digit c)"
  using digits_head [of "nat i"] by (auto simp: json_int_def)

text \<open>Sequences of members separated by commas.\<close>

lemma commas_Cons:
  "commas (x # xs) @ t = x @ (if xs = [] then t else CHR '','' # commas xs @ t)"
  by (cases xs) auto

lemma commas_inj:
  assumes elem: "\<And>x y r s. x \<in> set xs \<Longrightarrow> y \<in> set ys \<Longrightarrow> ends r \<Longrightarrow> ends s \<Longrightarrow> f x @ r = f y @ s \<Longrightarrow> x = y \<and> r = s"
    and start: "\<And>x. x \<in> set xs \<union> set ys \<Longrightarrow> \<exists>c t. f x = c # t \<and> \<not> ends [c]"
    and close: "c = CHR '']'' \<or> c = CHR ''}''"
    and eq: "commas (map f xs) @ c # r = commas (map f ys) @ c # s"
  shows "xs = ys \<and> r = s"
  using elem start eq
proof (induction xs arbitrary: ys)
  case Nil
  show ?case
  proof (cases ys)
    case (Cons y ys')
    then obtain d t where "f y = d # t" "\<not> ends [d]" using Nil.prems(2) by fastforce
    with Nil.prems(3) Cons close show ?thesis by (auto simp: commas_Cons)
  qed (use Nil in simp)
next
  case (Cons x xs)
  define R where "R = (if xs = [] then c # r else CHR '','' # commas (map f xs) @ c # r)"
  obtain d t where x: "f x = d # t" "\<not> ends [d]" using Cons.prems(2) [of x] by auto
  show ?case
  proof (cases ys)
    case Nil
    with Cons.prems(3) x close show ?thesis by (auto simp: commas_Cons)
  next
    case ys: (Cons y ys')
    define S where "S = (if ys' = [] then c # s else CHR '','' # commas (map f ys') @ c # s)"
    have ends: "ends R" "ends S" using close by (auto simp: R_def S_def)
    have "f x @ R = f y @ S"
      using Cons.prems(3) by (simp add: ys R_def S_def commas_Cons)
    with Cons.prems(1) [of x y R S] ends ys have xy: "x = y" "R = S" by auto
    show ?thesis
    proof (cases "xs = [] \<or> ys' = []")
      case True
      with xy(2) close have "xs = [] \<and> ys' = [] \<and> r = s" by (auto simp: R_def S_def split: if_splits)
      with xy(1) ys show ?thesis by simp
    next
      case False
      with xy(2) have *: "commas (map f xs) @ c # r = commas (map f ys') @ c # s"
        by (simp add: R_def S_def)
      have "xs = ys' \<and> r = s"
        by (rule Cons.IH [OF Cons.prems(1) Cons.prems(2) *]) (simp_all add: ys)
      with xy(1) ys show ?thesis by simp
    qed
  qed
qed

lemma not_number_start:
  "c = CHR ''-'' \<or> is_digit c \<Longrightarrow> c \<noteq> CHR ''n'' \<and> c \<noteq> CHR ''t'' \<and> c \<noteq> CHR ''f'' \<and> c \<noteq> CHR 0x22
    \<and> c \<noteq> CHR ''['' \<and> c \<noteq> CHR ''{'' \<and> c \<noteq> CHR '','' \<and> c \<noteq> CHR '']'' \<and> c \<noteq> CHR ''}''"
  by (auto simp: is_digit_def)

lemma hd_json_int: "json_int i \<noteq> [] \<and> (hd (json_int i) = CHR ''-'' \<or> is_digit (hd (json_int i)))"
  using json_int_head [of i] by (metis list.distinct(1) list.sel(1))

lemma encode_head:
  assumes "float_free j"
  shows "encode fr j \<noteq> [] \<and> \<not> ends [hd (encode fr j)]
    \<and> (hd (encode fr j) = CHR ''n'' \<longleftrightarrow> j = JNull)
    \<and> (hd (encode fr j) = CHR ''t'' \<longleftrightarrow> j = JBool True)
    \<and> (hd (encode fr j) = CHR ''f'' \<longleftrightarrow> j = JBool False)
    \<and> (hd (encode fr j) = CHR 0x22 \<longleftrightarrow> (\<exists>x. j = JStr x))
    \<and> (hd (encode fr j) = CHR ''['' \<longleftrightarrow> (\<exists>x. j = JArr x))
    \<and> (hd (encode fr j) = CHR ''{'' \<longleftrightarrow> (\<exists>x. j = JObj x))"
  using assms hd_json_int not_number_start [OF conjunct2 [OF hd_json_int]]
  by (cases j) (simp_all add: json_string_def)

lemma same_head:
  assumes "encode fr a @ r = encode fr b @ s" and "float_free a" and "float_free b"
  shows "hd (encode fr a) = hd (encode fr b)"
  using assms encode_head by (metis hd_append2)

text \<open>The first character of an encoding tells which constructor it came from.\<close>

lemma encode_inj:
  assumes "encode fr a @ r = encode fr b @ s" and "float_free a" and "float_free b"
    and "ends r" and "ends s"
  shows "a = b \<and> r = s"
  using assms
proof (induction a arbitrary: b r s)
  case (JNull)
  from same_head [OF JNull.prems(1-3), symmetric] encode_head [OF JNull.prems(3), of fr]
  have "b = JNull" by simp
  with JNull.prems(1) show ?case by simp
next
  case (JBool x)
  from same_head [OF JBool.prems(1-3), symmetric] encode_head [OF JBool.prems(3), of fr] have "b = JBool x"
    by (cases x) simp_all
  with JBool.prems(1) show ?case by simp
next
  case (JInt i)
  from same_head [OF JInt.prems(1-3), symmetric] have h: "hd (encode fr b) = hd (json_int i)" by simp
  with not_number_start [OF conjunct2 [OF hd_json_int [of i]]] encode_head [OF JInt.prems(3), of fr]
  obtain j where "b = JInt j" using JInt.prems(3) by (cases b) simp_all
  with JInt.prems json_int_inj [of i r j s] show ?case by simp
next
  case (JFloat x)
  then show ?case by simp
next
  case (JStr x)
  from same_head [OF JStr.prems(1-3), symmetric] encode_head [OF JStr.prems(3), of fr] obtain y where "b = JStr y"
    by (auto simp: json_string_def)
  with JStr.prems json_string_inj [of x r y s] show ?case by simp
next
  case (JArr xs)
  from same_head [OF JArr.prems(1-3), symmetric] encode_head [OF JArr.prems(3), of fr] obtain ys where b: "b = JArr ys" by auto
  have "xs = ys \<and> r = s"
  proof (rule commas_inj [where f = "encode fr"])
    show "commas (map (encode fr) xs) @ CHR '']'' # r = commas (map (encode fr) ys) @ CHR '']'' # s"
      using JArr.prems(1) b by simp
    show "\<exists>c t. encode fr x = c # t \<and> \<not> ends [c]" if "x \<in> set xs \<union> set ys" for x
      using that JArr.prems(2,3) b encode_head [of x fr]
      by (intro exI [of _ "hd (encode fr x)"] exI [of _ "tl (encode fr x)"]) auto
    show "x = y \<and> r = s" if "x \<in> set xs" "y \<in> set ys" "ends r" "ends s"
      "encode fr x @ r = encode fr y @ s" for x y r s
      using that JArr.IH [of x r y s] JArr.prems(2,3) b by auto
  qed simp
  with b show ?case by simp
next
  case (JObj xs)
  from same_head [OF JObj.prems(1-3), symmetric] encode_head [OF JObj.prems(3), of fr] obtain ys where b: "b = JObj ys" by auto
  have "xs = ys \<and> r = s"
  proof (rule commas_inj [where f = "\<lambda>(k, v). json_string k @ CHR '':'' # encode fr v"])
    show "commas (map (\<lambda>(k, v). json_string k @ CHR '':'' # encode fr v) xs) @ CHR ''}'' # r
        = commas (map (\<lambda>(k, v). json_string k @ CHR '':'' # encode fr v) ys) @ CHR ''}'' # s"
      using JObj.prems(1) b by simp
    show "\<exists>c t. (case x of (k, v) \<Rightarrow> json_string k @ CHR '':'' # encode fr v) = c # t \<and> \<not> ends [c]" for x
      by (cases x) (simp add: json_string_def)
    show "x = y \<and> r = s" if "x \<in> set xs" "y \<in> set ys" "ends r" "ends s"
      "(case x of (k, v) \<Rightarrow> json_string k @ CHR '':'' # encode fr v) @ r
        = (case y of (k, v) \<Rightarrow> json_string k @ CHR '':'' # encode fr v) @ s" for x y r s
    proof -
      obtain k v where x: "x = (k, v)" by (cases x)
      obtain l w where y: "y = (l, w)" by (cases y)
      from that(5) have "json_string k @ (CHR '':'' # encode fr v @ r)
          = json_string l @ (CHR '':'' # encode fr w @ s)" by (simp add: x y)
      from json_string_inj [OF this] have "k = l" "encode fr v @ r = encode fr w @ s" by simp_all
      moreover have "float_free v" "float_free w"
        using JObj.prems(2,3) b that(1,2) x y by fastforce+
      ultimately show ?thesis
        using JObj.IH [of x v r w s] that(1,3,4) x y by (simp add: snds.intros)
    qed
  qed simp
  with b show ?case by simp
qed

lemma encode_eq_iff:
  "float_free a \<Longrightarrow> float_free b \<Longrightarrow> encode fr a = encode fr b \<longleftrightarrow> a = b"
  using encode_inj [of fr a "[]" b "[]"] by auto

end
