(* ===== verification/Store.thy ===== *)
theory Store
  imports Access Json
begin

text \<open>
  The editorial tables: \<^verbatim>\<open>app/models/suggestion.py\<close>, \<^verbatim>\<open>app/models/publication_plan.py\<close> and the
  parts of \<^verbatim>\<open>app/models/article.py\<close> the lifecycle reads. A \<open>store\<close> is a committed database
  state; a service function that commits maps a store to a store, and a rollback returns the
  store it started from.
\<close>

section \<open>Suggestions\<close>

datatype suggestion_method = Baseline_cosine | Hybrid_bm25 | Gnn_graphsage | External_search

datatype suggestion_status = Pending | Approved | Rejected | Expired | Applying | Applied | Failed

record suggestion =
  sg_id :: nat
  sg_site :: nat
  sg_source :: nat
  sg_target :: "nat option"
  sg_external_url :: "string option"
  sg_external_title :: "string option"
  sg_method :: suggestion_method
  sg_score :: rat
  sg_components :: "json option"
  sg_status :: suggestion_status
  sg_anchor :: "string option"
  sg_context :: "string option"
  sg_llm :: "string option"
  sg_placed_at :: "time option"
  sg_outcome :: "string option"
  sg_attempts :: nat
  sg_error :: "string option"
  sg_plan :: "nat option"
  sg_shown_at :: "time option"
  sg_last_shown_at :: "time option"
  sg_exposures :: nat
  sg_reviewer :: "string option"
  sg_reason :: "string option"
  sg_reviewed_at :: "time option"
  sg_applied_at :: "time option"

text \<open>A row as it is inserted, with the column defaults.\<close>

definition new_suggestion ::
  "nat \<Rightarrow> nat \<Rightarrow> nat \<Rightarrow> nat option \<Rightarrow> string option \<Rightarrow> suggestion_method \<Rightarrow> rat \<Rightarrow> suggestion" where
  "new_suggestion i site source target url meth score =
     \<lparr>sg_id = i, sg_site = site, sg_source = source, sg_target = target, sg_external_url = url,
      sg_external_title = None, sg_method = meth, sg_score = score, sg_components = None,
      sg_status = Pending, sg_anchor = None, sg_context = None, sg_llm = None,
      sg_placed_at = None, sg_outcome = None, sg_attempts = 0, sg_error = None, sg_plan = None,
      sg_shown_at = None, sg_last_shown_at = None, sg_exposures = 0, sg_reviewer = None,
      sg_reason = None, sg_reviewed_at = None, sg_applied_at = None\<rparr>"

text \<open>The \<open>CHECK\<close> constraint of the table: exactly one kind of target.\<close>

definition one_target :: "suggestion \<Rightarrow> bool" where
  "one_target s \<longleftrightarrow> (sg_target s \<noteq> None) \<noteq> (sg_external_url s \<noteq> None)"

record suggestion_event =
  ev_suggestion :: nat
  ev_type :: string
  ev_actor :: string
  ev_details :: "(string \<times> json) list"

section \<open>Articles\<close>

record article =
  ar_id :: nat
  ar_site :: nat
  ar_url :: string
  ar_title :: string
  ar_text :: string
  ar_external_id :: "string option"

definition resolved_target_url :: "article list \<Rightarrow> suggestion \<Rightarrow> string option" where
  "resolved_target_url articles s =
     (case (case sg_target s of None \<Rightarrow> None | Some t \<Rightarrow> get_row ar_id t articles) of
        Some a \<Rightarrow> Some (ar_url a)
      | None \<Rightarrow> sg_external_url s)"

definition resolved_target_title :: "article list \<Rightarrow> suggestion \<Rightarrow> string option" where
  "resolved_target_title articles s =
     (case (case sg_target s of None \<Rightarrow> None | Some t \<Rightarrow> get_row ar_id t articles) of
        Some a \<Rightarrow> Some (ar_title a)
      | None \<Rightarrow>
          (case sg_external_title s of
             Some t \<Rightarrow> Some t
           | None \<Rightarrow> resolved_target_url articles s))"

section \<open>Publication plans\<close>

datatype plan_status = Plan_prepared | Plan_approved | Plan_applied | Plan_stale
  | Plan_superseded | Plan_failed

definition active_plan_status :: "plan_status \<Rightarrow> bool" where
  "active_plan_status s \<longleftrightarrow> s \<in> {Plan_prepared, Plan_approved}"

text \<open>One entry of the \<open>items\<close> column, with the keys \<open>snapshot_items\<close> writes.\<close>

record plan_item =
  it_position :: nat
  it_suggestion :: nat
  it_target_url :: string
  it_anchor :: "string option"
  it_outcome :: string

record plan =
  pl_id :: nat
  pl_site :: nat
  pl_source :: nat
  pl_source_url :: string
  pl_status :: plan_status
  pl_original :: string
  pl_updated :: string
  pl_items :: "plan_item list"
  pl_hash :: string
  pl_approved_hash :: "string option"
  pl_approved_by :: "string option"
  pl_approved_at :: "time option"
  pl_applied_at :: "time option"
  pl_invalidated_at :: "time option"
  pl_failure :: "string option"

text \<open>The partial unique index \<open>ux_publication_plans_active_source\<close>.\<close>

definition active_unique :: "plan list \<Rightarrow> bool" where
  "active_unique plans \<longleftrightarrow>
     distinct (map pl_source (filter (\<lambda>p. active_plan_status (pl_status p)) plans))"

section \<open>The store\<close>

record store =
  st_articles :: "article list"
  st_suggestions :: "suggestion list"
  st_plans :: "plan list"
  st_events :: "suggestion_event list"

definition set_suggestions :: "(suggestion \<Rightarrow> bool) \<Rightarrow> (suggestion \<Rightarrow> suggestion) \<Rightarrow> store \<Rightarrow> store" where
  "set_suggestions P f st = st\<lparr>st_suggestions := update_where P f (st_suggestions st)\<rparr>"

definition set_plans :: "(plan \<Rightarrow> bool) \<Rightarrow> (plan \<Rightarrow> plan) \<Rightarrow> store \<Rightarrow> store" where
  "set_plans P f st = st\<lparr>st_plans := update_where P f (st_plans st)\<rparr>"

definition add_events :: "suggestion_event list \<Rightarrow> store \<Rightarrow> store" where
  "add_events evs st = st\<lparr>st_events := st_events st @ evs\<rparr>"

definition find_plan :: "store \<Rightarrow> nat \<Rightarrow> plan option" where
  "find_plan st i = get_row pl_id i (st_plans st)"

definition find_suggestion :: "store \<Rightarrow> nat \<Rightarrow> suggestion option" where
  "find_suggestion st i = get_row sg_id i (st_suggestions st)"

lemma set_suggestions_frame [simp]:
  "st_plans (set_suggestions P f st) = st_plans st"
  "st_articles (set_suggestions P f st) = st_articles st"
  "st_events (set_suggestions P f st) = st_events st"
  "st_suggestions (set_suggestions P f st) = update_where P f (st_suggestions st)"
  by (simp_all add: set_suggestions_def)

lemma set_plans_frame [simp]:
  "st_suggestions (set_plans P f st) = st_suggestions st"
  "st_articles (set_plans P f st) = st_articles st"
  "st_events (set_plans P f st) = st_events st"
  "st_plans (set_plans P f st) = update_where P f (st_plans st)"
  by (simp_all add: set_plans_def)

lemma add_events_frame [simp]:
  "st_suggestions (add_events es st) = st_suggestions st"
  "st_articles (add_events es st) = st_articles st"
  "st_plans (add_events es st) = st_plans st"
  "st_events (add_events es st) = st_events st @ es"
  by (simp_all add: add_events_def)

text \<open>Two active plans for one source are the same plan.\<close>

lemma active_unique_same:
  assumes "active_unique plans" and "a \<in> set plans" "b \<in> set plans"
    and "active_plan_status (pl_status a)" "active_plan_status (pl_status b)"
    and "pl_source a = pl_source b"
  shows "a = b"
  using assms by (auto simp: active_unique_def distinct_map inj_on_def)

text \<open>A status change away from the active ones, or within them, keeps the index satisfied.\<close>

lemma active_unique_update:
  assumes "active_unique plans"
    and "\<And>p. p \<in> set plans \<Longrightarrow> P p \<Longrightarrow> pl_source (f p) = pl_source p
      \<and> (active_plan_status (pl_status (f p)) \<longrightarrow> active_plan_status (pl_status p))"
  shows "active_unique (update_where P f plans)"
  using assms
proof (induction plans)
  case Nil
  then show ?case by (simp add: active_unique_def)
next
  case (Cons p ps)
  let ?q = "if P p then f p else p"
  have q: "pl_source ?q = pl_source p
      \<and> (active_plan_status (pl_status ?q) \<longrightarrow> active_plan_status (pl_status p))"
    using Cons.prems(2) [of p] by simp
  have ps: "active_unique ps" using Cons.prems(1)
    by (simp add: active_unique_def split: if_splits)
  with Cons have "active_unique (update_where P f ps)" by simp
  moreover have "pl_source p \<notin> pl_source ` {r \<in> set (update_where P f ps). active_plan_status (pl_status r)}"
    if "active_plan_status (pl_status p)"
  proof
    assume "pl_source p \<in> pl_source ` {r \<in> set (update_where P f ps). active_plan_status (pl_status r)}"
    then obtain r where r: "r \<in> set ps" "pl_source (if P r then f r else r) = pl_source p"
      "active_plan_status (pl_status (if P r then f r else r))"
      by (auto simp: set_update_where)
    with Cons.prems(2) [of r] have "pl_source r = pl_source p \<and> active_plan_status (pl_status r)"
      by (auto split: if_splits)
    with r(1) that Cons.prems(1) show False
      by (simp add: active_unique_def) (metis (mono_tags, lifting) image_eqI mem_Collect_eq)
  qed
  ultimately show ?case using q by (auto simp: active_unique_def)
qed

end
