(* ===== verification/Cohort.thy ===== *)
theory Cohort
  imports Store
begin

text \<open>
  Cohort selection of \<^verbatim>\<open>app/services/publication_plan_service.py\<close>: which selected suggestions
  are rendered together, in what order, and which direction of a reciprocal pair is written.
  The order matters because the first suggestion to render takes a contested anchor.
\<close>

section \<open>Ranking keys\<close>

definition bm25 :: "suggestion \<Rightarrow> rat" where
  "bm25 s =
     (case jget (sg_components s) ''bm25_score'' of
        Some (JInt i) \<Rightarrow> of_int i
      | Some (JFloat x) \<Rightarrow> x
      | Some (JBool b) \<Rightarrow> (if b then 1 else 0)
      | _ \<Rightarrow> 0)"

definition publication_rank :: "suggestion \<Rightarrow> rat \<times> rat \<times> nat" where
  "publication_rank s = (- bm25 s, - sg_score s, sg_id s)"

definition direction_rank :: "suggestion \<Rightarrow> rat \<times> nat" where
  "direction_rank s = (- sg_score s, sg_id s)"

definition group_rank :: "nat \<times> nat list \<times> rat \<Rightarrow> rat \<times> nat" where
  "group_rank g = (case g of (source, ids, score) \<Rightarrow> (- score, source))"

section \<open>The batch\<close>

definition awaiting :: "nat \<Rightarrow> suggestion \<Rightarrow> bool" where
  "awaiting site s \<longleftrightarrow> sg_site s = site \<and> sg_status s = Approved \<and> sg_plan s = None"

text \<open>The \<open>EXISTS\<close> subquery: a comparison with a null target is not true.\<close>

definition reverse_applied :: "suggestion list \<Rightarrow> suggestion \<Rightarrow> bool" where
  "reverse_applied rows s \<longleftrightarrow>
     (\<exists>r\<in>set rows. Some (sg_source r) = sg_target s \<and> sg_target r = Some (sg_source s)
        \<and> sg_status r = Applied)"

text \<open>\<open>frozenset((source_article_id, target_article_id))\<close>; an external row has a null target.\<close>

definition pair_key :: "suggestion \<Rightarrow> nat option set" where
  "pair_key s = {Some (sg_source s), sg_target s}"

definition kept_of_pair :: "suggestion list \<Rightarrow> nat list" where
  "kept_of_pair pair_rows =
     (if length (remdups (map sg_source pair_rows)) < 2 then map sg_id pair_rows
      else let winner = sg_source (min_by direction_rank pair_rows)
           in map sg_id (filter (\<lambda>r. sg_source r = winner) pair_rows))"

definition kept_ids :: "suggestion list \<Rightarrow> nat list" where
  "kept_ids rows = concat (map (\<lambda>(k, pair_rows). kept_of_pair pair_rows) (group_by pair_key rows))"

definition named :: "nat set option \<Rightarrow> nat \<Rightarrow> bool" where
  "named only i \<longleftrightarrow> (case only of None \<Rightarrow> True | Some w \<Rightarrow> i \<in> w)"

definition ranked_group :: "nat \<times> suggestion list \<Rightarrow> nat \<times> nat list \<times> rat" where
  "ranked_group g =
     (case g of (source, rows) \<Rightarrow>
        let rows = sort_key publication_rank rows
        in (source, map sg_id rows, sg_score (hd rows)))"

definition grouped_batch ::
  "store \<Rightarrow> nat \<Rightarrow> nat set option \<Rightarrow> (nat \<times> nat list) list \<times> nat list" where
  "grouped_batch st site only =
     (let rows = filter (awaiting site) (st_suggestions st);
          superseded = map sg_id (filter (reverse_applied (st_suggestions st)) rows);
          superseded = (case only of None \<Rightarrow> superseded
                        | Some w \<Rightarrow> filter (\<lambda>i. i \<in> w) superseded);
          rows = filter (\<lambda>r. \<not> reverse_applied (st_suggestions st) r) rows;
          kept = kept_ids rows;
          by_source = group_by sg_source
            (filter (\<lambda>r. sg_id r \<in> set kept \<and> named only (sg_id r)) rows);
          groups = sort_key group_rank (map ranked_group by_source)
      in (map (\<lambda>(source, ids, score). (source, ids)) groups, superseded))"

text \<open>\<open>UPDATE ... SET status = 'expired'\<close> of the superseded rows, with its row count.\<close>

definition expire_superseded :: "nat list \<Rightarrow> store \<Rightarrow> store \<times> nat" where
  "expire_superseded ids st =
     (let P = (\<lambda>s. sg_id s \<in> set ids \<and> sg_status s = Approved \<and> sg_plan s = None)
      in (set_suggestions P (\<lambda>s. s\<lparr>sg_status := Expired\<rparr>) st,
          length (filter P (st_suggestions st))))"

section \<open>Ranking is deterministic\<close>

interpretation publication_order: deterministic_ranking publication_rank sg_id
  by unfold_locales (simp add: publication_rank_def)

interpretation direction_order: deterministic_ranking direction_rank sg_id
  by unfold_locales (simp add: direction_rank_def)

interpretation group_order: deterministic_ranking group_rank fst
  by unfold_locales (auto simp: group_rank_def split: prod.splits)

section \<open>Who is in the batch\<close>

text \<open>The rows that compete: awaiting publication, with no published reverse.\<close>

definition contenders :: "store \<Rightarrow> nat \<Rightarrow> suggestion list" where
  "contenders st site = filter (\<lambda>r. \<not> reverse_applied (st_suggestions st) r)
     (filter (awaiting site) (st_suggestions st))"

definition rivals :: "suggestion list \<Rightarrow> suggestion \<Rightarrow> suggestion list" where
  "rivals rows r = filter (\<lambda>q. pair_key q = pair_key r) rows"

definition batch_ids :: "store \<Rightarrow> nat \<Rightarrow> nat set option \<Rightarrow> nat set" where
  "batch_ids st site only = (\<Union>(source, ids)\<in>set (fst (grouped_batch st site only)). set ids)"

lemma few_sources:
  "length (remdups (map sg_source rows)) < 2 \<longleftrightarrow> (\<forall>a\<in>set rows. \<forall>b\<in>set rows. sg_source a = sg_source b)"
  using card_le_Suc0_iff_eq [of "sg_source ` set rows"]
  by (simp add: length_remdups_card_conv less_Suc_eq_le numeral_2_eq_2)

lemma kept_of_pair_ids:
  "set (kept_of_pair rows) = sg_id ` {r \<in> set rows. sg_source r = sg_source (min_by direction_rank rows)}"
proof (cases "length (remdups (map sg_source rows)) < 2")
  case True
  then have "sg_source r = sg_source (min_by direction_rank rows)" if "r \<in> set rows" for r
    using that min_by_in [of rows direction_rank] unfolding few_sources
    by (metis list.distinct(1) list.set_cases)
  with True show ?thesis by (auto simp: kept_of_pair_def)
qed (auto simp: kept_of_pair_def Let_def)

lemma set_kept_ids: "set (kept_ids rows) = (\<Union>r\<in>set rows. set (kept_of_pair (rivals rows r)))"
  by (simp add: kept_ids_def set_group_by rivals_def)

lemma kept_iff:
  assumes "primary sg_id rows" and "r \<in> set rows"
  shows "sg_id r \<in> set (kept_ids rows)
    \<longleftrightarrow> sg_source r = sg_source (min_by direction_rank (rivals rows r))"
proof
  assume "sg_id r \<in> set (kept_ids rows)"
  then obtain q r' where q: "q \<in> set rows" "r' \<in> set (rivals rows q)" "sg_id r' = sg_id r"
    "sg_source r' = sg_source (min_by direction_rank (rivals rows q))"
    by (auto simp: set_kept_ids kept_of_pair_ids)
  then have "r' = r" using primary_same [OF assms(1) _ assms(2)] by (simp add: rivals_def)
  with q have "rivals rows q = rivals rows r" by (simp add: rivals_def)
  with q \<open>r' = r\<close> show "sg_source r = sg_source (min_by direction_rank (rivals rows r))" by simp
next
  assume "sg_source r = sg_source (min_by direction_rank (rivals rows r))"
  with assms(2) show "sg_id r \<in> set (kept_ids rows)"
    by (auto simp: set_kept_ids kept_of_pair_ids rivals_def)
qed

definition cohort_rows :: "store \<Rightarrow> nat \<Rightarrow> nat set option \<Rightarrow> suggestion list" where
  "cohort_rows st site only = filter
     (\<lambda>r. sg_id r \<in> set (kept_ids (contenders st site)) \<and> named only (sg_id r)) (contenders st site)"

lemma fst_grouped_batch:
  "fst (grouped_batch st site only) = map (\<lambda>(source, ids, score). (source, ids))
     (sort_key group_rank (map ranked_group (group_by sg_source (cohort_rows st site only))))"
  by (simp add: grouped_batch_def Let_def cohort_rows_def contenders_def)

lemma set_grouped_batch:
  "set (fst (grouped_batch st site only)) = (\<lambda>source. (source,
      map sg_id (sort_key publication_rank (filter (\<lambda>r. sg_source r = source) (cohort_rows st site only)))))
    ` sg_source ` set (cohort_rows st site only)"
  by (simp add: fst_grouped_batch set_group_by image_image ranked_group_def Let_def)

lemma primary_filter: "primary key rows \<Longrightarrow> primary key (filter P rows)"
  by (induction rows) (auto simp: primary_def)

lemma batch_member:
  "(source, ids) \<in> set (fst (grouped_batch st site only)) \<Longrightarrow> i \<in> set ids
    \<longleftrightarrow> (\<exists>r\<in>set (cohort_rows st site only). sg_id r = i \<and> sg_source r = source)"
  by (auto simp: set_grouped_batch)

lemma cohort_row:
  assumes "primary sg_id (st_suggestions st)"
  shows "r \<in> set (cohort_rows st site only) \<longleftrightarrow> r \<in> set (contenders st site) \<and> named only (sg_id r)
    \<and> sg_source r = sg_source (min_by direction_rank (rivals (contenders st site) r))"
proof -
  have "primary sg_id (contenders st site)" using assms by (simp add: contenders_def primary_filter)
  from kept_iff [OF this] show ?thesis by (auto simp: cohort_rows_def)
qed

lemma batch_ids_eq: "batch_ids st site only = sg_id ` set (cohort_rows st site only)"
  by (auto simp: batch_ids_def set_grouped_batch)


section \<open>Properties of the batch\<close>

lemma contender: "r \<in> set (contenders st site) \<longleftrightarrow> r \<in> set (st_suggestions st) \<and> awaiting site r
    \<and> \<not> reverse_applied (st_suggestions st) r"
  by (auto simp: contenders_def)

lemma rivals_min:
  assumes "r \<in> set rows"
  shows "min_by direction_rank (rivals rows r) \<in> set rows"
    and "pair_key (min_by direction_rank (rivals rows r)) = pair_key r"
    and "q \<in> set rows \<Longrightarrow> pair_key q = pair_key r
      \<Longrightarrow> direction_rank (min_by direction_rank (rivals rows r)) \<le> direction_rank q"
proof -
  have "rivals rows r \<noteq> []" using assms by (auto simp: rivals_def filter_empty_conv)
  from min_by_in [OF this, of direction_rank]
  show "min_by direction_rank (rivals rows r) \<in> set rows"
    and "pair_key (min_by direction_rank (rivals rows r)) = pair_key r" by (auto simp: rivals_def)
  show "q \<in> set rows \<Longrightarrow> pair_key q = pair_key r
      \<Longrightarrow> direction_rank (min_by direction_rank (rivals rows r)) \<le> direction_rank q"
    by (rule min_by_le) (simp add: rivals_def)
qed

lemma rivals_cong: "pair_key a = pair_key b \<Longrightarrow> rivals rows a = rivals rows b"
  by (simp add: rivals_def)

text \<open>C29. Preparation never offers a mutual link: every suggestion in a batch is a named, selected,
  unbound row of the site whose reverse direction is not already published, and no two
  suggestions of one batch point at each other's source.\<close>

theorem batch_has_no_mutual_link:
  assumes "primary sg_id (st_suggestions st)"
    and "a \<in> set (st_suggestions st)" "sg_id a \<in> batch_ids st site only"
    and "b \<in> set (st_suggestions st)" "sg_id b \<in> batch_ids st site only"
  shows "awaiting site a \<and> named only (sg_id a) \<and> \<not> reverse_applied (st_suggestions st) a
    \<and> (sg_target a = Some (sg_source b) \<and> sg_target b = Some (sg_source a)
        \<longrightarrow> sg_source a = sg_source b)"
proof -
  have mem: "x \<in> set (cohort_rows st site only)"
    if x: "x \<in> set (st_suggestions st)" "sg_id x \<in> batch_ids st site only" for x
  proof -
    from x(2) obtain y where y: "y \<in> set (cohort_rows st site only)" "sg_id y = sg_id x"
      by (auto simp: batch_ids_eq)
    then have "y = x" using primary_same [OF assms(1) _ x(1)]
      by (simp add: cohort_row [OF assms(1)] contender)
    with y show ?thesis by simp
  qed
  note a = mem [OF assms(2,3), unfolded cohort_row [OF assms(1)] contender]
    and b = mem [OF assms(4,5), unfolded cohort_row [OF assms(1)] contender]
  show ?thesis
  proof (intro conjI impI)
    assume "sg_target a = Some (sg_source b) \<and> sg_target b = Some (sg_source a)"
    then have "pair_key a = pair_key b" by (auto simp: pair_key_def)
    from rivals_cong [OF this, of "contenders st site"] a b show "sg_source a = sg_source b" by simp
  qed (use a in blast)+
qed

lemma batch_has_no_mutual_link_witness:
  "\<exists>st. {i. i \<in> batch_ids st 7 None} = {5, 6} \<and> length (filter (awaiting 7) (st_suggestions st)) = 3"
proof -
  define a where "a = (new_suggestion 4 7 10 (Some 20) None Baseline_cosine (4/5))\<lparr>sg_status := Approved\<rparr>"
  define b where "b = (new_suggestion 5 7 20 (Some 10) None Baseline_cosine (9/10))\<lparr>sg_status := Approved\<rparr>"
  define c where "c = (new_suggestion 6 7 10 (Some 30) None Hybrid_bm25 (1/2))\<lparr>sg_status := Approved\<rparr>"
  define st where "st = \<lparr>st_articles = [], st_suggestions = [a, b, c], st_plans = [], st_events = []\<rparr>"
  note d = a_def b_def c_def st_def new_suggestion_def
  have prim: "primary sg_id (st_suggestions st)" by (simp add: primary_def d)
  have no: "\<not> reverse_applied [a, b, c] s" for s by (simp add: reverse_applied_def d)
  have aw: "awaiting 7 a" "awaiting 7 b" "awaiting 7 c" by (simp_all add: awaiting_def d)
  have rows: "st_suggestions st = [a, b, c]" by (simp add: st_def)
  have cont: "contenders st 7 = [a, b, c]" by (simp add: contenders_def no aw rows)
  have pk: "pair_key a = pair_key b" "pair_key c \<noteq> pair_key a" "pair_key c \<noteq> pair_key b"
    by (simp_all add: pair_key_def doubleton_eq_iff d)
  have "rivals [a, b, c] a = [a, b]" "rivals [a, b, c] b = [a, b]" "rivals [a, b, c] c = [c]"
    using pk by (simp_all add: rivals_def)
  moreover have "min_by direction_rank [a, b] = b" "min_by direction_rank [c] = c"
    by (simp_all add: min_by_def direction_rank_def d)
  moreover have "sg_source a \<noteq> sg_source b" by (simp add: d)
  ultimately have "a \<notin> set (cohort_rows st 7 None)" "b \<in> set (cohort_rows st 7 None)"
    "c \<in> set (cohort_rows st 7 None)"
    by (simp_all add: cohort_row [OF prim] cont named_def)
  moreover have "set (cohort_rows st 7 None) \<subseteq> {a, b, c}"
    using cont by (auto simp: cohort_rows_def)
  ultimately have kept: "set (cohort_rows st 7 None) = {b, c}" by blast
  then have ids: "batch_ids st 7 None = {5, 6}" by (simp add: batch_ids_eq) (simp add: d)
  have "b \<in> set (st_suggestions st)" "sg_id b \<in> batch_ids st 7 None"
    using ids by (simp_all add: rows) (simp add: d)
  from batch_has_no_mutual_link [OF prim this this] have "awaiting 7 b" by blast
  then have "length (filter (awaiting 7) (st_suggestions st)) = 3"
    by (simp add: aw rows)
  with ids show ?thesis by auto
qed

text \<open>C32. Nothing selected is silently lost: a row awaiting publication is in the site-wide batch,
  or is reported as superseded because its reverse is published, or loses to a row of the batch
  that links the same two articles the other way round and ranks strictly better (higher
  cosine score, or an equal score and a smaller id).\<close>

theorem selection_is_batched_or_explained:
  assumes "primary sg_id (st_suggestions st)"
    and "r \<in> set (st_suggestions st)" "awaiting site r"
  shows "sg_id r \<in> batch_ids st site None
    \<or> sg_id r \<in> set (snd (grouped_batch st site None)) \<and> reverse_applied (st_suggestions st) r
    \<or> (\<exists>w\<in>set (st_suggestions st). sg_id w \<in> batch_ids st site None \<and> pair_key w = pair_key r
        \<and> sg_source w \<noteq> sg_source r \<and> direction_rank w < direction_rank r)"
proof (cases "reverse_applied (st_suggestions st) r")
  case True
  with assms(2,3) show ?thesis by (auto simp: grouped_batch_def Let_def)
next
  case False
  let ?rows = "contenders st site"
  let ?w = "min_by direction_rank (rivals ?rows r)"
  have r: "r \<in> set ?rows" using assms False by (simp add: contender)
  have w: "?w \<in> set ?rows" "pair_key ?w = pair_key r" "direction_rank ?w \<le> direction_rank r"
    using rivals_min [OF r] r by blast+
  have batch: "sg_id x \<in> batch_ids st site None" if "x \<in> set ?rows" "sg_source x = sg_source ?w"
    "pair_key x = pair_key r" for x
    using that cohort_row [OF assms(1), of x site None] rivals_cong [of x r ?rows]
    by (auto simp: batch_ids_eq named_def)
  show ?thesis
  proof (cases "sg_source r = sg_source ?w")
    case True
    with batch [OF r] show ?thesis by simp
  next
    case other: False
    have "direction_rank ?w \<noteq> direction_rank r"
    proof
      assume "direction_rank ?w = direction_rank r"
      from direction_order.rank_ident [OF this] have "?w = r"
        using primary_same [OF assms(1)] w(1) assms(2) by (simp add: contender)
      with other show False by simp
    qed
    with w(3) have "direction_rank ?w < direction_rank r" by simp
    with batch [OF w(1) refl w(2)] w other show ?thesis by (auto simp: contender)
  qed
qed

lemma selection_is_batched_or_explained_witness:
  "\<exists>st r. awaiting 1 r \<and> sg_id r \<in> set (snd (grouped_batch st 1 None))"
proof -
  define a where "a = (new_suggestion 4 1 10 (Some 20) None Baseline_cosine (4/5))\<lparr>sg_status := Approved\<rparr>"
  define b where "b = (new_suggestion 5 1 20 (Some 10) None Baseline_cosine (4/5))\<lparr>sg_status := Applied\<rparr>"
  define st where "st = \<lparr>st_articles = [], st_suggestions = [a, b], st_plans = [], st_events = []\<rparr>"
  note d = a_def b_def st_def new_suggestion_def
  have "primary sg_id (st_suggestions st)" "a \<in> set (st_suggestions st)" "awaiting 1 a"
    by (simp_all add: primary_def d awaiting_def)
  moreover have rev: "reverse_applied (st_suggestions st) a" by (simp add: reverse_applied_def d)
  moreover have "sg_id a \<notin> batch_ids st 1 None" "sg_id b \<notin> batch_ids st 1 None"
    using rev by (auto simp: batch_ids_eq cohort_rows_def contender awaiting_def) (auto simp: d)
  ultimately have "sg_id a \<in> set (snd (grouped_batch st 1 None))"
    using selection_is_batched_or_explained [of st a 1] by (auto simp: st_def)
  with \<open>awaiting 1 a\<close> show ?thesis by blast
qed

text \<open>Narrowing a preparation to named suggestions is safe: the narrowed batch is the site-wide
  batch restricted to the names, and so is the list of rows to retire. Naming one link can
  neither smuggle it past suppression nor retire anything else.\<close>

lemma narrowing_restricts:
  "batch_ids st site (Some w) = batch_ids st site None \<inter> w
    \<and> set (snd (grouped_batch st site (Some w))) = set (snd (grouped_batch st site None)) \<inter> w"
  by (auto simp: batch_ids_eq cohort_rows_def named_def grouped_batch_def Let_def)

text \<open>A batch does not depend on the order in which the database returned the rows: two stores
  holding the same suggestions in any order give the same groups in the same order, with the
  same links in the same order (the anchor arbitration), and retire the same rows.\<close>

lemma batch_order_is_canonical:
  assumes "primary sg_id (st_suggestions st)"
    and "mset (st_suggestions st) = mset (st_suggestions st')"
  shows "fst (grouped_batch st site only) = fst (grouped_batch st' site only)
    \<and> mset (snd (grouped_batch st site only)) = mset (snd (grouped_batch st' site only))"
proof -
  have sets: "set (st_suggestions st) = set (st_suggestions st')" using assms(2) by (rule mset_eq_setD)
  then have rev: "reverse_applied (st_suggestions st') = reverse_applied (st_suggestions st)"
    by (simp add: fun_eq_iff reverse_applied_def)
  have prim': "primary sg_id (st_suggestions st')"
    using assms by (metis primary_def mset_map mset_eq_imp_distinct_iff)
  have cont: "mset (contenders st site) = mset (contenders st' site)"
    by (simp add: contenders_def rev assms(2))
  then have cont_set: "set (contenders st site) = set (contenders st' site)" by (rule mset_eq_setD)
  have win: "min_by direction_rank (rivals (contenders st site) r)
      = min_by direction_rank (rivals (contenders st' site) r)" if "r \<in> set (contenders st site)" for r
  proof (rule min_by_set_cong)
    show "set (rivals (contenders st site) r) = set (rivals (contenders st' site) r)"
      by (simp add: rivals_def cont_set)
    show "rivals (contenders st site) r \<noteq> []" using that by (auto simp: rivals_def filter_empty_conv)
    have "distinct (map sg_id (rivals (contenders st site) r))"
      using primary_filter primary_filter assms(1)
      by (auto simp: rivals_def contenders_def primary_def [symmetric] intro!: primary_filter)
    then show "inj_on direction_rank (set (rivals (contenders st site) r))"
      by (rule direction_order.inj_rank)
  qed
  have rows: "mset (cohort_rows st site only) = mset (cohort_rows st' site only)"
  proof -
    have "cohort_rows s site only = filter (\<lambda>r. named only (sg_id r)
        \<and> sg_source r = sg_source (min_by direction_rank (rivals (contenders st site) r))) (contenders s site)"
      if "s \<in> {st, st'}" for s
    proof -
      have "primary sg_id (contenders s site)"
        using that assms(1) prim' by (auto simp: contenders_def intro!: primary_filter)
      with that win cont_set show ?thesis
        by (auto simp: cohort_rows_def kept_iff intro!: filter_cong)
    qed
    then show ?thesis using cont by simp
  qed
  have "mset (map ranked_group (group_by sg_source (cohort_rows st site only)))
      = mset (map ranked_group (group_by sg_source (cohort_rows st' site only)))"
  proof (rule mset_group_by_map)
    show "set (cohort_rows st site only) = set (cohort_rows st' site only)"
      using rows by (rule mset_eq_setD)
    fix k
    have "distinct (map sg_id (filter (\<lambda>y. sg_source y = k) (cohort_rows st site only)))"
      using assms(1) by (auto simp: cohort_rows_def contenders_def primary_def [symmetric] intro!: primary_filter)
    from publication_order.order_independent [OF this, of "filter (\<lambda>y. sg_source y = k) (cohort_rows st' site only)"]
    show "ranked_group (k, filter (\<lambda>y. sg_source y = k) (cohort_rows st site only))
        = ranked_group (k, filter (\<lambda>y. sg_source y = k) (cohort_rows st' site only))"
      using rows by (simp add: ranked_group_def)
  qed
  moreover have "distinct (map fst (map ranked_group (group_by sg_source (cohort_rows st site only))))"
    using group_by_distinct_keys [of sg_source "cohort_rows st site only"]
    by (simp add: o_def ranked_group_def Let_def split_beta)
  ultimately have "fst (grouped_batch st site only) = fst (grouped_batch st' site only)"
    unfolding fst_grouped_batch using group_order.order_independent by metis
  moreover have "mset (snd (grouped_batch st site only)) = mset (snd (grouped_batch st' site only))"
    by (simp add: grouped_batch_def Let_def rev assms(2) split: option.splits)
  ultimately show ?thesis by blast
qed

lemma batch_order_is_canonical_witness:
  "\<exists>st st'. st_suggestions st \<noteq> st_suggestions st'
    \<and> fst (grouped_batch st 1 None) = fst (grouped_batch st' 1 None)"
proof -
  define a where "a = new_suggestion 4 1 10 (Some 20) None Baseline_cosine (4/5)"
  define b where "b = (new_suggestion 5 1 20 (Some 10) None Baseline_cosine (4/5))\<lparr>sg_status := Approved\<rparr>"
  define st where "st = (\<lambda>rows. \<lparr>st_articles = [], st_suggestions = rows, st_plans = [], st_events = []\<rparr>)"
  have "primary sg_id (st_suggestions (st [a, b]))" "mset (st_suggestions (st [a, b])) = mset (st_suggestions (st [b, a]))"
    by (simp_all add: primary_def a_def b_def st_def new_suggestion_def)
  from batch_order_is_canonical [OF this, of 1 None]
  have "fst (grouped_batch (st [a, b]) 1 None) = fst (grouped_batch (st [b, a]) 1 None)" by blast
  moreover have "a \<noteq> b" by (simp add: a_def b_def new_suggestion_def)
  ultimately show ?thesis by (intro exI [of _ "st [a, b]"] exI [of _ "st [b, a]"]) (simp add: st_def)
qed

end
