(* ===== verification/Placement.thy ===== *)
theory Placement
  imports Store "HOL-Library.Sublist"
begin

text \<open>
  \<^verbatim>\<open>app/services/placement_service.py\<close> and the generation pass of
  \<^verbatim>\<open>app/services/publication_plan_service.py\<close>: the phrase a link is written on. The language
  model is a parameter \<open>ask\<close>; \<open>None\<close> is any exception of the call, \<open>Some (passage, anchor)\<close> the two
  members of its answer. White space and case folding are the ASCII ones; a \<open>str\<close> is UTF-8 and
  \<open>str_len\<close>, \<open>str_take\<close> count its code points.
\<close>

section \<open>Strings\<close>

definition continuation :: "char \<Rightarrow> bool" where
  "continuation c \<longleftrightarrow> (of_char c :: nat) div 64 = 2"

definition str_len :: "string \<Rightarrow> nat" where
  "str_len s = length (filter (\<lambda>c. \<not> continuation c) s)"

fun str_take :: "nat \<Rightarrow> string \<Rightarrow> string" where
  "str_take n [] = []"
| "str_take n (c # s) =
     (if continuation c then c # str_take n s
      else case n of 0 \<Rightarrow> [] | Suc m \<Rightarrow> c # str_take m s)"

function collapse :: "string \<Rightarrow> string" where
  "collapse [] = []"
| "collapse (c # s) =
     (if is_space c then CHR '' '' # collapse (dropWhile is_space s) else c # collapse s)"
  by pat_completeness auto
termination
  by (relation "measure length") (auto simp: le_imp_less_Suc length_dropWhile_le)

definition normalize_ws :: "string \<Rightarrow> string" where
  "normalize_ws s = strip (collapse s)"

definition lower_char :: "char \<Rightarrow> char" where
  "lower_char c = (let n = (of_char c :: nat) in if 65 \<le> n \<and> n \<le> 90 then char_of (n + 32) else c)"

definition casefold :: "string \<Rightarrow> string" where
  "casefold s = map lower_char s"

text \<open>\<open>re.search(re.escape(needle), haystack, re.IGNORECASE)\<close>, the text it matched.\<close>

fun search_ignorecase :: "string \<Rightarrow> string \<Rightarrow> string option" where
  "search_ignorecase needle hay =
     (if length needle \<le> length hay \<and> casefold (take (length needle) hay) = casefold needle
      then Some (take (length needle) hay)
      else case hay of [] \<Rightarrow> None | c # rest \<Rightarrow> search_ignorecase needle rest)"

declare search_ignorecase.simps [simp del]

definition locate :: "string \<Rightarrow> string \<Rightarrow> string option" where
  "locate needle haystack =
     (if needle = [] then None
      else if sublist needle haystack then Some needle
      else search_ignorecase needle haystack)"

section \<open>Verifying the model's answer\<close>

definition min_anchor_chars :: nat where "min_anchor_chars = 2"
definition max_anchor_chars :: nat where "max_anchor_chars = 120"

definition verify :: "json option \<Rightarrow> json option \<Rightarrow> string \<Rightarrow> string option \<times> string option" where
  "verify passage anchor source_text =
     (case (passage, anchor) of
        (Some (JStr p), Some (JStr a)) \<Rightarrow>
          (case locate (normalize_ws p) source_text of
             None \<Rightarrow> (None, None)
           | Some found_passage \<Rightarrow>
               (case locate (normalize_ws a) found_passage of
                  None \<Rightarrow> (None, None)
                | Some found_anchor \<Rightarrow>
                    if \<not> (min_anchor_chars \<le> str_len found_anchor \<and> str_len found_anchor \<le> max_anchor_chars)
                    then (None, None)
                    else if str_len found_anchor = str_len found_passage then (None, None)
                    else (Some found_passage, Some found_anchor)))
      | _ \<Rightarrow> (None, None))"

record placement =
  pm_anchor :: "string option"
  pm_context :: "string option"
  pm_llm :: "string option"
  pm_at :: time

record placement_settings =
  cfg_model :: string
  cfg_max_source_chars :: nat

type_synonym ask = "suggestion \<Rightarrow> string list \<Rightarrow> (json option \<times> json option) option"

definition generate ::
  "placement_settings \<Rightarrow> ask \<Rightarrow> (nat \<Rightarrow> string) \<Rightarrow> time \<Rightarrow> suggestion \<Rightarrow> string list \<Rightarrow> placement option" where
  "generate cfg ask text_of now s taken =
     (case ask s taken of
        None \<Rightarrow> None
      | Some (passage, anchor) \<Rightarrow>
          (let source_text = normalize_ws (str_take (cfg_max_source_chars cfg) (text_of (sg_source s)));
               (ctx, anc) = verify passage anchor source_text;
               (ctx, anc) = (case anc of
                  None \<Rightarrow> (ctx, anc)
                | Some a \<Rightarrow> if \<exists>t\<in>set taken. casefold a = casefold t then (None, None) else (ctx, anc))
           in Some \<lparr>pm_anchor = anc, pm_context = ctx, pm_llm = Some (cfg_model cfg), pm_at = now\<rparr>))"

section \<open>Storing it\<close>

definition put_placement :: "placement \<Rightarrow> suggestion \<Rightarrow> suggestion" where
  "put_placement p s = s\<lparr>sg_anchor := pm_anchor p, sg_context := pm_context p,
     sg_llm := pm_llm p, sg_placed_at := Some (pm_at p)\<rparr>"

definition placement_of :: "suggestion \<Rightarrow> placement option" where
  "placement_of s = map_option
     (\<lambda>t. \<lparr>pm_anchor = sg_anchor s, pm_context = sg_context s, pm_llm = sg_llm s, pm_at = t\<rparr>)
     (sg_placed_at s)"

definition store_placement :: "store \<Rightarrow> nat \<Rightarrow> placement \<Rightarrow> store \<times> placement" where
  "store_placement st i p =
     (let P = (\<lambda>s. sg_id s = i \<and> sg_placed_at s = None)
      in if list_ex P (st_suggestions st)
         then (set_suggestions P (put_placement p) st, p)
         else case find_suggestion st i of
                None \<Rightarrow> (st, p)
              | Some s \<Rightarrow> (case placement_of s of None \<Rightarrow> (st, p) | Some q \<Rightarrow> (st, q)))"

section \<open>The pass before rendering\<close>

fun generate_for_source ::
  "(suggestion \<Rightarrow> string list \<Rightarrow> placement option) \<Rightarrow> suggestion list \<Rightarrow> string list
     \<Rightarrow> (nat \<times> placement) list" where
  "generate_for_source gen [] taken = []"
| "generate_for_source gen (s # missing) taken =
     (case gen s taken of
        None \<Rightarrow> generate_for_source gen missing taken
      | Some p \<Rightarrow> (sg_id s, p) # generate_for_source gen missing
          (case pm_anchor p of Some a \<Rightarrow> if a = [] then taken else taken @ [a] | None \<Rightarrow> taken))"

definition present_rows :: "store \<Rightarrow> nat list \<Rightarrow> suggestion list" where
  "present_rows st ids = List.map_filter (find_suggestion st) ids"

text \<open>The rows to ask the model about, cut off where the budget ends.\<close>

fun collect_missing ::
  "store \<Rightarrow> nat \<Rightarrow> nat \<Rightarrow> (nat \<times> nat list) list \<Rightarrow> (suggestion list \<times> string list) list \<times> nat" where
  "collect_missing st budget spent [] = ([], spent)"
| "collect_missing st budget spent ((source, ids) # groups) =
     (if budget \<le> spent then ([], spent)
      else
        let ordered = present_rows st ids;
            missing = filter (\<lambda>s. sg_placed_at s = None) ordered
        in if missing = [] then collect_missing st budget spent groups
           else
             let missing = take (budget - spent) missing;
                 (pending, total) = collect_missing st budget (spent + length missing) groups
             in ((missing, map the (filter truthy (map sg_anchor ordered))) # pending, total))"

fun store_results :: "store \<Rightarrow> (nat \<times> placement) list \<Rightarrow> store \<times> nat" where
  "store_results st [] = (st, 0)"
| "store_results st ((i, p) # results) =
     (case store_placement st i p of
        (st', q) \<Rightarrow> (case store_results st' results of
          (st'', n) \<Rightarrow> (st'', n + (if truthy (pm_anchor q) then 1 else 0))))"

text \<open>\<open>read\<close> is the database as the pass loaded it, \<open>st\<close> as it is when the answers are stored.\<close>

definition generate_missing_placements ::
  "nat \<Rightarrow> bool \<Rightarrow> (suggestion \<Rightarrow> string list \<Rightarrow> placement option) \<Rightarrow> store \<Rightarrow> store
     \<Rightarrow> (nat \<times> nat list) list \<Rightarrow> store \<times> nat" where
  "generate_missing_placements budget configured gen read st groups =
     (if budget = 0 \<or> \<not> configured then (st, 0)
      else case collect_missing read budget 0 groups of
        ([], spent) \<Rightarrow> (st, 0)
      | (pending, spent) \<Rightarrow>
          store_results st (concat (map (\<lambda>(missing, taken). generate_for_source gen missing taken) pending)))"

section \<open>Lemmas\<close>

interpretation placed: row_update sg_id "put_placement p" for p
  by unfold_locales (simp add: put_placement_def)

lemma search_ignorecase_sublist: "search_ignorecase n h = Some m \<Longrightarrow> sublist m h \<and> casefold m = casefold n"
proof (induction n h rule: search_ignorecase.induct)
  case (1 n h)
  show ?case
  proof (cases "length n \<le> length h \<and> casefold (take (length n) h) = casefold n")
    case True
    with "1.prems" show ?thesis
      by (subst (asm) search_ignorecase.simps) (auto intro: sublist_take)
  next
    case False
    with "1.prems" obtain c r where h: "h = c # r" "search_ignorecase n r = Some m"
      by (subst (asm) search_ignorecase.simps) (auto split: list.splits)
    with "1.IH" [OF False h(1)] show ?thesis by (simp add: sublist_Cons_right)
  qed
qed

lemma locate_sublist: "locate n h = Some m \<Longrightarrow> sublist m h"
  by (auto simp: locate_def dest: search_ignorecase_sublist split: if_splits)

lemma verify_sound:
  assumes "verify p a body = (ctx, anc)"
  shows "(anc = None \<longleftrightarrow> ctx = None) \<and> (\<forall>x. anc = Some x \<longrightarrow> (\<exists>c. ctx = Some c \<and> sublist c body
    \<and> sublist x c \<and> x \<noteq> c \<and> min_anchor_chars \<le> str_len x \<and> str_len x \<le> max_anchor_chars))"
proof (cases "\<exists>q b fp fa. p = Some (JStr q) \<and> a = Some (JStr b)
    \<and> locate (normalize_ws q) body = Some fp \<and> locate (normalize_ws b) fp = Some fa")
  case True
  then obtain q b fp fa where eqs: "p = Some (JStr q)" "a = Some (JStr b)"
    "locate (normalize_ws q) body = Some fp" "locate (normalize_ws b) fp = Some fa" by blast
  from assms have "(ctx, anc) = (None, None) \<or> (ctx, anc) = (Some fp, Some fa)
      \<and> min_anchor_chars \<le> str_len fa \<and> str_len fa \<le> max_anchor_chars \<and> fa \<noteq> fp"
    by (simp add: verify_def eqs split: if_splits) auto
  with locate_sublist [OF eqs(3)] locate_sublist [OF eqs(4)] show ?thesis by auto
next
  case False
  then have "ctx = None \<and> anc = None"
    using assms by (auto simp: verify_def split: option.splits json.splits)
  then show ?thesis by simp
qed

lemma generate_cases:
  assumes "generate cfg ask text_of now s taken = Some p"
  obtains (none) "pm_anchor p = None" "pm_context p = None"
  | (found) a c where "pm_anchor p = Some a" "pm_context p = Some c"
      "sublist c (normalize_ws (str_take (cfg_max_source_chars cfg) (text_of (sg_source s))))"
      "sublist a c" "a \<noteq> c" "min_anchor_chars \<le> str_len a" "str_len a \<le> max_anchor_chars"
      "\<forall>t\<in>set taken. casefold a \<noteq> casefold t"
proof -
  obtain passage anchor where ask: "ask s taken = Some (passage, anchor)"
    using assms by (cases "ask s taken") (auto simp: generate_def)
  obtain ctx anc where v: "verify passage anchor
      (normalize_ws (str_take (cfg_max_source_chars cfg) (text_of (sg_source s)))) = (ctx, anc)"
    by fastforce
  show ?thesis
  proof (cases "\<exists>a. anc = Some a \<and> (\<forall>t\<in>set taken. casefold a \<noteq> casefold t)")
    case True
    with assms ask v verify_sound [OF v] show ?thesis
      by (auto simp: generate_def intro!: found)
  next
    case False
    with assms ask v verify_sound [OF v] show ?thesis
      by (cases anc) (auto simp: generate_def intro!: none)
  qed
qed

lemma generated_anchor_fresh:
  assumes "generate cfg ask text_of now s taken = Some p" and "pm_anchor p = Some a"
  shows "casefold a \<notin> casefold ` set taken"
  using assms by (cases rule: generate_cases) auto

text \<open>A stored anchor is always the article's own words: whatever the language model answers, a
  generated anchor is a proper part of a passage that stands verbatim in the (white-space
  normalised) slice of the source article the model was shown, has between 2 and 120
  characters, and differs, even up to letter case, from every anchor already taken on the
  article; and a placement without an anchor has no passage either.\<close>

lemma generated_anchor_is_verbatim:
  assumes "generate cfg ask text_of now s taken = Some p"
  shows "(pm_anchor p = None \<longleftrightarrow> pm_context p = None)
    \<and> (\<forall>a. pm_anchor p = Some a \<longrightarrow> (\<exists>c. pm_context p = Some c
        \<and> sublist c (normalize_ws (str_take (cfg_max_source_chars cfg) (text_of (sg_source s))))
        \<and> sublist a c \<and> a \<noteq> c \<and> 2 \<le> str_len a \<and> str_len a \<le> 120
        \<and> (\<forall>t\<in>set taken. casefold a \<noteq> casefold t)))"
  using assms by (cases rule: generate_cases) (simp_all add: min_anchor_chars_def max_anchor_chars_def)

lemma generated_anchor_is_verbatim_witness:
  "\<exists>cfg ask text_of s p. generate cfg ask text_of 9 s [''Pan''] = Some p
     \<and> pm_anchor p = Some ''the pan'' \<and> pm_context p = Some ''Heat the pan''
     \<and> sublist ''Heat the pan'' (normalize_ws (str_take (cfg_max_source_chars cfg) (text_of (sg_source s))))"
proof -
  define cfg where "cfg = \<lparr>cfg_model = ''m'', cfg_max_source_chars = 100\<rparr>"
  define ask :: ask where "ask = (\<lambda>s t. Some (Some (JStr ''heat the pan''), Some (JStr ''the pan'')))"
  define text_of :: "nat \<Rightarrow> string" where "text_of = (\<lambda>i. ''Heat the pan  well'')"
  define s where "s = new_suggestion 1 1 2 (Some 3) None Baseline_cosine 0"
  define p where "p = \<lparr>pm_anchor = Some ''the pan'', pm_context = Some ''Heat the pan'',
    pm_llm = Some ''m'', pm_at = 9\<rparr>"
  have *: "generate cfg ask text_of 9 s [''Pan''] = Some p"
    unfolding cfg_def ask_def text_of_def s_def p_def by code_simp
  from generated_anchor_is_verbatim [OF this] show ?thesis
    by (intro exI [of _ cfg] exI [of _ ask] exI [of _ text_of] exI [of _ s] exI [of _ p])
      (use * in \<open>auto simp: p_def\<close>)
qed

text \<open>The first generation wins and nothing else moves: after a placement is stored, the row
  holds whatever the call returned, later stores for the row change nothing and return that same
  placement, and no row ever changes in any column but the four placement columns (a concurrent
  review is never overwritten).\<close>

lemma first_placement_wins:
  assumes "primary sg_id (st_suggestions st)" and "i \<in> sg_id ` set (st_suggestions st)"
    and "store_placement st i p = (st', q)"
  shows "(\<exists>s. find_suggestion st' i = Some s \<and> placement_of s = Some q)
    \<and> store_placement st' i p' = (st', q)
    \<and> map (\<lambda>s. s\<lparr>sg_anchor := None, sg_context := None, sg_llm := None, sg_placed_at := None\<rparr>) (st_suggestions st')
      = map (\<lambda>s. s\<lparr>sg_anchor := None, sg_context := None, sg_llm := None, sg_placed_at := None\<rparr>) (st_suggestions st)
    \<and> st_plans st' = st_plans st"
proof -
  let ?P = "\<lambda>s. sg_id s = i \<and> sg_placed_at s = None"
  obtain r where r: "r \<in> set (st_suggestions st)" "sg_id r = i" using assms(2) by blast
  have find: "find_suggestion st i = Some r"
    using get_row_primary [OF assms(1) r(1)] r(2) by (simp add: find_suggestion_def)
  have only: "s = r" if "s \<in> set (st_suggestions st)" "sg_id s = i" for s
    using primary_same [OF assms(1) that(1) r(1)] that(2) r(2) by simp
  show ?thesis
  proof (cases "sg_placed_at r = None")
    case True
    then have ex: "list_ex ?P (st_suggestions st)" using r by (auto simp: list_ex_iff)
    then have st': "st' = set_suggestions ?P (put_placement p) st" "q = p"
      using assms(3) by (auto simp: store_placement_def Let_def)
    have found: "find_suggestion st' i = Some (put_placement p r)"
      using find True r(2) by (simp add: st' find_suggestion_def placed.get_update)
    have placed: "placement_of (put_placement p r) = Some p"
      by (simp add: placement_of_def put_placement_def)
    have "\<not> list_ex ?P (update_where ?P (put_placement p) rows)" for rows
      by (induction rows) (simp_all add: put_placement_def)
    then have "\<not> list_ex ?P (st_suggestions st')" by (simp add: st')
    with found placed st'(2) have "store_placement st' i p' = (st', q)"
      by (simp add: store_placement_def Let_def)
    moreover have "map (\<lambda>s. s\<lparr>sg_anchor := None, sg_context := None, sg_llm := None, sg_placed_at := None\<rparr>)
        (update_where ?P (put_placement p) rows)
      = map (\<lambda>s. s\<lparr>sg_anchor := None, sg_context := None, sg_llm := None, sg_placed_at := None\<rparr>) rows" for rows
      by (induction rows) (simp_all add: put_placement_def)
    ultimately show ?thesis using found placed st' by simp
  next
    case False
    have no: "\<not> list_ex ?P (st_suggestions st)" using only False by (auto simp: list_ex_iff)
    from False obtain q' where q': "placement_of r = Some q'" by (auto simp: placement_of_def)
    with no find assms(3) have "st' = st" "q = q'" by (simp_all add: store_placement_def Let_def)
    with no find q' show ?thesis by (simp add: store_placement_def Let_def)
  qed
qed

lemma first_placement_wins_witness:
  "\<exists>st st' p p' q. store_placement st 1 p = (st', q) \<and> store_placement st' 1 p' = (st', q) \<and> p \<noteq> p'"
proof -
  define st where "st = \<lparr>st_articles = [], st_suggestions = [new_suggestion 1 1 2 (Some 3) None Baseline_cosine 0],
    st_plans = [], st_events = []\<rparr>"
  define p where "p = (\<lambda>t. \<lparr>pm_anchor = Some ''pan'', pm_context = Some ''a pan'', pm_llm = None, pm_at = t\<rparr>)"
  obtain st' q where *: "store_placement st 1 (p 1) = (st', q)" by fastforce
  have "primary sg_id (st_suggestions st)" "1 \<in> sg_id ` set (st_suggestions st)"
    by (simp_all add: st_def primary_def new_suggestion_def)
  from first_placement_wins [OF this *, of "p 2"] have "store_placement st' 1 (p 2) = (st', q)" by blast
  moreover have "p 1 \<noteq> p 2" by (simp add: p_def)
  ultimately show ?thesis using * by blast
qed

definition anchors_of :: "(nat \<times> placement) list \<Rightarrow> string list" where
  "anchors_of results = map casefold (map the (filter truthy (map (\<lambda>(i, p). pm_anchor p) results)))"

lemma collect_missing_spent:
  "snd (collect_missing st budget spent groups)
    = spent + length (concat (map fst (fst (collect_missing st budget spent groups))))"
  by (induction groups arbitrary: spent) (auto simp: Let_def split_beta)

lemma collect_missing_budget:
  "spent \<le> budget \<Longrightarrow> snd (collect_missing st budget spent groups) \<le> budget"
proof (induction groups arbitrary: spent)
  case (Cons g groups)
  obtain source ids where g: "g = (source, ids)" by (cases g)
  let ?m = "filter (\<lambda>s. sg_placed_at s = None) (present_rows st ids)"
  have "spent + min (length ?m) (budget - spent) \<le> budget" using Cons.prems by linarith
  from Cons.IH [OF this] Cons.IH [OF Cons.prems] Cons.prems show ?case
    by (simp add: g Let_def split_beta)
qed simp

lemma collect_missing_unplaced:
  "(missing, taken) \<in> set (fst (collect_missing st budget spent groups))
    \<Longrightarrow> s \<in> set missing \<Longrightarrow> sg_placed_at s = None"
proof (induction groups arbitrary: spent)
  case (Cons g groups)
  obtain source ids where g: "g = (source, ids)" by (cases g)
  let ?m = "filter (\<lambda>s. sg_placed_at s = None) (present_rows st ids)"
  have "missing = take (budget - spent) ?m
      \<or> (\<exists>n. (missing, taken) \<in> set (fst (collect_missing st budget n groups)))"
    using Cons.prems(1) by (auto simp: g Let_def split_beta split: if_splits)
  then show ?case
  proof (elim disjE exE)
    assume "missing = take (budget - spent) ?m"
    with Cons.prems(2) have "s \<in> set ?m" using in_set_takeD by metis
    then show ?thesis by simp
  next
    fix n assume "(missing, taken) \<in> set (fst (collect_missing st budget n groups))"
    from Cons.IH [OF this Cons.prems(2)] show ?thesis .
  qed
qed simp

lemma results_distinct:
  assumes "\<And>s taken p a. gen s taken = Some p \<Longrightarrow> pm_anchor p = Some a
      \<Longrightarrow> casefold a \<notin> casefold ` set taken"
  shows "distinct (anchors_of (generate_for_source gen missing taken))
    \<and> set (anchors_of (generate_for_source gen missing taken)) \<inter> casefold ` set taken = {}"
proof (induction missing arbitrary: taken)
  case (Cons s missing)
  show ?case
  proof (cases "gen s taken")
    case None
    with Cons show ?thesis by simp
  next
    case (Some p)
    show ?thesis
    proof (cases "truthy (pm_anchor p)")
      case False
      then have "(case pm_anchor p of Some a \<Rightarrow> if a = [] then taken else taken @ [a] | None \<Rightarrow> taken) = taken"
        by (auto simp: truthy_def split: option.splits)
      with Some False Cons [of taken] show ?thesis by (simp add: anchors_of_def)
    next
      case True
      then obtain a where a: "pm_anchor p = Some a" "a \<noteq> []" by (auto simp: truthy_def split: option.splits)
      with Some True Cons [of "taken @ [a]"] assms [OF Some a(1)] show ?thesis
        by (auto simp: anchors_of_def)
    qed
  qed
qed (simp add: anchors_of_def)

text \<open>Cost and variety are bounded: a preparation pass never asks the model about more rows than
  its budget, it asks only about rows that have no placement yet, and the answers it accepts for
  one article carry pairwise different anchors, also different from those the article already
  had (up to letter case).\<close>

lemma placement_pass_is_bounded:
  "length (concat (map fst (fst (collect_missing st budget 0 groups)))) \<le> budget
    \<and> (\<forall>(missing, taken)\<in>set (fst (collect_missing st budget 0 groups)).
        (\<forall>s\<in>set missing. sg_placed_at s = None)
        \<and> distinct (anchors_of (generate_for_source (generate cfg ask text_of now) missing taken))
        \<and> set (anchors_of (generate_for_source (generate cfg ask text_of now) missing taken))
            \<inter> casefold ` set taken = {})"
proof -
  have fresh: "casefold a \<notin> casefold ` set taken"
    if "generate cfg ask text_of now s taken = Some p" "pm_anchor p = Some a" for s taken p a
    using generated_anchor_fresh [OF that] .
  have "length (concat (map fst (fst (collect_missing st budget 0 groups)))) \<le> budget"
    using collect_missing_budget [of 0 budget st groups] collect_missing_spent [of st budget 0 groups]
    by simp
  moreover note results_distinct [of "generate cfg ask text_of now", OF fresh]
  ultimately show ?thesis using collect_missing_unplaced [of _ _ st budget 0 groups]
    by (auto simp del: collect_missing.simps generate_for_source.simps) 
qed

lemma placement_pass_is_bounded_witness:
  "\<exists>st. length (concat (map fst (fst (collect_missing st 2 0 [(2, [1, 5, 6])])))) \<le> 2
    \<and> length (filter (\<lambda>s. sg_placed_at s = None) (present_rows st [1, 5, 6])) = 3"
proof -
  define row where "row = (\<lambda>i. new_suggestion i 1 2 (Some 3) None Baseline_cosine 0)"
  define st where "st = \<lparr>st_articles = [], st_suggestions = [row 1, row 5, row 6],
    st_plans = [], st_events = []\<rparr>"
  have "length (concat (map fst (fst (collect_missing st 2 0 [(2, [1, 5, 6])])))) \<le> 2"
    using placement_pass_is_bounded [of st 2 "[(2, [1, 5, 6])]"] by blast
  moreover have "length (filter (\<lambda>s. sg_placed_at s = None) (present_rows st [1, 5, 6])) = 3"
    by (simp add: st_def row_def present_rows_def find_suggestion_def get_row_def new_suggestion_def
        List.map_filter_def)
  ultimately show ?thesis by blast
qed

end
