(* ===== verification/PublicationPlans.thy ===== *)
theory PublicationPlans
  imports Cohort Placement
begin

text \<open>
  The immutable artifact and its life before publication:
  \<^verbatim>\<open>app/services/publication_plan_service.py\<close>. \<open>sha\<close> is SHA-256, a parameter. Rendering
  is the connector's \<open>preview_links\<close>, the interface of \<^verbatim>\<open>app/connectors/base.py\<close>: it gives the
  live content, the content with the links and one outcome per suggestion, or fails.
\<close>

section \<open>The artifact and its hash\<close>

definition plan_schema_version :: int where "plan_schema_version = 1"

definition jnullable :: "string option \<Rightarrow> json" where
  "jnullable v = (case v of None \<Rightarrow> JNull | Some s \<Rightarrow> JStr s)"

definition item_json :: "plan_item \<Rightarrow> json" where
  "item_json it = JObj [
     (''position'', JInt (int (it_position it))),
     (''suggestion_id'', JInt (int (it_suggestion it))),
     (''target_url'', JStr (it_target_url it)),
     (''anchor_text'', jnullable (it_anchor it)),
     (''outcome'', JStr (it_outcome it))]"

definition canonical_artifact :: "plan \<Rightarrow> json" where
  "canonical_artifact p = JObj [
     (''schema_version'', JInt plan_schema_version),
     (''site_id'', JInt (int (pl_site p))),
     (''source_article_id'', JInt (int (pl_source p))),
     (''source_url'', JStr (pl_source_url p)),
     (''original_html'', JStr (pl_original p)),
     (''updated_html'', JStr (pl_updated p)),
     (''items'', JArr (map item_json (pl_items p)))]"

definition plan_payload :: "plan \<Rightarrow> string" where
  "plan_payload p = json_dumps (\<lambda>x. []) (canonical_artifact p)"

definition compute_plan_hash :: "(string \<Rightarrow> string) \<Rightarrow> plan \<Rightarrow> string" where
  "compute_plan_hash sha p = sha (plan_payload p)"

text \<open>\<open>False\<close> where the code raises \<open>PlanIntegrityError\<close>.\<close>

definition verify_integrity :: "(string \<Rightarrow> string) \<Rightarrow> plan \<Rightarrow> bool" where
  "verify_integrity sha p =
     (let recomputed = compute_plan_hash sha p
      in if recomputed \<noteq> pl_hash p then False
         else case pl_approved_hash p of None \<Rightarrow> True | Some h \<Rightarrow> h = recomputed)"

section \<open>Preparation\<close>

text \<open>\<open>None\<close> where \<open>zip(strict=True)\<close> or a missing target raises.\<close>

fun snapshot_from :: "article list \<Rightarrow> nat \<Rightarrow> suggestion list \<Rightarrow> string list \<Rightarrow> plan_item list option" where
  "snapshot_from articles i [] [] = Some []"
| "snapshot_from articles i (s # ss) (out # outs) =
     (case resolved_target_url articles s of
        None \<Rightarrow> None
      | Some url \<Rightarrow>
          (case snapshot_from articles (Suc i) ss outs of
             None \<Rightarrow> None
           | Some items \<Rightarrow> Some (\<lparr>it_position = i, it_suggestion = sg_id s, it_target_url = url,
               it_anchor = sg_anchor s, it_outcome = out\<rparr> # items)))"
| "snapshot_from articles i _ _ = None"

definition snapshot_items :: "article list \<Rightarrow> suggestion list \<Rightarrow> string list \<Rightarrow> plan_item list option" where
  "snapshot_items articles ordered outcomes = snapshot_from articles 0 ordered outcomes"

definition active_plan :: "store \<Rightarrow> nat \<Rightarrow> plan option" where
  "active_plan st source =
     find (\<lambda>p. pl_source p = source \<and> active_plan_status (pl_status p)) (st_plans st)"

definition supersede_plan :: "time \<Rightarrow> string \<Rightarrow> plan \<Rightarrow> plan" where
  "supersede_plan now reason p =
     p\<lparr>pl_status := Plan_superseded, pl_invalidated_at := Some now,
       pl_failure := Some (str_take 500 reason)\<rparr>"

definition next_plan_id :: "store \<Rightarrow> nat" where
  "next_plan_id st = next_id pl_id (st_plans st)"

type_synonym preview = "suggestion list \<Rightarrow> (string \<times> string \<times> string list) option"

datatype prep_error = Selection_changed nat | Already_approved nat nat | Preview_failed nat
  | Concurrent_preparation nat

datatype prep_result = Prepared plan | Left_out prep_error | Raised

definition draft_plan ::
  "nat \<Rightarrow> nat \<Rightarrow> nat \<Rightarrow> string \<Rightarrow> string \<Rightarrow> string \<Rightarrow> plan_item list \<Rightarrow> plan" where
  "draft_plan i site source url original updated items =
     \<lparr>pl_id = i, pl_site = site, pl_source = source, pl_source_url = url,
      pl_status = Plan_prepared, pl_original = original, pl_updated = updated,
      pl_items = items, pl_hash = [], pl_approved_hash = None, pl_approved_by = None,
      pl_approved_at = None, pl_applied_at = None, pl_invalidated_at = None,
      pl_failure = None\<rparr>"

definition hashed :: "(string \<Rightarrow> string) \<Rightarrow> plan \<Rightarrow> plan" where
  "hashed sha p = p\<lparr>pl_hash := compute_plan_hash sha p\<rparr>"

definition new_plan ::
  "(string \<Rightarrow> string) \<Rightarrow> nat \<Rightarrow> nat \<Rightarrow> nat \<Rightarrow> string \<Rightarrow> string \<Rightarrow> string \<Rightarrow> plan_item list \<Rightarrow> plan" where
  "new_plan sha i site source url original updated items =
     hashed sha (draft_plan i site source url original updated items)"

text \<open>The flush and the insert; the unique index refuses a second active plan.\<close>

definition insert_plan :: "time \<Rightarrow> plan option \<Rightarrow> plan \<Rightarrow> store \<Rightarrow> store \<times> prep_result" where
  "insert_plan now existing p st =
     (let st' = (case existing of
            None \<Rightarrow> st
          | Some e \<Rightarrow> set_plans (\<lambda>q. pl_id q = pl_id e)
              (supersede_plan now ''replaced by a newer preparation of the same article'') st)
      in if active_plan st' (pl_source p) \<noteq> None
         then (st, Left_out (Concurrent_preparation (pl_source p)))
         else (st'\<lparr>st_plans := st_plans st' @ [p]\<rparr>, Prepared p))"

text \<open>
  The network read of the preview separates the first look at the database (\<open>read\<close>) from the
  re-read under row locks (\<open>locked\<close>); \<open>st\<close> is the database at the insert. Another session may have
  committed in between.
\<close>

definition still_selected :: "store \<Rightarrow> nat list \<Rightarrow> nat set" where
  "still_selected st ids = sg_id ` set (filter (\<lambda>s. sg_id s \<in> set ids \<and> sg_status s = Approved
     \<and> sg_plan s = None) (st_suggestions st))"

definition covered_by :: "store \<Rightarrow> nat \<Rightarrow> nat option" where
  "covered_by st source =
     (case active_plan st source of
        Some e \<Rightarrow> if pl_status e = Plan_approved then Some (pl_id e) else None
      | None \<Rightarrow> None)"

definition render_plan ::
  "(string \<Rightarrow> string) \<Rightarrow> preview \<Rightarrow> nat \<Rightarrow> nat \<Rightarrow> store \<Rightarrow> nat \<Rightarrow> nat list \<Rightarrow> prep_result" where
  "render_plan sha preview i site read source ids =
     (case present_rows read ids of
        [] \<Rightarrow> Left_out (Selection_changed source)
      | s # ss \<Rightarrow>
          (case get_row ar_id (sg_source s) (st_articles read) of
             None \<Rightarrow> Raised
           | Some article \<Rightarrow>
               (case covered_by read source of
                  Some j \<Rightarrow> Left_out (Already_approved source j)
                | None \<Rightarrow>
                    (case preview (s # ss) of
                       None \<Rightarrow> Left_out (Preview_failed source)
                     | Some (original, updated, outcomes) \<Rightarrow>
                         (case snapshot_items (st_articles read) (s # ss) outcomes of
                            None \<Rightarrow> Raised
                          | Some items \<Rightarrow> Prepared (new_plan sha i site source (ar_url article)
                              original updated items))))))"

definition commit_rendered ::
  "time \<Rightarrow> store \<Rightarrow> store \<Rightarrow> nat \<Rightarrow> nat list \<Rightarrow> plan \<Rightarrow> store \<times> prep_result" where
  "commit_rendered now locked st source ids p =
     (case covered_by locked source of
        Some j \<Rightarrow> (st, Left_out (Already_approved source j))
      | None \<Rightarrow>
          if still_selected locked ids \<noteq> set ids then (st, Left_out (Selection_changed source))
          else case active_plan locked source of
                 None \<Rightarrow> insert_plan now None p st
               | Some e \<Rightarrow> if pl_hash e = pl_hash p then (st, Prepared e)
                           else insert_plan now (Some e) p st)"

definition prepare_one ::
  "(string \<Rightarrow> string) \<Rightarrow> preview \<Rightarrow> time \<Rightarrow> nat \<Rightarrow> store \<Rightarrow> store \<Rightarrow> store \<Rightarrow> nat \<Rightarrow> nat list
     \<Rightarrow> store \<times> prep_result" where
  "prepare_one sha preview now site read locked st source ids =
     (case render_plan sha preview (next_plan_id st) site read source ids of
        Prepared p \<Rightarrow> commit_rendered now locked st source ids p
      | left \<Rightarrow> (st, left))"

text \<open>
  A site-wide preparation, here with no other session in between. The generation pass is
  \<open>generate_missing_placements\<close> with its budget and model; a \<open>Raised\<close> preparation ends the run.
\<close>

record preparation =
  pr_selected :: nat
  pr_has_more :: bool
  pr_plans :: "plan list"
  pr_errors :: "prep_error list"
  pr_raised :: bool

fun prepare_groups ::
  "(string \<Rightarrow> string) \<Rightarrow> preview \<Rightarrow> time \<Rightarrow> nat \<Rightarrow> (nat \<times> nat list) list \<Rightarrow> store \<Rightarrow> preparation
     \<Rightarrow> store \<times> preparation" where
  "prepare_groups sha preview now site [] st prep = (st, prep)"
| "prepare_groups sha preview now site ((source, ids) # batch) st prep =
     (case prepare_one sha preview now site st st st source ids of
        (st', Prepared p) \<Rightarrow>
          prepare_groups sha preview now site batch st' (prep\<lparr>pr_plans := pr_plans prep @ [p]\<rparr>)
      | (st', Left_out e) \<Rightarrow>
          prepare_groups sha preview now site batch st' (prep\<lparr>pr_errors := pr_errors prep @ [e]\<rparr>)
      | (st', Raised) \<Rightarrow> (st', prep\<lparr>pr_raised := True\<rparr>))"

definition prepare_site ::
  "(string \<Rightarrow> string) \<Rightarrow> preview \<Rightarrow> (store \<Rightarrow> (nat \<times> nat list) list \<Rightarrow> store) \<Rightarrow> time \<Rightarrow> nat \<Rightarrow> nat
     \<Rightarrow> nat set option \<Rightarrow> store \<Rightarrow> store \<times> preparation" where
  "prepare_site sha preview gen now site max_articles only st =
     (case grouped_batch st site only of (groups, superseded) \<Rightarrow>
        let st1 = (if superseded = [] then st else fst (expire_superseded superseded st));
            prep = \<lparr>pr_selected = length (filter (awaiting site) (st_suggestions st1)),
                    pr_has_more = max_articles < length groups,
                    pr_plans = [], pr_errors = [], pr_raised = False\<rparr>;
            batch = take max_articles groups
        in if batch = [] then (st1, prep)
           else prepare_groups sha preview now site batch (gen st1 batch) prep)"

section \<open>Approval\<close>

datatype approval_error = No_plan_named | Plans_missing "nat list" | Wrong_site nat
  | Not_prepared nat | Hash_changed nat | Tampered nat
  | Suggestion_gone nat | Suggestion_not_selected nat | Suggestion_bound nat

definition check_plan ::
  "(string \<Rightarrow> string) \<Rightarrow> nat \<Rightarrow> (nat \<rightharpoonup> string) \<Rightarrow> plan \<Rightarrow> approval_error option" where
  "check_plan sha site wanted p =
     (if pl_site p \<noteq> site then Some (Wrong_site (pl_id p))
      else if pl_status p \<noteq> Plan_prepared then Some (Not_prepared (pl_id p))
      else if Some (pl_hash p) \<noteq> wanted (pl_id p) then Some (Hash_changed (pl_id p))
      else if \<not> verify_integrity sha p then Some (Tampered (pl_id p))
      else None)"

definition check_bound :: "store \<Rightarrow> nat \<times> nat \<Rightarrow> approval_error option" where
  "check_bound st entry =
     (case find_suggestion st (fst entry) of
        None \<Rightarrow> Some (Suggestion_gone (fst entry))
      | Some s \<Rightarrow>
          if sg_status s \<noteq> Approved then Some (Suggestion_not_selected (fst entry))
          else if sg_plan s \<noteq> None then Some (Suggestion_bound (fst entry))
          else None)"

text \<open>The dictionary \<open>{item["suggestion_id"]: plan ...}\<close> as pairs in iteration order; a later entry
  for the same suggestion replaces the plan of an earlier one.\<close>

definition snapshotted :: "plan list \<Rightarrow> (nat \<times> nat) list" where
  "snapshotted plans = concat (map (\<lambda>p. map (\<lambda>it. (it_suggestion it, pl_id p)) (pl_items p)) plans)"

definition bind_suggestion :: "(nat \<times> nat) list \<Rightarrow> suggestion \<Rightarrow> suggestion" where
  "bind_suggestion binding s = s\<lparr>sg_plan := map_of (rev binding) (sg_id s)\<rparr>"

definition approve_plan :: "time \<Rightarrow> string \<Rightarrow> plan \<Rightarrow> plan" where
  "approve_plan now operator p = p\<lparr>pl_status := Plan_approved, pl_approved_hash := Some (pl_hash p),
     pl_approved_by := Some operator, pl_approved_at := Some now\<rparr>"

definition approve_plans ::
  "(string \<Rightarrow> string) \<Rightarrow> time \<Rightarrow> string \<Rightarrow> nat \<Rightarrow> (nat \<times> string) list \<Rightarrow> store
     \<Rightarrow> approval_error + (store \<times> plan list)" where
  "approve_plans sha now operator site approvals st =
     (if approvals = [] then Inl No_plan_named
      else
        let wanted = map_of (rev approvals);
            plans = sort_key pl_id (filter (\<lambda>p. wanted (pl_id p) \<noteq> None) (st_plans st));
            missing = filter (\<lambda>i. i \<notin> pl_id ` set plans) (remdups (map fst approvals))
        in if missing \<noteq> [] then Inl (Plans_missing (sort missing))
           else case check_all (check_plan sha site wanted) plans of
             Some e \<Rightarrow> Inl e
           | None \<Rightarrow>
               let binding = snapshotted plans
               in case check_all (check_bound st) binding of
                    Some e \<Rightarrow> Inl e
                  | None \<Rightarrow>
                      Inr (set_plans (\<lambda>p. wanted (pl_id p) \<noteq> None) (approve_plan now operator)
                             (set_suggestions (\<lambda>s. sg_id s \<in> fst ` set binding)
                                (bind_suggestion binding) st),
                           map (approve_plan now operator) plans))"

section \<open>Consumption\<close>

definition load_approved_plans :: "store \<Rightarrow> nat \<Rightarrow> nat list option \<Rightarrow> plan list" where
  "load_approved_plans st site plan_ids =
     sort_key pl_id (filter (\<lambda>p. pl_site p = site \<and> pl_status p = Plan_approved
       \<and> (case plan_ids of None \<Rightarrow> True | Some ids \<Rightarrow> pl_id p \<in> set ids)) (st_plans st))"

definition stale_plan :: "time \<Rightarrow> string \<Rightarrow> plan \<Rightarrow> plan" where
  "stale_plan now reason p = p\<lparr>pl_status := Plan_stale, pl_invalidated_at := Some now,
     pl_failure := Some (str_take 500 reason)\<rparr>"

definition mark_stale :: "time \<Rightarrow> string \<Rightarrow> nat \<Rightarrow> store \<Rightarrow> store" where
  "mark_stale now reason i st =
     set_suggestions (\<lambda>s. sg_plan s = Some i) (\<lambda>s. s\<lparr>sg_plan := None\<rparr>)
       (set_plans (\<lambda>p. pl_id p = i) (stale_plan now reason) st)"

section \<open>The hash covers the artifact\<close>

text \<open>What an operator agrees to.\<close>

definition same_artifact :: "plan \<Rightarrow> plan \<Rightarrow> bool" where
  "same_artifact p q \<longleftrightarrow> pl_site p = pl_site q \<and> pl_source p = pl_source q
     \<and> pl_source_url p = pl_source_url q \<and> pl_original p = pl_original q
     \<and> pl_updated p = pl_updated q \<and> pl_items p = pl_items q"

lemma item_json_float_free [simp]: "float_free (item_json it)"
  by (auto simp: item_json_def jnullable_def split: option.splits)

lemma jnullable_inj: "jnullable a = jnullable b \<longleftrightarrow> a = b"
  by (auto simp: jnullable_def split: option.splits)

lemma sort_members_item:
  "sort_members (item_json it) = JObj [
     (''anchor_text'', jnullable (it_anchor it)), (''outcome'', JStr (it_outcome it)),
     (''position'', JInt (int (it_position it))),
     (''suggestion_id'', JInt (int (it_suggestion it))), (''target_url'', JStr (it_target_url it))]"
  by (cases "it_anchor it") (simp_all add: item_json_def jnullable_def)

lemma sort_members_artifact:
  "sort_members (canonical_artifact p) = JObj [
     (''items'', JArr (map (sort_members \<circ> item_json) (pl_items p))),
     (''original_html'', JStr (pl_original p)), (''schema_version'', JInt plan_schema_version),
     (''site_id'', JInt (int (pl_site p))), (''source_article_id'', JInt (int (pl_source p))),
     (''source_url'', JStr (pl_source_url p)), (''updated_html'', JStr (pl_updated p))]"
  by (simp add: canonical_artifact_def)

lemma sorted_item_inj: "(sort_members \<circ> item_json) a = (sort_members \<circ> item_json) b \<longleftrightarrow> a = b"
  by (auto simp: sort_members_item jnullable_inj)

lemma sorted_item_float_free: "float_free ((sort_members \<circ> item_json) it)"
  by (auto simp: sort_members_item jnullable_def split: option.splits)

text \<open>Equal payloads are equal artifacts: the serialization loses nothing.\<close>

lemma payload_eq: "plan_payload p = plan_payload q \<longleftrightarrow> same_artifact p q"
proof -
  have ff: "float_free (sort_members (canonical_artifact r))" for r
    using sorted_item_float_free by (auto simp: sort_members_artifact)
  have inj: "inj (sort_members \<circ> item_json)" using sorted_item_inj by (auto simp: inj_def)
  have "plan_payload p = plan_payload q
      \<longleftrightarrow> sort_members (canonical_artifact p) = sort_members (canonical_artifact q)"
    unfolding plan_payload_def json_dumps_def by (rule encode_eq_iff) (rule ff)+
  also have "\<dots> \<longleftrightarrow> same_artifact p q"
    unfolding sort_members_artifact same_artifact_def
    by (auto simp: inj_map_eq_map [OF inj] simp del: comp_apply)
  finally show ?thesis .
qed

lemma payload_frame [simp]:
  "plan_payload (p\<lparr>pl_hash := h\<rparr>) = plan_payload p"
  "plan_payload (p\<lparr>pl_status := s\<rparr>) = plan_payload p"
  "plan_payload (p\<lparr>pl_approved_hash := ah\<rparr>) = plan_payload p"
  "plan_payload (p\<lparr>pl_approved_by := ab\<rparr>) = plan_payload p"
  "plan_payload (p\<lparr>pl_approved_at := t\<rparr>) = plan_payload p"
  "plan_payload (p\<lparr>pl_applied_at := t\<rparr>) = plan_payload p"
  "plan_payload (p\<lparr>pl_invalidated_at := t\<rparr>) = plan_payload p"
  "plan_payload (p\<lparr>pl_failure := f\<rparr>) = plan_payload p"
  by (simp_all add: payload_eq same_artifact_def)

lemma new_plan_frame [simp]:
  "pl_id (new_plan sha i site source url original updated items) = i"
  "pl_source (new_plan sha i site source url original updated items) = source"
  "pl_site (new_plan sha i site source url original updated items) = site"
  "pl_status (new_plan sha i site source url original updated items) = Plan_prepared"
  "pl_items (new_plan sha i site source url original updated items) = items"
  "pl_original (new_plan sha i site source url original updated items) = original"
  "pl_updated (new_plan sha i site source url original updated items) = updated"
  "pl_approved_hash (new_plan sha i site source url original updated items) = None"
  by (simp_all add: new_plan_def hashed_def draft_plan_def)

lemma new_plan_intact: "verify_integrity sha (new_plan sha i site source url original updated items)"
proof -
  have "verify_integrity sha (hashed sha p)" if "pl_approved_hash p = None" for p
    using that by (simp add: hashed_def verify_integrity_def compute_plan_hash_def Let_def)
  then show ?thesis by (simp add: new_plan_def draft_plan_def)
qed

lemma approve_plan_frame [simp]:
  "pl_id (approve_plan now op p) = pl_id p" "pl_source (approve_plan now op p) = pl_source p"
  "pl_status (approve_plan now op p) = Plan_approved" "pl_hash (approve_plan now op p) = pl_hash p"
  "pl_approved_hash (approve_plan now op p) = Some (pl_hash p)"
  "pl_approved_by (approve_plan now op p) = Some op" "pl_items (approve_plan now op p) = pl_items p"
  "pl_site (approve_plan now op p) = pl_site p" "pl_original (approve_plan now op p) = pl_original p"
  "pl_updated (approve_plan now op p) = pl_updated p"
  "plan_payload (approve_plan now op p) = plan_payload p"
  by (simp_all add: approve_plan_def)

lemma verify_integrity_iff:
  "verify_integrity sha p \<longleftrightarrow> sha (plan_payload p) = pl_hash p
    \<and> (\<forall>h. pl_approved_hash p = Some h \<longrightarrow> h = pl_hash p)"
  by (auto simp: verify_integrity_def compute_plan_hash_def Let_def split: option.splits)

section \<open>Approval\<close>

interpretation approving: row_update pl_id "approve_plan now operator" for now operator
  by unfold_locales simp

interpretation binding: row_update sg_id "bind_suggestion b" for b
  by unfold_locales (simp add: bind_suggestion_def)

lemma check_plan_None: "check_plan sha site wanted p = None \<longleftrightarrow> pl_site p = site
    \<and> pl_status p = Plan_prepared \<and> wanted (pl_id p) = Some (pl_hash p) \<and> verify_integrity sha p"
  by (auto simp: check_plan_def)

lemma check_bound_None: "check_bound st (i, j) = None
    \<longleftrightarrow> (\<exists>s. find_suggestion st i = Some s \<and> sg_status s = Approved \<and> sg_plan s = None)"
  by (auto simp: check_bound_def split: option.splits)

lemma approve_plansE:
  assumes "approve_plans sha now operator site approvals st = Inr (st', ps)"
  obtains wanted plans where "wanted = map_of (rev approvals)"
    and "plans = sort_key pl_id (filter (\<lambda>p. wanted (pl_id p) \<noteq> None) (st_plans st))"
    and "fst ` set approvals \<subseteq> pl_id ` set plans"
    and "\<And>p. p \<in> set plans \<Longrightarrow> pl_site p = site \<and> pl_status p = Plan_prepared
      \<and> wanted (pl_id p) = Some (pl_hash p) \<and> verify_integrity sha p"
    and "\<And>i j. (i, j) \<in> set (snapshotted plans) \<Longrightarrow>
      \<exists>s. find_suggestion st i = Some s \<and> sg_status s = Approved \<and> sg_plan s = None"
    and "st' = set_plans (\<lambda>p. wanted (pl_id p) \<noteq> None) (approve_plan now operator)
      (set_suggestions (\<lambda>s. sg_id s \<in> fst ` set (snapshotted plans))
        (bind_suggestion (snapshotted plans)) st)"
    and "ps = map (approve_plan now operator) plans"
proof -
  define wanted where "wanted = map_of (rev approvals)"
  define plans where "plans = sort_key pl_id (filter (\<lambda>p. wanted (pl_id p) \<noteq> None) (st_plans st))"
  note unfolded = assms [unfolded approve_plans_def, folded wanted_def, folded plans_def,
      unfolded Let_def, folded wanted_def, folded plans_def]
  have none: "check_all (check_plan sha site wanted) plans = None"
    "check_all (check_bound st) (snapshotted plans) = None"
    and missing: "filter (\<lambda>i. i \<notin> pl_id ` set plans) (remdups (map fst approvals)) = []"
    and results: "st' = set_plans (\<lambda>p. wanted (pl_id p) \<noteq> None) (approve_plan now operator)
      (set_suggestions (\<lambda>s. sg_id s \<in> fst ` set (snapshotted plans))
        (bind_suggestion (snapshotted plans)) st)" "ps = map (approve_plan now operator) plans"
    using unfolded by (simp_all split: if_splits option.splits)
  show ?thesis
  proof (rule that [OF wanted_def plans_def _ _ _ results])
    show "fst ` set approvals \<subseteq> pl_id ` set plans"
      using missing by (auto simp: filter_empty_conv)
    show "pl_site p = site \<and> pl_status p = Plan_prepared
      \<and> wanted (pl_id p) = Some (pl_hash p) \<and> verify_integrity sha p" if "p \<in> set plans" for p
      using none(1) that by (simp add: check_all_None_iff check_plan_None)
    show "\<exists>s. find_suggestion st i = Some s \<and> sg_status s = Approved \<and> sg_plan s = None"
      if "(i, j) \<in> set (snapshotted plans)" for i j
      using none(2) that by (auto simp: check_all_None_iff check_bound_None)
  qed
qed

text \<open>C6. Approval is bound to the artifact, not to a row: after an approval, any plan row (however it
  was rewritten since) that still carries the approved hash and still passes the integrity check
  has exactly the site, source, before and after content and ordered items of the plan whose hash
  the operator's screen sent, unless SHA-256 collides on the two serializations.\<close>

theorem approved_artifact_is_tamper_evident:
  assumes "approve_plans sha now operator site approvals st = Inr (st', ps)" and "p \<in> set ps"
    and "verify_integrity sha q" and "pl_approved_hash q = pl_approved_hash p"
    and "sha (plan_payload q) = sha (plan_payload p) \<longrightarrow> plan_payload q = plan_payload p"
  shows "same_artifact q p \<and> map_of (rev approvals) (pl_id p) = Some (compute_plan_hash sha p)
    \<and> pl_approved_by p = Some operator"
proof -
  from assms(1) obtain wanted plans where w: "wanted = map_of (rev approvals)"
    and plan: "\<And>p. p \<in> set plans \<Longrightarrow> pl_site p = site \<and> pl_status p = Plan_prepared
      \<and> wanted (pl_id p) = Some (pl_hash p) \<and> verify_integrity sha p"
    and ps: "ps = map (approve_plan now operator) plans"
    by (rule approve_plansE) (rule that; assumption)
  from assms(2) ps obtain p0 where p0: "p0 \<in> set plans" "p = approve_plan now operator p0" by auto
  with plan [OF p0(1)] assms(3,4) have "sha (plan_payload q) = sha (plan_payload p)"
    by (simp add: verify_integrity_iff)
  with assms(5) have "same_artifact q p" by (simp add: payload_eq)
  with p0 plan [OF p0(1)] w show ?thesis by (simp add: compute_plan_hash_def verify_integrity_iff)
qed


text \<open>A plan for one selected suggestion, approved with the hash that was shown.\<close>

definition sample_store :: "(string \<Rightarrow> string) \<Rightarrow> store" where
  "sample_store sha = \<lparr>st_articles = [],
     st_suggestions = [(new_suggestion 5 7 2 (Some 3) None Baseline_cosine 0)\<lparr>sg_status := Approved\<rparr>],
     st_plans = [new_plan sha 4 7 2 ''u'' ''a'' ''ab'' [\<lparr>it_position = 0, it_suggestion = 5,
       it_target_url = ''t'', it_anchor = None, it_outcome = ''block''\<rparr>]], st_events = []\<rparr>"

lemma sample_approval:
  "\<exists>st' p. approve_plans sha now op 7 [(4, pl_hash (hd (st_plans (sample_store sha))))] (sample_store sha)
     = Inr (st', [p]) \<and> find_plan st' 4 = Some p \<and> pl_status p = Plan_approved"
proof -
  define p where "p = hd (st_plans (sample_store sha))"
  have p: "st_plans (sample_store sha) = [p]" "pl_id p = 4" "pl_site p = 7" "pl_status p = Plan_prepared"
    "verify_integrity sha p" "map it_suggestion (pl_items p) = [5]"
    by (simp_all add: p_def sample_store_def new_plan_intact)
  have s: "find_suggestion (sample_store sha) 5 =
      Some ((new_suggestion 5 7 2 (Some 3) None Baseline_cosine 0)\<lparr>sg_status := Approved\<rparr>)"
    by (simp add: sample_store_def find_suggestion_def get_row_def new_suggestion_def)
  have snap: "snapshotted [p] = [(5, 4)]" using p(2,6) by (auto simp: snapshotted_def)
  have bound: "check_bound (sample_store sha) (5, 4) = None"
    unfolding check_bound_None by (intro exI conjI, rule s) (simp_all add: new_suggestion_def)
  have plan: "check_plan sha 7 [4 \<mapsto> pl_hash p] p = None"
    using p by (simp add: check_plan_None)
  define st' where "st' = set_plans (\<lambda>q. pl_id q = 4) (approve_plan now op)
    (set_suggestions (\<lambda>s. sg_id s = 5) (bind_suggestion [(5, 4)]) (sample_store sha))"
  have "approve_plans sha now op 7 [(4, pl_hash p)] (sample_store sha) = Inr (st', [approve_plan now op p])"
    by (simp add: approve_plans_def p plan snap bound st'_def)
  moreover have "find_plan st' 4 = Some (approve_plan now op p)"
    by (simp add: find_plan_def st'_def get_row_def p)
  ultimately show ?thesis unfolding p_def by fastforce
qed

lemma approved_artifact_is_tamper_evident_witness:
  "\<exists>sha approvals st st' p. approve_plans sha 1 ''ann'' 7 approvals st = Inr (st', [p])
    \<and> same_artifact (p\<lparr>pl_status := Plan_failed\<rparr>) p \<and> pl_approved_by p = Some ''ann''"
proof -
  define sha :: "string \<Rightarrow> string" where "sha = (\<lambda>s. CHR ''h'' # s)"
  obtain st' p where *: "approve_plans sha 1 ''ann'' 7 [(4, pl_hash (hd (st_plans (sample_store sha))))]
      (sample_store sha) = Inr (st', [p])" using sample_approval by blast
  from * have "p = approve_plan 1 ''ann'' (hd (st_plans (sample_store sha)))"
    by (elim approve_plansE) (auto simp: sample_store_def split: if_splits)
  then have "verify_integrity sha (p\<lparr>pl_status := Plan_failed\<rparr>)"
    using new_plan_intact by (auto simp: sample_store_def verify_integrity_iff)
  from approved_artifact_is_tamper_evident [OF * _ this] have
    "same_artifact (p\<lparr>pl_status := Plan_failed\<rparr>) p \<and> pl_approved_by p = Some ''ann''" by simp
  with * show ?thesis by blast
qed


section \<open>Preparation\<close>

interpretation superseding: row_update pl_id "supersede_plan now reason" for now reason
  by unfold_locales (simp add: supersede_plan_def)

interpretation staling: row_update pl_id "stale_plan now reason" for now reason
  by unfold_locales (simp add: stale_plan_def)

lemma next_plan_id_fresh: "next_plan_id st \<notin> pl_id ` set (st_plans st)"
  by (simp add: next_plan_id_def next_id_fresh)

lemma active_plan_Some: "active_plan st source = Some p
    \<Longrightarrow> p \<in> set (st_plans st) \<and> pl_source p = source \<and> active_plan_status (pl_status p)"
  by (auto simp: active_plan_def find_Some_iff)

lemma active_plan_None: "active_plan st source = None
    \<longleftrightarrow> (\<forall>p\<in>set (st_plans st). active_plan_status (pl_status p) \<longrightarrow> pl_source p \<noteq> source)"
  by (auto simp: active_plan_def find_None_iff)

lemma active_plan_eq:
  assumes "active_unique (st_plans st)" and "p \<in> set (st_plans st)"
    and "active_plan_status (pl_status p)"
  shows "active_plan st (pl_source p) = Some p"
proof (cases "active_plan st (pl_source p)")
  case None
  with assms show ?thesis by (auto simp: active_plan_None)
next
  case (Some q)
  with active_plan_Some [OF Some] active_unique_same [OF assms(1)] assms(2,3) show ?thesis by metis
qed

lemma active_unique_append:
  "active_unique plans \<Longrightarrow> \<forall>q\<in>set plans. active_plan_status (pl_status q) \<longrightarrow> pl_source q \<noteq> pl_source p
    \<Longrightarrow> active_unique (plans @ [p])"
  by (auto simp: active_unique_def)

text \<open>What an insertion does, given that the superseded row was not approved.\<close>

lemma insert_plan_spec:
  assumes "insert_plan now existing p st = (st', r)"
    and "primary pl_id (st_plans st)" and "active_unique (st_plans st)"
    and "pl_id p \<notin> pl_id ` set (st_plans st)" and "pl_status p = Plan_prepared"
    and "\<And>e. existing = Some e \<Longrightarrow> e \<in> set (st_plans st) \<and> pl_status e = Plan_prepared"
  shows "st_suggestions st' = st_suggestions st \<and> active_unique (st_plans st') \<and> primary pl_id (st_plans st')
    \<and> (\<forall>q\<in>set (st_plans st). pl_status q \<noteq> Plan_prepared \<longrightarrow> q \<in> set (st_plans st'))
    \<and> (r = Prepared p \<and> p \<in> set (st_plans st') \<and> active_plan st' (pl_source p) = Some p
        \<or> r = Left_out (Concurrent_preparation (pl_source p)) \<and> st' = st)"
proof -
  define mid where "mid = (case existing of None \<Rightarrow> st
    | Some e \<Rightarrow> set_plans (\<lambda>q. pl_id q = pl_id e)
        (supersede_plan now ''replaced by a newer preparation of the same article'') st)"
  have mid: "st_suggestions mid = st_suggestions st \<and> active_unique (st_plans mid)
      \<and> map pl_id (st_plans mid) = map pl_id (st_plans st)
      \<and> (\<forall>q\<in>set (st_plans st). pl_status q \<noteq> Plan_prepared \<longrightarrow> q \<in> set (st_plans mid))"
  proof (cases existing)
    case None
    with assms(3) show ?thesis by (simp add: mid_def)
  next
    case (Some e)
    have e: "e \<in> set (st_plans st)" "pl_status e = Plan_prepared" using assms(6) [OF Some] by simp_all
    have "q \<in> set (st_plans mid)" if "q \<in> set (st_plans st)" "pl_status q \<noteq> Plan_prepared" for q
    proof -
      have "pl_id q \<noteq> pl_id e" using primary_same [OF assms(2) that(1) e(1)] that(2) e(2) by auto
      then show ?thesis using that(1) by (auto simp: mid_def Some set_update_where image_iff intro!: bexI [of _ q])
    qed
    moreover have "active_unique (st_plans mid)"
      unfolding mid_def Some option.case set_plans_frame
      by (rule active_unique_update [OF assms(3)]) (simp add: supersede_plan_def active_plan_status_def)
    ultimately show ?thesis by (simp add: mid_def Some superseding.keys_update)
  qed
  show ?thesis
  proof (cases "active_plan mid (pl_source p) = None")
    case False
    with assms(1,2,3) show ?thesis by (auto simp: insert_plan_def Let_def mid_def [symmetric])
  next
    case True
    then have st': "st' = mid\<lparr>st_plans := st_plans mid @ [p]\<rparr>" "r = Prepared p"
      using assms(1) by (auto simp: insert_plan_def Let_def mid_def [symmetric])
    have "primary pl_id (st_plans mid @ [p])"
      using assms(2,4) mid by (metis primary_append primary_def set_map)
    moreover have au: "active_unique (st_plans mid @ [p])"
      using mid True by (auto intro!: active_unique_append simp: active_plan_None)
    moreover have "active_plan st' (pl_source p) = Some p"
      using active_plan_eq [of st' p] au st'(1) assms(5) by (simp add: active_plan_status_def)
    ultimately show ?thesis using mid st' by simp
  qed
qed

text \<open>C19. Preparation is harmless: whatever other sessions committed while the live article was being
  read, preparing one article changes no suggestion, alters no plan that is approved, applied,
  stale or failed, keeps at most one active plan per article, and changes nothing at all unless it
  returns a plan; a plan it returns is the article's one active plan, was built while every
  requested suggestion was still selected and unbound, and, when new, passes its own integrity
  check and lists the requested suggestions in order.\<close>

theorem preparation_is_harmless:
  assumes "prepare_one sha preview now site read locked st source ids = (st', r)"
    and "primary pl_id (st_plans st)" and "active_unique (st_plans st)"
    and "\<forall>e. active_plan locked source = Some e \<longrightarrow> e \<in> set (st_plans st)"
  shows "st_suggestions st' = st_suggestions st \<and> active_unique (st_plans st') \<and> primary pl_id (st_plans st')
    \<and> (\<forall>q\<in>set (st_plans st). pl_status q \<noteq> Plan_prepared \<longrightarrow> q \<in> set (st_plans st'))
    \<and> ((\<forall>p. r \<noteq> Prepared p) \<longrightarrow> st' = st)
    \<and> (\<forall>p. r = Prepared p \<longrightarrow> active_plan st' source = Some p \<and> pl_status p = Plan_prepared
        \<and> still_selected locked ids = set ids
        \<and> (p \<notin> set (st_plans st) \<longrightarrow> verify_integrity sha p \<and> pl_site p = site
            \<and> (\<exists>outcomes. snapshot_items (st_articles read) (present_rows read ids) outcomes = Some (pl_items p))))"
proof (cases "render_plan sha preview (next_plan_id st) site read source ids")
  case (Left_out e)
  with assms show ?thesis by (auto simp: prepare_one_def)
next
  case Raised
  with assms show ?thesis by (auto simp: prepare_one_def)
next
  case (Prepared p)
  then obtain outcomes url orig upd items where
    p_eq: "p = new_plan sha (next_plan_id st) site source url orig upd items"
    and items: "snapshot_items (st_articles read) (present_rows read ids) outcomes = Some items"
    by (auto simp: render_plan_def split: list.splits option.splits)
  have p: "pl_id p = next_plan_id st" "pl_source p = source" "pl_status p = Plan_prepared"
    "verify_integrity sha p" "pl_site p = site"
    "\<exists>outcomes. snapshot_items (st_articles read) (present_rows read ids) outcomes = Some (pl_items p)"
    using items by (auto simp: p_eq new_plan_intact)
  have fresh: "pl_id p \<notin> pl_id ` set (st_plans st)" using next_plan_id_fresh p(1) by simp
  have commit: "commit_rendered now locked st source ids p = (st', r)"
    using assms(1) Prepared by (simp add: prepare_one_def)
  show ?thesis
  proof (cases "covered_by locked source = None \<and> still_selected locked ids = set ids")
    case False
    with commit assms(2,3) show ?thesis by (auto simp: commit_rendered_def split: option.splits if_splits)
  next
    case ok: True
    have e: "e \<in> set (st_plans st) \<and> pl_source e = source \<and> pl_status e = Plan_prepared"
      if "active_plan locked source = Some e" for e
      using that assms(4) ok active_plan_Some [OF that]
      by (auto simp: covered_by_def active_plan_status_def split: if_splits)
    show ?thesis
    proof (cases "\<exists>e. active_plan locked source = Some e \<and> pl_hash e = pl_hash p")
      case True
      then obtain x where x: "active_plan locked source = Some x" "pl_hash x = pl_hash p" by blast
      then have "st' = st" "r = Prepared x" using commit ok by (auto simp: commit_rendered_def)
      with e [OF x(1)] ok assms(2,3) active_plan_eq [OF assms(3), of x] show ?thesis
        by (auto simp: active_plan_status_def)
    next
      case False
      then have ins: "insert_plan now (active_plan locked source) p st = (st', r)"
        using commit ok by (auto simp: commit_rendered_def split: option.splits)
      from insert_plan_spec [OF ins assms(2,3) fresh p(3)] e p ok show ?thesis by auto
    qed
  qed
qed

lemma preparation_is_harmless_witness:
  "\<exists>sha preview read st st' p. prepare_one sha preview 9 7 read st st 2 [5] = (st', Prepared p)
    \<and> active_plan st' 2 = Some p \<and> p \<notin> set (st_plans st)"
proof -
  define sha :: "string \<Rightarrow> string" where "sha = (\<lambda>s. s)"
  define s where "s = (new_suggestion 5 7 2 None (Some ''e'') External_search 0)\<lparr>sg_status := Approved\<rparr>"
  define art where "art = \<lparr>ar_id = 2, ar_site = 7, ar_url = ''u'', ar_title = ''t'', ar_text = [],
    ar_external_id = Some ''9''\<rparr>"
  define st where "st = \<lparr>st_articles = [art], st_suggestions = [s], st_plans = [], st_events = []\<rparr>"
  define preview :: preview where "preview = (\<lambda>ss. Some (''a'', ''ab'', map (\<lambda>s. ''block'') ss))"
  note d = st_def art_def s_def new_suggestion_def
  obtain st' r where *: "prepare_one sha preview 9 7 st st st 2 [5] = (st', r)" by fastforce
  have rows: "present_rows st [5] = [s]"
    by (simp add: present_rows_def List.map_filter_def find_suggestion_def get_row_def d)
  have "covered_by st 2 = None" "active_plan st 2 = None" by (simp_all add: covered_by_def active_plan_def d)
  moreover have "still_selected st [5] = {5}" by (simp add: still_selected_def d)
  moreover have "get_row ar_id (sg_source s) (st_articles st) = Some art" by (simp add: get_row_def d)
  moreover have "\<exists>items. snapshot_items (st_articles st) [s] [''block''] = Some items"
    by (simp add: snapshot_items_def resolved_target_url_def d)
  ultimately have "\<exists>p. r = Prepared p \<and> p \<notin> set (st_plans st)"
    using * rows by (auto simp: prepare_one_def render_plan_def preview_def commit_rendered_def
        insert_plan_def st_def Let_def)
  moreover have "primary pl_id (st_plans st)" "active_unique (st_plans st)"
    "\<forall>e. active_plan st 2 = Some e \<longrightarrow> e \<in> set (st_plans st)"
    by (simp_all add: primary_def active_unique_def active_plan_def st_def)
  note preparation_is_harmless [OF * this]
  ultimately show ?thesis using * by blast
qed

end
