(* ===== verification/PublicationProgress.thy ===== *)
theory PublicationProgress
  imports Json
begin

text \<open>
  \<^verbatim>\<open>app/services/publication_progress.py\<close>: the counters of one publication job. The progress
  of a run is a JSON object that survives retries in \<open>job_runs.progress\<close>, so every counter is read
  defensively. Operations are translated on that object; the lemmas refine them to a record of
  natural numbers and account for every item of a batch.
\<close>

section \<open>Operations\<close>

type_synonym progress = "string \<rightharpoonup> json"

definition publishing :: json where "publishing = JStr ''publishing''"

definition jnat :: "nat \<Rightarrow> json" where "jnat n = JInt (int n)"

text \<open>\<open>_count\<close>: a non-negative integer that is not a \<open>bool\<close>, or the default.\<close>

definition count_of :: "progress \<Rightarrow> string \<Rightarrow> nat \<Rightarrow> nat" where
  "count_of p key dflt =
     (case p key of Some (JInt i) \<Rightarrow> if 0 \<le> i then nat i else dflt | _ \<Rightarrow> dflt)"

definition own_progress :: "progress option \<Rightarrow> progress" where
  "own_progress previous =
     (case previous of
        None \<Rightarrow> Map.empty
      | Some p \<Rightarrow> if p ''stage'' = Some publishing then p else Map.empty)"

definition begin_publication_attempt :: "progress option \<Rightarrow> nat \<Rightarrow> progress" where
  "begin_publication_attempt previous batch_size =
     (let previous = own_progress previous;
          applied = count_of previous ''applied'' 0;
          attempt_failures = count_of previous ''attempt_failures'' (count_of previous ''failed'' 0)
      in [''stage'' \<mapsto> publishing,
          ''applied'' \<mapsto> jnat applied,
          ''failed'' \<mapsto> jnat 0,
          ''skipped'' \<mapsto> jnat (count_of previous ''skipped'' 0),
          ''total'' \<mapsto> jnat (max (count_of previous ''total'' 0) (applied + batch_size)),
          ''attempt_skipped'' \<mapsto> jnat 0,
          ''attempt_failed'' \<mapsto> jnat 0,
          ''attempt_failures'' \<mapsto> jnat attempt_failures,
          ''failure_state'' \<mapsto> JNull])"

definition resume_outcome_counts :: "progress option \<Rightarrow> string \<Rightarrow> nat" where
  "resume_outcome_counts previous name =
     (if name \<in> {''inserted'', ''block'', ''already_present''}
      then count_of (own_progress previous) name 0 else 0)"

definition record_publication_applied :: "progress \<Rightarrow> progress" where
  "record_publication_applied p = p(''applied'' \<mapsto> jnat (count_of p ''applied'' 0 + 1))"

definition record_publication_skip :: "progress \<Rightarrow> progress" where
  "record_publication_skip p =
     (let attempt_skipped = count_of p ''attempt_skipped'' 0 + 1
      in p(''skipped'' \<mapsto> jnat (max (count_of p ''skipped'' 0) attempt_skipped),
           ''attempt_skipped'' \<mapsto> jnat attempt_skipped))"

definition record_publication_failure :: "progress \<Rightarrow> progress" where
  "record_publication_failure p =
     (let attempt_failed = count_of p ''attempt_failed'' 0 + 1
      in p(''failed'' \<mapsto> jnat attempt_failed,
           ''attempt_failed'' \<mapsto> jnat attempt_failed,
           ''attempt_failures'' \<mapsto> jnat (count_of p ''attempt_failures'' 0 + 1)))"

definition complete_publication_success :: "progress \<Rightarrow> progress" where
  "complete_publication_success p =
     (let applied = count_of p ''applied'' 0;
          total = max (count_of p ''total'' 0) applied
      in p(''failed'' \<mapsto> jnat 0,
           ''skipped'' \<mapsto> jnat (total - applied),
           ''total'' \<mapsto> jnat total,
           ''attempt_failed'' \<mapsto> jnat 0,
           ''failure_state'' \<mapsto> JNull))"

text \<open>Here \<open>-\<close> on \<open>nat\<close> is \<open>max(a - b, 0)\<close> of the source, and \<open>max(a - b, c, 0)\<close> with a
  natural \<open>c\<close> is \<open>max (a - b) c\<close>.\<close>

definition mark_publication_failure :: "progress option \<Rightarrow> bool \<Rightarrow> progress option" where
  "mark_publication_failure progress terminal =
     (case progress of
        None \<Rightarrow> None
      | Some p \<Rightarrow>
          if p ''stage'' \<noteq> Some publishing then None
          else
            let updated = p(''failed'' \<mapsto> jnat (count_of p ''attempt_failed'' (count_of p ''failed'' 0)),
                            ''failure_state'' \<mapsto> JStr (if terminal then ''terminal'' else ''retrying''))
            in if \<not> terminal then Some updated
               else
                 let total = count_of updated ''total'' 0;
                     applied = count_of updated ''applied'' 0;
                     skipped = count_of updated ''skipped'' 0;
                     attempt_failed = count_of updated ''attempt_failed'' 0;
                     failed = max (total - applied - skipped) attempt_failed
                 in Some (updated(''failed'' \<mapsto> jnat failed,
                                  ''skipped'' \<mapsto> jnat (total - applied - failed))))"

section \<open>The counters as numbers\<close>

record counters =
  c_applied :: nat
  c_failed :: nat
  c_skipped :: nat
  c_total :: nat
  c_attempt_skipped :: nat
  c_attempt_failed :: nat
  c_attempt_failures :: nat

definition counters :: "progress \<Rightarrow> counters" where
  "counters p = \<lparr>c_applied = count_of p ''applied'' 0, c_failed = count_of p ''failed'' 0,
     c_skipped = count_of p ''skipped'' 0, c_total = count_of p ''total'' 0,
     c_attempt_skipped = count_of p ''attempt_skipped'' 0,
     c_attempt_failed = count_of p ''attempt_failed'' 0,
     c_attempt_failures = count_of p ''attempt_failures'' 0\<rparr>"

datatype item_event = Item_applied | Item_skipped | Item_failed

fun record_item :: "item_event \<Rightarrow> progress \<Rightarrow> progress" where
  "record_item Item_applied p = record_publication_applied p"
| "record_item Item_skipped p = record_publication_skip p"
| "record_item Item_failed p = record_publication_failure p"

fun count_item :: "item_event \<Rightarrow> counters \<Rightarrow> counters" where
  "count_item Item_applied c = c\<lparr>c_applied := Suc (c_applied c)\<rparr>"
| "count_item Item_skipped c = c\<lparr>c_skipped := max (c_skipped c) (Suc (c_attempt_skipped c)),
     c_attempt_skipped := Suc (c_attempt_skipped c)\<rparr>"
| "count_item Item_failed c = c\<lparr>c_failed := Suc (c_attempt_failed c),
     c_attempt_failed := Suc (c_attempt_failed c),
     c_attempt_failures := Suc (c_attempt_failures c)\<rparr>"

lemma count_of_upd [simp]:
  "count_of (p(k \<mapsto> jnat n)) k d = n"
  "k \<noteq> k' \<Longrightarrow> count_of (p(k \<mapsto> v)) k' d = count_of p k' d"
  by (simp_all add: count_of_def jnat_def)

lemma count_of_empty [simp]: "count_of Map.empty k d = d"
  by (simp add: count_of_def)

lemma counters_begin:
  "counters (begin_publication_attempt previous n) =
     (let q = own_progress previous; a = count_of q ''applied'' 0 in
      \<lparr>c_applied = a, c_failed = 0, c_skipped = count_of q ''skipped'' 0,
       c_total = max (count_of q ''total'' 0) (a + n), c_attempt_skipped = 0,
       c_attempt_failed = 0,
       c_attempt_failures = count_of q ''attempt_failures'' (count_of q ''failed'' 0)\<rparr>)"
  by (simp add: begin_publication_attempt_def counters_def Let_def)

lemma counters_record: "counters (record_item e p) = count_item e (counters p)"
  by (cases e) (simp_all add: counters_def record_publication_applied_def
      record_publication_skip_def record_publication_failure_def Let_def)

lemma counters_run: "counters (fold record_item es p) = fold count_item es (counters p)"
  by (induction es arbitrary: p) (simp_all add: counters_record)

lemma stage_record: "record_item e p ''stage'' = p ''stage''"
  by (cases e) (simp_all add: record_publication_applied_def record_publication_skip_def
      record_publication_failure_def Let_def)

lemma stage_run: "fold record_item es p ''stage'' = p ''stage''"
  by (induction es arbitrary: p) (simp_all add: stage_record)

lemma counters_success:
  "counters (complete_publication_success p) =
     (let c = counters p; t = max (c_total c) (c_applied c) in
      c\<lparr>c_failed := 0, c_skipped := t - c_applied c, c_total := t, c_attempt_failed := 0\<rparr>)"
  by (simp add: complete_publication_success_def counters_def Let_def)

lemma counters_terminal:
  assumes "mark_publication_failure (Some p) True = Some q"
  shows "counters q =
     (let c = counters p; f = max (c_total c - c_applied c - c_skipped c) (c_attempt_failed c) in
      c\<lparr>c_failed := f, c_skipped := c_total c - c_applied c - f\<rparr>)"
  using assms by (auto simp: mark_publication_failure_def counters_def Let_def split: if_splits)

section \<open>Every item is accounted for\<close>

definition tally :: "item_event \<Rightarrow> item_event list \<Rightarrow> nat" where
  "tally e es = length (filter (\<lambda>x. x = e) es)"

lemma tally_simps [simp]:
  "tally e [] = 0" "tally e (x # es) = (if x = e then Suc (tally e es) else tally e es)"
  by (simp_all add: tally_def)

lemma tally_append [simp]: "tally e (es @ fs) = tally e es + tally e fs"
  by (simp add: tally_def)

lemma tally_replicate [simp]: "tally e (replicate n x) = (if x = e then n else 0)"
  by (induction n) auto

lemma tally_sum: "tally Item_applied es + tally Item_skipped es + tally Item_failed es = length es"
proof (induction es)
  case (Cons e es)
  then show ?case by (cases e) auto
qed simp

lemma run_counters:
  "fold count_item es c = c\<lparr>
     c_applied := c_applied c + tally Item_applied es,
     c_failed := (if tally Item_failed es = 0 then c_failed c
                  else c_attempt_failed c + tally Item_failed es),
     c_skipped := (if tally Item_skipped es = 0 then c_skipped c
                   else max (c_skipped c) (c_attempt_skipped c + tally Item_skipped es)),
     c_attempt_skipped := c_attempt_skipped c + tally Item_skipped es,
     c_attempt_failed := c_attempt_failed c + tally Item_failed es,
     c_attempt_failures := c_attempt_failures c + tally Item_failed es\<rparr>"
proof (induction es arbitrary: c)
  case (Cons e es)
  show ?case by (cases e) (simp_all add: Cons.IH)
qed simp

lemma attempt_counters:
  fixes previous n es
  defines "q \<equiv> own_progress previous"
  defines "p \<equiv> fold record_item es (begin_publication_attempt previous n)"
  shows "c_applied (counters p) = count_of q ''applied'' 0 + tally Item_applied es"
    and "c_attempt_failed (counters p) = tally Item_failed es"
    and "c_failed (counters p) = tally Item_failed es"
    and "c_skipped (counters p) = max (count_of q ''skipped'' 0) (tally Item_skipped es)"
    and "c_total (counters p) = max (count_of q ''total'' 0) (count_of q ''applied'' 0 + n)"
    and "c_attempt_failures (counters p)
      = count_of q ''attempt_failures'' (count_of q ''failed'' 0) + tally Item_failed es"
  by (simp_all add: p_def q_def counters_run run_counters counters_begin Let_def)

lemma counts_balance:
  assumes "length es \<le> n"
    and "p = fold record_item es (begin_publication_attempt previous n)"
  shows "c_applied (counters p) \<le> c_total (counters p)
    \<and> (let s = counters (complete_publication_success p) in
        c_applied s + c_skipped s = c_total s \<and> c_failed s = 0
        \<and> c_applied s = c_applied (counters p) \<and> c_total s = c_total (counters p))
    \<and> (\<exists>t. mark_publication_failure (Some p) True = Some t
        \<and> c_applied (counters t) + c_failed (counters t) + c_skipped (counters t) = c_total (counters t)
        \<and> tally Item_failed es \<le> c_failed (counters t)
        \<and> c_applied (counters t) = c_applied (counters p))"
proof (intro conjI)
  have bound: "tally Item_applied es + tally Item_failed es \<le> n"
    using tally_sum [of es] assms(1) by linarith
  note c = attempt_counters [of es previous n, folded assms(2)]
  show applied: "c_applied (counters p) \<le> c_total (counters p)"
    unfolding c using bound by linarith
  show "let s = counters (complete_publication_success p) in
        c_applied s + c_skipped s = c_total s \<and> c_failed s = 0
        \<and> c_applied s = c_applied (counters p) \<and> c_total s = c_total (counters p)"
    using applied by (simp add: counters_success Let_def)
  have "p ''stage'' = Some publishing"
    by (simp add: assms(2) stage_run begin_publication_attempt_def Let_def)
  then obtain t where t: "mark_publication_failure (Some p) True = Some t"
    by (simp add: mark_publication_failure_def Let_def)
  have "c_attempt_failed (counters p) + c_applied (counters p) \<le> c_total (counters p)"
    unfolding c using bound by linarith
  then show "\<exists>t. mark_publication_failure (Some p) True = Some t
      \<and> c_applied (counters t) + c_failed (counters t) + c_skipped (counters t) = c_total (counters t)
      \<and> tally Item_failed es \<le> c_failed (counters t)
      \<and> c_applied (counters t) = c_applied (counters p)"
    using t c(2) by (intro exI [of _ t]) (simp add: counters_terminal [OF t] Let_def max_def)
qed

text \<open>A publication attempt that handles at most the items it announced reports consistent
  numbers however it ends, and whatever an earlier attempt (or a damaged row) left behind:
  while it runs, committed links never exceed the total; if it succeeds, applied and skipped sum
  to the total and nothing is failed; if it ends terminally, applied, failed and skipped sum to
  the total, so an item a killed worker never reached is counted exactly once.\<close>

lemma publication_counts_balance:
  assumes "length es \<le> n"
    and "p = fold record_item es (begin_publication_attempt previous n)"
  shows "c_applied (counters p) \<le> c_total (counters p)
    \<and> (let s = counters (complete_publication_success p) in
        c_applied s + c_skipped s = c_total s \<and> c_failed s = 0
        \<and> c_applied s = c_applied (counters p) \<and> c_total s = c_total (counters p))
    \<and> (\<exists>t. mark_publication_failure (Some p) True = Some t
        \<and> c_applied (counters t) + c_failed (counters t) + c_skipped (counters t) = c_total (counters t)
        \<and> tally Item_failed es \<le> c_failed (counters t)
        \<and> c_applied (counters t) = c_applied (counters p))"
  using assms by (rule counts_balance)

lemma publication_counts_balance_witness:
  "\<exists>p. c_applied (counters p) = 4 \<and> c_applied (counters p) \<le> c_total (counters p)"
proof -
  define es where "es = [Item_applied, Item_skipped, Item_failed, Item_applied]"
  define prev :: progress where
    "prev = [''stage'' \<mapsto> publishing, ''applied'' \<mapsto> jnat 2, ''total'' \<mapsto> JNull]"
  define p where "p = fold record_item es (begin_publication_attempt (Some prev) 5)"
  have "length es \<le> 5" by (simp add: es_def)
  from publication_counts_balance [OF this p_def]
  have "c_applied (counters p) \<le> c_total (counters p)" by blast
  moreover have "c_applied (counters p) = 4"
    by (simp only: p_def attempt_counters(1))
      (simp add: es_def own_progress_def prev_def numeral_2_eq_2)
  ultimately show ?thesis by blast
qed

text \<open>A retry never loses or double counts: starting from the durable progress of an attempt
  that was cut off, the next attempt resumes exactly the committed links and the cumulative
  failure events, starts its own failures at zero, never lowers the total, and keeps the
  per-outcome tallies.\<close>

lemma retry_resumes_counts:
  assumes "p = fold record_item es (begin_publication_attempt previous n)"
    and "r = begin_publication_attempt (Some (p ++ totals)) m"
    and "dom totals \<subseteq> {''inserted'', ''block'', ''already_present''}"
  shows "c_applied (counters r) = c_applied (counters p)
    \<and> c_attempt_failures (counters r) = c_attempt_failures (counters p)
    \<and> c_failed (counters r) = 0 \<and> c_total (counters p) \<le> c_total (counters r)
    \<and> c_applied (counters p) + m \<le> c_total (counters r)
    \<and> (\<forall>k. totals k = Some (jnat v) \<longrightarrow> resume_outcome_counts (Some (p ++ totals)) k = v)"
proof -
  have keep: "(p ++ totals) k = p k" if "k \<notin> {''inserted'', ''block'', ''already_present''}" for k
    using that assms(3) by (auto simp: map_add_def dom_def split: option.splits)
  then have c: "count_of (p ++ totals) k d = count_of p k d"
    if "k \<notin> {''inserted'', ''block'', ''already_present''}" for k d
    using that by (simp add: count_of_def)
  have stage: "p ''stage'' = Some publishing"
    by (simp add: assms(1) stage_run begin_publication_attempt_def Let_def)
  then have own: "own_progress (Some (p ++ totals)) = p ++ totals"
    using keep [of "''stage''"] by (simp add: own_progress_def)
  have "\<exists>i. p ''attempt_failures'' = Some (jnat i)"
    unfolding assms(1)
  proof (induction es rule: rev_induct)
    case Nil
    then show ?case by (auto simp: begin_publication_attempt_def Let_def)
  next
    case (snoc e es)
    then show ?case by (cases e) (auto simp: record_publication_applied_def
        record_publication_skip_def record_publication_failure_def Let_def)
  qed
  then have "count_of p ''attempt_failures'' d = count_of p ''attempt_failures'' 0" for d
    by (auto simp: count_of_def jnat_def)
  then have "counters r = \<lparr>c_applied = c_applied (counters p), c_failed = 0,
      c_skipped = c_skipped (counters p),
      c_total = max (c_total (counters p)) (c_applied (counters p) + m),
      c_attempt_skipped = 0, c_attempt_failed = 0,
      c_attempt_failures = c_attempt_failures (counters p)\<rparr>"
    unfolding assms(2) counters_begin own Let_def by (simp add: c counters_def)
  moreover have "resume_outcome_counts (Some (p ++ totals)) k = v" if "totals k = Some (jnat v)" for k
  proof -
    have "(p ++ totals) k = Some (jnat v)" using that by (simp add: map_add_def)
    moreover have "k \<in> {''inserted'', ''block'', ''already_present''}" using that assms(3) by blast
    ultimately show ?thesis by (simp add: resume_outcome_counts_def own count_of_def jnat_def)
  qed
  ultimately show ?thesis by simp
qed

lemma retry_resumes_counts_witness:
  "\<exists>r. c_applied (counters r) = 1 \<and> 4 \<le> c_total (counters r) \<and> c_attempt_failures (counters r) = 1"
proof -
  define es where "es = [Item_applied, Item_failed]"
  define p where "p = fold record_item es (begin_publication_attempt None 2)"
  define totals where "totals = [''inserted'' \<mapsto> jnat 1]"
  define r where "r = begin_publication_attempt (Some (p ++ totals)) 3"
  have "dom totals \<subseteq> {''inserted'', ''block'', ''already_present''}" by (simp add: totals_def)
  from retry_resumes_counts [OF p_def r_def this, of 1]
  have "c_applied (counters r) = c_applied (counters p)
      \<and> c_attempt_failures (counters r) = c_attempt_failures (counters p)
      \<and> c_applied (counters p) + 3 \<le> c_total (counters r)" by blast
  moreover have "c_applied (counters p) = 1 \<and> c_attempt_failures (counters p) = 1"
    unfolding p_def attempt_counters by (simp add: es_def own_progress_def)
  ultimately show ?thesis by auto
qed

end
