(* ===== verification/Url.thy ===== *)
theory Url
  imports Placement
begin

text \<open>
  URLs and domains: what the code uses of \<open>urllib.parse.urlsplit\<close> (on ASCII text, without its
  bracket checks for IPv6 literals beyond finding the host) and \<^verbatim>\<open>app/domain_policy.py\<close>.
  The \<open>idna\<close> codec is a parameter: \<open>Some\<close> the ASCII form, \<open>None\<close> where it raises \<open>UnicodeError\<close>.
\<close>

type_synonym idna = "string \<Rightarrow> string option"

section \<open>Splitting a URL\<close>

text \<open>\<open>s.partition(c)\<close>: before, whether found, after.\<close>

definition partition_at :: "char \<Rightarrow> string \<Rightarrow> string \<times> bool \<times> string" where
  "partition_at c s = (takeWhile (\<lambda>x. x \<noteq> c) s, c \<in> set s, tl (dropWhile (\<lambda>x. x \<noteq> c) s))"

definition is_alpha :: "char \<Rightarrow> bool" where
  "is_alpha c = (let n = (of_char c :: nat) in 65 \<le> n \<and> n \<le> 90 \<or> 97 \<le> n \<and> n \<le> 122)"

definition is_digit_char :: "char \<Rightarrow> bool" where
  "is_digit_char c = (let n = (of_char c :: nat) in 48 \<le> n \<and> n \<le> 57)"

definition scheme_char :: "char \<Rightarrow> bool" where
  "scheme_char c \<longleftrightarrow> is_alpha c \<or> is_digit_char c \<or> c \<in> {CHR ''+'', CHR ''-'', CHR ''.''}"

definition lower :: "string \<Rightarrow> string" where "lower s = map lower_char s"

text \<open>Scheme and network location.\<close>

definition urlsplit :: "string \<Rightarrow> string \<times> string" where
  "urlsplit url =
     (let url = dropWhile (\<lambda>c. (of_char c :: nat) \<le> 32) url;
          url = filter (\<lambda>c. c \<notin> {CHR 0x09, CHR 0x0A, CHR 0x0D}) url;
          (before, found, after) = partition_at (CHR '':'') url;
          (scheme, rest) = (if found \<and> before \<noteq> [] \<and> is_alpha (hd before) \<and> list_all scheme_char before
                            then (lower before, after) else ([], url))
      in if take 2 rest = ''//''
         then (scheme, takeWhile (\<lambda>c. c \<notin> {CHR ''/'', CHR ''?'', CHR ''#''}) (drop 2 rest))
         else (scheme, []))"

definition url_scheme :: "string \<Rightarrow> string" where "url_scheme url = fst (urlsplit url)"

definition url_hostname :: "string \<Rightarrow> string option" where
  "url_hostname url =
     (let netloc = snd (urlsplit url);
          hostinfo = (if CHR ''@'' \<in> set netloc
                      then rev (takeWhile (\<lambda>c. c \<noteq> CHR ''@'') (rev netloc)) else netloc);
          (_, bracket, bracketed) = partition_at (CHR ''['') hostinfo;
          host = (if bracket then fst (partition_at (CHR '']'') bracketed)
                  else fst (partition_at (CHR '':'') hostinfo));
          (name, percent, zone) = partition_at (CHR ''%'') host
      in if host = [] then None
         else Some (lower name @ (if percent then ''%'' else []) @ zone))"

section \<open>Domains\<close>

definition rstrip_dots :: "string \<Rightarrow> string" where
  "rstrip_dots s = rev (dropWhile (\<lambda>c. c = CHR ''.'') (rev s))"

definition remove_prefix :: "string \<Rightarrow> string \<Rightarrow> string" where
  "remove_prefix p s = (if take (length p) s = p then drop (length p) s else s)"

text \<open>\<open>None\<close> where the code raises \<open>ValueError\<close>.\<close>

definition normalize_domain :: "idna \<Rightarrow> string \<Rightarrow> string option" where
  "normalize_domain idna value =
     (let candidate = rstrip_dots (remove_prefix ''*.'' (lower (strip value)));
          candidate = (if sublist ''://'' candidate then or_else (url_hostname candidate) [] else candidate)
      in if candidate = [] \<or> CHR ''/'' \<in> set candidate \<or> CHR '':'' \<in> set candidate
            \<or> (\<exists>c\<in>set candidate. is_space c) then None
         else idna candidate)"

definition domain_from_url :: "idna \<Rightarrow> string \<Rightarrow> string option" where
  "domain_from_url idna value =
     (case url_hostname value of
        None \<Rightarrow> None
      | Some host \<Rightarrow> normalize_domain idna host)"

definition dot_suffix :: "string \<Rightarrow> string \<Rightarrow> bool" where
  "dot_suffix d r \<longleftrightarrow> suffix (CHR ''.'' # r) d"

definition domain_matches :: "idna \<Rightarrow> string \<Rightarrow> string \<Rightarrow> bool option" where
  "domain_matches idna d r =
     (case normalize_domain idna d of
        None \<Rightarrow> None
      | Some nd \<Rightarrow>
          (case normalize_domain idna r of
             None \<Rightarrow> None
           | Some nr \<Rightarrow> Some (nd = nr \<or> dot_suffix nd nr)))"

text \<open>\<open>any(domain_matches(domain, rule) for rule in rules)\<close>: stops at the first hit; an invalid rule
  before it raises.\<close>

fun matches_any :: "idna \<Rightarrow> string \<Rightarrow> string list \<Rightarrow> bool option" where
  "matches_any idna d [] = Some False"
| "matches_any idna d (r # rules) =
     (case domain_matches idna d r of
        None \<Rightarrow> None
      | Some True \<Rightarrow> Some True
      | Some False \<Rightarrow> matches_any idna d rules)"

lemma matches_any_False:
  "matches_any idna d rules = Some False \<longleftrightarrow> (\<forall>r\<in>set rules. domain_matches idna d r = Some False)"
  by (induction rules) (auto split: option.splits bool.splits)

lemma matches_any_True:
  "matches_any idna d rules = Some True \<Longrightarrow> \<exists>r\<in>set rules. domain_matches idna d r = Some True"
  by (induction rules) (auto split: option.splits bool.splits)

lemma domain_matches_self: "normalize_domain idna d = Some n \<Longrightarrow> domain_matches idna d d = Some True"
  by (simp add: domain_matches_def)

lemma dot_suffix_trans: "dot_suffix a b \<Longrightarrow> dot_suffix b c \<Longrightarrow> dot_suffix a c"
  by (auto simp: dot_suffix_def suffix_def)

end
