(* ===== verification/Sites.thy ===== *)
theory Sites
  imports Url
begin

text \<open>
  Managed sites and content-pool sources: \<^verbatim>\<open>app/services/pool_source_policy.py\<close>, the site routes
  of \<^verbatim>\<open>app/api/routes/sites.py\<close> that change who may be linked to, and the failure accounting of
  \<^verbatim>\<open>app/tasks/ingestion.py\<close>. The rule at stake: a property managed for a client is never an
  approved link target (no private blog network). Here \<open>None\<close> stands for a raised
  \<open>PoolSourcePolicyError\<close>.
\<close>

section \<open>Policy checks\<close>

definition pool_normalize_domain :: "idna \<Rightarrow> string \<Rightarrow> string option" where
  "pool_normalize_domain idna value =
     (let domain = remove_prefix ''*.'' (rstrip_dots (lower (strip value)))
      in if domain = [] \<or> CHR ''/'' \<in> set domain \<or> sublist ''://'' domain then None
         else idna domain)"

definition pool_source_domain :: "idna \<Rightarrow> string \<Rightarrow> string option" where
  "pool_source_domain idna url =
     (case url_hostname url of
        None \<Rightarrow> None
      | Some host \<Rightarrow> pool_normalize_domain idna host)"

fun split_commas :: "string \<Rightarrow> string list" where
  "split_commas [] = [[]]"
| "split_commas (c # s) =
     (if c = CHR '','' then [] # split_commas s
      else case split_commas s of [] \<Rightarrow> [[c]] | x # xs \<Rightarrow> (c # x) # xs)"

fun all_some :: "'a option list \<Rightarrow> 'a list option" where
  "all_some [] = Some []"
| "all_some (None # xs) = None"
| "all_some (Some x # xs) = map_option (Cons x) (all_some xs)"

definition configured_pool_domains :: "idna \<Rightarrow> string \<Rightarrow> string list option" where
  "configured_pool_domains idna setting =
     all_some (map (pool_normalize_domain idna) (filter (\<lambda>v. strip v \<noteq> []) (split_commas setting)))"

definition is_pool_domain_allowed :: "idna \<Rightarrow> string \<Rightarrow> string \<Rightarrow> bool option" where
  "is_pool_domain_allowed idna setting url =
     (case pool_source_domain idna url of
        None \<Rightarrow> None
      | Some host \<Rightarrow>
          map_option (\<lambda>domains. \<exists>d\<in>set domains. host = d \<or> dot_suffix host d)
            (configured_pool_domains idna setting))"

definition require_allowed_pool_domain :: "idna \<Rightarrow> string \<Rightarrow> string \<Rightarrow> bool" where
  "require_allowed_pool_domain idna setting url \<longleftrightarrow> is_pool_domain_allowed idna setting url = Some True"

definition same_property :: "string \<Rightarrow> string \<Rightarrow> bool" where
  "same_property left right \<longleftrightarrow> left = right \<or> dot_suffix left right \<or> dot_suffix right left"

text \<open>\<open>True\<close> where the check passes. Malformed stored URLs are skipped.\<close>

definition require_no_pbn_conflict :: "idna \<Rightarrow> site list \<Rightarrow> string \<Rightarrow> bool \<Rightarrow> bool" where
  "require_no_pbn_conflict idna sites base_url as_pool =
     (case pool_source_domain idna base_url of
        None \<Rightarrow> False
      | Some domain \<Rightarrow>
          (\<forall>s\<in>set sites.
             (if as_pool then site_platform s \<noteq> Pool
              else site_platform s = Pool \<and> pool_source_approved s)
             \<longrightarrow> (case pool_source_domain idna (site_base_url s) of
                   None \<Rightarrow> True
                 | Some other \<Rightarrow> \<not> same_property domain other)))"

definition require_approved_pool_source :: "idna \<Rightarrow> string \<Rightarrow> site \<Rightarrow> bool" where
  "require_approved_pool_source idna setting s \<longleftrightarrow>
     site_platform s = Pool \<and> pool_source_approved s \<and> \<not> pool_source_quarantined s
     \<and> require_allowed_pool_domain idna setting (site_base_url s)"

definition expire_pool_target_suggestions :: "nat \<Rightarrow> bool \<Rightarrow> store \<Rightarrow> store" where
  "expire_pool_target_suggestions site revoked st =
     (let targets = map ar_id (filter (\<lambda>a. ar_site a = site) (st_articles st))
      in set_suggestions
           (\<lambda>s. (case sg_target s of None \<Rightarrow> False | Some t \<Rightarrow> t \<in> set targets)
              \<and> (sg_status s = Pending \<or> revoked \<and> sg_status s = Approved))
           (\<lambda>s. s\<lparr>sg_status := Expired\<rparr>) st)"

section \<open>Routes and tasks\<close>

record site_world =
  sw_sites :: "site list"
  sw_store :: store

definition update_site :: "nat \<Rightarrow> (site \<Rightarrow> site) \<Rightarrow> site_world \<Rightarrow> site_world" where
  "update_site i f w = w\<lparr>sw_sites := update_where (\<lambda>s. site_id s = i) f (sw_sites w)\<rparr>"

definition new_site :: "nat \<Rightarrow> nat \<Rightarrow> string \<Rightarrow> platform \<Rightarrow> string option \<Rightarrow> int option \<Rightarrow> site" where
  "new_site i tenant url pf user registered =
     \<lparr>site_id = i, site_tenant = tenant, site_base_url = url, site_platform = pf,
      wp_username = user, pool_source_approved = False, pool_source_failures = 0,
      pool_source_quarantined = False, pool_source_quarantine_reason = None,
      domain_registered_at = registered\<rparr>"

text \<open>\<open>owner\<close> is what \<open>resolve_create_tenant_id\<close> returned, \<open>i\<close> the next id of the sequence.\<close>

definition create_site ::
  "idna \<Rightarrow> principal \<Rightarrow> nat \<Rightarrow> nat \<Rightarrow> string \<Rightarrow> platform \<Rightarrow> string option \<Rightarrow> int option \<Rightarrow> site_world
     \<Rightarrow> http_error + site_world" where
  "create_site idna p owner i url pf user registered w =
     (case require_creatable_platform p (Some pf) of
        Some e \<Rightarrow> Inl e
      | None \<Rightarrow>
          if list_ex (\<lambda>s. site_base_url s = url \<and> site_tenant s = owner) (sw_sites w) then Inl (Http 409)
          else if pf \<noteq> Pool \<and> \<not> require_no_pbn_conflict idna (sw_sites w) url False then Inl (Http 409)
          else Inr (w\<lparr>sw_sites := sw_sites w @ [new_site i owner url pf user registered]\<rparr>))"

datatype bulk_row = Created nat | Skipped | Refused

text \<open>One validated row of an upload; \<open>seen\<close> are the URLs earlier rows of it named.\<close>

fun bulk_create_rows ::
  "idna \<Rightarrow> principal \<Rightarrow> nat \<Rightarrow> nat \<Rightarrow> (string \<times> platform) list \<Rightarrow> string list \<Rightarrow> site_world
     \<Rightarrow> http_error + (site_world \<times> bulk_row list)" where
  "bulk_create_rows idna p owner i [] seen w = Inr (w, [])"
| "bulk_create_rows idna p owner i ((url, pf) # rows) seen w =
     (case require_creatable_platform p (Some pf) of
        Some e \<Rightarrow> Inl e
      | None \<Rightarrow>
          let (w', seen', out) =
            (if url \<in> set seen then (w, seen, Skipped)
             else if list_ex (\<lambda>s. site_base_url s = url \<and> site_tenant s = owner) (sw_sites w)
               then (w, seen @ [url], Skipped)
             else if pf \<noteq> Pool \<and> \<not> require_no_pbn_conflict idna (sw_sites w) url False
               then (w, seen @ [url], Refused)
             else (w\<lparr>sw_sites := sw_sites w @ [new_site i owner url pf None None]\<rparr>, seen @ [url], Created i))
          in bind_ok (bulk_create_rows idna p owner (Suc i) rows seen' w')
               (\<lambda>(w'', outs). Inr (w'', out # outs)))"

definition approve_pool_source ::
  "idna \<Rightarrow> string \<Rightarrow> site \<Rightarrow> site_world \<Rightarrow> http_error + site_world" where
  "approve_pool_source idna setting s w =
     (if site_platform s \<noteq> Pool then Inl (Http 409)
      else if \<not> require_allowed_pool_domain idna setting (site_base_url s) then Inl (Http 409)
      else if \<not> require_no_pbn_conflict idna (sw_sites w) (site_base_url s) True then Inl (Http 409)
      else Inr (update_site (site_id s) (\<lambda>x. x\<lparr>pool_source_approved := True\<rparr>) w))"

definition revoke_pool_source_approval :: "site \<Rightarrow> site_world \<Rightarrow> http_error + site_world" where
  "revoke_pool_source_approval s w =
     (if site_platform s \<noteq> Pool then Inl (Http 409)
      else Inr ((update_site (site_id s) (\<lambda>x. x\<lparr>pool_source_approved := False\<rparr>) w)
                  \<lparr>sw_store := expire_pool_target_suggestions (site_id s) True (sw_store w)\<rparr>))"

definition reactivate_pool_source ::
  "idna \<Rightarrow> string \<Rightarrow> site \<Rightarrow> site_world \<Rightarrow> http_error + site_world" where
  "reactivate_pool_source idna setting s w =
     (if site_platform s \<noteq> Pool then Inl (Http 409)
      else if \<not> pool_source_approved s then Inl (Http 409)
      else if \<not> require_allowed_pool_domain idna setting (site_base_url s) then Inl (Http 409)
      else Inr (update_site (site_id s)
             (\<lambda>x. x\<lparr>pool_source_failures := 0, pool_source_quarantined := False,
                   pool_source_quarantine_reason := None\<rparr>) w))"

definition record_pool_ingestion_success :: "nat \<Rightarrow> site_world \<Rightarrow> site_world" where
  "record_pool_ingestion_success i w =
     (case get_row site_id i (sw_sites w) of
        None \<Rightarrow> w
      | Some s \<Rightarrow>
          if site_platform s \<noteq> Pool then w
          else update_site i (\<lambda>x. x\<lparr>pool_source_failures := 0,
                                   pool_source_quarantine_reason := None\<rparr>) w)"

definition record_pool_ingestion_failure :: "nat \<Rightarrow> string \<Rightarrow> nat \<Rightarrow> site_world \<Rightarrow> site_world" where
  "record_pool_ingestion_failure threshold err i w =
     (case get_row site_id i (sw_sites w) of
        None \<Rightarrow> w
      | Some s \<Rightarrow>
          if site_platform s \<noteq> Pool then w
          else if threshold \<le> pool_source_failures s + 1 then
            (update_site i (\<lambda>x. x\<lparr>pool_source_failures := pool_source_failures x + 1,
                pool_source_quarantined := True,
                pool_source_quarantine_reason := Some (str_take 2000 err)\<rparr>) w)
              \<lparr>sw_store := expire_pool_target_suggestions i False (sw_store w)\<rparr>
          else update_site i (\<lambda>x. x\<lparr>pool_source_failures := pool_source_failures x + 1\<rparr>) w)"

definition set_wordpress_credentials :: "string \<Rightarrow> site \<Rightarrow> site_world \<Rightarrow> http_error + site_world" where
  "set_wordpress_credentials user s w =
     (if site_platform s \<noteq> WordPress then Inl (Http 409)
      else Inr (update_site (site_id s) (\<lambda>x. x\<lparr>wp_username := Some user\<rparr>) w))"

definition clear_wordpress_credentials :: "site \<Rightarrow> site_world \<Rightarrow> site_world" where
  "clear_wordpress_credentials s w = update_site (site_id s) (\<lambda>x. x\<lparr>wp_username := None\<rparr>) w"

section \<open>Requests\<close>

text \<open>A request names a site by id; the ownership check of every route is \<open>authorize_site\<close>.\<close>

datatype site_request =
    Create principal nat string platform "string option" "int option"
  | Bulk_create principal nat "(string \<times> platform) list"
  | Approve principal nat
  | Revoke principal nat
  | Reactivate principal nat
  | Set_credentials principal nat string
  | Clear_credentials principal nat
  | Crawl_succeeded nat
  | Crawl_failed string nat

definition commit :: "site_world \<Rightarrow> http_error + site_world \<Rightarrow> site_world" where
  "commit w r = (case r of Inl e \<Rightarrow> w | Inr w' \<Rightarrow> w')"

fun site_step :: "idna \<Rightarrow> string \<Rightarrow> nat \<Rightarrow> site_request \<Rightarrow> site_world \<Rightarrow> site_world" where
  "site_step idna setting threshold (Create p owner url pf user registered) w =
     commit w (create_site idna p owner (next_id site_id (sw_sites w)) url pf user registered w)"
| "site_step idna setting threshold (Bulk_create p owner rows) w =
     commit w (bind_ok (bulk_create_rows idna p owner (next_id site_id (sw_sites w)) rows [] w)
       (\<lambda>(w', outs). Inr w'))"
| "site_step idna setting threshold (Approve p i) w =
     commit w (bind_ok (authorize_site (sw_sites w) p i) (\<lambda>s. approve_pool_source idna setting s w))"
| "site_step idna setting threshold (Revoke p i) w =
     commit w (bind_ok (authorize_site (sw_sites w) p i) (\<lambda>s. revoke_pool_source_approval s w))"
| "site_step idna setting threshold (Reactivate p i) w =
     commit w (bind_ok (authorize_site (sw_sites w) p i) (\<lambda>s. reactivate_pool_source idna setting s w))"
| "site_step idna setting threshold (Set_credentials p i user) w =
     commit w (bind_ok (authorize_site (sw_sites w) p i) (\<lambda>s. set_wordpress_credentials user s w))"
| "site_step idna setting threshold (Clear_credentials p i) w =
     commit w (bind_ok (authorize_site (sw_sites w) p i) (\<lambda>s. Inr (clear_wordpress_credentials s w)))"
| "site_step idna setting threshold (Crawl_succeeded i) w = record_pool_ingestion_success i w"
| "site_step idna setting threshold (Crawl_failed err i) w = record_pool_ingestion_failure threshold err i w"

section \<open>No private blog network\<close>

definition conflict :: "idna \<Rightarrow> site \<Rightarrow> site \<Rightarrow> bool" where
  "conflict idna client source \<longleftrightarrow>
     site_platform client \<noteq> Pool \<and> site_platform source = Pool \<and> pool_source_approved source
     \<and> (\<exists>a b. pool_source_domain idna (site_base_url client) = Some a
          \<and> pool_source_domain idna (site_base_url source) = Some b \<and> same_property a b)"

definition pbn_free :: "idna \<Rightarrow> site_world \<Rightarrow> bool" where
  "pbn_free idna w \<longleftrightarrow> primary site_id (sw_sites w)
     \<and> (\<forall>c\<in>set (sw_sites w). \<forall>p\<in>set (sw_sites w). \<not> conflict idna c p)"

lemma same_property_sym: "same_property a b \<longleftrightarrow> same_property b a"
  by (auto simp: same_property_def)

lemma no_conflict_as_client:
  assumes "require_no_pbn_conflict idna sites url False" and "p \<in> set sites" and "site_base_url c = url"
  shows "\<not> conflict idna c p"
  using assms by (auto simp: require_no_pbn_conflict_def conflict_def split: option.splits)

lemma no_conflict_as_pool:
  assumes "require_no_pbn_conflict idna sites url True" and "c \<in> set sites" and "site_base_url p = url"
  shows "\<not> conflict idna c p"
  using assms same_property_sym by (auto simp: require_no_pbn_conflict_def conflict_def split: option.splits)

lemma pbn_free_add:
  assumes "pbn_free idna w" and "site_id s \<notin> site_id ` set (sw_sites w)"
    and "\<not> pool_source_approved s"
    and "site_platform s \<noteq> Pool \<Longrightarrow> require_no_pbn_conflict idna (sw_sites w) (site_base_url s) False"
  shows "pbn_free idna (w\<lparr>sw_sites := sw_sites w @ [s]\<rparr>)"
proof -
  have "\<not> conflict idna s p" if "p \<in> set (sw_sites w)" for p
    using no_conflict_as_client [OF assms(4) that] by (cases "site_platform s = Pool") (auto simp: conflict_def)
  moreover have "\<not> conflict idna c s" for c using assms(3) by (simp add: conflict_def)
  ultimately show ?thesis using assms(1,2) by (auto simp: pbn_free_def intro: primary_append)
qed

text \<open>A change that leaves URL and platform alone and approves only after the check.\<close>

lemma pbn_free_update:
  assumes "pbn_free idna w"
    and "\<And>s. site_id (f s) = site_id s \<and> site_base_url (f s) = site_base_url s
      \<and> site_platform (f s) = site_platform s"
    and "\<And>s. s \<in> set (sw_sites w) \<Longrightarrow> site_id s = i \<Longrightarrow> pool_source_approved (f s)
      \<Longrightarrow> pool_source_approved s \<or> require_no_pbn_conflict idna (sw_sites w) (site_base_url s) True"
  shows "pbn_free idna (update_site i f w)"
proof -
  have prim: "primary site_id (sw_sites (update_site i f w))"
    using assms(1) row_update.primary_update [of site_id f] assms(2)
    by (auto simp: update_site_def pbn_free_def row_update_def)
  have "\<not> conflict idna c p" if c: "c \<in> set (sw_sites (update_site i f w))"
    and p: "p \<in> set (sw_sites (update_site i f w))" for c p
  proof
    assume con: "conflict idna c p"
    from c obtain c0 where c0: "c0 \<in> set (sw_sites w)" "site_base_url c = site_base_url c0"
      "site_platform c = site_platform c0"
      using assms(2) by (auto simp: update_site_def set_update_where split: if_splits)
    from p obtain p0 where p0: "p0 \<in> set (sw_sites w)" "p = (if site_id p0 = i then f p0 else p0)"
      by (auto simp: update_site_def set_update_where)
    have same: "site_base_url p = site_base_url p0" "site_platform p = site_platform p0"
      using p0(2) assms(2) by simp_all
    have "\<not> conflict idna c0 p0" using assms(1) c0(1) p0(1) by (simp add: pbn_free_def)
    with con c0 same have "pool_source_approved p" "\<not> pool_source_approved p0"
      by (auto simp: conflict_def)
    with p0 assms(3) [OF p0(1)] have "require_no_pbn_conflict idna (sw_sites w) (site_base_url p0) True"
      by (auto split: if_splits)
    from no_conflict_as_pool [OF this c0(1), of p] same con c0 show False
      by (auto simp: conflict_def)
  qed
  with prim show ?thesis by (simp add: pbn_free_def)
qed

lemma pbn_free_store [simp]: "pbn_free idna (w\<lparr>sw_store := st\<rparr>) = pbn_free idna w"
  by (simp add: pbn_free_def)

lemma pbn_free_bulk:
  "pbn_free idna w \<Longrightarrow> \<forall>j\<in>site_id ` set (sw_sites w). j < i
    \<Longrightarrow> bulk_create_rows idna p owner i rows seen w = Inr (w', outs) \<Longrightarrow> pbn_free idna w'"
proof (induction rows arbitrary: i seen w outs)
  case (Cons row rows)
  obtain url pf where row: "row = (url, pf)" by (cases row)
  let ?w = "w\<lparr>sw_sites := sw_sites w @ [new_site i owner url pf None None]\<rparr>"
  have fresh: "site_id (new_site i owner url pf None None) \<notin> site_id ` set (sw_sites w)"
    using Cons.prems(2) by (auto simp: new_site_def)
  have ids: "\<forall>j\<in>site_id ` set (sw_sites w). j < Suc i" "\<forall>j\<in>site_id ` set (sw_sites ?w). j < Suc i"
    using Cons.prems(2) by (auto simp: new_site_def less_Suc_eq)
  have added: "pbn_free idna ?w" if "pf \<noteq> Pool \<Longrightarrow> require_no_pbn_conflict idna (sw_sites w) url False"
    by (rule pbn_free_add [OF Cons.prems(1) fresh]) (use that in \<open>simp_all add: new_site_def\<close>)
  from Cons.prems(3) obtain seen' w1 outs' where
    rest: "bulk_create_rows idna p owner (Suc i) rows seen' w1 = Inr (w', outs')"
    and w1: "w1 = w \<or> w1 = ?w \<and> (pf \<noteq> Pool \<longrightarrow> require_no_pbn_conflict idna (sw_sites w) url False)"
    by (auto simp: row bind_ok_eq_Inr split: option.splits if_splits)
  show ?case
  proof (cases "w1 = w")
    case True
    with Cons.IH [OF Cons.prems(1) ids(1)] rest show ?thesis by simp
  next
    case False
    with w1 have "w1 = ?w" "pf \<noteq> Pool \<longrightarrow> require_no_pbn_conflict idna (sw_sites w) url False" by simp_all
    with Cons.IH [OF added ids(2)] rest show ?thesis by simp
  qed
qed simp

lemma next_id_gt: "\<forall>j\<in>key ` set rows. j < next_id key rows"
  using fold_max_ge [of 0 "map key rows"] by (auto simp: next_id_def less_Suc_eq_le)

lemma site_step_pbn_free: "pbn_free idna w \<Longrightarrow> pbn_free idna (site_step idna setting threshold r w)"
proof (induction idna setting threshold r w rule: site_step.induct)
  case (1 idna setting threshold p owner url pf user registered w)
  let ?s = "new_site (next_id site_id (sw_sites w)) owner url pf user registered"
  have "pbn_free idna (w\<lparr>sw_sites := sw_sites w @ [?s]\<rparr>)"
    if "pf \<noteq> Pool \<longrightarrow> require_no_pbn_conflict idna (sw_sites w) url False"
    by (rule pbn_free_add [OF 1]) (use that next_id_fresh [of site_id "sw_sites w"] in \<open>simp_all add: new_site_def\<close>)
  with 1 show ?case by (auto simp: commit_def create_site_def split: option.splits)
next
  case (2 idna setting threshold p owner rows w)
  show ?case
  proof (cases "bulk_create_rows idna p owner (next_id site_id (sw_sites w)) rows [] w")
    case (Inr r)
    then obtain w' outs where "r = (w', outs)" by fastforce
    with pbn_free_bulk [OF 2 next_id_gt] Inr show ?thesis by (simp add: commit_def)
  qed (use 2 in \<open>simp add: commit_def\<close>)
next
  case (3 idna setting threshold p i w)
  have "pbn_free idna w'" if "authorize_site (sw_sites w) p i = Inr s" "approve_pool_source idna setting s w = Inr w'" for s w'
  proof -
    have s: "s \<in> set (sw_sites w)" using that(1) get_row_Some [of site_id i "sw_sites w"]
      by (auto simp: authorize_site_def split: option.splits if_splits)
    have "pbn_free idna (update_site (site_id s) (\<lambda>x. x\<lparr>pool_source_approved := True\<rparr>) w)"
      if "require_no_pbn_conflict idna (sw_sites w) (site_base_url s) True"
    proof (rule pbn_free_update [OF 3])
      fix x assume x: "x \<in> set (sw_sites w)" "site_id x = site_id s"
      have "x = s" using 3 x s primary_same [of site_id "sw_sites w" x s] by (simp add: pbn_free_def)
      then show "pool_source_approved x \<or> require_no_pbn_conflict idna (sw_sites w) (site_base_url x) True"
        using that by simp
    qed simp
    with that(2) show ?thesis by (auto simp: approve_pool_source_def split: if_splits)
  qed
  with 3 show ?case by (auto simp: commit_def bind_ok_def split: sum.splits)
next
  case (4 idna setting threshold p i w)
  then show ?case by (auto simp: commit_def bind_ok_def revoke_pool_source_approval_def
      split: sum.splits intro!: pbn_free_update)
next
  case (5 idna setting threshold p i w)
  then show ?case by (auto simp: commit_def bind_ok_def reactivate_pool_source_def
      split: sum.splits intro!: pbn_free_update)
next
  case (6 idna setting threshold p i user w)
  then show ?case by (auto simp: commit_def bind_ok_def set_wordpress_credentials_def
      split: sum.splits intro!: pbn_free_update)
next
  case (7 idna setting threshold p i w)
  then show ?case by (auto simp: commit_def bind_ok_def clear_wordpress_credentials_def
      split: sum.splits intro!: pbn_free_update)
next
  case (8 idna setting threshold i w)
  then show ?case by (auto simp: record_pool_ingestion_success_def split: option.splits intro!: pbn_free_update)
next
  case (9 idna setting threshold err i w)
  then show ?case by (auto simp: record_pool_ingestion_failure_def split: option.splits intro!: pbn_free_update)
qed

interpretation site_requests: driven_system "site_step idna setting threshold" "pbn_free idna"
  for idna setting threshold
  by unfold_locales (rule site_step_pbn_free)

text \<open>C33. No private blog network: from an empty system, after any sequence of site creations, bulk
  uploads, approvals, revocations, reactivations, credential changes and crawl results, by any
  callers, no approved content-pool source shares a domain (or parent and child domains) with a
  client site.\<close>

theorem no_private_blog_network:
  "pbn_free idna (fold (site_step idna setting threshold) requests
     \<lparr>sw_sites = [], sw_store = \<lparr>st_articles = [], st_suggestions = [], st_plans = [], st_events = []\<rparr>\<rparr>)"
  by (rule site_requests.run_inv) (simp add: pbn_free_def primary_def)

text \<open>Disabling a source clears exactly what it should: revoking a source leaves no pending or
  approved suggestion that targets its articles, while the automatic quarantine after repeated
  crawl failures retires its pending suggestions only and never an approved one; both leave every
  suggestion for other targets alone.\<close>

lemma disabled_source_clears_queue:
  assumes "st' = expire_pool_target_suggestions site revoked st"
    and "s \<in> set (st_suggestions st)"
  shows "\<exists>s'\<in>set (st_suggestions st'). sg_id s' = sg_id s \<and>
    (if (\<exists>a\<in>set (st_articles st). ar_site a = site \<and> sg_target s = Some (ar_id a))
        \<and> (sg_status s = Pending \<or> revoked \<and> sg_status s = Approved)
     then s' = s\<lparr>sg_status := Expired\<rparr> else s' = s)"
proof -
  let ?P = "\<lambda>s. (case sg_target s of None \<Rightarrow> False
      | Some t \<Rightarrow> t \<in> set (map ar_id (filter (\<lambda>a. ar_site a = site) (st_articles st))))
    \<and> (sg_status s = Pending \<or> revoked \<and> sg_status s = Approved)"
  have P: "?P s \<longleftrightarrow> (\<exists>a\<in>set (st_articles st). ar_site a = site \<and> sg_target s = Some (ar_id a))
        \<and> (sg_status s = Pending \<or> revoked \<and> sg_status s = Approved)"
    by (auto split: option.splits)
  have "(if ?P s then s\<lparr>sg_status := Expired\<rparr> else s) \<in> set (st_suggestions st')"
    using assms(2) by (auto simp: assms(1) expire_pool_target_suggestions_def Let_def set_update_where)
  moreover define Q where "Q = ?P s"
  ultimately have mem: "(if Q then s\<lparr>sg_status := Expired\<rparr> else s) \<in> set (st_suggestions st')" by simp
  show ?thesis unfolding P [symmetric] Q_def [symmetric] using mem by (cases Q) auto
qed

lemma disabled_source_clears_queue_witness:
  "\<exists>st. sg_status (hd (st_suggestions st)) = Approved \<and> (\<forall>s\<in>set (st_suggestions (expire_pool_target_suggestions 7 True st)). sg_status s = Expired)"
proof -
  define s where "s = (new_suggestion 1 3 2 (Some 4) None Baseline_cosine 0)\<lparr>sg_status := Approved\<rparr>"
  define a where "a = \<lparr>ar_id = 4, ar_site = 7, ar_url = ''u'', ar_title = [], ar_text = [], ar_external_id = None\<rparr>"
  define st where "st = \<lparr>st_articles = [a], st_suggestions = [s], st_plans = [], st_events = []\<rparr>"
  have "s \<in> set (st_suggestions st)" by (simp add: st_def)
  from disabled_source_clears_queue [OF refl this, of 7 True]
  have "\<exists>s'\<in>set (st_suggestions (expire_pool_target_suggestions 7 True st)). s' = s\<lparr>sg_status := Expired\<rparr>"
    by (auto simp: st_def a_def s_def new_suggestion_def)
  moreover have "length (st_suggestions (expire_pool_target_suggestions 7 True st)) = 1"
    by (simp add: expire_pool_target_suggestions_def st_def)
  ultimately have "\<forall>x\<in>set (st_suggestions (expire_pool_target_suggestions 7 True st)). sg_status x = Expired"
    by (auto simp: length_Suc_conv)
  moreover have "sg_status (hd (st_suggestions st)) = Approved" by (simp add: st_def s_def)
  ultimately show ?thesis by blast
qed

end
