(* ===== verification/ExternalPolicy.thy ===== *)
theory ExternalPolicy
  imports Sites
begin

text \<open>
  \<^verbatim>\<open>app/services/external_link_policy.py\<close>: the trust score of an external target, its hard safety
  guards, and the retirement of suggestions that a changed policy no longer allows. \<open>today\<close> is the
  current date in days; \<open>None\<close> of an evaluation is an uncaught \<open>ValueError\<close> from an invalid rule.
\<close>

section \<open>Policy state\<close>

record link_policy =
  lp_site :: nat
  lp_enabled :: bool
  lp_require_https :: bool
  lp_min_trust :: int
  lp_min_age :: int
  lp_trusted_tlds :: "string list"
  lp_allow :: "string list"
  lp_block :: "string list"
  lp_competitors :: "string list"

definition policy_state :: "link_policy list \<Rightarrow> nat \<Rightarrow> link_policy" where
  "policy_state policies site =
     (case get_row lp_site site policies of
        Some p \<Rightarrow> p
      | None \<Rightarrow> \<lparr>lp_site = site, lp_enabled = False, lp_require_https = True, lp_min_trust = 60,
          lp_min_age = 0, lp_trusted_tlds = [], lp_allow = [], lp_block = [], lp_competitors = []\<rparr>)"

text \<open>The keys of the dictionary of managed domains (an invalid stored URL raises).\<close>

definition managed_domains :: "idna \<Rightarrow> site list \<Rightarrow> string list option" where
  "managed_domains idna sites =
     all_some (map (\<lambda>s. domain_from_url idna (site_base_url s))
       (filter (\<lambda>s. site_platform s \<noteq> Pool) sites))"

section \<open>Evaluations\<close>

datatype reason = Invalid_domain | Links_disabled | Https_required | Source_inactive | Blocklisted
  | Competitor | Owned_domain | Age_unknown | Age_too_low | Trust_too_low

record evaluation =
  te_domain :: string
  te_score :: int
  te_eligible :: bool
  te_reasons :: "reason list"

definition reasons_when :: "(bool \<times> reason) list \<Rightarrow> reason list" where
  "reasons_when checks = map snd (filter fst checks)"

definition evaluate_web_search_url ::
  "idna \<Rightarrow> string \<Rightarrow> link_policy \<Rightarrow> string list \<Rightarrow> evaluation option" where
  "evaluate_web_search_url idna url policy owned_domains =
     (case domain_from_url idna url of
        None \<Rightarrow> Some \<lparr>te_domain = ''invalid'', te_score = 0, te_eligible = False,
                       te_reasons = [Invalid_domain]\<rparr>
      | Some domain \<Rightarrow>
          (case (matches_any idna domain (lp_block policy),
                 matches_any idna domain (lp_competitors policy),
                 matches_any idna domain owned_domains) of
             (Some blocked, Some competitor, Some owned) \<Rightarrow>
               let reasons = reasons_when [(\<not> lp_enabled policy, Links_disabled),
                     (url_scheme url \<noteq> ''https'', Https_required),
                     (blocked, Blocklisted), (competitor, Competitor), (owned, Owned_domain)]
               in Some \<lparr>te_domain = domain, te_score = 0, te_eligible = (reasons = []),
                        te_reasons = reasons\<rparr>
           | _ \<Rightarrow> None))"

definition domain_age_days :: "idna \<Rightarrow> int \<Rightarrow> string \<Rightarrow> site \<Rightarrow> int option option" where
  "domain_age_days idna today url target_site =
     (case domain_registered_at target_site of
        None \<Rightarrow> Some None
      | Some registered \<Rightarrow>
          (case (domain_from_url idna url, domain_from_url idna (site_base_url target_site)) of
             (Some target, Some source) \<Rightarrow>
               (case (domain_matches idna target source, domain_matches idna source target) of
                  (Some a, Some b) \<Rightarrow>
                    Some (if a \<or> b then Some (max 0 (today - registered)) else None)
                | _ \<Rightarrow> None)
           | _ \<Rightarrow> None))"

definition approved_source :: "site \<Rightarrow> bool" where
  "approved_source s \<longleftrightarrow> site_platform s = Pool \<and> pool_source_approved s \<and> \<not> pool_source_quarantined s"

text \<open>\<open>domain.rsplit(".", 1)[-1]\<close>.\<close>

definition top_level :: "string \<Rightarrow> string" where
  "top_level d = rev (takeWhile (\<lambda>c. c \<noteq> CHR ''.'') (rev d))"

definition trust_score :: "bool \<Rightarrow> bool \<Rightarrow> bool \<Rightarrow> bool \<Rightarrow> bool \<Rightarrow> int option \<Rightarrow> int" where
  "trust_score https trusted_tld approved allowlisted open_list age =
     min 100 ((if https then 30 else 0) + (if trusted_tld then 15 else 0)
       + (if approved then 15 else 0)
       + (if allowlisted then 20 else if open_list then 10 else 0)
       + (case age of None \<Rightarrow> 0
          | Some d \<Rightarrow> if 365 \<le> d then 20 else if 180 \<le> d then 15 else if 30 \<le> d then 10 else 5))"

definition evaluate_external_url ::
  "idna \<Rightarrow> int \<Rightarrow> site \<Rightarrow> string \<Rightarrow> link_policy \<Rightarrow> string list \<Rightarrow> evaluation option" where
  "evaluate_external_url idna today target_site url policy owned_domains =
     (case domain_from_url idna url of
        None \<Rightarrow> Some \<lparr>te_domain = ''invalid'', te_score = 0, te_eligible = False,
                       te_reasons = [Invalid_domain]\<rparr>
      | Some domain \<Rightarrow>
          (case (domain_age_days idna today url target_site,
                 matches_any idna domain (lp_allow policy),
                 matches_any idna domain (lp_block policy),
                 matches_any idna domain (lp_competitors policy),
                 matches_any idna domain owned_domains) of
             (Some age, Some allowlisted, Some blocked, Some competitor, Some owned) \<Rightarrow>
               let https = (url_scheme url = ''https'');
                   trusted_tld = (lp_trusted_tlds policy = [] \<or> top_level domain \<in> set (lp_trusted_tlds policy));
                   score = trust_score https trusted_tld (approved_source target_site) allowlisted
                             (lp_allow policy = []) age;
                   reasons = reasons_when [(\<not> lp_enabled policy, Links_disabled),
                     (lp_require_https policy \<and> \<not> https, Https_required),
                     (\<not> approved_source target_site, Source_inactive),
                     (blocked, Blocklisted), (competitor, Competitor), (owned, Owned_domain),
                     (lp_min_age policy \<noteq> 0 \<and> age = None, Age_unknown),
                     (lp_min_age policy \<noteq> 0 \<and> (case age of None \<Rightarrow> False | Some d \<Rightarrow> d < lp_min_age policy),
                      Age_too_low),
                     (score < lp_min_trust policy, Trust_too_low)]
               in Some \<lparr>te_domain = domain, te_score = score, te_eligible = (reasons = []),
                        te_reasons = reasons\<rparr>
           | _ \<Rightarrow> None))"

section \<open>Retiring what the policy no longer allows\<close>

datatype verdict = Not_external | Judged evaluation

definition external_verdict ::
  "idna \<Rightarrow> int \<Rightarrow> site list \<Rightarrow> link_policy \<Rightarrow> string list \<Rightarrow> nat \<Rightarrow> article list \<Rightarrow> suggestion
     \<Rightarrow> verdict option" where
  "external_verdict idna today sites policy owned source_site articles s =
     (case sg_external_url s of
        Some url \<Rightarrow> map_option Judged (evaluate_web_search_url idna url policy owned)
      | None \<Rightarrow>
          (case (case sg_target s of None \<Rightarrow> None | Some t \<Rightarrow> get_row ar_id t articles) of
             None \<Rightarrow> Some Not_external
           | Some target \<Rightarrow>
               (case get_row site_id (ar_site target) sites of
                  None \<Rightarrow> None
                | Some target_site \<Rightarrow>
                    if site_id target_site = source_site then Some Not_external
                    else map_option Judged
                      (evaluate_external_url idna today target_site (ar_url target) policy owned))))"

definition is_ineligible :: "verdict option \<Rightarrow> bool" where
  "is_ineligible v = (case v of Some (Judged e) \<Rightarrow> \<not> te_eligible e | _ \<Rightarrow> False)"

fun status_name :: "suggestion_status \<Rightarrow> string" where
  "status_name Pending = ''pending''"
| "status_name Approved = ''approved''"
| "status_name Rejected = ''rejected''"
| "status_name Expired = ''expired''"
| "status_name Applying = ''applying''"
| "status_name Applied = ''applied''"
| "status_name Failed = ''failed''"

definition policy_event :: "string \<Rightarrow> suggestion \<Rightarrow> suggestion_event" where
  "policy_event actor s = \<lparr>ev_suggestion = sg_id s, ev_type = ''policy_expired'',
     ev_actor = str_take 255 actor,
     ev_details = [(''from_status'', JStr (status_name (sg_status s))),
                   (''to_status'', JStr ''expired'')]\<rparr>"

definition expire_ineligible_external_suggestions ::
  "idna \<Rightarrow> int \<Rightarrow> site list \<Rightarrow> link_policy list \<Rightarrow> nat \<Rightarrow> suggestion_status set \<Rightarrow> string \<Rightarrow> store
     \<Rightarrow> (store \<times> nat) option" where
  "expire_ineligible_external_suggestions idna today sites policies source_site statuses actor st =
     (case managed_domains idna sites of
        None \<Rightarrow> None
      | Some owned \<Rightarrow>
          let judge = external_verdict idna today sites (policy_state policies source_site) owned
                        source_site (st_articles st);
              selected = (\<lambda>s. sg_site s = source_site \<and> sg_status s \<in> statuses);
              rows = filter selected (st_suggestions st);
              expired = filter (\<lambda>s. is_ineligible (judge s)) rows
          in if \<exists>s\<in>set rows. judge s = None then None
             else Some (add_events (map (policy_event actor) expired)
                    (set_suggestions (\<lambda>s. selected s \<and> is_ineligible (judge s))
                       (\<lambda>s. s\<lparr>sg_status := Expired\<rparr>) st), length expired))"

section \<open>Properties\<close>

lemma no_reasons: "reasons_when checks = [] \<longleftrightarrow> (\<forall>(b, r)\<in>set checks. \<not> b)"
  by (auto simp: reasons_when_def filter_empty_conv)

lemma web_search_eligible:
  assumes "evaluate_web_search_url idna url policy owned = Some e" and "te_eligible e"
  shows "lp_enabled policy \<and> url_scheme url = ''https''
      \<and> (\<forall>r\<in>set (lp_block policy) \<union> set (lp_competitors policy) \<union> set owned.
           domain_matches idna (te_domain e) r = Some False)"
proof (cases "domain_from_url idna url")
  case None
  with assms show ?thesis by (auto simp: evaluate_web_search_url_def)
next
  case (Some domain)
  from assms Some obtain b c o' where m: "matches_any idna domain (lp_block policy) = Some b"
    "matches_any idna domain (lp_competitors policy) = Some c" "matches_any idna domain owned = Some o'"
    by (auto simp: evaluate_web_search_url_def split: option.splits)
  with assms Some have "te_domain e = domain" "lp_enabled policy" "url_scheme url = ''https''" "\<not> b" "\<not> c" "\<not> o'"
    by (auto simp: evaluate_web_search_url_def Let_def no_reasons)
  with m show ?thesis by (auto simp: matches_any_False)
qed

lemma trust_score_le: "trust_score a b c d e f \<le> 100"
  by (simp add: trust_score_def)

lemma external_eligible:
  assumes "evaluate_external_url idna today target_site url policy owned = Some e" and "te_eligible e"
  shows "lp_enabled policy \<and> (lp_require_https policy \<longrightarrow> url_scheme url = ''https'')
      \<and> approved_source target_site
      \<and> domain_from_url idna url = Some (te_domain e)
      \<and> (\<forall>r\<in>set (lp_block policy) \<union> set (lp_competitors policy) \<union> set owned.
           domain_matches idna (te_domain e) r = Some False)
      \<and> lp_min_trust policy \<le> te_score e \<and> te_score e \<le> 100
      \<and> (lp_min_age policy \<noteq> 0 \<longrightarrow> (\<exists>d. domain_age_days idna today url target_site = Some (Some d)
           \<and> lp_min_age policy \<le> d))"
proof (cases "domain_from_url idna url")
  case None
  with assms show ?thesis by (auto simp: evaluate_external_url_def)
next
  case (Some domain)
  from assms Some obtain age al b c o' where m: "domain_age_days idna today url target_site = Some age"
    "matches_any idna domain (lp_allow policy) = Some al" "matches_any idna domain (lp_block policy) = Some b"
    "matches_any idna domain (lp_competitors policy) = Some c" "matches_any idna domain owned = Some o'"
    by (auto simp: evaluate_external_url_def split: option.splits)
  define score where "score = trust_score (url_scheme url = ''https'')
    (lp_trusted_tlds policy = [] \<or> top_level domain \<in> set (lp_trusted_tlds policy))
    (approved_source target_site) al (lp_allow policy = []) age"
  from assms Some m have e: "te_domain e = domain" "te_score e = score" "lp_enabled policy"
    "lp_require_https policy \<longrightarrow> url_scheme url = ''https''" "approved_source target_site"
    "\<not> b" "\<not> c" "\<not> o'" "\<not> (lp_min_age policy \<noteq> 0 \<and> age = None)"
    "\<not> (lp_min_age policy \<noteq> 0 \<and> (case age of None \<Rightarrow> False | Some d \<Rightarrow> d < lp_min_age policy))"
    "\<not> score < lp_min_trust policy"
    by (auto simp: evaluate_external_url_def Let_def score_def [symmetric] no_reasons)
  have "lp_min_age policy \<noteq> 0 \<longrightarrow> (\<exists>d. age = Some d \<and> lp_min_age policy \<le> d)"
    using e(9,10) by (cases age) auto
  moreover have "score \<le> 100" by (simp add: score_def trust_score_le)
  ultimately show ?thesis using m e Some by (auto simp: matches_any_False)
qed

text \<open>C35. The hard guards are hard: an external target that is judged eligible has links enabled, an
  HTTPS address where the policy wants one, an approved and unquarantined content-pool source, a
  domain that neither is nor lies under any blocklisted, competing or managed domain, the required
  age, and a score between the policy's minimum and 100; a web-search target likewise, always over
  HTTPS.\<close>

theorem eligible_target_passes_every_guard:
  "(\<forall>e. evaluate_external_url idna today target_site url policy owned = Some e \<and> te_eligible e \<longrightarrow>
      lp_enabled policy \<and> (lp_require_https policy \<longrightarrow> url_scheme url = ''https'')
      \<and> approved_source target_site
      \<and> domain_from_url idna url = Some (te_domain e)
      \<and> (\<forall>r\<in>set (lp_block policy) \<union> set (lp_competitors policy) \<union> set owned.
           domain_matches idna (te_domain e) r = Some False)
      \<and> lp_min_trust policy \<le> te_score e \<and> te_score e \<le> 100
      \<and> (lp_min_age policy \<noteq> 0 \<longrightarrow> (\<exists>d. domain_age_days idna today url target_site = Some (Some d)
           \<and> lp_min_age policy \<le> d)))
    \<and> (\<forall>e. evaluate_web_search_url idna url policy owned = Some e \<and> te_eligible e \<longrightarrow>
      lp_enabled policy \<and> url_scheme url = ''https''
      \<and> (\<forall>r\<in>set (lp_block policy) \<union> set (lp_competitors policy) \<union> set owned.
           domain_matches idna (te_domain e) r = Some False))"
  using external_eligible web_search_eligible by blast

lemma eligible_target_passes_every_guard_witness:
  "\<exists>idna s policy e. evaluate_external_url idna 20000 s ''https://Blog.Example.com/a'' policy [''client.net''] = Some e
     \<and> te_eligible e \<and> te_score e = 75 \<and> domain_matches idna (te_domain e) ''client.net'' = Some False"
proof -
  define s where "s = \<lparr>site_id = 3, site_tenant = 9, site_base_url = ''https://example.com'',
    site_platform = Pool, wp_username = None, pool_source_approved = True,
    pool_source_failures = 0, pool_source_quarantined = False,
    pool_source_quarantine_reason = None, domain_registered_at = Some 19990\<rparr>"
  define policy where "policy = \<lparr>lp_site = 1, lp_enabled = True, lp_require_https = True,
    lp_min_trust = 60, lp_min_age = 10, lp_trusted_tlds = [], lp_allow = [],
    lp_block = [''evil.org''], lp_competitors = []\<rparr>"
  define e where "e = \<lparr>te_domain = ''blog.example.com'', te_score = 75, te_eligible = True, te_reasons = []\<rparr>"
  have *: "evaluate_external_url Some 20000 s ''https://Blog.Example.com/a'' policy [''client.net''] = Some e"
    unfolding s_def policy_def e_def by code_simp
  from eligible_target_passes_every_guard [of Some 20000 s "''https://Blog.Example.com/a''" policy "[''client.net'']"] *
  have "domain_matches Some (te_domain e) ''client.net'' = Some False" by (auto simp: e_def)
  with * show ?thesis by (intro exI [of _ Some] exI [of _ s] exI [of _ policy] exI [of _ e]) (simp add: e_def)
qed

text \<open>A policy change is enforced exactly: after the retirement pass, no suggestion of the site in
  the given statuses is ineligible under the policy, so a second pass changes nothing; the pass
  touches only such suggestions, only their status, and leaves one event for each.\<close>

lemma policy_is_enforced_exactly:
  assumes "expire_ineligible_external_suggestions idna today sites policies source_site statuses actor st = Some (st', n)"
    and "Expired \<notin> statuses"
  shows "expire_ineligible_external_suggestions idna today sites policies source_site statuses actor st' = Some (st', 0)
    \<and> length (st_events st') = length (st_events st) + n
    \<and> st_plans st' = st_plans st \<and> st_articles st' = st_articles st
    \<and> list_all2 (\<lambda>s s'. s' = s \<or> sg_site s = source_site \<and> sg_status s \<in> statuses
        \<and> s' = s\<lparr>sg_status := Expired\<rparr>) (st_suggestions st) (st_suggestions st')"
proof -
  obtain owned where owned: "managed_domains idna sites = Some owned"
    using assms(1) by (cases "managed_domains idna sites")
      (auto simp: expire_ineligible_external_suggestions_def)
  define judge where "judge = external_verdict idna today sites (policy_state policies source_site) owned
      source_site (st_articles st)"
  define sel where "sel = (\<lambda>s::suggestion. sg_site s = source_site \<and> sg_status s \<in> statuses)"
  define P where "P = (\<lambda>s::suggestion. sel s \<and> is_ineligible (judge s))"
  note u = expire_ineligible_external_suggestions_def owned option.case Let_def
  from assms(1) have judged: "\<forall>s\<in>set (filter sel (st_suggestions st)). judge s \<noteq> None"
    and st': "st' = add_events (map (policy_event actor) (filter (\<lambda>s. is_ineligible (judge s)) (filter sel (st_suggestions st))))
        (set_suggestions P (\<lambda>s. s\<lparr>sg_status := Expired\<rparr>) st)"
    and n: "n = length (filter (\<lambda>s. is_ineligible (judge s)) (filter sel (st_suggestions st)))"
    unfolding u judge_def [symmetric] sel_def [symmetric] P_def by (auto split: if_splits)
  have judge': "external_verdict idna today sites (policy_state policies source_site) owned
      source_site (st_articles st') = judge" by (simp add: st' judge_def)
  have keep: "filter sel (st_suggestions st') = filter (\<lambda>s. \<not> is_ineligible (judge s)) (filter sel (st_suggestions st))"
  proof -
    have "filter sel (update_where P (\<lambda>s. s\<lparr>sg_status := Expired\<rparr>) rows)
        = filter (\<lambda>s. \<not> is_ineligible (judge s)) (filter sel rows)" for rows
      by (induction rows) (use assms(2) in \<open>auto simp: P_def sel_def\<close>)
    then show ?thesis by (simp add: st')
  qed
  have none: "\<forall>s\<in>set (st_suggestions st'). \<not> P s"
  proof (intro ballI notI)
    fix s assume "s \<in> set (st_suggestions st')" "P s"
    then have "s \<in> set (filter sel (st_suggestions st'))" "is_ineligible (judge s)" by (simp_all add: P_def)
    then show False by (simp add: keep)
  qed
  have "expire_ineligible_external_suggestions idna today sites policies source_site statuses actor st'
      = Some (add_events [] (set_suggestions P (\<lambda>s. s\<lparr>sg_status := Expired\<rparr>) st'), 0)"
    unfolding u judge' sel_def [symmetric] keep P_def [symmetric] using judged by auto
  also have "add_events [] (set_suggestions P (\<lambda>s. s\<lparr>sg_status := Expired\<rparr>) st') = st'"
    using update_where_none [OF none, of "\<lambda>s. s\<lparr>sg_status := Expired\<rparr>"] by (simp add: add_events_def set_suggestions_def)
  finally have again: "expire_ineligible_external_suggestions idna today sites policies source_site statuses actor st'
      = Some (st', 0)" .
  have "list_all2 (\<lambda>s s'. s' = s \<or> sel s \<and> s' = s\<lparr>sg_status := Expired\<rparr>) rows
      (update_where P (\<lambda>s. s\<lparr>sg_status := Expired\<rparr>) rows)" for rows
    by (induction rows) (auto simp: P_def)
  then have "list_all2 (\<lambda>s s'. s' = s \<or> sel s \<and> s' = s\<lparr>sg_status := Expired\<rparr>)
      (st_suggestions st) (st_suggestions st')" by (simp add: st')
  with again n show ?thesis by (simp add: st' sel_def)
qed

lemma policy_is_enforced_exactly_witness:
  "\<exists>sites st st'. expire_ineligible_external_suggestions Some 0 sites [] 7 {Pending, Approved} ''ann'' st = Some (st', 1)
     \<and> expire_ineligible_external_suggestions Some 0 sites [] 7 {Pending, Approved} ''ann'' st' = Some (st', 0)"
proof -
  define s where "s = new_suggestion 1 7 2 None (Some ''https://x.org/'') External_search 0"
  define st where "st = \<lparr>st_articles = [], st_suggestions = [s], st_plans = [], st_events = []\<rparr>"
  have "\<exists>st'. expire_ineligible_external_suggestions Some 0 [] [] 7 {Pending, Approved} ''ann'' st = Some (st', 1)"
  proof -
    have "external_verdict Some 0 [] (policy_state [] 7) [] 7 [] s
        = Some (Judged \<lparr>te_domain = ''x.org'', te_score = 0, te_eligible = False, te_reasons = [Links_disabled]\<rparr>)"
      unfolding s_def by code_simp
    then show ?thesis
      by (simp add: expire_ineligible_external_suggestions_def st_def managed_domains_def is_ineligible_def)
        (simp add: s_def new_suggestion_def)
  qed
  then obtain st' where *: "expire_ineligible_external_suggestions Some 0 [] [] 7 {Pending, Approved} ''ann'' st = Some (st', 1)"
    by blast
  from policy_is_enforced_exactly [OF this] * show ?thesis by blast
qed

end
