(* ===== verification/PublicationWorker.thy ===== *)
theory PublicationWorker
  imports PublicationPlans PublicationProgress ExternalPolicy
begin

text \<open>
  The publication worker, \<^verbatim>\<open>app/tasks/publication.py\<close>, with \<open>apply_planned_edit\<close> of
  \<^verbatim>\<open>app/connectors/wordpress.py\<close>. One \<open>worker\<close> value is the committed database, the counters of
  the run, the live WordPress posts and the log of every write sent to WordPress. What the network
  does during one plan is a \<open>net\<close>: whether the read succeeds, what becomes of the write (WordPress
  may store something else than it was sent, and its answer may be lost), and whether the closing
  database commit succeeds.
\<close>

section \<open>One edit\<close>

datatype post_result = Post_rejected | Post_stored string bool

record net =
  net_read :: bool
  net_post :: post_result
  net_commit :: bool

datatype edit_result = Written | Already_applied | Edit_stale | Edit_failed

type_synonym live = "string \<Rightarrow> string option"

definition apply_planned_edit ::
  "net \<Rightarrow> live \<Rightarrow> article \<Rightarrow> string \<Rightarrow> string \<Rightarrow> edit_result \<times> live \<times> (string \<times> string) list" where
  "apply_planned_edit net live source original updated =
     (if \<not> truthy (ar_external_id source) then (Edit_failed, live, [])
      else
        let ext = or_else (ar_external_id source) []
        in case (if net_read net then live ext else None) of
             None \<Rightarrow> (Edit_failed, live, [])
           | Some content \<Rightarrow>
               if content = updated then (Already_applied, live, [])
               else if content \<noteq> original then (Edit_stale, live, [])
               else case net_post net of
                      Post_rejected \<Rightarrow> (Edit_failed, live, [(ext, updated)])
                    | Post_stored stored answered \<Rightarrow>
                        (if answered then Written else Edit_failed,
                         live(ext \<mapsto> stored), [(ext, updated)]))"

section \<open>Retiring plans and counting attempts\<close>

record worker =
  wk_store :: store
  wk_progress :: progress
  wk_totals :: "string \<Rightarrow> nat"
  wk_retryable :: bool
  wk_live :: live
  wk_sent :: "(string \<times> string) list"

definition handle_stale_plan :: "time \<Rightarrow> nat \<Rightarrow> string \<Rightarrow> nat \<Rightarrow> worker \<Rightarrow> worker" where
  "handle_stale_plan now i reason items w =
     w\<lparr>wk_store := (case find_plan (wk_store w) i of
          Some p \<Rightarrow> if pl_status p = Plan_approved then mark_stale now reason i (wk_store w) else wk_store w
        | None \<Rightarrow> wk_store w),
       wk_progress := (record_publication_skip ^^ items) (wk_progress w)\<rparr>"

definition failed_plan :: "time \<Rightarrow> string \<Rightarrow> plan \<Rightarrow> plan" where
  "failed_plan now reason p = p\<lparr>pl_status := Plan_failed, pl_invalidated_at := Some now,
     pl_failure := Some (str_take 500 reason)\<rparr>"

definition fail_plan :: "time \<Rightarrow> string \<Rightarrow> nat \<Rightarrow> store \<Rightarrow> store" where
  "fail_plan now reason i st =
     (case find_plan st i of
        Some p \<Rightarrow>
          if pl_status p = Plan_approved then
            set_suggestions (\<lambda>s. sg_plan s = Some i)
              (\<lambda>s. s\<lparr>sg_status := Failed, sg_error := Some (str_take 2000 reason)\<rparr>)
              (set_plans (\<lambda>p. pl_id p = i) (failed_plan now reason) st)
          else st
      | None \<Rightarrow> st)"

definition attempt_event :: "string \<Rightarrow> suggestion \<Rightarrow> suggestion_event" where
  "attempt_event reason s = \<lparr>ev_suggestion = sg_id s, ev_type = ''publish_attempt_failed'',
     ev_actor = ''system:publication'',
     ev_details = [(''reason'', JStr (str_take 2000 reason)), (''attempt'', JInt (int (sg_attempts s))),
                   (''terminal'', JBool (sg_status s = Failed))]\<rparr>"

text \<open>Count one attempt, then quarantine the rows that reached the limit.\<close>

definition charge :: "nat \<Rightarrow> string \<Rightarrow> suggestion \<Rightarrow> suggestion" where
  "charge limit reason s =
     (let s' = s\<lparr>sg_attempts := sg_attempts s + 1, sg_error := Some (str_take 2000 reason)\<rparr>
      in if limit \<le> sg_attempts s' then s'\<lparr>sg_status := Failed\<rparr> else s')"

definition record_attempt_failure :: "nat \<Rightarrow> nat list \<Rightarrow> string \<Rightarrow> store \<Rightarrow> store \<times> nat" where
  "record_attempt_failure limit ids reason st =
     (if ids = [] then (st, 0)
      else
        let charged = (\<lambda>s. sg_id s \<in> set ids \<and> sg_status s = Approved);
            st' = set_suggestions charged (charge limit reason) st;
            updated = map (charge limit reason) (filter charged (st_suggestions st))
        in (add_events (map (attempt_event reason) updated) st',
            length (filter (\<lambda>s. sg_status s = Failed) updated)))"

section \<open>One plan\<close>

definition bound_rows :: "store \<Rightarrow> nat \<Rightarrow> suggestion list" where
  "bound_rows st i = sort_key sg_id (filter (\<lambda>s. sg_plan s = Some i) (st_suggestions st))"

definition applied_row :: "time \<Rightarrow> plan_item list \<Rightarrow> suggestion \<Rightarrow> suggestion" where
  "applied_row now items s = s\<lparr>sg_status := Applied, sg_applied_at := Some now,
     sg_outcome := map_of (rev (map (\<lambda>it. (it_suggestion it, it_outcome it)) items)) (sg_id s),
     sg_attempts := 0, sg_error := None\<rparr>"

definition applied_plan :: "time \<Rightarrow> plan \<Rightarrow> plan" where
  "applied_plan now p = p\<lparr>pl_status := Plan_applied, pl_applied_at := Some now\<rparr>"

definition finalize_plan :: "time \<Rightarrow> plan \<Rightarrow> worker \<Rightarrow> worker" where
  "finalize_plan now p w =
     w\<lparr>wk_store := set_plans (\<lambda>q. pl_id q = pl_id p) (applied_plan now)
          (set_suggestions (\<lambda>s. sg_plan s = Some (pl_id p) \<and> sg_id s \<in> it_suggestion ` set (pl_items p))
             (applied_row now (pl_items p)) (wk_store w)),
       wk_progress := (record_publication_applied ^^ length (pl_items p)) (wk_progress w),
       wk_totals := fold (\<lambda>it t. t(it_outcome it := t (it_outcome it) + 1)) (pl_items p) (wk_totals w)\<rparr>"

text \<open>An integrity error: the plan is retired without a retry.\<close>

definition refuse_plan :: "time \<Rightarrow> nat \<Rightarrow> string \<Rightarrow> nat \<Rightarrow> worker \<Rightarrow> worker" where
  "refuse_plan now i reason items w =
     w\<lparr>wk_store := fail_plan now reason i (wk_store w),
       wk_progress := (record_publication_failure ^^ items) (wk_progress w)\<rparr>"

text \<open>Any other error: \<open>charge_suggestions\<close> is set only at the WordPress boundary.\<close>

definition retry_plan ::
  "nat \<Rightarrow> time \<Rightarrow> nat \<Rightarrow> string \<Rightarrow> nat \<Rightarrow> nat list \<Rightarrow> bool \<Rightarrow> worker \<Rightarrow> worker" where
  "retry_plan limit now i reason items attempted charge_suggestions w =
     (let (st, quarantined) = (if charge_suggestions
            then record_attempt_failure limit attempted reason (wk_store w) else (wk_store w, 0));
          exhausted = (attempted \<noteq> [] \<and> length attempted \<le> quarantined)
      in w\<lparr>wk_store := (if exhausted then fail_plan now reason i st else st),
           wk_retryable := (wk_retryable w \<or> \<not> exhausted),
           wk_progress := (record_publication_failure ^^ items) (wk_progress w)\<rparr>)"

definition publish_plan ::
  "(string \<Rightarrow> string) \<Rightarrow> nat \<Rightarrow> time \<Rightarrow> net \<Rightarrow> plan \<Rightarrow> worker \<Rightarrow> worker" where
  "publish_plan sha limit now net batched w =
     (let st = wk_store w; i = pl_id batched; items = length (pl_items batched) in
      case find_plan st i of
        None \<Rightarrow> w\<lparr>wk_progress := (record_publication_skip ^^ items) (wk_progress w)\<rparr>
      | Some locked \<Rightarrow>
          if pl_status locked \<noteq> Plan_approved
          then w\<lparr>wk_progress := (record_publication_skip ^^ items) (wk_progress w)\<rparr>
          else
            let rows = bound_rows st i in
            if \<exists>s\<in>set rows. sg_status s \<noteq> Approved
            then handle_stale_plan now i ''bound suggestions are no longer approved'' items w
            else if \<not> verify_integrity sha locked then refuse_plan now i ''integrity'' items w
            else case get_row ar_id (pl_source batched) (st_articles st) of
                   None \<Rightarrow> refuse_plan now i ''source article no longer exists'' items w
                 | Some source \<Rightarrow>
                     (case apply_planned_edit net (wk_live w) source (pl_original locked) (pl_updated locked) of
                        (res, live, sent) \<Rightarrow>
                          let w' = w\<lparr>wk_live := live, wk_sent := wk_sent w @ sent\<rparr>
                          in case res of
                               Edit_stale \<Rightarrow> handle_stale_plan now i ''the article changed'' items w'
                             | Edit_failed \<Rightarrow>
                                 retry_plan limit now i ''WordPress'' items (map sg_id rows) True w'
                             | _ \<Rightarrow>
                                 if net_commit net then finalize_plan now locked w'
                                 else retry_plan limit now i ''database'' items (map sg_id rows) False w'))"

section \<open>A run\<close>

fun publish_loop ::
  "(string \<Rightarrow> string) \<Rightarrow> nat \<Rightarrow> time \<Rightarrow> (nat \<Rightarrow> net) \<Rightarrow> plan list \<Rightarrow> worker \<Rightarrow> worker" where
  "publish_loop sha limit now nets [] w = w"
| "publish_loop sha limit now nets (p # plans) w =
     publish_loop sha limit now nets plans (publish_plan sha limit now (nets (pl_id p)) p w)"

datatype publish_result = Run_completed | Run_retryable | Run_not_retryable

definition close_run :: "worker \<Rightarrow> worker \<times> publish_result" where
  "close_run w =
     (if count_of (wk_progress w) ''attempt_failed'' 0 \<noteq> 0
      then (w, if wk_retryable w then Run_retryable else Run_not_retryable)
      else (w\<lparr>wk_progress := complete_publication_success (wk_progress w)\<rparr>, Run_completed))"

text \<open>\<open>None\<close>: the site is gone or the policy pass raised; nothing was committed.\<close>

definition publish_approved_plans ::
  "(string \<Rightarrow> string) \<Rightarrow> nat \<Rightarrow> idna \<Rightarrow> int \<Rightarrow> site list \<Rightarrow> link_policy list \<Rightarrow> time \<Rightarrow> (nat \<Rightarrow> net)
     \<Rightarrow> nat \<Rightarrow> nat list option \<Rightarrow> progress option \<Rightarrow> store \<Rightarrow> live
     \<Rightarrow> (worker \<times> publish_result) option" where
  "publish_approved_plans sha limit idna today sites policies now nets site plan_ids previous st live =
     (case get_row site_id site sites of
        None \<Rightarrow> None
      | Some s \<Rightarrow>
          (case expire_ineligible_external_suggestions idna today sites policies site {Approved}
                  ''system:publication-policy'' st of
             None \<Rightarrow> None
           | Some (st', policy_expired) \<Rightarrow>
               let plans = load_approved_plans st' site plan_ids;
                   batch = sum_list (map (\<lambda>p. length (pl_items p)) plans)
               in Some (close_run (publish_loop sha limit now nets plans
                    \<lparr>wk_store = st', wk_progress = begin_publication_attempt previous batch,
                     wk_totals = resume_outcome_counts previous, wk_retryable = False,
                     wk_live = live, wk_sent = []\<rparr>))))"

section \<open>What reaches WordPress\<close>

lemma apply_planned_edit_sent:
  assumes "apply_planned_edit net live source original updated = (res, live', sent)"
  shows "sent = [] \<and> live' = live
    \<or> (\<exists>ext. ar_external_id source = Some ext \<and> ext \<noteq> [] \<and> live ext = Some original
        \<and> sent = [(ext, updated)] \<and> res \<noteq> Already_applied \<and> res \<noteq> Edit_stale
        \<and> (live' = live \<or> (\<exists>c b. net_post net = Post_stored c b \<and> live' = live(ext \<mapsto> c))))"
  using assms by (auto simp: apply_planned_edit_def Let_def truthy_def
      split: option.splits if_splits post_result.splits)

lemma handle_stale_frame [simp]:
  "wk_sent (handle_stale_plan now i reason items w) = wk_sent w"
  "wk_live (handle_stale_plan now i reason items w) = wk_live w"
  by (simp_all add: handle_stale_plan_def)

lemma refuse_frame [simp]:
  "wk_sent (refuse_plan now i reason items w) = wk_sent w"
  "wk_live (refuse_plan now i reason items w) = wk_live w"
  by (simp_all add: refuse_plan_def)

lemma retry_frame [simp]:
  "wk_sent (retry_plan limit now i reason items attempted c w) = wk_sent w"
  "wk_live (retry_plan limit now i reason items attempted c w) = wk_live w"
  by (simp_all add: retry_plan_def Let_def split_beta)

lemma finalize_frame [simp]:
  "wk_sent (finalize_plan now p w) = wk_sent w"
  "wk_live (finalize_plan now p w) = wk_live w"
  by (simp_all add: finalize_plan_def)

text \<open>The ways one plan can go.\<close>

definition ready :: "(string \<Rightarrow> string) \<Rightarrow> worker \<Rightarrow> plan \<Rightarrow> plan \<Rightarrow> article \<Rightarrow> bool" where
  "ready sha w batched p source \<longleftrightarrow> find_plan (wk_store w) (pl_id batched) = Some p
     \<and> pl_status p = Plan_approved \<and> (\<forall>s\<in>set (bound_rows (wk_store w) (pl_id batched)). sg_status s = Approved)
     \<and> verify_integrity sha p \<and> get_row ar_id (pl_source batched) (st_articles (wk_store w)) = Some source"

lemma publish_plan_ready:
  assumes "ready sha w batched p source"
    and "apply_planned_edit net (wk_live w) source (pl_original p) (pl_updated p) = (res, live, sent)"
  shows "publish_plan sha limit now net batched w =
    (let w' = w\<lparr>wk_live := live, wk_sent := wk_sent w @ sent\<rparr>;
         items = length (pl_items batched); ids = map sg_id (bound_rows (wk_store w) (pl_id batched))
     in case res of
          Edit_stale \<Rightarrow> handle_stale_plan now (pl_id batched) ''the article changed'' items w'
        | Edit_failed \<Rightarrow> retry_plan limit now (pl_id batched) ''WordPress'' items ids True w'
        | _ \<Rightarrow> if net_commit net then finalize_plan now p w'
               else retry_plan limit now (pl_id batched) ''database'' items ids False w')"
  using assms by (auto simp: publish_plan_def ready_def Let_def)

lemma publish_plan_not_ready:
  assumes "\<nexists>p source. ready sha w batched p source"
  shows "wk_sent (publish_plan sha limit now net batched w) = wk_sent w
    \<and> wk_live (publish_plan sha limit now net batched w) = wk_live w"
  using assms by (auto simp: publish_plan_def ready_def Let_def split: option.splits)

section \<open>Artifacts never change\<close>

definition frozen :: "plan \<Rightarrow> nat \<times> nat \<times> nat \<times> string \<times> string \<times> string \<times> plan_item list \<times> string
  \<times> string option \<times> string option" where
  "frozen p = (pl_id p, pl_site p, pl_source p, pl_source_url p, pl_original p, pl_updated p,
     pl_items p, pl_hash p, pl_approved_hash p, pl_approved_by p)"

text \<open>Every change of a plan row by the worker keeps the artifact and leaves \<open>approved\<close>.\<close>

definition retires :: "(plan \<Rightarrow> plan) \<Rightarrow> bool" where
  "retires f \<longleftrightarrow> (\<forall>p. frozen (f p) = frozen p \<and> pl_status (f p) \<noteq> Plan_approved
     \<and> pl_status (f p) \<noteq> Plan_prepared)"

lemma retires_worker [simp]:
  "retires (stale_plan now reason)" "retires (failed_plan now reason)" "retires (applied_plan now)"
  by (simp_all add: retires_def frozen_def stale_plan_def failed_plan_def applied_plan_def)

definition plans_only_retired :: "store \<Rightarrow> store \<Rightarrow> bool" where
  "plans_only_retired st st' \<longleftrightarrow>
     list_all2 (\<lambda>p p'. p' = p \<or> frozen p' = frozen p \<and> pl_status p = Plan_approved
        \<and> pl_status p' \<in> {Plan_stale, Plan_failed, Plan_applied})
       (st_plans st) (st_plans st')
     \<and> map sg_id (st_suggestions st') = map sg_id (st_suggestions st)
     \<and> st_articles st' = st_articles st"

lemma plans_only_retired_refl [simp]: "plans_only_retired st st"
  by (simp add: plans_only_retired_def list_all2_refl)

lemma map_sg_id_update: "(\<And>s. sg_id (f s) = sg_id s) \<Longrightarrow> map sg_id (update_where P f rows) = map sg_id rows"
  by (induction rows) auto

lemma retire_one:
  assumes "primary pl_id plans" and "q \<in> set plans" and "pl_status q = Plan_approved"
    and "\<And>p. frozen (f p) = frozen p \<and> pl_status (f p) \<in> {Plan_stale, Plan_failed, Plan_applied}"
  shows "list_all2 (\<lambda>p p'. p' = p \<or> frozen p' = frozen p \<and> pl_status p = Plan_approved
        \<and> pl_status p' \<in> {Plan_stale, Plan_failed, Plan_applied})
       plans (update_where (\<lambda>p. pl_id p = pl_id q) f plans)"
proof -
  have "\<forall>p\<in>set plans. pl_id p = pl_id q \<longrightarrow> pl_status p = Plan_approved"
    using primary_same [OF assms(1) _ assms(2)] assms(3) by blast
  then show ?thesis using assms(4) by (induction plans) auto
qed

lemma find_plan_Some: "find_plan st i = Some p \<Longrightarrow> p \<in> set (st_plans st) \<and> pl_id p = i"
  unfolding find_plan_def by (rule get_row_Some)

lemma mark_stale_retires:
  assumes "primary pl_id (st_plans st)" and "find_plan st i = Some p" and "pl_status p = Plan_approved"
  shows "plans_only_retired st (mark_stale now reason i st)"
  using retire_one [OF assms(1), of p "stale_plan now reason"] find_plan_Some [OF assms(2)] assms(3)
  by (auto simp: plans_only_retired_def mark_stale_def map_sg_id_update stale_plan_def frozen_def)

lemma fail_plan_retires:
  assumes "primary pl_id (st_plans st)"
  shows "plans_only_retired st (fail_plan now reason i st)"
proof (cases "\<exists>p. find_plan st i = Some p \<and> pl_status p = Plan_approved")
  case True
  then obtain p where p: "find_plan st i = Some p" "pl_status p = Plan_approved" by blast
  with retire_one [OF assms, of p "failed_plan now reason"] find_plan_Some [OF p(1)] show ?thesis
    by (auto simp: plans_only_retired_def fail_plan_def map_sg_id_update failed_plan_def frozen_def)
qed (auto simp: fail_plan_def split: option.splits)

lemma finalize_retires:
  assumes "primary pl_id (st_plans (wk_store w))" and "p \<in> set (st_plans (wk_store w))"
    and "pl_status p = Plan_approved"
  shows "plans_only_retired (wk_store w) (wk_store (finalize_plan now p w))"
  using retire_one [OF assms(1,2,3), of "applied_plan now"]
  by (auto simp: plans_only_retired_def finalize_plan_def map_sg_id_update applied_row_def
      applied_plan_def frozen_def)

lemma charge_frame [simp]:
  "sg_id (charge limit reason s) = sg_id s" "sg_plan (charge limit reason s) = sg_plan s"
  by (simp_all add: charge_def Let_def)

lemma attempt_failure_frame:
  assumes "record_attempt_failure limit ids reason st = (st', n)"
  shows "st_plans st' = st_plans st" "st_articles st' = st_articles st"
    "map sg_id (st_suggestions st') = map sg_id (st_suggestions st)"
  using assms by (auto simp: record_attempt_failure_def Let_def map_sg_id_update split: if_splits)

lemma retry_retires:
  assumes "primary pl_id (st_plans (wk_store w))"
  shows "plans_only_retired (wk_store w) (wk_store (retry_plan limit now i reason items attempted c w))"
proof -
  obtain st q where st: "(if c then record_attempt_failure limit attempted reason (wk_store w)
      else (wk_store w, 0)) = (st, q)" by fastforce
  then have frame: "st_plans st = st_plans (wk_store w)" "st_articles st = st_articles (wk_store w)"
    "map sg_id (st_suggestions st) = map sg_id (st_suggestions (wk_store w))"
    using attempt_failure_frame by (auto split: if_splits)
  then have "plans_only_retired st (fail_plan now reason i st)"
    using fail_plan_retires assms by simp
  then show ?thesis using frame st
    by (auto simp: retry_plan_def Let_def plans_only_retired_def list_all2_refl)
qed

lemma publish_plan_retires:
  assumes "primary pl_id (st_plans (wk_store w))"
  shows "plans_only_retired (wk_store w) (wk_store (publish_plan sha limit now net batched w))"
proof -
  have stale: "plans_only_retired (wk_store v) (wk_store (handle_stale_plan now i reason items v))"
    if "wk_store v = wk_store w" for v i reason items
    using mark_stale_retires [of "wk_store w" i] assms that
    by (auto simp: handle_stale_plan_def split: option.splits)
  have refuse: "plans_only_retired (wk_store w) (wk_store (refuse_plan now i reason items w))" for i reason items
    using fail_plan_retires assms by (simp add: refuse_plan_def)
  show ?thesis
  proof (cases "\<exists>p source. ready sha w batched p source")
    case True
    then obtain p source where ready: "ready sha w batched p source" by blast
    obtain res live sent where edit: "apply_planned_edit net (wk_live w) source (pl_original p) (pl_updated p)
        = (res, live, sent)" by (metis prod_cases3)
    let ?w = "w\<lparr>wk_live := live, wk_sent := wk_sent w @ sent\<rparr>"
    have p: "p \<in> set (st_plans (wk_store w))" "pl_status p = Plan_approved"
      using ready find_plan_Some by (auto simp: ready_def)
    show ?thesis unfolding publish_plan_ready [OF ready edit] Let_def
      using stale [of ?w] retry_retires [of ?w] finalize_retires [of ?w p] p assms
      by (simp split: edit_result.split)
  next
    case False
    with stale [of w] refuse show ?thesis
      by (auto simp: publish_plan_def ready_def Let_def split: option.splits)
  qed
qed

lemma plans_only_retired_primary:
  "plans_only_retired st st' \<Longrightarrow> primary pl_id (st_plans st) \<Longrightarrow> primary pl_id (st_plans st')"
proof -
  assume r: "plans_only_retired st st'" and prim: "primary pl_id (st_plans st)"
  from r have "list_all2 (\<lambda>p p'. pl_id p' = pl_id p) (st_plans st) (st_plans st')"
    unfolding plans_only_retired_def by (auto simp: frozen_def elim!: list_all2_mono)
  then have "map pl_id (st_plans st') = map pl_id (st_plans st)" by (induction rule: list_all2_induct) auto
  with prim show ?thesis by (simp add: primary_def)
qed

lemma plans_only_retired_back:
  assumes "plans_only_retired st st'" and "p' \<in> set (st_plans st')"
  obtains p where "p \<in> set (st_plans st)" and "frozen p' = frozen p"
    and "pl_status p' = Plan_approved \<Longrightarrow> p' = p"
proof -
  from list_all2_right [OF conjunct1 [OF assms(1) [unfolded plans_only_retired_def]] assms(2)]
  obtain p where "p \<in> set (st_plans st)" "p' = p \<or> frozen p' = frozen p \<and> pl_status p = Plan_approved
        \<and> pl_status p' \<in> {Plan_stale, Plan_failed, Plan_applied}" by blast
  with that show thesis by auto
qed

lemma frozen_items: "frozen p = frozen q \<Longrightarrow> pl_id p = pl_id q \<and> pl_items p = pl_items q
    \<and> pl_updated p = pl_updated q \<and> pl_original p = pl_original q"
  by (simp add: frozen_def)

lemma plans_only_retired_trans:
  assumes "plans_only_retired a b" and "plans_only_retired b c"
  shows "plans_only_retired a c"
proof -
  let ?R = "\<lambda>p p'. p' = p \<or> frozen p' = frozen p \<and> pl_status p = Plan_approved
        \<and> pl_status p' \<in> {Plan_stale, Plan_failed, Plan_applied}"
  have "list_all2 ?R (st_plans a) (st_plans c)"
  proof (rule list_all2_trans [of ?R ?R ?R "st_plans a" "st_plans b" "st_plans c"])
    show "list_all2 ?R (st_plans a) (st_plans b)" "list_all2 ?R (st_plans b) (st_plans c)"
      using assms by (simp_all add: plans_only_retired_def)
  qed auto
  with assms show ?thesis by (simp add: plans_only_retired_def)
qed

lemma publish_loop_retires:
  "primary pl_id (st_plans (wk_store w))
    \<Longrightarrow> plans_only_retired (wk_store w) (wk_store (publish_loop sha limit now nets plans w))"
proof (induction plans arbitrary: w)
  case (Cons p plans)
  note step = publish_plan_retires [OF Cons.prems, of sha limit now "nets (pl_id p)" p]
  show ?case
    using plans_only_retired_trans [OF step Cons.IH [OF plans_only_retired_primary [OF step Cons.prems]]]
    by simp
qed simp

lemma publish_plan_sent:
  "wk_sent (publish_plan sha limit now net batched w) = wk_sent w
    \<or> (\<exists>p source ext. ready sha w batched p source \<and> ar_external_id source = Some ext
        \<and> wk_live w ext = Some (pl_original p)
        \<and> wk_sent (publish_plan sha limit now net batched w) = wk_sent w @ [(ext, pl_updated p)])"
proof (cases "\<exists>p source. ready sha w batched p source")
  case True
  then obtain p source where ready: "ready sha w batched p source" by blast
  obtain res live sent where edit: "apply_planned_edit net (wk_live w) source (pl_original p) (pl_updated p)
      = (res, live, sent)" by (metis prod_cases3)
  have "wk_sent (publish_plan sha limit now net batched w) = wk_sent w @ sent"
    unfolding publish_plan_ready [OF ready edit] Let_def by (simp split: edit_result.split)
  with apply_planned_edit_sent [OF edit] ready show ?thesis by auto
next
  case False
  with publish_plan_not_ready [OF False] show ?thesis by simp
qed


section \<open>Every link of a run is counted\<close>

lemma record_replicate: "(record_item e ^^ n) p = fold record_item (replicate n e) p"
  by (induction n arbitrary: p) (simp_all add: funpow_swap1)

lemma record_funpow:
  "(record_publication_skip ^^ n) p = fold record_item (replicate n Item_skipped) p"
  "(record_publication_failure ^^ n) p = fold record_item (replicate n Item_failed) p"
  "(record_publication_applied ^^ n) p = fold record_item (replicate n Item_applied) p"
  using record_replicate [of n Item_skipped p] record_replicate [of n Item_failed p]
    record_replicate [of n Item_applied p]
  by (simp_all add: record_item.simps [abs_def])

lemma handler_progress:
  "wk_progress (handle_stale_plan now i reason items w) = (record_publication_skip ^^ items) (wk_progress w)"
  "wk_progress (refuse_plan now i reason items w) = (record_publication_failure ^^ items) (wk_progress w)"
  "wk_progress (retry_plan limit now i reason items attempted c w) = (record_publication_failure ^^ items) (wk_progress w)"
  "wk_progress (finalize_plan now p w) = (record_publication_applied ^^ length (pl_items p)) (wk_progress w)"
  by (simp_all add: handle_stale_plan_def refuse_plan_def retry_plan_def finalize_plan_def Let_def split_beta)

lemma publish_plan_progress:
  assumes "\<And>p. find_plan (wk_store w) (pl_id batched) = Some p \<Longrightarrow> pl_items p = pl_items batched"
  shows "\<exists>e. wk_progress (publish_plan sha limit now net batched w)
    = fold record_item (replicate (length (pl_items batched)) e) (wk_progress w)"
proof (cases "\<exists>p source. ready sha w batched p source")
  case True
  then obtain p source where ready: "ready sha w batched p source" by blast
  obtain res live sent where edit: "apply_planned_edit net (wk_live w) source (pl_original p) (pl_updated p)
      = (res, live, sent)" by (metis prod_cases3)
  have "pl_items p = pl_items batched" using assms ready by (simp add: ready_def)
  then show ?thesis unfolding publish_plan_ready [OF ready edit] Let_def
    by (simp add: handler_progress record_funpow split: edit_result.split) blast
next
  case False
  then show ?thesis
    by (auto simp: publish_plan_def ready_def Let_def handler_progress record_funpow split: option.splits)
qed

lemma publish_loop_progress:
  "primary pl_id (st_plans (wk_store w)) \<Longrightarrow> \<forall>b\<in>set plans. \<exists>p\<in>set (st_plans (wk_store w)). frozen p = frozen b
    \<Longrightarrow> \<exists>es. wk_progress (publish_loop sha limit now nets plans w) = fold record_item es (wk_progress w)
      \<and> length es = sum_list (map (\<lambda>p. length (pl_items p)) plans)"
proof (induction plans arbitrary: w)
  case Nil
  show ?case by (intro exI [of _ "[]"]) simp
next
  case (Cons b plans)
  let ?w = "publish_plan sha limit now (nets (pl_id b)) b w"
  note step = publish_plan_retires [OF Cons.prems(1), of sha limit now "nets (pl_id b)" b]
  have items: "pl_items p = pl_items b" if "find_plan (wk_store w) (pl_id b) = Some p" for p
  proof -
    obtain q where q: "q \<in> set (st_plans (wk_store w))" "frozen q = frozen b" using Cons.prems(2) by auto
    then have "q = p" using primary_same [OF Cons.prems(1) q(1)] find_plan_Some [OF that] frozen_items by metis
    with q frozen_items show ?thesis by blast
  qed
  from publish_plan_progress [OF items] obtain e where e: "wk_progress ?w
      = fold record_item (replicate (length (pl_items b)) e) (wk_progress w)" by blast
  have "\<forall>c\<in>set plans. \<exists>p\<in>set (st_plans (wk_store ?w)). frozen p = frozen c"
  proof
    fix c assume "c \<in> set plans"
    then obtain p where p: "p \<in> set (st_plans (wk_store w))" "frozen p = frozen c" using Cons.prems(2) by auto
    from list_all2_left [OF conjunct1 [OF step [unfolded plans_only_retired_def]] p(1)] p(2)
    show "\<exists>p\<in>set (st_plans (wk_store ?w)). frozen p = frozen c" by auto
  qed
  from Cons.IH [OF plans_only_retired_primary [OF step Cons.prems(1)] this] obtain es where
    "wk_progress (publish_loop sha limit now nets plans ?w) = fold record_item es (wk_progress ?w)"
    "length es = sum_list (map (\<lambda>p. length (pl_items p)) plans)" by blast
  with e show ?case
    by (intro exI [of _ "replicate (length (pl_items b)) e @ es"]) simp
qed

lemma expiry_keeps_plans:
  "expire_ineligible_external_suggestions idna today sites policies site statuses actor st = Some (st', n)
    \<Longrightarrow> st_plans st' = st_plans st \<and> st_articles st' = st_articles st
      \<and> map sg_id (st_suggestions st') = map sg_id (st_suggestions st)"
  by (auto simp: expire_ineligible_external_suggestions_def Let_def map_sg_id_update
      split: option.splits if_splits)


section \<open>A broken post is not retried for ever\<close>

interpretation charging: row_update sg_id "charge limit reason" for limit reason
  by unfold_locales simp

definition still_approved :: "worker \<Rightarrow> nat \<Rightarrow> bool" where
  "still_approved w i \<longleftrightarrow> (\<exists>p. find_plan (wk_store w) i = Some p \<and> pl_status p = Plan_approved)"

definition patience :: "nat \<Rightarrow> nat \<Rightarrow> nat \<Rightarrow> worker \<Rightarrow> nat" where
  "patience limit i j w =
     (if \<forall>s\<in>set (bound_rows (wk_store w) i). sg_status s = Approved
      then Suc (Suc (limit - (case find_suggestion (wk_store w) j of None \<Rightarrow> 0 | Some s \<Rightarrow> sg_attempts s)))
      else 1)"

lemma set_bound_rows [simp]: "set (bound_rows st i) = {s \<in> set (st_suggestions st). sg_plan s = Some i}"
  by (auto simp: bound_rows_def)

lemma find_plan_set_plans:
  assumes "\<And>p. pl_id (f p) = pl_id p"
  shows "find_plan (set_plans (\<lambda>p. pl_id p = i) f st) i = map_option f (find_plan st i)"
proof -
  have "get_row pl_id i (update_where (\<lambda>p. pl_id p = i) f rows) = map_option f (get_row pl_id i rows)" for rows
    by (induction rows) (auto simp: get_row_def assms)
  then show ?thesis by (simp add: find_plan_def)
qed

lemma retired_not_approved:
  "find_plan st i = Some p \<Longrightarrow> pl_status p = Plan_approved \<Longrightarrow>
    \<exists>q. find_plan (mark_stale now reason i st) i = Some q \<and> pl_status q = Plan_stale"
  "find_plan st i = Some p \<Longrightarrow> pl_status p = Plan_approved \<Longrightarrow>
    \<exists>q. find_plan (fail_plan now reason i st) i = Some q \<and> pl_status q = Plan_failed"
proof -
  have stale: "find_plan (set_plans (\<lambda>p. pl_id p = i) (stale_plan now reason) st) i
      = map_option (stale_plan now reason) (find_plan st i)"
    and failed: "find_plan (set_plans (\<lambda>p. pl_id p = i) (failed_plan now reason) st) i
      = map_option (failed_plan now reason) (find_plan st i)"
    by (rule find_plan_set_plans, simp add: stale_plan_def failed_plan_def)+
  assume p: "find_plan st i = Some p" "pl_status p = Plan_approved"
  show "\<exists>q. find_plan (mark_stale now reason i st) i = Some q \<and> pl_status q = Plan_stale"
    using stale p by (simp add: mark_stale_def find_plan_def stale_plan_def)
  show "\<exists>q. find_plan (fail_plan now reason i st) i = Some q \<and> pl_status q = Plan_failed"
    using failed p by (simp add: fail_plan_def find_plan_def failed_plan_def)
qed

lemma unreachable_edit: "\<not> net_read net \<Longrightarrow> apply_planned_edit net live source original updated = (Edit_failed, live, [])"
  by (simp add: apply_planned_edit_def Let_def)

lemma hopeless_step:
  assumes "\<not> net_read net" and "primary pl_id (st_plans (wk_store w))"
    and "still_approved w (pl_id b)"
    and "find_suggestion (wk_store w) j = Some s" and "sg_plan s = Some (pl_id b)"
  shows "\<not> still_approved (publish_plan sha limit now net b w) (pl_id b)
    \<or> patience limit (pl_id b) j (publish_plan sha limit now net b w) < patience limit (pl_id b) j w
      \<and> (\<exists>s'. find_suggestion (wk_store (publish_plan sha limit now net b w)) j = Some s'
          \<and> sg_plan s' = Some (pl_id b))"
proof -
  let ?i = "pl_id b" and ?st = "wk_store w"
  obtain p where p: "find_plan ?st ?i = Some p" "pl_status p = Plan_approved"
    using assms(3) by (auto simp: still_approved_def)
  note gone = retired_not_approved [OF p]
  have s: "s \<in> set (st_suggestions ?st)" "sg_id s = j"
    using get_row_Some assms(4) unfolding find_suggestion_def by metis+
  show ?thesis
  proof (cases "\<exists>source. ready sha w b p source")
    case False
    then have "\<exists>reason. wk_store (publish_plan sha limit now net b w) = mark_stale now reason ?i ?st
        \<or> wk_store (publish_plan sha limit now net b w) = fail_plan now reason ?i ?st"
      using p by (auto simp: publish_plan_def ready_def Let_def handle_stale_plan_def refuse_plan_def
          split: option.splits)
    then have "\<not> still_approved (publish_plan sha limit now net b w) ?i"
    proof (elim exE disjE)
      fix reason assume "wk_store (publish_plan sha limit now net b w) = mark_stale now reason ?i ?st"
      with gone(1) [of "now" reason] show ?thesis by (auto simp: still_approved_def)
    next
      fix reason assume "wk_store (publish_plan sha limit now net b w) = fail_plan now reason ?i ?st"
      with gone(2) [of "now" reason] show ?thesis by (auto simp: still_approved_def)
    qed
    then show ?thesis ..
  next
    case True
    then obtain source where ready: "ready sha w b p source" by blast
    let ?ids = "map sg_id (bound_rows ?st ?i)"
    have approved: "\<forall>x\<in>set (bound_rows ?st ?i). sg_status x = Approved" using ready by (simp add: ready_def)
    have step: "wk_store (publish_plan sha limit now net b w)
        = wk_store (retry_plan limit now ?i ''WordPress'' (length (pl_items b)) ?ids True w)"
      unfolding publish_plan_ready [OF ready unreachable_edit [OF assms(1)]] by (simp add: Let_def retry_plan_def split_beta)
    obtain st n where att: "record_attempt_failure limit ?ids ''WordPress'' ?st = (st, n)" by fastforce
    have mem: "s \<in> set (bound_rows ?st ?i)" using s assms(5) by simp
    then have ids: "?ids \<noteq> []" by force
    show ?thesis
    proof (cases "length ?ids \<le> n")
      case True
      then have "wk_store (publish_plan sha limit now net b w) = fail_plan now ''WordPress'' ?i st"
        using step att ids by (simp add: retry_plan_def)
      moreover have "find_plan st ?i = Some p"
        using attempt_failure_frame(1) [OF att] p(1) by (simp add: find_plan_def)
      ultimately show ?thesis using retired_not_approved(2) [of st ?i p "now" "''WordPress''"] p(2)
        by (auto simp: still_approved_def)
    next
      case False
      let ?c = "\<lambda>x. sg_id x \<in> set ?ids \<and> sg_status x = Approved"
      have w': "wk_store (publish_plan sha limit now net b w) = st"
        using step att ids False by (simp add: retry_plan_def)
      have st: "st_suggestions st = update_where ?c (charge limit ''WordPress'') (st_suggestions ?st)"
        using att ids by (auto simp: record_attempt_failure_def Let_def)
      have cs: "?c s" using mem approved by force
      have found: "find_suggestion st j = Some (charge limit ''WordPress'' s)"
        using assms(4) cs by (simp add: find_suggestion_def st charging.get_update)
      have "patience limit ?i j (publish_plan sha limit now net b w) < patience limit ?i j w"
      proof (cases "\<forall>x\<in>set (bound_rows st ?i). sg_status x = Approved")
        case all: True
        have "charge limit ''WordPress'' s \<in> set (bound_rows st ?i)"
          using s cs assms(5) by (auto simp: st set_update_where)
        with all have "sg_status (charge limit ''WordPress'' s) = Approved" by blast
        then have "sg_attempts s + 1 < limit" "sg_attempts (charge limit ''WordPress'' s) = sg_attempts s + 1"
          by (auto simp: charge_def Let_def split: if_splits)
        then show ?thesis using all approved found assms(4) w' by (simp add: patience_def)
      next
        case some: False
        then show ?thesis using approved w' by (auto simp: patience_def)
      qed
      then show ?thesis using found w' assms(5) by simp
    qed
  qed
qed

text \<open>A broken post is not retried for ever: if WordPress stays unreachable for an approved plan
  with at least one suggestion, then after at most \<open>publish_max_suggestion_attempts + 2\<close> runs the
  plan is no longer approved (it has failed, or is stale because part of its suggestions were
  quarantined), whatever attempts its suggestions had used up before.\<close>

lemma broken_post_is_retired:
  assumes "primary pl_id (st_plans (wk_store w))"
    and "find_suggestion (wk_store w) j = Some s" and "sg_plan s = Some (pl_id b)"
    and "\<forall>net\<in>set nets. \<not> net_read net" and "limit + 2 \<le> length nets"
  shows "\<not> still_approved (fold (\<lambda>net. publish_plan sha limit now net b) nets w) (pl_id b)"
proof -
  have stay: "\<not> still_approved (publish_plan sha limit now net b v) (pl_id b)"
    if "primary pl_id (st_plans (wk_store v))" "\<not> still_approved v (pl_id b)" for v net
  proof
    assume "still_approved (publish_plan sha limit now net b v) (pl_id b)"
    then obtain p where p: "find_plan (wk_store (publish_plan sha limit now net b v)) (pl_id b) = Some p"
      "pl_status p = Plan_approved" by (auto simp: still_approved_def)
    from plans_only_retired_back [OF publish_plan_retires [OF that(1)] conjunct1 [OF find_plan_Some [OF p(1)]]] p(2)
    have "p \<in> set (st_plans (wk_store v))" by metis
    with get_row_primary [OF that(1) this] find_plan_Some [OF p(1)] p(2) that(2)
    show False by (auto simp: still_approved_def find_plan_def)
  qed
  have "\<not> still_approved (fold (\<lambda>net. publish_plan sha limit now net b) nets v) (pl_id b)"
    if "primary pl_id (st_plans (wk_store v))" "\<forall>net\<in>set nets. \<not> net_read net"
      "\<not> still_approved v (pl_id b) \<or> (\<exists>s. find_suggestion (wk_store v) j = Some s \<and> sg_plan s = Some (pl_id b))
        \<and> patience limit (pl_id b) j v \<le> length nets" for v
    using that
  proof (induction nets arbitrary: v)
    case Nil
    then show ?case by (auto simp: patience_def split: if_splits)
  next
    case (Cons net nets)
    let ?v = "publish_plan sha limit now net b v"
    have prim: "primary pl_id (st_plans (wk_store ?v))"
      using plans_only_retired_primary [OF publish_plan_retires [OF Cons.prems(1)] Cons.prems(1)] .
    have "\<not> still_approved ?v (pl_id b) \<or> (\<exists>s. find_suggestion (wk_store ?v) j = Some s \<and> sg_plan s = Some (pl_id b))
        \<and> patience limit (pl_id b) j ?v \<le> length nets"
    proof (cases "still_approved v (pl_id b)")
      case True
      with Cons.prems(3) obtain s where "find_suggestion (wk_store v) j = Some s" "sg_plan s = Some (pl_id b)"
        "patience limit (pl_id b) j v \<le> Suc (length nets)" by auto
      with hopeless_step [OF _ Cons.prems(1) True this(1,2), of net sha limit "now"] Cons.prems(2)
      show ?thesis by fastforce
    next
      case False
      with stay [OF Cons.prems(1)] show ?thesis by blast
    qed
    with Cons.IH [OF prim] Cons.prems(2) show ?case by simp
  qed
  moreover have "patience limit (pl_id b) j w \<le> length nets"
    using assms(5) by (auto simp: patience_def split: option.splits)
  ultimately show ?thesis using assms(1-4) by blast
qed

section \<open>A crash between the write and the commit\<close>

lemma charge_approved:
  "sg_attempts s + 1 < limit \<Longrightarrow> sg_status (charge limit reason s) = sg_status s"
  by (simp add: charge_def Let_def)

text \<open>An attempt that failed without quarantining anybody leaves the plan publishable.\<close>

lemma retry_keeps_ready:
  assumes "ready sha w b p source"
    and "c \<longrightarrow> (\<forall>s\<in>set (bound_rows (wk_store w) (pl_id b)). sg_attempts s + 1 < limit)"
    and "wk_store v = wk_store w" and "primary sg_id (st_suggestions (wk_store w))"
  shows "ready sha (retry_plan limit now (pl_id b) reason items (map sg_id (bound_rows (wk_store w) (pl_id b))) c v)
    b p source"
proof -
  let ?rows = "bound_rows (wk_store w) (pl_id b)" and ?st = "wk_store w"
  have approved: "\<forall>s\<in>set ?rows. sg_status s = Approved" using assms(1) by (simp add: ready_def)
  show ?thesis
  proof (cases "c \<and> ?rows \<noteq> []")
    case False
    then have "wk_store (retry_plan limit now (pl_id b) reason items (map sg_id ?rows) c v) = ?st"
      by (auto simp: retry_plan_def record_attempt_failure_def assms(3) Let_def)
    with assms(1) show ?thesis by (simp add: ready_def)
  next
    case True
    let ?C = "\<lambda>s. sg_id s \<in> set (map sg_id ?rows) \<and> sg_status s = Approved"
    obtain st n where att: "record_attempt_failure limit (map sg_id ?rows) reason ?st = (st, n)" by fastforce
    then have st: "st_suggestions st = update_where ?C (charge limit reason) (st_suggestions ?st)"
      and n: "n = length (filter (\<lambda>s. sg_status s = Failed) (map (charge limit reason) (filter ?C (st_suggestions ?st))))"
      using True by (auto simp: record_attempt_failure_def Let_def)
    have bound: "sg_plan s = Some (pl_id b) \<and> sg_attempts s + 1 < limit" if "s \<in> set (st_suggestions ?st)" "?C s" for s
    proof -
      from that(2) obtain r where r: "r \<in> set ?rows" "sg_id r = sg_id s" by auto
      then have "r = s" using primary_same [OF assms(4) _ that(1), of r] by simp
      with r assms(2) True show ?thesis by auto
    qed
    have "n = 0" using bound charge_approved unfolding n by (auto simp: filter_empty_conv)
    then have store: "wk_store (retry_plan limit now (pl_id b) reason items (map sg_id ?rows) c v) = st"
      using att True by (simp add: retry_plan_def assms(3))
    have "sg_status x = Approved" if "x \<in> set (bound_rows st (pl_id b))" for x
    proof -
      from that obtain s where s: "s \<in> set (st_suggestions ?st)" "x = (if ?C s then charge limit reason s else s)"
        "sg_plan s = Some (pl_id b)" by (auto simp: st set_update_where split: if_splits)
      then have "sg_status s = Approved" using approved by simp
      with s bound [OF s(1)] charge_approved show ?thesis by (auto split: if_splits)
    qed
    with assms(1) attempt_failure_frame [OF att] store show ?thesis
      by (simp add: ready_def find_plan_def)
  qed
qed

lemma applied_plan_frame [simp]: "pl_id (applied_plan now p) = pl_id p" "pl_status (applied_plan now p) = Plan_applied"
  by (simp_all add: applied_plan_def)

lemma finalize_status:
  assumes "find_plan (wk_store w) (pl_id p) = Some p"
  shows "\<exists>q. find_plan (wk_store (finalize_plan now p w)) (pl_id p) = Some q \<and> pl_status q = Plan_applied"
    and "s \<in> set (st_suggestions (wk_store w)) \<Longrightarrow> sg_plan s = Some (pl_id p)
      \<Longrightarrow> sg_id s \<in> it_suggestion ` set (pl_items p)
      \<Longrightarrow> applied_row now (pl_items p) s \<in> set (st_suggestions (wk_store (finalize_plan now p w)))"
proof -
  have "find_plan (set_plans (\<lambda>q. pl_id q = pl_id p) (applied_plan now) st) (pl_id p)
      = map_option (applied_plan now) (find_plan st (pl_id p))" for st
    by (rule find_plan_set_plans) simp
  with assms show "\<exists>q. find_plan (wk_store (finalize_plan now p w)) (pl_id p) = Some q \<and> pl_status q = Plan_applied"
    by (simp add: finalize_plan_def find_plan_def)
  show "s \<in> set (st_suggestions (wk_store w)) \<Longrightarrow> sg_plan s = Some (pl_id p)
      \<Longrightarrow> sg_id s \<in> it_suggestion ` set (pl_items p)
      \<Longrightarrow> applied_row now (pl_items p) s \<in> set (st_suggestions (wk_store (finalize_plan now p w)))"
    by (force simp: finalize_plan_def set_update_where)
qed

text \<open>C16. A crash after the write is repaired without writing twice: when WordPress stored an approved
  edit but its answer was lost (and the attempt budget is not exhausted) or the closing database
  commit failed, the next run that can read the post and commit sends nothing and marks the
  plan applied; the two runs together sent exactly one write.\<close>

theorem crash_is_repaired_without_second_write:
  assumes "ready sha w b p source" and "ar_external_id source = Some ext" and "ext \<noteq> []"
    and "wk_live w ext = Some (pl_original p)" and "pl_original p \<noteq> pl_updated p"
    and "primary sg_id (st_suggestions (wk_store w))"
    and "net_read net1" and "net_post net1 = Post_stored (pl_updated p) answered"
    and "if answered then \<not> net_commit net1
      else \<forall>s\<in>set (bound_rows (wk_store w) (pl_id b)). sg_attempts s + 1 < limit"
    and "net_read net2" and "net_commit net2"
    and "w2 = publish_plan sha limit later net2 b (publish_plan sha limit now net1 b w)"
  shows "wk_sent w2 = wk_sent w @ [(ext, pl_updated p)] \<and> wk_live w2 ext = Some (pl_updated p)
    \<and> (\<exists>q. find_plan (wk_store w2) (pl_id p) = Some q \<and> pl_status q = Plan_applied)"
proof -
  let ?i = "pl_id b" and ?rows = "bound_rows (wk_store w) (pl_id b)"
  have pid: "pl_id p = ?i" using assms(1) find_plan_Some by (auto simp: ready_def)
  let ?w = "w\<lparr>wk_live := (wk_live w)(ext \<mapsto> pl_updated p), wk_sent := wk_sent w @ [(ext, pl_updated p)]\<rparr>"
  have edit1: "apply_planned_edit net1 (wk_live w) source (pl_original p) (pl_updated p)
      = (if answered then Written else Edit_failed, (wk_live w)(ext \<mapsto> pl_updated p), [(ext, pl_updated p)])"
    using assms by (simp add: apply_planned_edit_def truthy_def Let_def)
  define w1 where "w1 = publish_plan sha limit now net1 b w"
  have w1: "w1 = retry_plan limit now ?i (if answered then ''database'' else ''WordPress'')
      (length (pl_items b)) (map sg_id ?rows) (\<not> answered) ?w"
    using assms(9) unfolding w1_def publish_plan_ready [OF assms(1) edit1] Let_def by (simp split: if_splits)
  have ready1: "ready sha w1 b p source"
    unfolding w1 by (rule retry_keeps_ready [OF assms(1)]) (use assms(6,9) in \<open>simp_all split: if_splits\<close>)
  have live1: "wk_live w1 ext = Some (pl_updated p)" "wk_sent w1 = wk_sent w @ [(ext, pl_updated p)]"
    by (simp_all add: w1)
  have edit2: "apply_planned_edit net2 (wk_live w1) source (pl_original p) (pl_updated p)
      = (Already_applied, wk_live w1, [])"
    using assms(2,3,10) live1 by (simp add: apply_planned_edit_def truthy_def)
  have w2: "w2 = finalize_plan later p w1"
    using publish_plan_ready [OF ready1 edit2, of limit later] assms(11,12) by (simp add: w1_def)
  have "find_plan (wk_store w1) (pl_id p) = Some p" using ready1 pid by (simp add: ready_def)
  from finalize_status(1) [OF this, of later] live1 show ?thesis by (simp add: w2)
qed

section \<open>Witnesses\<close>

text \<open>An approved plan 4 for suggestion 5 of article 2, WordPress post \<open>9\<close>.\<close>

definition sample_plan :: "(string \<Rightarrow> string) \<Rightarrow> plan" where
  "sample_plan sha = approve_plan 1 ''ann'' (hd (st_plans (sample_store sha)))"

definition sample_worker :: "(string \<Rightarrow> string) \<Rightarrow> nat \<Rightarrow> worker" where
  "sample_worker sha attempts =
     \<lparr>wk_store = \<lparr>st_articles = [\<lparr>ar_id = 2, ar_site = 7, ar_url = ''u'', ar_title = ''t'', ar_text = [],
          ar_external_id = Some ''9''\<rparr>],
        st_suggestions = [(new_suggestion 5 7 2 (Some 3) None Baseline_cosine 0)
          \<lparr>sg_status := Approved, sg_plan := Some 4, sg_attempts := attempts\<rparr>],
        st_plans = [sample_plan sha], st_events = []\<rparr>,
      wk_progress = begin_publication_attempt None 1, wk_totals = (\<lambda>k. 0), wk_retryable = False,
      wk_live = [''9'' \<mapsto> ''a''], wk_sent = []\<rparr>"

lemma sample_plan_facts:
  "pl_id (sample_plan sha) = 4" "pl_status (sample_plan sha) = Plan_approved"
  "pl_source (sample_plan sha) = 2" "pl_original (sample_plan sha) = ''a''"
  "pl_updated (sample_plan sha) = ''ab''" "verify_integrity sha (sample_plan sha)"
  using new_plan_intact by (auto simp: sample_plan_def sample_store_def verify_integrity_iff)

lemma sample_worker_primary:
  "primary pl_id (st_plans (wk_store (sample_worker sha n)))"
  "primary sg_id (st_suggestions (wk_store (sample_worker sha n)))"
  by (simp_all add: sample_worker_def primary_def)

lemma sample_ready:
  "\<exists>source. ready sha (sample_worker sha n) (sample_plan sha) (sample_plan sha) source
     \<and> ar_external_id source = Some ''9''"
  using sample_plan_facts [of sha]
  by (simp add: ready_def sample_worker_def find_plan_def get_row_def)



lemma broken_post_is_retired_witness:
  "\<exists>sha w b. still_approved w (pl_id b)
     \<and> \<not> still_approved (fold (\<lambda>net. publish_plan sha 2 100 net b)
         (replicate 4 \<lparr>net_read = False, net_post = Post_rejected, net_commit = True\<rparr>) w) (pl_id b)"
proof -
  define sha :: "string \<Rightarrow> string" where "sha = (\<lambda>s. s)"
  let ?w = "sample_worker sha 0" and ?b = "sample_plan sha"
  have "still_approved ?w (pl_id ?b)"
    by (simp add: still_approved_def sample_worker_def find_plan_def get_row_def sample_plan_facts)
  moreover have "\<exists>s. find_suggestion (wk_store ?w) 5 = Some s \<and> sg_plan s = Some (pl_id ?b)"
    by (simp add: sample_worker_def find_suggestion_def get_row_def sample_plan_facts new_suggestion_def)
  then obtain s where "find_suggestion (wk_store ?w) 5 = Some s" "sg_plan s = Some (pl_id ?b)" by blast
  from broken_post_is_retired [OF sample_worker_primary(1) this,
      of "replicate 4 \<lparr>net_read = False, net_post = Post_rejected, net_commit = True\<rparr>" 2 sha 100]
  have "\<not> still_approved (fold (\<lambda>net. publish_plan sha 2 100 net ?b)
         (replicate 4 \<lparr>net_read = False, net_post = Post_rejected, net_commit = True\<rparr>) ?w) (pl_id ?b)"
    by simp
  ultimately show ?thesis by blast
qed

lemma crash_is_repaired_without_second_write_witness:
  "\<exists>sha w b net1 net2. wk_sent (publish_plan sha 3 200 net2 b (publish_plan sha 3 100 net1 b w)) = [(''9'', ''ab'')]"
proof -
  define sha :: "string \<Rightarrow> string" where "sha = (\<lambda>s. s)"
  define net1 where "net1 = \<lparr>net_read = True, net_post = Post_stored ''ab'' False, net_commit = True\<rparr>"
  define net2 where "net2 = \<lparr>net_read = True, net_post = Post_rejected, net_commit = True\<rparr>"
  let ?w = "sample_worker sha 0" and ?p = "sample_plan sha"
  obtain source where r: "ready sha ?w ?p ?p source" "ar_external_id source = Some ''9''"
    using sample_ready by blast
  have "wk_live ?w ''9'' = Some (pl_original ?p)" "pl_original ?p \<noteq> pl_updated ?p"
    by (simp_all add: sample_worker_def sample_plan_facts)
  moreover have "if False then \<not> net_commit net1
      else \<forall>s\<in>set (bound_rows (wk_store ?w) (pl_id ?p)). sg_attempts s + 1 < 3"
    by (simp add: sample_worker_def)
  moreover have "net_post net1 = Post_stored (pl_updated ?p) False" by (simp add: net1_def sample_plan_facts)
  ultimately have "wk_sent (publish_plan sha 3 200 net2 ?p (publish_plan sha 3 100 net1 ?p ?w))
      = wk_sent ?w @ [(''9'', pl_updated ?p)]"
    using crash_is_repaired_without_second_write [OF r _ _ _ sample_worker_primary(2) _ _ _ _ _ refl,
        of net1 False 3 net2 200 100]
    by (simp add: net1_def net2_def)
  then have "wk_sent (publish_plan sha 3 200 net2 ?p (publish_plan sha 3 100 net1 ?p ?w)) = [(''9'', ''ab'')]"
    by (simp add: sample_worker_def sample_plan_facts)
  then show ?thesis by blast
qed

end
