(* ===== verification/Float64.thy ===== *)
theory Float64
  imports Prelude
begin

text \<open>
  Python's \<open>float\<close>: a binary64 number as the rational it stands for. Every arithmetic operation is
  the exact one followed by \<open>double_of\<close>, which rounds to 53 significant bits, ties to even.
  Overflow to infinity (beyond \<open>2 ^ 1024\<close>) is out of scope; the code's floats are scores and ratios.
\<close>

fun shift_up :: "nat \<Rightarrow> rat \<Rightarrow> nat" where
  "shift_up 0 x = 0"
| "shift_up (Suc n) x = (if 2 ^ 52 \<le> x then 0 else Suc (shift_up n (2 * x)))"

fun shift_down :: "nat \<Rightarrow> rat \<Rightarrow> nat" where
  "shift_down 0 x = 0"
| "shift_down (Suc n) x = (if x < 2 ^ 53 then 0 else Suc (shift_down n (x / 2)))"

definition round_even :: "rat \<Rightarrow> int" where
  "round_even x =
     (let f = \<lfloor>x\<rfloor>; d = x - of_int f
      in if d < 1 / 2 \<or> d = 1 / 2 \<and> even f then f else f + 1)"

definition double_of :: "rat \<Rightarrow> rat" where
  "double_of x =
     (let k = shift_up 1074 \<bar>x\<bar>; j = shift_down 971 \<bar>x\<bar>
      in of_int (round_even (x * 2 ^ k / 2 ^ j)) * 2 ^ j / 2 ^ k)"

lemma shift_up_eq:
  "2 ^ 52 \<le> x * 2 ^ k \<Longrightarrow> x * 2 ^ k < 2 ^ 53 \<Longrightarrow> k \<le> n \<Longrightarrow> shift_up n x = k"
proof (induction n x arbitrary: k rule: shift_up.induct)
  case (2 n x)
  show ?case
  proof (cases k)
    case 0
    with 2 show ?thesis by simp
  next
    case (Suc m)
    have "x * 2 \<le> x * 2 ^ k"
      if "0 \<le> x" using that Suc by (intro mult_left_mono) auto
    then have "\<not> 2 ^ 52 \<le> x" using 2(3) by (cases "0 \<le> x") auto
    moreover have "shift_up n (2 * x) = m"
      using 2 Suc \<open>\<not> 2 ^ 52 \<le> x\<close> by (simp add: mult.assoc mult.left_commute)
    ultimately show ?thesis using Suc by simp
  qed
qed auto

lemma shift_down_small: "x < 2 ^ 53 \<Longrightarrow> shift_down n x = 0"
  by (cases n) auto

text \<open>Rounding a positive number whose binary exponent is known.\<close>

lemma double_of_at:
  assumes "2 ^ 52 \<le> x * 2 ^ k" and "x * 2 ^ k < 2 ^ 53" and "k \<le> 1074"
  shows "double_of x = of_int (round_even (x * 2 ^ k)) / 2 ^ k"
proof -
  have pos: "0 < x"
  proof (rule ccontr)
    assume "\<not> 0 < x"
    then have "x * 2 ^ k \<le> 0" by (simp add: mult_nonpos_nonneg)
    with assms(1) show False by simp
  qed
  have "x * 1 \<le> x * 2 ^ k" using pos by (intro mult_left_mono) auto
  then have "shift_down 971 x = 0" using assms(2) by (intro shift_down_small) linarith
  moreover have "shift_up 1074 x = k" using assms by (rule shift_up_eq)
  ultimately show ?thesis using pos by (simp add: double_of_def del: shift_up.simps shift_down.simps)
qed

lemma round_even_int [simp]: "round_even (of_int n) = n"
  by (simp add: round_even_def)

lemma round_even_unique:
  assumes "of_int n - 1 / 2 < x" and "x < of_int n + 1 / 2"
  shows "round_even x = n"
proof (cases "of_int n \<le> x")
  case True
  then have "\<lfloor>x\<rfloor> = n" using assms(2) by (intro floor_unique) auto
  then show ?thesis using assms(2) by (simp add: round_even_def Let_def)
next
  case False
  then have "\<lfloor>x\<rfloor> = n - 1" using assms(1) by (intro floor_unique) auto
  then show ?thesis using assms(1) by (simp add: round_even_def Let_def)
qed

text \<open>Rounding never crosses an integer.\<close>

lemma round_even_bounds: "of_int a \<le> x \<Longrightarrow> a \<le> round_even x" "x \<le> of_int b \<Longrightarrow> round_even x \<le> b"
proof -
  assume "of_int a \<le> x"
  then have "a \<le> \<lfloor>x\<rfloor>" by (simp add: le_floor_iff)
  then show "a \<le> round_even x" by (simp add: round_even_def Let_def)
next
  assume b: "x \<le> of_int b"
  show "round_even x \<le> b"
  proof (cases "x = of_int \<lfloor>x\<rfloor>")
    case True
    then have "round_even x = \<lfloor>x\<rfloor>" by (metis round_even_int)
    with b show ?thesis by linarith
  next
    case False
    then have "of_int \<lfloor>x\<rfloor> < x" by linarith
    with b have "\<lfloor>x\<rfloor> < b" by linarith
    then show ?thesis by (simp add: round_even_def Let_def)
  qed
qed

lemma double_of_nonneg: "0 \<le> x \<Longrightarrow> 0 \<le> double_of x"
  and double_of_nonpos: "x \<le> 0 \<Longrightarrow> double_of x \<le> 0"
  using round_even_bounds(1) [of 0 "x * 2 ^ shift_up 1074 \<bar>x\<bar> / 2 ^ shift_down 971 \<bar>x\<bar>"]
    round_even_bounds(2) [of "x * 2 ^ shift_up 1074 \<bar>x\<bar> / 2 ^ shift_down 971 \<bar>x\<bar>" 0]
  by (simp_all add: double_of_def Let_def divide_nonpos_pos mult_nonpos_nonneg)

lemma double_of_0 [simp]: "double_of 0 = 0"
  using round_even_int [of 0] by (simp add: double_of_def Let_def)

end
