(* ===== verification/Review.thy ===== *)
theory Review
  imports ExternalPolicy Float64
begin

text \<open>
  The review queue: \<^verbatim>\<open>app/api/routes/suggestions.py\<close> with the request models of
  \<^verbatim>\<open>app/schemas/suggestion.py\<close>. One \<open>UPDATE\<close> or \<open>SELECT\<close> is one step on the committed tables. The
  lifecycle events that a database trigger writes are not part of the model.
\<close>

section \<open>Tables\<close>

record bulk_op =
  bo_id :: string
  bo_actor :: string
  bo_from :: suggestion_status
  bo_to :: suggestion_status
  bo_reviewed :: nat
  bo_undone_count :: "nat option"
  bo_skipped_count :: "int option"
  bo_undone_at :: "time option"

record review_db =
  rv_store :: store
  rv_sites :: "site list"
  rv_ops :: "bulk_op list"
  rv_items :: "(string \<times> nat) list"

section \<open>What a review writes\<close>

definition unreviewable :: "suggestion_status list" where
  "unreviewable = [Applying, Applied, Expired]"

definition claims_an_anchor :: "suggestion_status list" where
  "claims_an_anchor = [Pending, Approved, Applying, Applied]"

definition bound_to_an_approved_plan :: "store \<Rightarrow> suggestion \<Rightarrow> bool" where
  "bound_to_an_approved_plan st s \<longleftrightarrow>
     list_ex (\<lambda>p. sg_plan s = Some (pl_id p) \<and> pl_status p = Plan_approved) (st_plans st)"

definition review_values ::
  "time \<Rightarrow> suggestion_status \<Rightarrow> string option \<Rightarrow> string option \<Rightarrow> suggestion \<Rightarrow> suggestion" where
  "review_values now status actor reason s =
     s\<lparr>sg_status := status,
       sg_reviewed_at := (if status = Pending then None else Some now),
       sg_attempts := 0,
       sg_error := None,
       sg_plan := None,
       sg_reviewer := (if truthy actor \<and> status \<noteq> Pending
                       then Some (str_take 255 (or_else actor [])) else None),
       sg_reason := (if status = Rejected then reason else None)\<rparr>"

definition review_guard :: "store \<Rightarrow> (suggestion \<Rightarrow> bool) \<Rightarrow> suggestion \<Rightarrow> bool" where
  "review_guard st conditions s \<longleftrightarrow>
     conditions s \<and> sg_status s \<notin> set unreviewable \<and> \<not> bound_to_an_approved_plan st s"

definition review_matching ::
  "time \<Rightarrow> (suggestion \<Rightarrow> bool) \<Rightarrow> suggestion_status \<Rightarrow> string option \<Rightarrow> string option \<Rightarrow> store
     \<Rightarrow> store \<times> nat list" where
  "review_matching now conditions status actor reason st =
     (set_suggestions (review_guard st conditions) (review_values now status actor reason) st,
      map sg_id (filter (review_guard st conditions) (st_suggestions st)))"

definition review_ids ::
  "time \<Rightarrow> nat list \<Rightarrow> suggestion_status \<Rightarrow> string option \<Rightarrow> string option \<Rightarrow> store
     \<Rightarrow> store \<times> nat list" where
  "review_ids now ids status actor reason st =
     review_matching now (\<lambda>s. sg_id s \<in> set ids) status actor reason st"

definition max_bulk_review :: nat where "max_bulk_review = 1000"

record rule_counts =
  rc_matched :: nat
  rc_reviewed :: nat
  rc_ids :: "nat list option"

definition review_matching_counts ::
  "time \<Rightarrow> (suggestion \<Rightarrow> bool) \<Rightarrow> suggestion_status \<Rightarrow> string option \<Rightarrow> string option
     \<Rightarrow> string option \<Rightarrow> review_db \<Rightarrow> review_db \<times> rule_counts" where
  "review_matching_counts now conditions status op_id actor reason db =
     (let st = rv_store db;
          G = (\<lambda>s. conditions s \<and> \<not> bound_to_an_approved_plan st s);
          moved = map sg_id (filter G (st_suggestions st))
      in (db\<lparr>rv_store := set_suggestions G (review_values now status actor reason) st,
             rv_items := rv_items db
               @ (case op_id of None \<Rightarrow> [] | Some i \<Rightarrow> map (\<lambda>m. (i, m)) moved)\<rparr>,
          \<lparr>rc_matched = length (filter conditions (st_suggestions st)),
           rc_reviewed = length moved,
           rc_ids = (if length moved \<le> max_bulk_review then Some (sort moved) else None)\<rparr>))"

section \<open>Searching titles\<close>

definition like_escape :: char where "like_escape = CHR 0x5C"

definition defang :: "char \<Rightarrow> string \<Rightarrow> string" where
  "defang c s = concat (map (\<lambda>x. if x = c then [like_escape, x] else [x]) s)"

definition like_pattern :: "string \<Rightarrow> string" where
  "like_pattern term =
     CHR ''%'' # defang CHR ''_'' (defang CHR ''%'' (defang like_escape term)) @ [CHR ''%'']"

text \<open>SQL \<open>LIKE ... ESCAPE\<close>. \<open>ILIKE\<close> lowers both operands first.\<close>

function like :: "string \<Rightarrow> string \<Rightarrow> bool" where
  "like [] s = (s = [])"
| "like (c # p) s =
     (if c = like_escape then
        (case p of [] \<Rightarrow> False
         | d # p' \<Rightarrow> (case s of [] \<Rightarrow> False | x # s' \<Rightarrow> x = d \<and> like p' s'))
      else if c = CHR ''%'' then
        like p s \<or> (case s of [] \<Rightarrow> False | x # s' \<Rightarrow> like (c # p) s')
      else (case s of [] \<Rightarrow> False | x # s' \<Rightarrow> (c = CHR ''_'' \<or> x = c) \<and> like p s'))"
  by pat_completeness auto
termination
  by (relation "measure (\<lambda>(p, s). length p + length s)") auto

definition ilike :: "string \<Rightarrow> string \<Rightarrow> bool" where
  "ilike s pattern = like (casefold pattern) (casefold s)"

definition title_matches :: "article list \<Rightarrow> string \<Rightarrow> suggestion \<Rightarrow> bool" where
  "title_matches articles term s \<longleftrightarrow>
     list_ex (\<lambda>a. ar_id a = sg_source s \<and> ilike (ar_title a) (like_pattern term)) articles
     \<or> list_ex (\<lambda>a. sg_target s = Some (ar_id a) \<and> ilike (ar_title a) (like_pattern term)) articles
     \<or> (case sg_external_title s of None \<Rightarrow> False | Some t \<Rightarrow> ilike t (like_pattern term))"

section \<open>The filter of the queue\<close>

datatype target_origin = Internal | Content_pool | Web_search

definition target_is_pool :: "site list \<Rightarrow> article list \<Rightarrow> suggestion \<Rightarrow> bool" where
  "target_is_pool sites articles s \<longleftrightarrow>
     list_ex (\<lambda>a. sg_target s = Some (ar_id a)
       \<and> list_ex (\<lambda>x. site_id x = ar_site a \<and> site_platform x = Pool) sites) articles"

definition target_is_web_search :: "suggestion \<Rightarrow> bool" where
  "target_is_web_search s \<longleftrightarrow> sg_external_url s \<noteq> None"

definition has_stronger_reverse_pair :: "suggestion list \<Rightarrow> suggestion \<Rightarrow> bool" where
  "has_stronger_reverse_pair rows s \<longleftrightarrow>
     list_ex (\<lambda>r. sg_target s = Some (sg_source r) \<and> sg_target r = Some (sg_source s)
       \<and> sg_status r \<noteq> Expired \<and> (sg_score s, sg_id s) < (sg_score r, sg_id r)) rows"

definition percent_boundary :: "int \<Rightarrow> rat" where
  "percent_boundary percent = double_of (double_of (of_int percent - 1 / 2) / 100)"

record queue_filter =
  qf_site :: "nat option"
  qf_tenant :: "nat option"
  qf_status :: "string option"
  qf_method :: "string option"
  qf_min :: "int option"
  qf_max :: "int option"
  qf_q :: "string option"
  qf_origin :: "target_origin option"
  qf_exclude :: bool

fun method_name :: "suggestion_method \<Rightarrow> string" where
  "method_name Baseline_cosine = ''baseline_cosine''"
| "method_name Hybrid_bm25 = ''hybrid_bm25''"
| "method_name Gnn_graphsage = ''gnn_graphsage''"
| "method_name External_search = ''external_search''"

definition given :: "'a option \<Rightarrow> ('a \<Rightarrow> bool) \<Rightarrow> bool" where
  "given v P \<longleftrightarrow> (case v of None \<Rightarrow> True | Some x \<Rightarrow> P x)"

definition queue_conditions :: "site list \<Rightarrow> store \<Rightarrow> queue_filter \<Rightarrow> suggestion \<Rightarrow> bool" where
  "queue_conditions sites st f s \<longleftrightarrow>
     given (qf_site f) (\<lambda>i. sg_site s = i)
     \<and> given (qf_tenant f) (\<lambda>t. list_ex (\<lambda>x. site_id x = sg_site s \<and> site_tenant x = t) sites)
     \<and> given (qf_status f) (\<lambda>n. status_name (sg_status s) = n)
     \<and> given (qf_method f) (\<lambda>n. method_name (sg_method s) = n)
     \<and> given (qf_min f) (\<lambda>p. percent_boundary p \<le> sg_score s)
     \<and> given (qf_max f) (\<lambda>p. sg_score s < percent_boundary p)
     \<and> given (qf_q f) (\<lambda>q. strip q = [] \<or> title_matches (st_articles st) (strip q) s)
     \<and> given (qf_origin f) (\<lambda>g. case g of
           Web_search \<Rightarrow> target_is_web_search s
         | Content_pool \<Rightarrow> target_is_pool sites (st_articles st) s
         | Internal \<Rightarrow> sg_external_url s = None \<and> \<not> target_is_pool sites (st_articles st) s)
     \<and> (qf_exclude f \<longrightarrow> \<not> has_stronger_reverse_pair (st_suggestions st) s)"

section \<open>The handlers\<close>

text \<open>The request models: a rejection reason only goes with a rejection; a rule names one site or,
  deliberately, all of them.\<close>

definition reason_only_applies_to_rejection :: "suggestion_status \<Rightarrow> string option \<Rightarrow> bool" where
  "reason_only_applies_to_rejection status reason \<longleftrightarrow> reason = None \<or> status = Rejected"

definition review_status :: "suggestion_status \<Rightarrow> bool" where
  "review_status s \<longleftrightarrow> s \<in> {Approved, Rejected, Pending}"

record bulk_review_request =
  br_ids :: "nat list"
  br_status :: suggestion_status
  br_reason :: "string option"

definition valid_bulk_review :: "bulk_review_request \<Rightarrow> bool" where
  "valid_bulk_review r \<longleftrightarrow>
     1 \<le> length (br_ids r) \<and> length (br_ids r) \<le> max_bulk_review \<and> review_status (br_status r)
     \<and> reason_only_applies_to_rejection (br_status r) (br_reason r)"

text \<open>The join of suggestions and sites, as (id, tenant) pairs.\<close>

definition rows_with_tenant :: "review_db \<Rightarrow> (nat \<Rightarrow> bool) \<Rightarrow> (nat \<times> nat) list" where
  "rows_with_tenant db wanted =
     concat (map (\<lambda>s. map (\<lambda>x. (sg_id s, site_tenant x))
                        (filter (\<lambda>x. site_id x = sg_site s) (rv_sites db)))
              (filter (\<lambda>s. wanted (sg_id s)) (st_suggestions (rv_store db))))"

definition check_tenants :: "principal \<Rightarrow> nat list \<Rightarrow> http_error option" where
  "check_tenants p = check_all (check_site_access p)"

record bulk_review_result =
  bres_reviewed :: "nat list"
  bres_skipped :: "nat list"
  bres_status :: suggestion_status

definition bulk_review ::
  "time \<Rightarrow> principal \<Rightarrow> string \<Rightarrow> bulk_review_request \<Rightarrow> review_db
     \<Rightarrow> http_error + (review_db \<times> bulk_review_result)" where
  "bulk_review now p actor r db =
     (if \<not> valid_bulk_review r then Inl (Http 422)
      else
        let rows = rows_with_tenant db (\<lambda>i. i \<in> set (br_ids r));
            existing = sort (remdups (map fst rows))
        in case check_tenants p (map snd rows) of
             Some e \<Rightarrow> Inl e
           | None \<Rightarrow>
               let (st, reviewed) = review_ids now existing (br_status r) (Some actor) (br_reason r) (rv_store db)
               in Inr (db\<lparr>rv_store := st\<rparr>,
                       \<lparr>bres_reviewed = sort reviewed,
                        bres_skipped = filter (\<lambda>i. i \<notin> set reviewed) existing,
                        bres_status = br_status r\<rparr>))"

definition review_suggestion ::
  "time \<Rightarrow> principal \<Rightarrow> string \<Rightarrow> nat \<Rightarrow> suggestion_status \<Rightarrow> string option \<Rightarrow> review_db
     \<Rightarrow> http_error + review_db" where
  "review_suggestion now p actor i status reason db =
     (if \<not> (review_status status \<and> reason_only_applies_to_rejection status reason) then Inl (Http 422)
      else case find_suggestion (rv_store db) i of
             None \<Rightarrow> Inl (Http 404)
           | Some s \<Rightarrow>
               bind_ok (authorize_site (rv_sites db) p (sg_site s)) (\<lambda>_.
                 let (st, reviewed) = review_ids now [i] status (Some actor) reason (rv_store db)
                 in if reviewed = [] then Inl (Http 409) else Inr (db\<lparr>rv_store := st\<rparr>)))"

record bulk_rule =
  ru_status :: suggestion_status
  ru_reason :: "string option"
  ru_match :: suggestion_status
  ru_site :: "nat option"
  ru_all_sites :: bool
  ru_method :: "string option"
  ru_threshold :: int
  ru_q :: "string option"
  ru_origin :: "target_origin option"
  ru_exclude :: bool

definition fleet_scope_must_be_deliberate :: "bulk_rule \<Rightarrow> bool" where
  "fleet_scope_must_be_deliberate r \<longleftrightarrow>
     (ru_site r \<noteq> None \<or> ru_all_sites r) \<and> \<not> (ru_site r \<noteq> None \<and> ru_all_sites r)
     \<and> reason_only_applies_to_rejection (ru_status r) (ru_reason r)"

definition valid_rule :: "bulk_rule \<Rightarrow> bool" where
  "valid_rule r \<longleftrightarrow>
     ru_status r \<in> {Approved, Rejected} \<and> review_status (ru_match r)
     \<and> 0 \<le> ru_threshold r \<and> ru_threshold r \<le> 100
     \<and> (case ru_q r of None \<Rightarrow> True | Some q \<Rightarrow> str_len q \<le> 200)
     \<and> fleet_scope_must_be_deliberate r"

definition rule_filter :: "nat option \<Rightarrow> bulk_rule \<Rightarrow> queue_filter" where
  "rule_filter tenant r =
     \<lparr>qf_site = ru_site r, qf_tenant = tenant, qf_status = Some (status_name (ru_match r)),
      qf_method = ru_method r,
      qf_min = (if ru_status r = Approved then Some (ru_threshold r) else None),
      qf_max = (if ru_status r = Rejected then Some (ru_threshold r) else None),
      qf_q = ru_q r, qf_origin = ru_origin r, qf_exclude = ru_exclude r\<rparr>"

record rule_result =
  rr_reviewed :: nat
  rr_skipped :: nat
  rr_ids :: "nat list option"
  rr_undo :: "string option"
  rr_status :: suggestion_status

definition bulk_review_by_filter ::
  "time \<Rightarrow> string \<Rightarrow> principal \<Rightarrow> string \<Rightarrow> bulk_rule \<Rightarrow> review_db
     \<Rightarrow> http_error + (review_db \<times> rule_result)" where
  "bulk_review_by_filter now uid p actor r db =
     (if \<not> valid_rule r then Inl (Http 422)
      else
        bind_ok (if ru_all_sites r then map_sum id (\<lambda>_. ()) (require_admin_principal p)
                 else case ru_site r of
                        None \<Rightarrow> Inr ()
                      | Some i \<Rightarrow> map_sum id (\<lambda>_. ()) (authorize_site (rv_sites db) p i)) (\<lambda>_.
        bind_ok (tenant_scope p) (\<lambda>tenant.
          let conditions = queue_conditions (rv_sites db) (rv_store db) (rule_filter tenant r);
              operation = \<lparr>bo_id = uid, bo_actor = str_take 255 actor, bo_from = ru_match r,
                           bo_to = ru_status r, bo_reviewed = 0, bo_undone_count = None,
                           bo_skipped_count = None, bo_undone_at = None\<rparr>;
              (db', c) = review_matching_counts now conditions (ru_status r) (Some uid) (Some actor)
                           (ru_reason r) db
          in Inr (if rc_reviewed c \<noteq> 0
                  then db'\<lparr>rv_ops := rv_ops db @ [operation\<lparr>bo_reviewed := rc_reviewed c\<rparr>]\<rparr>
                  else db',
                  \<lparr>rr_reviewed = rc_reviewed c, rr_skipped = rc_matched c - rc_reviewed c,
                   rr_ids = rc_ids c,
                   rr_undo = (if rc_reviewed c \<noteq> 0 then Some uid else None),
                   rr_status = ru_status r\<rparr>))))"

record undo_result =
  ur_restored :: nat
  ur_skipped :: int
  ur_status :: suggestion_status
  ur_already :: bool

definition undo_guard :: "review_db \<Rightarrow> bulk_op \<Rightarrow> suggestion \<Rightarrow> bool" where
  "undo_guard db operation s \<longleftrightarrow>
     (bo_id operation, sg_id s) \<in> set (rv_items db) \<and> sg_status s = bo_to operation"

definition undo_filtered_bulk_review ::
  "time \<Rightarrow> principal \<Rightarrow> string \<Rightarrow> string \<Rightarrow> review_db \<Rightarrow> http_error + (review_db \<times> undo_result)" where
  "undo_filtered_bulk_review now p actor op_id db =
     (case get_row bo_id op_id (rv_ops db) of
        None \<Rightarrow> Inl (Http 404)
      | Some operation \<Rightarrow>
          (case check_tenants p (remdups (map snd
                   (rows_with_tenant db (\<lambda>i. (bo_id operation, i) \<in> set (rv_items db))))) of
             Some e \<Rightarrow> Inl e
           | None \<Rightarrow>
               if bo_undone_at operation \<noteq> None
               then Inr (db, \<lparr>ur_restored = or_else (bo_undone_count operation) 0,
                              ur_skipped = or_else (bo_skipped_count operation) 0,
                              ur_status = bo_from operation, ur_already = True\<rparr>)
               else
                 let st = rv_store db; G = undo_guard db operation;
                     restored = length (filter G (st_suggestions st));
                     skipped = int (bo_reviewed operation) - int restored
                 in Inr (db\<lparr>rv_store := set_suggestions G
                              (review_values now (bo_from operation) (Some actor) None) st,
                            rv_ops := update_where (\<lambda>o'. bo_id o' = op_id)
                              (\<lambda>o'. o'\<lparr>bo_undone_at := Some now, bo_undone_count := Some restored,
                                       bo_skipped_count := Some skipped\<rparr>) (rv_ops db)\<rparr>,
                         \<lparr>ur_restored = restored, ur_skipped = skipped,
                          ur_status = bo_from operation, ur_already = False\<rparr>)))"

section \<open>Reading the queue\<close>

record suggestion_counts =
  ct_status :: "suggestion_status \<Rightarrow> nat"
  ct_total :: nat

definition counts_of :: "suggestion list \<Rightarrow> suggestion_counts" where
  "counts_of rows =
     (let n = (\<lambda>x. length (filter (\<lambda>s. sg_status s = x) rows))
      in \<lparr>ct_status = n,
          ct_total = sum_list (map n [Pending, Approved, Rejected, Applying, Applied, Failed])\<rparr>)"

text \<open>The page request; \<open>None\<close> for an omitted query parameter. \<open>qf_tenant\<close> is set by the handler.\<close>

record page_request =
  pq_filter :: queue_filter
  pq_after_score :: "rat option"
  pq_after_id :: "nat option"
  pq_include_total :: bool
  pq_limit :: nat
  pq_offset :: "nat option"

record page =
  pg_items :: "suggestion list"
  pg_total :: "nat option"
  pg_next :: "(rat \<times> nat) option"

definition valid_filter :: "queue_filter \<Rightarrow> bool" where
  "valid_filter f \<longleftrightarrow> given (qf_min f) (\<lambda>p. 0 \<le> p \<and> p \<le> 100) \<and> given (qf_max f) (\<lambda>p. 0 \<le> p \<and> p \<le> 100)
     \<and> given (qf_q f) (\<lambda>q. str_len q \<le> 200)"

definition valid_page_request :: "page_request \<Rightarrow> bool" where
  "valid_page_request q \<longleftrightarrow> valid_filter (pq_filter q)
     \<and> given (pq_after_score q) (\<lambda>x. 0 \<le> x \<and> x \<le> 1) \<and> given (pq_after_id q) (\<lambda>i. 1 \<le> i)
     \<and> 1 \<le> pq_limit q \<and> pq_limit q \<le> max_bulk_review"

definition scoped_filter ::
  "review_db \<Rightarrow> principal \<Rightarrow> queue_filter \<Rightarrow> http_error + queue_filter" where
  "scoped_filter db p f =
     bind_ok (case qf_site f of
                None \<Rightarrow> Inr ()
              | Some i \<Rightarrow> map_sum id (\<lambda>_. ()) (authorize_site (rv_sites db) p i)) (\<lambda>_.
     bind_ok (tenant_scope p) (\<lambda>tenant. Inr (f\<lparr>qf_tenant := tenant\<rparr>)))"

definition count_suggestions ::
  "principal \<Rightarrow> queue_filter \<Rightarrow> review_db \<Rightarrow> http_error + suggestion_counts" where
  "count_suggestions p f db =
     (if \<not> valid_filter f then Inl (Http 422)
      else bind_ok (scoped_filter db p (f\<lparr>qf_status := None\<rparr>)) (\<lambda>f.
        Inr (counts_of (filter (queue_conditions (rv_sites db) (rv_store db) f)
               (st_suggestions (rv_store db))))))"

definition queue_rank :: "suggestion \<Rightarrow> rat \<times> int" where
  "queue_rank s = (- sg_score s, - int (sg_id s))"

definition listed :: "review_db \<Rightarrow> queue_filter \<Rightarrow> suggestion list" where
  "listed db f = filter (\<lambda>s. queue_conditions (rv_sites db) (rv_store db) f s
     \<and> (qf_status f = None \<longrightarrow> sg_status s \<noteq> Expired)) (st_suggestions (rv_store db))"

definition below :: "(rat \<times> nat) option \<Rightarrow> suggestion \<Rightarrow> bool" where
  "below cursor s \<longleftrightarrow> (case cursor of None \<Rightarrow> True | Some (x, i) \<Rightarrow> (sg_score s, sg_id s) < (x, i))"

definition page_of :: "suggestion list \<Rightarrow> (rat \<times> nat) option \<Rightarrow> nat \<Rightarrow> suggestion list \<times> (rat \<times> nat) option" where
  "page_of rows cursor limit =
     (let items = take (limit + 1) (sort_key queue_rank (filter (below cursor) rows));
          has_more = limit < length items;
          items = take limit items
      in (items, if has_more \<and> items \<noteq> [] then Some (sg_score (last items), sg_id (last items)) else None))"

definition list_suggestion_page ::
  "principal \<Rightarrow> page_request \<Rightarrow> review_db \<Rightarrow> http_error + page" where
  "list_suggestion_page p q db =
     (if \<not> valid_page_request q then Inl (Http 422)
      else bind_ok (scoped_filter db p (pq_filter q)) (\<lambda>f.
        if pq_offset q \<noteq> None then Inl (Http 422)
        else if (pq_after_score q = None) \<noteq> (pq_after_id q = None) then Inl (Http 422)
        else
          let rows = listed db f;
              cursor = (case (pq_after_score q, pq_after_id q) of
                          (Some x, Some i) \<Rightarrow> Some (x, i) | _ \<Rightarrow> None);
              (items, nxt) = page_of rows cursor (pq_limit q)
          in Inr \<lparr>pg_items = items,
                  pg_total = (if pq_include_total q then Some (length rows) else None),
                  pg_next = nxt\<rparr>))"

section \<open>Exposure and the placement drawer\<close>

definition expose :: "time \<Rightarrow> suggestion \<Rightarrow> suggestion" where
  "expose now s = s\<lparr>sg_shown_at := Some (or_else (sg_shown_at s) now),
     sg_last_shown_at := Some now, sg_exposures := sg_exposures s + 1\<rparr>"

definition mark_suggestions_exposed ::
  "time \<Rightarrow> principal \<Rightarrow> nat list \<Rightarrow> review_db \<Rightarrow> http_error + (review_db \<times> nat)" where
  "mark_suggestions_exposed now p ids db =
     (if \<not> (1 \<le> length ids \<and> length ids \<le> max_bulk_review) then Inl (Http 422)
      else
        let rows = rows_with_tenant db (\<lambda>i. i \<in> set ids)
        in case check_tenants p (map snd rows) of
             Some e \<Rightarrow> Inl e
           | None \<Rightarrow>
               let existing = remdups (map fst rows)
               in if existing = [] then Inr (db, 0)
                  else Inr (db\<lparr>rv_store := set_suggestions (\<lambda>s. sg_id s \<in> set existing) (expose now)
                                            (rv_store db)\<rparr>, length existing))"

definition taken_anchors :: "store \<Rightarrow> suggestion \<Rightarrow> string list" where
  "taken_anchors st s = List.map_filter sg_anchor
     (filter (\<lambda>r. sg_source r = sg_source s \<and> sg_id r \<noteq> sg_id s
        \<and> sg_status r \<in> set claims_an_anchor) (st_suggestions st))"

text \<open>\<open>configured\<close>: an OpenRouter key is set. \<open>later\<close> is the store the answer is written to: other
  sessions may have committed while the model was asked.\<close>

definition get_suggestion_placement ::
  "placement_settings \<Rightarrow> bool \<Rightarrow> ask \<Rightarrow> time \<Rightarrow> principal \<Rightarrow> nat \<Rightarrow> review_db \<Rightarrow> store
     \<Rightarrow> http_error + (store \<times> placement)" where
  "get_suggestion_placement cfg configured ask now p i db later =
     (case find_suggestion (rv_store db) i of
        None \<Rightarrow> Inl (Http 404)
      | Some s \<Rightarrow>
          bind_ok (authorize_site (rv_sites db) p (sg_site s)) (\<lambda>_.
            case placement_of s of
              Some pm \<Rightarrow> Inr (rv_store db, pm)
            | None \<Rightarrow>
                if \<not> configured then Inl (Http 503)
                else
                  let text_of = (\<lambda>a. case get_row ar_id a (st_articles (rv_store db)) of
                                       None \<Rightarrow> [] | Some x \<Rightarrow> ar_text x)
                  in case generate cfg ask text_of now s (taken_anchors (rv_store db) s) of
                       None \<Rightarrow> Inl (Http 502)
                     | Some pm \<Rightarrow> Inr (store_placement later i pm)))"

section \<open>Searching is literal\<close>

lemma defang_simps [simp]:
  "defang c [] = []"
  "defang c (x # s) = (if x = c then [like_escape, x] else [x]) @ defang c s"
  by (simp_all add: defang_def)

lemma defang_append: "defang c (a @ b) = defang c a @ defang c b"
  by (simp add: defang_def)

definition metachar :: "char \<Rightarrow> bool" where
  "metachar c \<longleftrightarrow> c \<in> {like_escape, CHR ''%'', CHR ''_''}"

definition escaped :: "string \<Rightarrow> string" where
  "escaped s = concat (map (\<lambda>x. if metachar x then [like_escape, x] else [x]) s)"

lemma defang_chars: "defang CHR ''_'' (defang CHR ''%'' (defang like_escape s)) = escaped s"
  by (induction s) (auto simp: escaped_def metachar_def like_escape_def defang_append)

lemma like_escaped: "like (escaped t @ p) s \<longleftrightarrow> (\<exists>rest. s = t @ rest \<and> like p rest)"
proof (induction t arbitrary: s)
  case Nil
  then show ?case by (simp add: escaped_def)
next
  case (Cons c t)
  have "escaped (c # t) = (if metachar c then [like_escape, c] else [c]) @ escaped t"
    by (simp add: escaped_def)
  then show ?case using Cons
    by (cases s) (auto simp: metachar_def like_escape_def)
qed

lemma like_percent: "like (CHR ''%'' # p) s \<longleftrightarrow> (\<exists>a b. s = a @ b \<and> like p b)"
proof (induction s)
  case Nil
  show ?case by (simp add: like_escape_def)
next
  case (Cons x s)
  have "like (CHR ''%'' # p) (x # s) \<longleftrightarrow> like p (x # s) \<or> like (CHR ''%'' # p) s"
    by (simp add: like_escape_def)
  also have "\<dots> \<longleftrightarrow> (\<exists>a b. x # s = a @ b \<and> like p b)"
    unfolding Cons by (auto simp: Cons_eq_append_conv)
  finally show ?case .
qed

lemma like_all: "like [CHR ''%''] s"
proof -
  have "s = s @ [] \<and> like [] []" by simp
  then show ?thesis unfolding like_percent by blast
qed

lemma like_pattern_sublist: "like (like_pattern t) s \<longleftrightarrow> sublist t s"
proof -
  have "like (like_pattern t) s \<longleftrightarrow> (\<exists>a b. s = a @ b \<and> (\<exists>rest. b = t @ rest \<and> like [CHR ''%''] rest))"
    unfolding like_pattern_def defang_chars by (simp only: like_percent like_escaped append_Cons)
  also have "\<dots> \<longleftrightarrow> (\<exists>a rest. s = a @ t @ rest)"
    using like_all by blast
  finally show ?thesis by (simp add: sublist_def)
qed

lemma lower_char_fix:
  assumes "(of_char d :: nat) \<notin> {65..90} \<union> {97..122}"
  shows "lower_char c = d \<longleftrightarrow> c = d"
proof
  assume l: "lower_char c = d"
  show "c = d"
  proof (cases "65 \<le> (of_char c :: nat) \<and> (of_char c :: nat) \<le> 90")
    case True
    then have "(of_char d :: nat) = of_char c + 32"
      using l by (auto simp: lower_char_def Let_def)
    with True assms show ?thesis by simp
  next
    case False
    with l show ?thesis by (simp add: lower_char_def Let_def split: if_splits)
  qed
next
  assume "c = d"
  moreover have "\<not> (65 \<le> (of_char d :: nat) \<and> (of_char d :: nat) \<le> 90)" using assms by auto
  ultimately show "lower_char c = d" unfolding lower_char_def Let_def by (simp only: if_False)
qed

lemma lower_metachar: "metachar (lower_char c) \<longleftrightarrow> metachar c" "metachar c \<Longrightarrow> lower_char c = c"
  using lower_char_fix [of like_escape c] lower_char_fix [of "CHR ''%''" c]
    lower_char_fix [of "CHR ''_''" c]
  by (auto simp: metachar_def like_escape_def)

lemma casefold_escaped: "casefold (escaped t) = escaped (casefold t)"
proof (induction t)
  case (Cons c t)
  have "lower_char like_escape = like_escape" by (rule lower_metachar) (simp add: metachar_def)
  with Cons show ?case by (simp add: escaped_def casefold_def lower_metachar)
qed (simp add: escaped_def casefold_def)

lemma ilike_like_pattern: "ilike title (like_pattern t) \<longleftrightarrow> sublist (casefold t) (casefold title)"
proof -
  have "lower_char CHR ''%'' = CHR ''%''" using lower_metachar(2) [of "CHR ''%''"] by (simp add: metachar_def)
  then have "casefold (like_pattern t) = like_pattern (casefold t)"
    unfolding like_pattern_def defang_chars casefold_escaped [symmetric] by (simp add: casefold_def)
  then show ?thesis by (simp add: ilike_def like_pattern_sublist)
qed

text \<open>The title search is literal: whatever the editor types, including the wild cards and the
  escape character of \<open>LIKE\<close>, a row matches exactly when the term occurs, up to letter case, in the
  title of its source article, of its target article, or in the title of its external target.\<close>

lemma title_search_is_literal:
  "title_matches articles term s \<longleftrightarrow>
     (\<exists>title. sublist (casefold term) (casefold title)
        \<and> ((\<exists>a\<in>set articles. ar_title a = title \<and> (ar_id a = sg_source s \<or> sg_target s = Some (ar_id a)))
           \<or> sg_external_title s = Some title))"
  by (auto simp: title_matches_def ilike_like_pattern list_ex_iff split: option.splits)

section \<open>Paging\<close>

lemma below_rank:
  "below (Some (sg_score l, sg_id l)) s \<longleftrightarrow> queue_rank l < queue_rank s"
  by (auto simp: below_def queue_rank_def)

interpretation queue_ranking: deterministic_ranking queue_rank sg_id
  by unfold_locales (simp add: queue_rank_def)

text \<open>In a strictly sorted list the elements above the one at position \<open>k\<close> are those after it.\<close>

lemma filter_above:
  fixes f :: "'a \<Rightarrow> 'k::linorder"
  assumes "sorted_wrt (\<lambda>x y. f x < f y) xs" and "k < length xs"
  shows "filter (\<lambda>x. f (xs ! k) < f x) xs = drop (Suc k) xs"
  using assms
proof (induction xs arbitrary: k)
  case (Cons x xs)
  show ?case
  proof (cases k)
    case 0
    then show ?thesis using Cons.prems by (auto simp: filter_id_conv)
  next
    case (Suc j)
    then have "f x < f (xs ! j)" using Cons.prems by simp
    then have "\<not> f (xs ! j) < f x" by (simp add: less_imp_le not_less)
    then show ?thesis using Suc Cons by auto
  qed
qed simp

lemma sort_strict:
  fixes f :: "'a \<Rightarrow> 'k::linorder"
  assumes "inj_on f (set xs)" and "distinct xs"
  shows "sorted_wrt (\<lambda>x y. f x < f y) (sort_key f xs)"
proof -
  have "distinct (map f (sort_key f xs))" using assms by (simp add: distinct_map)
  moreover have "sorted (map f (sort_key f xs))" by simp
  ultimately have "sorted_wrt (<) (map f (sort_key f xs))" by (simp add: strict_sorted_iff)
  then show ?thesis by (simp add: sorted_wrt_map)
qed

lemma page_step:
  assumes "primary sg_id rows" and "0 < limit"
    and "page_of rows cursor limit = (items, nxt)"
  defines "rest \<equiv> sort_key queue_rank (filter (below cursor) rows)"
  shows "items = take limit rest"
    and "nxt = None \<Longrightarrow> rest = items"
    and "nxt = Some c \<Longrightarrow> rest = items @ sort_key queue_rank (filter (below (Some c)) rows)
      \<and> items \<noteq> [] \<and> (\<exists>l\<in>set rows. c = (sg_score l, sg_id l))"
proof -
  have items: "items = take limit rest"
    using assms(3) by (auto simp: page_of_def Let_def rest_def min_def)
  then show "items = take limit rest" .
  have nxt: "nxt = (if limit < length rest \<and> items \<noteq> [] then Some (sg_score (last items), sg_id (last items)) else None)"
    using assms(3) items by (auto simp: page_of_def Let_def rest_def min_def)
  show "nxt = None \<Longrightarrow> rest = items"
    using nxt items assms(2) by (auto split: if_splits)
  assume some: "nxt = Some c"
  then have long: "limit < length rest" and ne: "items \<noteq> []"
    and c: "c = (sg_score (last items), sg_id (last items))"
    using nxt by (auto split: if_splits)
  let ?k = "limit - 1"
  have l: "last items = rest ! ?k"
    using items long assms(2) ne by (simp add: last_conv_nth)
  have inl: "last items \<in> set (filter (below cursor) rows)"
  proof -
    have "last items \<in> set rest" using l long assms(2) by simp
    then show ?thesis by (simp add: rest_def)
  qed
  have narrower: "filter (below (Some c)) rows = filter (\<lambda>s. queue_rank (last items) < queue_rank s) (filter (below cursor) rows)"
  proof -
    have "below cursor s" if "queue_rank (last items) < queue_rank s" for s
      using that inl by (auto simp: below_def queue_rank_def split: option.splits)
    then show ?thesis unfolding c by (auto simp: below_rank intro: filter_cong)
  qed
  have dist: "distinct (map sg_id (filter (below cursor) rows))"
    using assms(1) by (simp add: primary_def distinct_map_filter)
  then have strict: "sorted_wrt (\<lambda>x y. queue_rank x < queue_rank y) rest"
    unfolding rest_def by (intro sort_strict queue_ranking.inj_rank) (auto simp: distinct_map)
  have "sort_key queue_rank (filter (below (Some c)) rows) = filter (\<lambda>s. queue_rank (last items) < queue_rank s) rest"
    unfolding narrower rest_def by (simp only: filter_sort)
  also have "\<dots> = drop limit rest"
    using filter_above [OF strict, of ?k] long assms(2) by (simp add: l)
  finally show "rest = items @ sort_key queue_rank (filter (below (Some c)) rows)
      \<and> items \<noteq> [] \<and> (\<exists>l\<in>set rows. c = (sg_score l, sg_id l))"
    using items ne c inl by auto
qed

text \<open>A reader that follows \<open>next_cursor\<close> until it is absent, with the requests it makes.\<close>

fun read_queue :: "nat \<Rightarrow> principal \<Rightarrow> page_request \<Rightarrow> review_db \<Rightarrow> http_error + suggestion list" where
  "read_queue 0 p q db = Inr []"
| "read_queue (Suc n) p q db =
     bind_ok (list_suggestion_page p q db) (\<lambda>pg.
       case pg_next pg of
         None \<Rightarrow> Inr (pg_items pg)
       | Some (x, i) \<Rightarrow>
           bind_ok (read_queue n p (q\<lparr>pq_after_score := Some x, pq_after_id := Some i\<rparr>) db)
             (\<lambda>more. Inr (pg_items pg @ more)))"

lemma list_page_eq:
  assumes "valid_page_request q" and "scoped_filter db p (pq_filter q) = Inr f" and "pq_offset q = None"
    and "cursor = None \<and> pq_after_score q = None \<and> pq_after_id q = None
      \<or> (\<exists>x i. cursor = Some (x, i) \<and> pq_after_score q = Some x \<and> pq_after_id q = Some i)"
  shows "list_suggestion_page p q db = Inr \<lparr>pg_items = fst (page_of (listed db f) cursor (pq_limit q)),
     pg_total = (if pq_include_total q then Some (length (listed db f)) else None),
     pg_next = snd (page_of (listed db f) cursor (pq_limit q))\<rparr>"
  using assms by (auto simp: list_suggestion_page_def Let_def split_beta)

lemma read_queue_rest:
  assumes "valid_page_request q" and "scoped_filter db p (pq_filter q) = Inr f" and "pq_offset q = None"
    and "primary sg_id (listed db f)" and "\<forall>s\<in>set (listed db f). 0 \<le> sg_score s \<and> sg_score s \<le> 1 \<and> 1 \<le> sg_id s"
    and "cursor = None \<and> pq_after_score q = None \<and> pq_after_id q = None
      \<or> (\<exists>x i. cursor = Some (x, i) \<and> pq_after_score q = Some x \<and> pq_after_id q = Some i)"
    and "length (filter (below cursor) (listed db f)) < n"
  shows "read_queue n p q db = Inr (sort_key queue_rank (filter (below cursor) (listed db f)))"
  using assms(1-3,6-)
proof (induction n arbitrary: q cursor)
  case (Suc n)
  let ?rows = "listed db f"
  obtain items nxt where pg: "page_of ?rows cursor (pq_limit q) = (items, nxt)" by fastforce
  have limit: "0 < pq_limit q" using Suc.prems(1) by (simp add: valid_page_request_def)
  note step = page_step [OF assms(4) limit pg]
  note page = list_page_eq [OF Suc.prems(1-4), unfolded pg fst_conv snd_conv]
  show ?case
  proof (cases nxt)
    case None
    with step(2) page show ?thesis by simp
  next
    case (Some c)
    obtain x i where c: "c = (x, i)" by fastforce
    let ?q = "q\<lparr>pq_after_score := Some x, pq_after_id := Some i\<rparr>"
    from step(3) [OF Some] have rest: "sort_key queue_rank (filter (below cursor) ?rows)
        = items @ sort_key queue_rank (filter (below (Some c)) ?rows)" and "items \<noteq> []"
      and "\<exists>l\<in>set ?rows. c = (sg_score l, sg_id l)" by auto
    then have "0 \<le> x \<and> x \<le> 1 \<and> 1 \<le> i" using assms(5) c by auto
    then have valid: "valid_page_request ?q" using Suc.prems(1)
      by (simp add: valid_page_request_def given_def)
    have "length (filter (below cursor) ?rows) = length items + length (filter (below (Some c)) ?rows)"
      using rest by (metis length_append length_sort)
    with \<open>items \<noteq> []\<close> Suc.prems(5) have shorter: "length (filter (below (Some c)) ?rows) < n"
      by (cases items) auto
    have "read_queue n p ?q db = Inr (sort_key queue_rank (filter (below (Some c)) ?rows))"
      by (rule Suc.IH) (use valid Suc.prems c shorter in auto)
    with page Some c rest show ?thesis by simp
  qed
qed simp

text \<open>Paging through the queue is complete and exact: following \<open>next_cursor\<close> from the first page,
  whatever the page size, shows every row that matches the filter exactly once, best score first
  (larger id first among equals), and ends after at most one request more than there are rows.\<close>

lemma queue_paging_is_complete:
  assumes "valid_page_request q" and "scoped_filter db p (pq_filter q) = Inr f"
    and "pq_offset q = None" and "pq_after_score q = None" and "pq_after_id q = None"
    and "primary sg_id (st_suggestions (rv_store db))"
    and "\<forall>s\<in>set (st_suggestions (rv_store db)). 0 \<le> sg_score s \<and> sg_score s \<le> 1 \<and> 1 \<le> sg_id s"
    and "length (listed db f) < n"
  shows "\<exists>rows. read_queue n p q db = Inr rows \<and> mset rows = mset (listed db f)
    \<and> distinct (map sg_id rows) \<and> sorted (map queue_rank rows)"
proof -
  have prim: "primary sg_id (listed db f)"
    using assms(6) by (simp add: primary_def listed_def distinct_map_filter)
  have "filter (below None) (listed db f) = listed db f" by (simp add: below_def)
  then have "read_queue n p q db = Inr (sort_key queue_rank (listed db f))"
    using read_queue_rest [OF assms(1-3) prim, of None n] assms(4,5,7,8) by (simp add: listed_def)
  moreover have "distinct (map sg_id (sort_key queue_rank (listed db f)))"
    using prim by (simp add: primary_def distinct_map)
  ultimately show ?thesis by simp
qed

text \<open>A small queue for the examples: tenant 7 owns site 7, the rows are pristine.\<close>

definition sample_admin :: principal where
  "sample_admin = \<lparr>is_admin = True, psource = Operator, tenant_id = None, key_id = None, operator_id = None\<rparr>"

definition sample_review_db :: review_db where
  "sample_review_db = \<lparr>rv_store = \<lparr>st_articles = [],
       st_suggestions = [new_suggestion 7 7 20 (Some 30) None Hybrid_bm25 (3 / 4),
                         new_suggestion 8 7 20 (Some 31) None Hybrid_bm25 (1 / 2),
                         new_suggestion 9 7 21 (Some 31) None Hybrid_bm25 (3 / 4)],
       st_plans = [], st_events = []\<rparr>,
     rv_sites = [\<lparr>site_id = 7, site_tenant = 7, site_base_url = ''https://a.example'',
       site_platform = WordPress, wp_username = None, pool_source_approved = False,
       pool_source_failures = 0, pool_source_quarantined = False,
       pool_source_quarantine_reason = None, domain_registered_at = None\<rparr>],
     rv_ops = [], rv_items = []\<rparr>"

definition no_filter :: queue_filter where
  "no_filter = \<lparr>qf_site = None, qf_tenant = None, qf_status = None, qf_method = None, qf_min = None,
     qf_max = None, qf_q = None, qf_origin = None, qf_exclude = False\<rparr>"

definition sample_page :: page_request where
  "sample_page = \<lparr>pq_filter = no_filter, pq_after_score = None, pq_after_id = None,
     pq_include_total = True, pq_limit = 2, pq_offset = None\<rparr>"

lemma sample_scope: "scoped_filter sample_review_db sample_admin no_filter = Inr no_filter"
  by (simp add: scoped_filter_def no_filter_def tenant_scope_def sample_admin_def)

lemma queue_paging_is_complete_witness:
  "\<exists>rows. read_queue 4 sample_admin sample_page sample_review_db = Inr rows
    \<and> mset rows = mset (listed sample_review_db no_filter)
    \<and> distinct (map sg_id rows) \<and> sorted (map queue_rank rows)"
proof (rule queue_paging_is_complete)
  show "valid_page_request sample_page"
    by (simp add: valid_page_request_def valid_filter_def given_def sample_page_def no_filter_def
        max_bulk_review_def)
  show "scoped_filter sample_review_db sample_admin (pq_filter sample_page) = Inr no_filter"
    using sample_scope by (simp add: sample_page_def)
  show "length (listed sample_review_db no_filter) < 4"
    by (simp add: listed_def sample_review_db_def)
qed (simp_all add: sample_page_def sample_review_db_def primary_def new_suggestion_def)

section \<open>Reviews touch exactly what they may\<close>

interpretation reviewed: row_update sg_id "review_values now status actor reason" for now status actor reason
  by unfold_locales (simp add: review_values_def)

lemma review_values_frame [simp]:
  "sg_id (review_values now status actor reason s) = sg_id s"
  "sg_site (review_values now status actor reason s) = sg_site s"
  "sg_source (review_values now status actor reason s) = sg_source s"
  "sg_target (review_values now status actor reason s) = sg_target s"
  "sg_status (review_values now status actor reason s) = status"
  "sg_plan (review_values now status actor reason s) = None"
  by (simp_all add: review_values_def)

lemma rows_with_tenant_set:
  "(i, t) \<in> set (rows_with_tenant db wanted) \<longleftrightarrow>
     (\<exists>s\<in>set (st_suggestions (rv_store db)). sg_id s = i \<and> wanted i
        \<and> (\<exists>x\<in>set (rv_sites db). site_id x = sg_site s \<and> site_tenant x = t))"
  by (auto simp: rows_with_tenant_def)

lemma rows_with_tenant_ids:
  "fst ` set (rows_with_tenant db wanted) =
     sg_id ` {s \<in> set (st_suggestions (rv_store db)). wanted (sg_id s) \<and> sg_site s \<in> site_id ` set (rv_sites db)}"
  by (auto simp: rows_with_tenant_def image_iff) (metis image_eqI fst_conv)+

lemma check_tenants_None:
  "check_tenants p ts = None \<longleftrightarrow> is_admin p \<or> (\<forall>t\<in>set ts. tenant_id p = Some t)"
  by (auto simp: check_tenants_def check_all_None_iff check_site_access_def split: if_splits)

lemma review_guard_ids: "primary sg_id (st_suggestions st) \<Longrightarrow> s \<in> set (st_suggestions st) \<Longrightarrow>
    sg_id s \<in> set (map sg_id (filter (review_guard st C) (st_suggestions st))) \<longleftrightarrow> review_guard st C s"
  by (auto dest: primary_same)

text \<open>A batch review is exact and authorised: it succeeds only when every named row belongs to a
  tenant the caller may act for; then each named row (of an existing site) that is not being or
  already published, expired, or bound to an approved plan gets the decision, any other row is
  unchanged, plans are untouched, and the answer lists each named row once, as reviewed or as skipped,
  accordingly.\<close>

lemma batch_review_is_exact:
  assumes "bulk_review now p actor r db = Inr (db', res)"
    and "primary sg_id (st_suggestions (rv_store db))"
  defines "named \<equiv> \<lambda>s. sg_id s \<in> set (br_ids r) \<and> sg_site s \<in> site_id ` set (rv_sites db)"
  shows "(\<forall>s\<in>set (st_suggestions (rv_store db)). named s \<longrightarrow> is_admin p
        \<or> (\<forall>x\<in>set (rv_sites db). site_id x = sg_site s \<longrightarrow> tenant_id p = Some (site_tenant x)))
    \<and> st_suggestions (rv_store db') = map (\<lambda>s.
        if named s \<and> sg_status s \<notin> {Applying, Applied, Expired} \<and> \<not> bound_to_an_approved_plan (rv_store db) s
        then review_values now (br_status r) (Some actor) (br_reason r) s else s) (st_suggestions (rv_store db))
    \<and> st_plans (rv_store db') = st_plans (rv_store db)
    \<and> sorted (bres_reviewed res) \<and> sorted (bres_skipped res)
    \<and> distinct (bres_reviewed res @ bres_skipped res)
    \<and> set (bres_reviewed res) = sg_id ` {s \<in> set (st_suggestions (rv_store db)). named s
        \<and> sg_status s \<notin> {Applying, Applied, Expired} \<and> \<not> bound_to_an_approved_plan (rv_store db) s}
    \<and> set (bres_reviewed res) \<union> set (bres_skipped res) = sg_id ` {s \<in> set (st_suggestions (rv_store db)). named s}"
proof -
  let ?st = "rv_store db" and ?rows = "rows_with_tenant db (\<lambda>i. i \<in> set (br_ids r))"
  let ?ex = "sort (remdups (map fst ?rows))" and ?C = "\<lambda>s. sg_id s \<in> set (sort (remdups (map fst ?rows)))"
  let ?rev = "map sg_id (filter (review_guard ?st ?C) (st_suggestions ?st))"
  have ok: "check_tenants p (map snd ?rows) = None"
    and db': "db' = db\<lparr>rv_store := set_suggestions (review_guard ?st ?C)
      (review_values now (br_status r) (Some actor) (br_reason r)) ?st\<rparr>"
    and res: "bres_reviewed res = sort ?rev" "bres_skipped res = filter (\<lambda>i. i \<notin> set ?rev) ?ex"
    using assms(1) by (auto simp: bulk_review_def review_ids_def review_matching_def Let_def
        split: if_splits option.splits)
  have ex: "set ?ex = sg_id ` {s \<in> set (st_suggestions ?st). named s}"
    by (simp add: named_def rows_with_tenant_ids)
  have C: "?C s \<longleftrightarrow> named s" if "s \<in> set (st_suggestions ?st)" for s
    using ex that primary_same [OF assms(2)] by (auto simp: image_iff)
  have G: "review_guard ?st ?C s \<longleftrightarrow> named s \<and> sg_status s \<notin> {Applying, Applied, Expired}
      \<and> \<not> bound_to_an_approved_plan ?st s" if "s \<in> set (st_suggestions ?st)" for s
    using C [OF that] by (simp add: review_guard_def unreviewable_def)
  have "\<forall>s\<in>set (st_suggestions ?st). named s \<longrightarrow> is_admin p
        \<or> (\<forall>x\<in>set (rv_sites db). site_id x = sg_site s \<longrightarrow> tenant_id p = Some (site_tenant x))"
    using ok rows_with_tenant_set [of _ _ db "\<lambda>i. i \<in> set (br_ids r)"]
    unfolding check_tenants_None named_def by (metis (no_types, lifting) image_eqI set_map snd_conv)
  moreover have "st_suggestions (rv_store db') = map (\<lambda>s.
        if named s \<and> sg_status s \<notin> {Applying, Applied, Expired} \<and> \<not> bound_to_an_approved_plan ?st s
        then review_values now (br_status r) (Some actor) (br_reason r) s else s) (st_suggestions ?st)"
    using G by (simp add: db' update_where_def)
  moreover have rev: "set ?rev = sg_id ` {s \<in> set (st_suggestions ?st). named s
        \<and> sg_status s \<notin> {Applying, Applied, Expired} \<and> \<not> bound_to_an_approved_plan ?st s}"
    using G by auto
  moreover have "distinct ?rev" using assms(2) by (simp add: primary_def distinct_map_filter)
  moreover have "distinct (bres_reviewed res @ bres_skipped res)"
    using \<open>distinct ?rev\<close> by (auto simp: res simp del: filter_map)
  moreover have "set (bres_reviewed res) \<union> set (bres_skipped res) = sg_id ` {s \<in> set (st_suggestions ?st). named s}"
  proof -
    have "sg_id ` {s \<in> set (st_suggestions ?st). named s
        \<and> sg_status s \<notin> {Applying, Applied, Expired} \<and> \<not> bound_to_an_approved_plan ?st s}
      \<subseteq> sg_id ` {s \<in> set (st_suggestions ?st). named s}" by blast
    then have "set ?rev \<subseteq> set ?ex" by (rule ord_eq_le_trans [OF rev ord_le_eq_trans [OF _ ex [symmetric]]])
    then have "set (bres_reviewed res) \<union> set (bres_skipped res) = set ?ex" unfolding res by auto
    then show ?thesis using ex by simp
  qed
  moreover have "set (bres_reviewed res) = set ?rev" by (simp add: res)
  moreover have "st_plans (rv_store db') = st_plans ?st" by (simp add: db')
  moreover have "sorted (bres_reviewed res)" "sorted (bres_skipped res)"
    by (simp_all add: res sorted_filter [of "\<lambda>x. x", simplified])
  ultimately show ?thesis by (intro conjI) (assumption | simp only: rev)+
qed

definition sample_tenant :: principal where
  "sample_tenant = \<lparr>is_admin = False, psource = Db, tenant_id = Some 7, key_id = Some 7, operator_id = None\<rparr>"

definition sample_bulk :: bulk_review_request where
  "sample_bulk = \<lparr>br_ids = [8, 9, 9], br_status = Rejected, br_reason = Some ''duplicate''\<rparr>"

lemma batch_review_is_exact_witness:
  "\<exists>db' res. bulk_review 100 sample_tenant ''ada'' sample_bulk sample_review_db = Inr (db', res)
    \<and> set (bres_reviewed res) \<union> set (bres_skipped res) = {8, 9}
    \<and> map sg_status (st_suggestions (rv_store db')) = [Pending, Rejected, Rejected]"
proof -
  let ?db = sample_review_db
  have prim: "primary sg_id (st_suggestions (rv_store ?db))"
    by (simp add: sample_review_db_def primary_def new_suggestion_def)
  have "valid_bulk_review sample_bulk"
    by (simp add: sample_bulk_def valid_bulk_review_def max_bulk_review_def review_status_def
        reason_only_applies_to_rejection_def)
  then obtain db' res where run: "bulk_review 100 sample_tenant ''ada'' sample_bulk ?db = Inr (db', res)"
    by (simp add: bulk_review_def sample_bulk_def sample_review_db_def rows_with_tenant_def
        new_suggestion_def check_tenants_def check_site_access_def sample_tenant_def Let_def split_beta)
  note exact = batch_review_is_exact [OF run prim]
  from exact have "st_suggestions (rv_store db') = map (\<lambda>s. if (sg_id s \<in> set (br_ids sample_bulk)
        \<and> sg_site s \<in> site_id ` set (rv_sites ?db))
        \<and> sg_status s \<notin> {Applying, Applied, Expired} \<and> \<not> bound_to_an_approved_plan (rv_store ?db) s
        then review_values 100 (br_status sample_bulk) (Some ''ada'') (br_reason sample_bulk) s else s)
        (st_suggestions (rv_store ?db))" by (elim conjE)
  moreover from exact have "set (bres_reviewed res) \<union> set (bres_skipped res) =
      sg_id ` {s \<in> set (st_suggestions (rv_store ?db)).
        sg_id s \<in> set (br_ids sample_bulk) \<and> sg_site s \<in> site_id ` set (rv_sites ?db)}" by (elim conjE)
  moreover have "{s \<in> set (st_suggestions (rv_store ?db)).
      sg_id s \<in> set (br_ids sample_bulk) \<and> sg_site s \<in> site_id ` set (rv_sites ?db)}
    = {new_suggestion 8 7 20 (Some 31) None Hybrid_bm25 (1 / 2), new_suggestion 9 7 21 (Some 31) None Hybrid_bm25 (3 / 4)}"
    by (auto simp: sample_review_db_def sample_bulk_def new_suggestion_def)
  ultimately show ?thesis using run
    by (simp add: sample_review_db_def sample_bulk_def new_suggestion_def bound_to_an_approved_plan_def)
qed

section \<open>Rules and their undo\<close>

abbreviation rule_cohort :: "review_db \<Rightarrow> nat option \<Rightarrow> bulk_rule \<Rightarrow> suggestion \<Rightarrow> bool" where
  "rule_cohort db tenant r \<equiv> queue_conditions (rv_sites db) (rv_store db) (rule_filter tenant r)"

abbreviation rule_moves :: "review_db \<Rightarrow> nat option \<Rightarrow> bulk_rule \<Rightarrow> suggestion \<Rightarrow> bool" where
  "rule_moves db tenant r \<equiv>
     (\<lambda>s. rule_cohort db tenant r s \<and> \<not> bound_to_an_approved_plan (rv_store db) s)"

lemma bulk_ruleE:
  assumes "bulk_review_by_filter now uid p actor r db = Inr (db', res)"
  obtains tenant moved where "valid_rule r" and "tenant_scope p = Inr tenant"
    and "moved = map sg_id (filter (rule_moves db tenant r) (st_suggestions (rv_store db)))"
    and "rv_store db' = set_suggestions (rule_moves db tenant r)
      (review_values now (ru_status r) (Some actor) (ru_reason r)) (rv_store db)"
    and "rv_sites db' = rv_sites db" and "rv_items db' = rv_items db @ map (Pair uid) moved"
    and "rv_ops db' = (if moved = [] then rv_ops db else rv_ops db @
      [\<lparr>bo_id = uid, bo_actor = str_take 255 actor, bo_from = ru_match r, bo_to = ru_status r,
        bo_reviewed = length moved, bo_undone_count = None, bo_skipped_count = None, bo_undone_at = None\<rparr>])"
    and "rr_reviewed res = length moved"
    and "rr_skipped res = length (filter (rule_cohort db tenant r) (st_suggestions (rv_store db))) - length moved"
    and "rr_ids res = (if length moved \<le> 1000 then Some (sort moved) else None)"
    and "rr_undo res = (if moved = [] then None else Some uid)"
    and "ru_all_sites r \<longrightarrow> is_admin p"
    and "\<forall>i. \<not> ru_all_sites r \<and> ru_site r = Some i \<longrightarrow> (\<exists>x. authorize_site (rv_sites db) p i = Inr x)"
proof -
  from assms obtain tenant where t: "tenant_scope p = Inr tenant" and v: "valid_rule r"
    and a: "ru_all_sites r \<longrightarrow> is_admin p"
    and b: "\<forall>i. \<not> ru_all_sites r \<and> ru_site r = Some i \<longrightarrow> (\<exists>x. authorize_site (rv_sites db) p i = Inr x)"
    and eq: "Inr (db', res) = (let (db', c) = review_matching_counts now (rule_cohort db tenant r) (ru_status r)
        (Some uid) (Some actor) (ru_reason r) db
      in Inr (if rc_reviewed c \<noteq> 0 then db'\<lparr>rv_ops := rv_ops db @ [\<lparr>bo_id = uid, bo_actor = str_take 255 actor,
           bo_from = ru_match r, bo_to = ru_status r, bo_reviewed = rc_reviewed c, bo_undone_count = None,
           bo_skipped_count = None, bo_undone_at = None\<rparr>]\<rparr> else db',
         \<lparr>rr_reviewed = rc_reviewed c, rr_skipped = rc_matched c - rc_reviewed c, rr_ids = rc_ids c,
          rr_undo = (if rc_reviewed c \<noteq> 0 then Some uid else None), rr_status = ru_status r\<rparr>) :: unit + _)"
    by (cases "tenant_scope p")
       (auto simp: bulk_review_by_filter_def bind_ok_eq_Inr require_admin_principal_def Let_def split_beta
          split: if_splits option.splits sum.splits)
  show ?thesis
    by (rule that [OF v t refl])
       (use a b in \<open>insert eq, auto simp: review_matching_counts_def Let_def max_bulk_review_def
          filter_empty_conv split: if_splits\<close>)
qed

text \<open>A row as the queue first sees it: reviews have left nothing on it.\<close>

definition unreviewed :: "suggestion \<Rightarrow> bool" where
  "unreviewed s \<longleftrightarrow> sg_reviewed_at s = None \<and> sg_attempts s = 0 \<and> sg_error s = None
     \<and> sg_plan s = None \<and> sg_reviewer s = None \<and> sg_reason s = None"

lemma undo_values:
  "unreviewed s \<Longrightarrow> sg_status s = Pending \<Longrightarrow>
     review_values later Pending actor' reason' (review_values now status actor reason s) = s"
  by (cases s) (simp add: review_values_def unreviewed_def)

lemma fresh_pair_in_items:
  "uid \<notin> fst ` set items \<Longrightarrow> (uid, i) \<in> set (items @ map (Pair uid) moved) \<longleftrightarrow> i \<in> set moved"
  by force

text \<open>Every row a rule moved belongs to a tenant its caller may act for, so the caller may undo it.\<close>

lemma rule_items_allowed:
  assumes "tenant_scope p = Inr tenant" and "primary site_id (rv_sites db)"
    and "\<And>s. s \<in> set (st_suggestions (rv_store db)) \<Longrightarrow> wanted (sg_id s) \<Longrightarrow>
      given tenant (\<lambda>t. list_ex (\<lambda>x. site_id x = sg_site s \<and> site_tenant x = t) (rv_sites db))"
  shows "check_tenants p (remdups (map snd (rows_with_tenant db wanted))) = None"
proof (cases "is_admin p")
  case False
  with assms(1) obtain t where t: "tenant = Some t" "tenant_id p = Some t"
    by (auto simp: tenant_scope_def split: if_splits)
  have "t' = t" if mem: "(i, t') \<in> set (rows_with_tenant db wanted)" for i t'
  proof -
    from mem obtain s x where "s \<in> set (st_suggestions (rv_store db))" "wanted (sg_id s)"
      and x: "x \<in> set (rv_sites db)" "site_id x = sg_site s" "site_tenant x = t'"
      by (auto simp: rows_with_tenant_set)
    with assms(3) t(1) obtain y where "y \<in> set (rv_sites db)" "site_id y = sg_site s" "site_tenant y = t"
      by (force simp: given_def list_ex_iff)
    with x assms(2) show ?thesis by (metis primary_same)
  qed
  then have "\<forall>t'\<in>set (map snd (rows_with_tenant db wanted)). tenant_id p = Some t'"
    using t(2) by auto
  then show ?thesis by (simp add: check_tenants_None)
qed (simp add: check_tenants_None)

text \<open>C39. Undo is exact: a rule that reviewed pristine pending rows, undone before anything else happened,
  leaves every suggestion exactly as it was, restores as many rows as it had reviewed and skips none;
  undoing it again changes nothing and answers with the same counts.\<close>

theorem filtered_review_undo_roundtrip:
  assumes "bulk_review_by_filter t1 uid p actor r db = Inr (db1, res)" and "rr_undo res = Some u"
    and "ru_match r = Pending" and "\<forall>s\<in>set (st_suggestions (rv_store db)). sg_status s = Pending \<longrightarrow> unreviewed s"
    and "primary sg_id (st_suggestions (rv_store db))" and "primary site_id (rv_sites db)"
    and "uid \<notin> bo_id ` set (rv_ops db)" and "uid \<notin> fst ` set (rv_items db)"
  shows "\<exists>db2 v. undo_filtered_bulk_review t2 p actor2 u db1 = Inr (db2, v)
    \<and> rv_store db2 = rv_store db
    \<and> v = \<lparr>ur_restored = rr_reviewed res, ur_skipped = 0, ur_status = Pending, ur_already = False\<rparr>
    \<and> undo_filtered_bulk_review t3 p actor3 u db2 = Inr (db2, v\<lparr>ur_already := True\<rparr>)"
proof -
  from assms(1) obtain tenant moved where r: "valid_rule r" "tenant_scope p = Inr tenant"
    and moved: "moved = map sg_id (filter (rule_moves db tenant r) (st_suggestions (rv_store db)))"
    and store: "rv_store db1 = set_suggestions (rule_moves db tenant r)
      (review_values t1 (ru_status r) (Some actor) (ru_reason r)) (rv_store db)"
    and sites: "rv_sites db1 = rv_sites db" and items: "rv_items db1 = rv_items db @ map (Pair uid) moved"
    and ops: "rv_ops db1 = (if moved = [] then rv_ops db else rv_ops db @
      [\<lparr>bo_id = uid, bo_actor = str_take 255 actor, bo_from = ru_match r, bo_to = ru_status r,
        bo_reviewed = length moved, bo_undone_count = None, bo_skipped_count = None, bo_undone_at = None\<rparr>])"
    and n: "rr_reviewed res = length moved" and undo: "rr_undo res = (if moved = [] then None else Some uid)"
    by (rule bulk_ruleE) (rule that; assumption)
  let ?G = "rule_moves db tenant r" and ?rows = "st_suggestions (rv_store db)"
  let ?f = "review_values t1 (ru_status r) (Some actor) (ru_reason r)"
  define b where "b = \<lparr>bo_id = uid, bo_actor = str_take 255 actor, bo_from = ru_match r, bo_to = ru_status r,
        bo_reviewed = length moved, bo_undone_count = None, bo_skipped_count = None, bo_undone_at = None\<rparr>"
  have u: "u = uid" and ne: "moved \<noteq> []" using undo assms(2) by (auto split: if_splits)
  have ops1: "rv_ops db1 = rv_ops db @ [b]" using ops ne by (simp add: b_def)
  have op: "get_row bo_id uid (rv_ops db1) = Some b"
    using assms(7) get_row_None_iff [of bo_id uid "rv_ops db"]
    by (simp add: ops1 get_row_append) (simp add: get_row_def b_def)
  have in_moved: "sg_id s \<in> set moved \<longleftrightarrow> ?G s" if "s \<in> set ?rows" for s
    using that primary_same [OF assms(5)] by (auto simp: moved)
  have item: "(uid, i) \<in> set (rv_items db1) \<longleftrightarrow> i \<in> set moved" for i
    unfolding items by (rule fresh_pair_in_items [OF assms(8)])
  have guard: "undo_guard db1 b (if ?G s then ?f s else s) \<longleftrightarrow> ?G s" if "s \<in> set ?rows" for s
    using item in_moved [OF that] by (auto simp: undo_guard_def b_def)
  have pending: "sg_status s = Pending \<and> unreviewed s" if "?G s" "s \<in> set ?rows" for s
  proof -
    have "status_name (sg_status s) = ''pending''"
      using that(1) assms(3) by (simp add: queue_conditions_def given_def rule_filter_def)
    then have "sg_status s = Pending" by (cases "sg_status s") auto
    with assms(4) that(2) show ?thesis by blast
  qed
  note revert = update_where_revert [of ?rows "undo_guard db1 b" ?G ?f "review_values t2 Pending (Some actor2) None",
      OF guard]
  have inverse: "review_values t2 Pending (Some actor2) None (?f s) = s" if "s \<in> set ?rows" "?G s" for s
    using pending that undo_values by simp
  have count: "length (filter (undo_guard db1 b) (st_suggestions (rv_store db1))) = length moved"
    using revert(2) inverse by (simp add: store moved)
  have allowed: "check_tenants p (remdups (map snd (rows_with_tenant db1 (\<lambda>i. (uid, i) \<in> set (rv_items db1))))) = None"
  proof (rule rule_items_allowed [OF r(2)])
    show "primary site_id (rv_sites db1)" using assms(6) sites by simp
    fix s assume s: "s \<in> set (st_suggestions (rv_store db1))" and w: "(uid, sg_id s) \<in> set (rv_items db1)"
    then obtain s0 where s0: "s0 \<in> set ?rows" "s = (if ?G s0 then ?f s0 else s0)"
      by (auto simp: store set_update_where)
    then have "?G s0" using w item in_moved [of s0] by (auto split: if_splits)
    then show "given tenant (\<lambda>t. list_ex (\<lambda>x. site_id x = sg_site s \<and> site_tenant x = t) (rv_sites db1))"
      using s0 by (simp add: queue_conditions_def rule_filter_def sites)
  qed
  define db2 where "db2 = db1\<lparr>rv_store := rv_store db,
    rv_ops := update_where (\<lambda>o'. bo_id o' = uid) (\<lambda>o'. o'\<lparr>bo_undone_at := Some t2,
      bo_undone_count := Some (length moved), bo_skipped_count := Some 0\<rparr>) (rv_ops db1)\<rparr>"
  have store_eq: "set_suggestions (undo_guard db1 b) (review_values t2 Pending (Some actor2) None) (rv_store db1)
      = rv_store db"
    using revert(1) inverse by (simp add: store set_suggestions_def)
  have b: "bo_id b = uid" "bo_from b = Pending" "bo_reviewed b = length moved" "bo_undone_at b = None"
    using assms(3) by (simp_all add: b_def)
  have first: "undo_filtered_bulk_review t2 p actor2 u db1 = Inr (db2,
      \<lparr>ur_restored = rr_reviewed res, ur_skipped = 0, ur_status = Pending, ur_already = False\<rparr>)"
    unfolding undo_filtered_bulk_review_def u op option.case b allowed Let_def count store_eq n
    by (simp add: db2_def)
  have op2: "get_row bo_id uid (rv_ops db2) = Some (b\<lparr>bo_undone_at := Some t2,
      bo_undone_count := Some (length moved), bo_skipped_count := Some 0\<rparr>)"
    using row_update.get_update [of bo_id "\<lambda>o'. o'\<lparr>bo_undone_at := Some t2, bo_undone_count := Some (length moved),
        bo_skipped_count := Some 0\<rparr>" uid "\<lambda>o'. bo_id o' = uid" "rv_ops db1"] op b(1)
    by (simp add: db2_def row_update_def)
  have rows2: "rows_with_tenant db2 W = rows_with_tenant db W" for W
    by (simp add: rows_with_tenant_def db2_def sites)
  have allowed2: "check_tenants p (remdups (map snd (rows_with_tenant db2 (\<lambda>i. (uid, i) \<in> set (rv_items db2))))) = None"
    unfolding rows2
  proof (rule rule_items_allowed [OF r(2) assms(6)])
    fix s assume "s \<in> set ?rows" and "(uid, sg_id s) \<in> set (rv_items db2)"
    then have "?G s" using item in_moved [of s] by (simp add: db2_def)
    then show "given tenant (\<lambda>t. list_ex (\<lambda>x. site_id x = sg_site s \<and> site_tenant x = t) (rv_sites db))"
      by (simp add: queue_conditions_def rule_filter_def)
  qed
  have "undo_filtered_bulk_review t3 p actor3 u db2 = Inr (db2,
      \<lparr>ur_restored = rr_reviewed res, ur_skipped = 0, ur_status = Pending, ur_already = True\<rparr>)"
    using allowed2 b by (simp add: undo_filtered_bulk_review_def u op2 n)
  with first show ?thesis by (simp add: db2_def)
qed

definition sample_rule :: bulk_rule where
  "sample_rule = \<lparr>ru_status = Approved, ru_reason = None, ru_match = Pending, ru_site = Some 7,
     ru_all_sites = False, ru_method = None, ru_threshold = 0, ru_q = None, ru_origin = None,
     ru_exclude = True\<rparr>"

lemma boundary_0: "percent_boundary 0 \<le> 0"
  unfolding percent_boundary_def
  by (intro double_of_nonpos divide_nonpos_pos) simp_all

lemma sample_rule_moves: "rule_moves sample_review_db (Some 7) sample_rule s \<longleftrightarrow>
    s = new_suggestion 7 7 20 (Some 30) None Hybrid_bm25 (3 / 4)
    \<or> s = new_suggestion 8 7 20 (Some 31) None Hybrid_bm25 (1 / 2)
    \<or> s = new_suggestion 9 7 21 (Some 31) None Hybrid_bm25 (3 / 4)"
  if "s \<in> set (st_suggestions (rv_store sample_review_db))"
  using that boundary_0
  by (auto simp: sample_review_db_def sample_rule_def rule_filter_def queue_conditions_def given_def
      new_suggestion_def has_stronger_reverse_pair_def bound_to_an_approved_plan_def)

theorem filtered_review_undo_roundtrip_witness:
  "\<exists>db1 res db2 v. bulk_review_by_filter 5 ''op-1'' sample_tenant ''ada'' sample_rule sample_review_db = Inr (db1, res)
    \<and> rr_reviewed res = 3 \<and> undo_filtered_bulk_review 6 sample_tenant ''ada'' ''op-1'' db1 = Inr (db2, v)
    \<and> rv_store db2 = rv_store sample_review_db \<and> ur_restored v = 3"
proof -
  let ?db = sample_review_db
  have valid: "valid_rule sample_rule"
    by (simp add: valid_rule_def sample_rule_def review_status_def fleet_scope_must_be_deliberate_def
        reason_only_applies_to_rejection_def)
  have scope: "tenant_scope sample_tenant = Inr (Some 7)"
    and site: "\<exists>x. authorize_site (rv_sites ?db) sample_tenant 7 = Inr x"
    by (simp_all add: tenant_scope_def sample_tenant_def authorize_site_def get_row_def sample_review_db_def)
  obtain db1 res where run: "bulk_review_by_filter 5 ''op-1'' sample_tenant ''ada'' sample_rule ?db = Inr (db1, res)"
    using valid scope site
    by (auto simp: bulk_review_by_filter_def sample_rule_def Let_def split_beta)
  have "filter (rule_moves ?db (Some 7) sample_rule) (st_suggestions (rv_store ?db)) = st_suggestions (rv_store ?db)"
    using sample_rule_moves by (auto simp: filter_id_conv sample_review_db_def)
  then have n: "rr_reviewed res = 3" and u: "rr_undo res = Some ''op-1''"
    using run scope by (auto elim!: bulk_ruleE) (simp_all add: sample_review_db_def)
  have "\<exists>db2 v. undo_filtered_bulk_review 6 sample_tenant ''ada'' ''op-1'' db1 = Inr (db2, v)
    \<and> rv_store db2 = rv_store ?db
    \<and> v = \<lparr>ur_restored = rr_reviewed res, ur_skipped = 0, ur_status = Pending, ur_already = False\<rparr>
    \<and> undo_filtered_bulk_review 7 sample_tenant ''eve'' ''op-1'' db2 = Inr (db2, v\<lparr>ur_already := True\<rparr>)"
    by (rule filtered_review_undo_roundtrip [OF run u])
       (simp_all add: sample_review_db_def sample_rule_def primary_def new_suggestion_def unreviewed_def)
  with run n show ?thesis by auto
qed

section \<open>Thresholds\<close>

text \<open>The percentage the dashboard shows: JavaScript's \<open>Math.round(score * 100)\<close>.\<close>

definition shown_percent :: "rat \<Rightarrow> int" where
  "shown_percent score = \<lfloor>double_of (score * 100) + 1 / 2\<rfloor>"

text \<open>The boundary is not that rounding: the largest score below the boundary of 3 percent is shown
  as 3 percent.\<close>

lemma shown_percent_crosses_boundary:
  "shown_percent (7205759403792793 / 2 ^ 58) = 3 \<and> 7205759403792793 / 2 ^ 58 < percent_boundary 3"
proof -
  have two: "double_of (5 / 2) = 5 / 2"
    using double_of_at [of "5 / 2" 51] round_even_int [of 5629499534213120] by simp
  have "percent_boundary 3 = double_of (double_of (5 / 2) / 100)" by (simp add: percent_boundary_def)
  also have "\<dots> = double_of (1 / 40)" unfolding two by simp
  also have "\<dots> = 7205759403792794 / 2 ^ 58"
    using double_of_at [of "1 / 40" 58] round_even_unique [of 7205759403792794 "1 / 40 * 2 ^ 58"] by simp
  finally have bound: "percent_boundary 3 = 7205759403792794 / 2 ^ 58" .
  have "double_of (7205759403792793 / 2 ^ 58 * 100) = 5 / 2"
    using double_of_at [of "7205759403792793 / 2 ^ 58 * 100" 51]
      round_even_unique [of 5629499534213120 "7205759403792793 / 2 ^ 58 * 100 * 2 ^ 51"] by simp
  then have "shown_percent (7205759403792793 / 2 ^ 58) = 3"
    unfolding shown_percent_def by (simp only:) (simp add: floor_eq_iff)
  with bound show ?thesis by simp
qed

section \<open>Rules act on what the queue shows\<close>

lemma counts_total: "ct_total (counts_of rows) = length (filter (\<lambda>s. sg_status s \<noteq> Expired) rows)"
proof -
  have "length (filter (\<lambda>s. sg_status s \<noteq> Expired) rows)
      = sum_list (map (\<lambda>x. length (filter (\<lambda>s. sg_status s = x) rows))
          [Pending, Approved, Rejected, Applying, Applied, Failed])" for rows :: "suggestion list"
    by (induction rows) (auto split: if_splits intro: suggestion_status.exhaust)
  then show ?thesis by (simp add: counts_of_def Let_def)
qed

lemma page_total:
  assumes "list_suggestion_page p q db = Inr pg" and "pq_include_total q"
  obtains f where "scoped_filter db p (pq_filter q) = Inr f" and "pg_total pg = Some (length (listed db f))"
  using assms by (auto simp: list_suggestion_page_def bind_ok_eq_Inr Let_def split_beta split: if_splits)

lemma scoped_filter_eq:
  "scoped_filter db p f = Inr g \<Longrightarrow> \<exists>t. tenant_scope p = Inr t \<and> g = f\<lparr>qf_tenant := t\<rparr>"
  by (auto simp: scoped_filter_def bind_ok_eq_Inr)

text \<open>C38. What the dashboard shows is what a rule acts on: the status chips add up to the length of the
  default list; and a bulk rule reviews exactly the rows its own filter lists, except those bound to an
  approved plan, which it reports as skipped, never silently: reviewed plus skipped is the length of the
  list shown.\<close>

theorem rule_acts_on_what_is_shown:
  assumes "list_suggestion_page p q db = Inr pg" and "pq_include_total q"
  shows "(qf_status (pq_filter q) = None \<longrightarrow> count_suggestions p (pq_filter q) db = Inr c
        \<longrightarrow> pg_total pg = Some (ct_total c))
    \<and> (pq_filter q = rule_filter None r \<longrightarrow> bulk_review_by_filter now uid p actor r db = Inr (db', res)
        \<longrightarrow> pg_total pg = Some (rr_reviewed res + rr_skipped res)
          \<and> (\<exists>f. scoped_filter db p (pq_filter q) = Inr f \<and> st_suggestions (rv_store db') = map (\<lambda>s.
              if s \<in> set (listed db f) \<and> \<not> bound_to_an_approved_plan (rv_store db) s
              then review_values now (ru_status r) (Some actor) (ru_reason r) s else s)
                (st_suggestions (rv_store db))))"
proof -
  obtain f where f: "scoped_filter db p (pq_filter q) = Inr f" and total: "pg_total pg = Some (length (listed db f))"
    using assms by (rule page_total)
  obtain t where t: "tenant_scope p = Inr t" and f_eq: "f = (pq_filter q)\<lparr>qf_tenant := t\<rparr>"
    using scoped_filter_eq [OF f] by blast
  have chips: "pg_total pg = Some (ct_total c)"
    if "qf_status (pq_filter q) = None" "count_suggestions p (pq_filter q) db = Inr c"
  proof -
    have "(pq_filter q)\<lparr>qf_status := None\<rparr> = pq_filter q" using that(1) by (cases "pq_filter q") simp
    then have "c = counts_of (filter (queue_conditions (rv_sites db) (rv_store db) f) (st_suggestions (rv_store db)))"
      using that(2) f by (auto simp: count_suggestions_def split: if_splits)
    moreover have "listed db f = filter (\<lambda>s. sg_status s \<noteq> Expired)
        (filter (queue_conditions (rv_sites db) (rv_store db) f) (st_suggestions (rv_store db)))"
      using that(1) f_eq by (simp add: listed_def conj_commute)
    ultimately show ?thesis using total by (simp add: counts_total)
  qed
  have rule: "pg_total pg = Some (rr_reviewed res + rr_skipped res)
      \<and> st_suggestions (rv_store db') = map (\<lambda>s.
          if s \<in> set (listed db f) \<and> \<not> bound_to_an_approved_plan (rv_store db) s
          then review_values now (ru_status r) (Some actor) (ru_reason r) s else s) (st_suggestions (rv_store db))"
    if "pq_filter q = rule_filter None r" "bulk_review_by_filter now uid p actor r db = Inr (db', res)"
  proof -
    have g: "f = rule_filter t r" using that(1) f_eq by (simp add: rule_filter_def)
    then have shown: "listed db f = filter (rule_cohort db t r) (st_suggestions (rv_store db))"
      by (simp add: listed_def rule_filter_def)
    have "length (filter (rule_moves db t r) rows) \<le> length (filter (rule_cohort db t r) rows)" for rows
      by (induction rows) auto
    with that(2) t show ?thesis
      by (elim bulk_ruleE) (auto simp: total shown update_where_def)
  qed
  with chips f show ?thesis by blast
qed

theorem rule_acts_on_what_is_shown_witness:
  "\<exists>pg db' res. list_suggestion_page sample_tenant (sample_page\<lparr>pq_filter := rule_filter None sample_rule\<rparr>)
        sample_review_db = Inr pg
    \<and> bulk_review_by_filter 5 ''op-1'' sample_tenant ''ada'' sample_rule sample_review_db = Inr (db', res)
    \<and> pg_total pg = Some (rr_reviewed res + rr_skipped res)"
proof -
  let ?q = "sample_page\<lparr>pq_filter := rule_filter None sample_rule\<rparr>"
  have scope: "tenant_scope sample_tenant = Inr (Some 7)"
    and site: "\<exists>x. authorize_site (rv_sites sample_review_db) sample_tenant 7 = Inr x"
    by (simp_all add: tenant_scope_def sample_tenant_def authorize_site_def get_row_def sample_review_db_def)
  have valid: "valid_rule sample_rule"
    by (simp add: valid_rule_def sample_rule_def review_status_def fleet_scope_must_be_deliberate_def
        reason_only_applies_to_rejection_def)
  have vq: "valid_page_request ?q"
    by (simp add: valid_page_request_def valid_filter_def given_def sample_page_def max_bulk_review_def
        sample_rule_def rule_filter_def)
  have f: "scoped_filter sample_review_db sample_tenant (pq_filter ?q) = Inr (rule_filter (Some 7) sample_rule)"
    using scope site by (auto simp: scoped_filter_def rule_filter_def sample_rule_def)
  obtain pg where pg: "list_suggestion_page sample_tenant ?q sample_review_db = Inr pg"
    using list_page_eq [OF vq f, of None] by (auto simp: sample_page_def)
  obtain db' res where run: "bulk_review_by_filter 5 ''op-1'' sample_tenant ''ada'' sample_rule sample_review_db
      = Inr (db', res)"
    using valid scope site by (auto simp: bulk_review_by_filter_def sample_rule_def Let_def split_beta)
  have "pq_include_total ?q" by (simp add: sample_page_def)
  from rule_acts_on_what_is_shown [OF pg this, of _ sample_rule 5 "''op-1''" "''ada''" db' res] run
  have "pg_total pg = Some (rr_reviewed res + rr_skipped res)" by simp
  with pg run show ?thesis by blast
qed

end
