(* ===== verification/Consent.thy ===== *)
theory Consent
  imports PublicationWorker Review
begin

text \<open>
  Consent across components: what review (\<^verbatim>\<open>app/api/routes/suggestions.py\<close>), the policies, preparation
  and approval (\<^verbatim>\<open>app/services/publication_plan_service.py\<close>) and the worker
  (\<^verbatim>\<open>app/tasks/publication.py\<close>) do to the same rows. Every committed step keeps an approved plan bound to
  the rows of its artifact, so the worker can see a withdrawn link; the undo of a bulk rule is the
  exception.
\<close>

section \<open>The binding invariant\<close>

definition binding_inv :: "store \<Rightarrow> bool" where
  "binding_inv st \<longleftrightarrow> primary sg_id (st_suggestions st) \<and> primary pl_id (st_plans st) \<and> active_unique (st_plans st)
     \<and> (\<forall>p\<in>set (st_plans st). active_plan_status (pl_status p) \<longrightarrow>
         (\<forall>it\<in>set (pl_items p). \<forall>s\<in>set (st_suggestions st). sg_id s = it_suggestion it \<longrightarrow> sg_source s = pl_source p))
     \<and> (\<forall>p\<in>set (st_plans st). pl_status p = Plan_approved \<longrightarrow> pl_approved_hash p \<noteq> None \<and> pl_approved_by p \<noteq> None \<and>
         (\<forall>it\<in>set (pl_items p). \<exists>s\<in>set (st_suggestions st). sg_id s = it_suggestion it \<and> sg_plan s = Some (pl_id p)))"

lemma binding_invD:
  assumes "binding_inv st" and "p \<in> set (st_plans st)" and "pl_status p = Plan_approved"
  shows "pl_approved_hash p \<noteq> None" and "pl_approved_by p \<noteq> None"
    and "it \<in> set (pl_items p) \<Longrightarrow> \<exists>s\<in>set (st_suggestions st). sg_id s = it_suggestion it \<and> sg_plan s = Some (pl_id p)"
  using assms by (simp_all add: binding_inv_def)

text \<open>Rows keep their identity, and their binding as long as the plan they are bound to is approved.\<close>

definition bound_to :: "store \<Rightarrow> suggestion \<Rightarrow> bool" where
  "bound_to st s \<longleftrightarrow> (\<exists>p\<in>set (st_plans st). pl_status p = Plan_approved \<and> sg_plan s = Some (pl_id p))"

definition row_kept :: "store \<Rightarrow> suggestion \<Rightarrow> suggestion \<Rightarrow> bool" where
  "row_kept st s s' \<longleftrightarrow> sg_id s' = sg_id s \<and> sg_source s' = sg_source s \<and> (bound_to st s \<longrightarrow> sg_plan s' = sg_plan s)"

definition rows_kept :: "store \<Rightarrow> store \<Rightarrow> bool" where
  "rows_kept st st' \<longleftrightarrow> list_all2 (row_kept st') (st_suggestions st) (st_suggestions st')"

lemma bound_to_approved: "bound_to_an_approved_plan st s = bound_to st s"
  by (auto simp: bound_to_an_approved_plan_def bound_to_def list_ex_iff)

lemma rows_kept_refl: "st_suggestions st' = st_suggestions st \<Longrightarrow> rows_kept st st'"
  by (simp add: rows_kept_def row_kept_def list_all2_refl)

lemma rows_kept_update:
  assumes "st_suggestions st' = update_where P f (st_suggestions st)"
    and "\<And>s. s \<in> set (st_suggestions st) \<Longrightarrow> P s \<Longrightarrow> row_kept st' s (f s)"
  shows "rows_kept st st'"
  unfolding rows_kept_def assms(1) update_where_def list_all2_map2 list_all2_same
  using assms(2) by (simp add: row_kept_def)

lemma rows_kept_ids:
  assumes "rows_kept st st'"
  shows "map sg_id (st_suggestions st') = map sg_id (st_suggestions st)"
  using assms unfolding rows_kept_def by (induction rule: list_all2_induct) (auto simp: row_kept_def)

lemma rows_kept_back:
  assumes "rows_kept st st'" and "s' \<in> set (st_suggestions st')"
  obtains s where "s \<in> set (st_suggestions st)" and "row_kept st' s s'"
  using assms list_all2_right unfolding rows_kept_def by metis

lemma rows_kept_forth:
  assumes "rows_kept st st'" and "s \<in> set (st_suggestions st)"
  obtains s' where "s' \<in> set (st_suggestions st')" and "row_kept st' s s'"
proof -
  have "list_all2 (\<lambda>a b. row_kept st' b a) (st_suggestions st') (st_suggestions st)"
    using assms(1) by (simp add: rows_kept_def list_all2_conv_all_nth)
  with assms(2) that list_all2_right show thesis by metis
qed

lemma binding_inv_frame:
  assumes inv: "binding_inv st" and rows: "rows_kept st st'"
    and keys: "primary pl_id (st_plans st')" "active_unique (st_plans st')"
    and active: "\<And>p'. p' \<in> set (st_plans st') \<Longrightarrow> active_plan_status (pl_status p') \<Longrightarrow>
      \<exists>p\<in>set (st_plans st). active_plan_status (pl_status p) \<and> pl_source p = pl_source p' \<and> pl_items p = pl_items p'"
    and approved: "\<And>p'. p' \<in> set (st_plans st') \<Longrightarrow> pl_status p' = Plan_approved \<Longrightarrow> p' \<in> set (st_plans st)"
  shows "binding_inv st'"
  unfolding binding_inv_def
proof (intro conjI ballI impI)
  show "primary sg_id (st_suggestions st')"
    using inv rows_kept_ids [OF rows] by (simp add: binding_inv_def primary_def)
next
  fix p' it s'
  assume p': "p' \<in> set (st_plans st')" "active_plan_status (pl_status p')" and it: "it \<in> set (pl_items p')"
    and s': "s' \<in> set (st_suggestions st')" "sg_id s' = it_suggestion it"
  obtain p where p: "p \<in> set (st_plans st)" "active_plan_status (pl_status p)" "pl_source p = pl_source p'"
    "pl_items p = pl_items p'" using active [OF p'] by blast
  obtain s where "s \<in> set (st_suggestions st)" "sg_id s' = sg_id s" "sg_source s' = sg_source s"
    using rows_kept_back [OF rows s'(1)] by (auto simp: row_kept_def)
  with inv p it s'(2) show "sg_source s' = pl_source p'" by (auto simp: binding_inv_def)
next
  fix p' assume "p' \<in> set (st_plans st')" "pl_status p' = Plan_approved"
  with approved inv show "pl_approved_hash p' \<noteq> None" "pl_approved_by p' \<noteq> None" unfolding binding_inv_def by blast+
next
  fix p' it
  assume p': "p' \<in> set (st_plans st')" "pl_status p' = Plan_approved" and it: "it \<in> set (pl_items p')"
  have "p' \<in> set (st_plans st)" by (rule approved [OF p'])
  then obtain s where s: "s \<in> set (st_suggestions st)" "sg_id s = it_suggestion it" "sg_plan s = Some (pl_id p')"
    using inv p'(2) it unfolding binding_inv_def by blast
  obtain s' where "s' \<in> set (st_suggestions st')" "row_kept st' s s'" using rows_kept_forth [OF rows s(1)] .
  moreover have "bound_to st' s" using p' s(3) by (auto simp: bound_to_def)
  ultimately show "\<exists>s\<in>set (st_suggestions st'). sg_id s = it_suggestion it \<and> sg_plan s = Some (pl_id p')"
    using s by (auto simp: row_kept_def)
qed (fact keys)+

text \<open>Steps that change suggestions only.\<close>

lemma binding_inv_rows:
  assumes "binding_inv st" and "rows_kept st st'" and "st_plans st' = st_plans st"
  shows "binding_inv st'"
  using assms by (intro binding_inv_frame [OF assms(1,2)]) (auto simp: binding_inv_def)

text \<open>Steps that retire plans.\<close>

lemma retired_active_unique:
  assumes "list_all2 (\<lambda>p p'. p' = p \<or> frozen p' = frozen p \<and> pl_status p = Plan_approved
      \<and> pl_status p' \<in> {Plan_stale, Plan_failed, Plan_applied}) ps ps'" and "active_unique ps"
  shows "active_unique ps'"
proof -
  have "active_unique ps' \<and> {p \<in> set ps'. active_plan_status (pl_status p)} \<subseteq> {p \<in> set ps. active_plan_status (pl_status p)}"
    using assms
  proof (induction rule: list_all2_induct)
    case (Cons p ps p' ps')
    then have "active_unique ps" by (simp add: active_unique_def split: if_splits)
    with Cons have tail: "active_unique ps'"
      "{p \<in> set ps'. active_plan_status (pl_status p)} \<subseteq> {p \<in> set ps. active_plan_status (pl_status p)}" by simp_all
    show ?case
    proof (cases "p' = p")
      case True
      moreover have "pl_source p \<notin> pl_source ` {q \<in> set ps'. active_plan_status (pl_status q)}"
        if "active_plan_status (pl_status p)"
        using that tail(2) Cons.prems by (auto simp: active_unique_def)
      ultimately show ?thesis using tail by (auto simp: active_unique_def)
    next
      case False
      with Cons.hyps(1) have "\<not> active_plan_status (pl_status p')" by (auto simp: active_plan_status_def)
      with tail show ?thesis by (auto simp: active_unique_def)
    qed
  qed simp
  then show ?thesis ..
qed

lemma binding_inv_retire:
  assumes inv: "binding_inv st" and rows: "rows_kept st st'" and ret: "plans_only_retired st st'"
  shows "binding_inv st'"
proof (rule binding_inv_frame [OF inv rows])
  show "primary pl_id (st_plans st')"
    using plans_only_retired_primary [OF ret] inv by (simp add: binding_inv_def)
  have same: "p' \<in> set (st_plans st)" if "p' \<in> set (st_plans st')" "active_plan_status (pl_status p')" for p'
  proof -
    from list_all2_right [OF conjunct1 [OF ret [unfolded plans_only_retired_def]] that(1)]
    obtain p where "p \<in> set (st_plans st)" "p' = p \<or> pl_status p' \<in> {Plan_stale, Plan_failed, Plan_applied}" by blast
    with that(2) show ?thesis by (auto simp: active_plan_status_def)
  qed
  then show "\<exists>p\<in>set (st_plans st). active_plan_status (pl_status p) \<and> pl_source p = pl_source p' \<and> pl_items p = pl_items p'"
    if "p' \<in> set (st_plans st')" "active_plan_status (pl_status p')" for p' using that by blast
  show "p' \<in> set (st_plans st)" if "p' \<in> set (st_plans st')" "pl_status p' = Plan_approved" for p'
    using same that by (simp add: active_plan_status_def)
  let ?R = "\<lambda>p p'. p' = p \<or> frozen p' = frozen p \<and> pl_status p = Plan_approved
        \<and> pl_status p' \<in> {Plan_stale, Plan_failed, Plan_applied}"
  have "list_all2 ?R (st_plans st) (st_plans st')" using ret by (simp add: plans_only_retired_def)
  moreover have "active_unique (st_plans st)" using inv by (simp add: binding_inv_def)
  ultimately show "active_unique (st_plans st')" by (rule retired_active_unique)
qed

section \<open>Every step but one keeps it\<close>

lemma review_kept: "rows_kept st (fst (review_ids now ids status actor reason st))"
  unfolding review_ids_def review_matching_def fst_conv
  by (rule rows_kept_update [OF set_suggestions_frame(4)])
     (auto simp: row_kept_def review_guard_def bound_to_approved review_values_def bound_to_def)

lemma single_inv:
  assumes "review_suggestion now p actor i status reason db = Inr db'" and "binding_inv (rv_store db)"
  shows "binding_inv (rv_store db')"
proof -
  have "rv_store db' = fst (review_ids now [i] status (Some actor) reason (rv_store db))"
    using assms(1) by (auto simp: review_suggestion_def bind_ok_eq_Inr split_beta split: if_splits option.splits)
  then show ?thesis using assms(2) review_kept
    by (metis binding_inv_rows review_ids_def review_matching_def fst_conv set_suggestions_frame(1))
qed

lemma batch_inv:
  assumes "bulk_review now p actor r db = Inr (db', res)" and "binding_inv (rv_store db)"
  shows "binding_inv (rv_store db')"
proof -
  obtain ids where "rv_store db' = fst (review_ids now ids (br_status r) (Some actor) (br_reason r) (rv_store db))"
    using assms(1) by (auto simp: bulk_review_def Let_def split_beta split: if_splits option.splits)
  then show ?thesis using assms(2) review_kept
    by (metis binding_inv_rows review_ids_def review_matching_def fst_conv set_suggestions_frame(1))
qed

lemma rule_inv:
  assumes "bulk_review_by_filter now uid p actor r db = Inr (db', res)" and "binding_inv (rv_store db)"
  shows "binding_inv (rv_store db')"
proof -
  obtain conditions where st: "rv_store db' = set_suggestions (\<lambda>s. conditions s \<and> \<not> bound_to_an_approved_plan (rv_store db) s)
      (review_values now (ru_status r) (Some actor) (ru_reason r)) (rv_store db)"
    using assms(1) by (auto simp: bulk_review_by_filter_def review_matching_counts_def Let_def bind_ok_eq_Inr split: if_splits)
  have "rows_kept (rv_store db) (rv_store db')"
    unfolding st by (rule rows_kept_update [OF set_suggestions_frame(4)])
      (auto simp: row_kept_def bound_to_approved review_values_def bound_to_def)
  then show ?thesis by (rule binding_inv_rows [OF assms(2)]) (simp add: st)
qed

text \<open>Updates that never touch the binding.\<close>

lemma unbound_inv:
  assumes "binding_inv st" and "\<And>s. sg_id (f s) = sg_id s \<and> sg_source (f s) = sg_source s \<and> sg_plan (f s) = sg_plan s"
    and "st_plans st' = st_plans st" and "st_suggestions st' = update_where P f (st_suggestions st)"
  shows "binding_inv st'"
proof (rule binding_inv_rows [OF assms(1) _ assms(3)])
  show "rows_kept st st'" by (rule rows_kept_update [OF assms(4)]) (simp add: row_kept_def assms(2))
qed

lemma exposed_inv:
  assumes "mark_suggestions_exposed now p ids db = Inr (db', n)" and "binding_inv (rv_store db)"
  shows "binding_inv (rv_store db')"
proof -
  let ?P = "\<lambda>s. sg_id s \<in> set (map fst (rows_with_tenant db (\<lambda>i. i \<in> set ids)))"
  have "rv_store db' = rv_store db \<or> rv_store db' = set_suggestions ?P (expose now) (rv_store db)"
    using assms(1) by (auto simp: mark_suggestions_exposed_def Let_def split: if_splits option.splits)
  moreover have "binding_inv (set_suggestions ?P (expose now) (rv_store db))"
    by (rule unbound_inv [OF assms(2), where f = "expose now"]) (simp_all add: expose_def)
  ultimately show ?thesis using assms(2) by auto
qed

lemma placed_inv: "binding_inv st \<Longrightarrow> binding_inv (fst (store_placement st i pm))"
  by (auto simp: store_placement_def Let_def put_placement_def
      intro!: unbound_inv [of st "put_placement pm" _ "\<lambda>s. sg_id s = i \<and> sg_placed_at s = None"] split: option.splits)

lemma pool_inv: "binding_inv st \<Longrightarrow> binding_inv (expire_pool_target_suggestions site revoked st)"
  unfolding expire_pool_target_suggestions_def Let_def
  by (rule unbound_inv [where f = "\<lambda>s. s\<lparr>sg_status := Expired\<rparr>", OF _ _ set_suggestions_frame(1,4)]) simp_all

lemma superseded_inv: "binding_inv st \<Longrightarrow> binding_inv (fst (expire_superseded ids st))"
  unfolding expire_superseded_def Let_def fst_conv
  by (rule unbound_inv [where f = "\<lambda>s. s\<lparr>sg_status := Expired\<rparr>", OF _ _ set_suggestions_frame(1,4)]) simp_all

lemma policy_inv:
  assumes "expire_ineligible_external_suggestions idna today sites policies site statuses actor st = Some (st', n)"
    and "binding_inv st"
  shows "binding_inv st'"
proof -
  obtain P evs where "st' = add_events evs (set_suggestions P (\<lambda>s. s\<lparr>sg_status := Expired\<rparr>) st)"
    using assms(1) by (auto simp: expire_ineligible_external_suggestions_def Let_def split: option.splits if_splits)
  then show ?thesis by (intro unbound_inv [OF assms(2), where f = "\<lambda>s. s\<lparr>sg_status := Expired\<rparr>" and P = P]) simp_all
qed


text \<open>A preparation adds a plan whose items all belong to its article.\<close>

lemma snapshot_from_ids:
  "snapshot_from articles i ss outs = Some items \<Longrightarrow> it \<in> set items \<Longrightarrow> it_suggestion it \<in> sg_id ` set ss"
  by (induction articles i ss outs arbitrary: items rule: snapshot_from.induct)
     (fastforce split: option.splits)+

lemma insert_plan_back:
  assumes "insert_plan now existing p st = (st', r)" and "q \<in> set (st_plans st')"
  shows "q = p \<or> q \<in> set (st_plans st) \<or> \<not> active_plan_status (pl_status q)"
proof -
  define mid where "mid = (case existing of None \<Rightarrow> st
    | Some e \<Rightarrow> set_plans (\<lambda>q. pl_id q = pl_id e)
        (supersede_plan now ''replaced by a newer preparation of the same article'') st)"
  have mid: "x \<in> set (st_plans st) \<or> \<not> active_plan_status (pl_status x)" if "x \<in> set (st_plans mid)" for x
  proof (cases existing)
    case (Some e)
    with that obtain y where "y \<in> set (st_plans st)"
      "x = (if pl_id y = pl_id e then supersede_plan now ''replaced by a newer preparation of the same article'' y else y)"
      unfolding mid_def Some option.case set_plans_frame set_update_where by blast
    then show ?thesis by (simp add: supersede_plan_def active_plan_status_def split: if_splits)
  qed (use that in \<open>simp add: mid_def\<close>)
  have "st' = st \<or> st' = mid\<lparr>st_plans := st_plans mid @ [p]\<rparr>"
    using assms(1) by (auto simp: insert_plan_def Let_def mid_def [symmetric] split: if_splits)
  with mid [of q] assms(2) show ?thesis by auto
qed

lemma prepared_inv:
  assumes inv: "binding_inv st" and prep: "prepare_one sha preview now site st st st source ids = (st', r)"
    and group: "\<forall>s\<in>set (st_suggestions st). sg_id s \<in> set ids \<longrightarrow> sg_source s = source"
  shows "binding_inv st'"
proof -
  have keys: "primary pl_id (st_plans st)" "active_unique (st_plans st)" "primary sg_id (st_suggestions st)"
    using inv by (simp_all add: binding_inv_def)
  show ?thesis
  proof (cases "render_plan sha preview (next_plan_id st) site st source ids")
    case (Prepared p)
    then obtain outcomes url orig upd items where
      p_eq: "p = new_plan sha (next_plan_id st) site source url orig upd items"
      and items: "snapshot_items (st_articles st) (present_rows st ids) outcomes = Some items"
      by (auto simp: render_plan_def split: list.splits option.splits)
    have p: "pl_id p = next_plan_id st" "pl_source p = source" "pl_status p = Plan_prepared" "pl_items p = items"
      by (simp_all add: p_eq)
    have commit: "commit_rendered now st st source ids p = (st', r)" using prep Prepared by (simp add: prepare_one_def)
    have own: "sg_source s = source" if "it \<in> set items" "s \<in> set (st_suggestions st)" "sg_id s = it_suggestion it" for it s
    proof -
      have "it_suggestion it \<in> sg_id ` set (present_rows st ids)"
        using snapshot_from_ids [OF items [unfolded snapshot_items_def] that(1)] .
      then have "sg_id s \<in> set ids"
        by (auto simp: present_rows_def List.map_filter_def find_suggestion_def that(3) dest: get_row_Some)
      with group that(2) show ?thesis by blast
    qed
    show ?thesis
    proof (cases "st' = st")
      case True
      with inv show ?thesis by simp
    next
      case False
      then have ins: "insert_plan now (active_plan st source) p st = (st', r)" and free: "covered_by st source = None"
        using commit by (auto simp: commit_rendered_def split: option.splits if_splits)
      have e: "e \<in> set (st_plans st) \<and> pl_status e = Plan_prepared" if "active_plan st source = Some e" for e
        using that free active_plan_Some [OF that] by (auto simp: covered_by_def active_plan_status_def split: if_splits)
      have spec: "st_suggestions st' = st_suggestions st" "active_unique (st_plans st')" "primary pl_id (st_plans st')"
        using insert_plan_spec [OF ins keys(1,2) _ p(3)] next_plan_id_fresh [of st] p(1) e by auto
      show ?thesis
        unfolding binding_inv_def spec(1)
      proof (intro conjI ballI impI)
        fix q it s assume q: "q \<in> set (st_plans st')" "active_plan_status (pl_status q)" "it \<in> set (pl_items q)"
          and s: "s \<in> set (st_suggestions st)" "sg_id s = it_suggestion it"
        show "sg_source s = pl_source q"
          using insert_plan_back [OF ins q(1)] q s own p inv unfolding binding_inv_def by blast
      next
        fix q it assume q: "q \<in> set (st_plans st')" "pl_status q = Plan_approved" "it \<in> set (pl_items q)"
        then have "q \<in> set (st_plans st)"
          using insert_plan_back [OF ins q(1)] p(3) by (auto simp: active_plan_status_def)
        then show "\<exists>s\<in>set (st_suggestions st). sg_id s = it_suggestion it \<and> sg_plan s = Some (pl_id q)"
          using q inv unfolding binding_inv_def by blast
      next
        fix q assume q: "q \<in> set (st_plans st')" "pl_status q = Plan_approved"
        then have "q \<in> set (st_plans st)"
          using insert_plan_back [OF ins q(1)] p(3) by (auto simp: active_plan_status_def)
        then show "pl_approved_hash q \<noteq> None" "pl_approved_by q \<noteq> None"
          using q inv unfolding binding_inv_def by blast+
      qed (use spec keys in simp_all)
    qed
  qed (use inv prep in \<open>simp_all add: prepare_one_def\<close>)
qed


lemma find_suggestion_found: "find_suggestion st i = Some s \<Longrightarrow> s \<in> set (st_suggestions st) \<and> sg_id s = i"
  unfolding find_suggestion_def by (rule get_row_Some)

text \<open>An approval binds every row of the plans it names: no row is in two of them.\<close>

lemma approved_inv:
  assumes inv: "binding_inv st" and "approve_plans sha now operator site approvals st = Inr (st', ps)"
  shows "binding_inv st'"
  using assms(2)
proof (rule approve_plansE)
  fix wanted plans
  assume plans: "plans = sort_key pl_id (filter (\<lambda>p. wanted (pl_id p) \<noteq> None) (st_plans st))"
    and checked: "\<And>p. p \<in> set plans \<Longrightarrow> pl_site p = site \<and> pl_status p = Plan_prepared
      \<and> wanted (pl_id p) = Some (pl_hash p) \<and> verify_integrity sha p"
    and free: "\<And>i j. (i, j) \<in> set (snapshotted plans) \<Longrightarrow>
      \<exists>s. find_suggestion st i = Some s \<and> sg_status s = Approved \<and> sg_plan s = None"
    and st': "st' = set_plans (\<lambda>p. wanted (pl_id p) \<noteq> None) (approve_plan now operator)
      (set_suggestions (\<lambda>s. sg_id s \<in> fst ` set (snapshotted plans)) (bind_suggestion (snapshotted plans)) st)"
  have keys: "primary pl_id (st_plans st)" "active_unique (st_plans st)" "primary sg_id (st_suggestions st)"
    using inv by (simp_all add: binding_inv_def)
  let ?b = "snapshotted plans"
  have chosen: "p \<in> set plans \<longleftrightarrow> p \<in> set (st_plans st) \<and> wanted (pl_id p) \<noteq> None" for p by (auto simp: plans)
  have pair: "(i, j) \<in> set ?b \<longleftrightarrow> (\<exists>p\<in>set plans. \<exists>it\<in>set (pl_items p). i = it_suggestion it \<and> j = pl_id p)" for i j
    by (auto simp: snapshotted_def)
  have own: "sg_source s = pl_source p" if "p \<in> set (st_plans st)" "active_plan_status (pl_status p)"
      "it \<in> set (pl_items p)" "s \<in> set (st_suggestions st)" "sg_id s = it_suggestion it" for p it s
    using inv that unfolding binding_inv_def by blast
  have one: "j = pl_id p" if p: "p \<in> set plans" and it: "it \<in> set (pl_items p)" and j: "(it_suggestion it, j) \<in> set ?b" for p it j
  proof -
    from j obtain q it' where q: "q \<in> set plans" "it' \<in> set (pl_items q)" "it_suggestion it = it_suggestion it'" "j = pl_id q"
      by (auto simp: pair)
    obtain s where "find_suggestion st (it_suggestion it) = Some s" using free [OF j] by blast
    then have s: "s \<in> set (st_suggestions st)" "sg_id s = it_suggestion it"
      by (simp_all add: find_suggestion_found)
    have "active_plan_status (pl_status p)" "active_plan_status (pl_status q)"
      using checked p q(1) by (simp_all add: active_plan_status_def)
    moreover from this have "pl_source p = pl_source q"
      using own [of p it s] own [of q it' s] p it q s by (simp add: chosen)
    ultimately show ?thesis using active_unique_same [OF keys(2), of p q] p q(1,4) by (simp add: chosen)
  qed
  have bind: "map_of (rev ?b) (it_suggestion it) = Some (pl_id p)" if "p \<in> set plans" "it \<in> set (pl_items p)" for p it
  proof -
    have "(it_suggestion it, pl_id p) \<in> set ?b" using that by (auto simp: pair)
    then obtain j where "map_of (rev ?b) (it_suggestion it) = Some j"
      by (metis image_eqI fst_conv map_of_eq_None_iff not_None_eq set_rev)
    with one [OF that] show ?thesis by (metis map_of_SomeD set_rev)
  qed
  define row where "row s = (if sg_id s \<in> fst ` set ?b then bind_suggestion ?b s else s)" for s
  have sugg: "set (st_suggestions st') = row ` set (st_suggestions st)"
    by (simp add: st' set_update_where row_def)
  have row_frame: "sg_id (row s) = sg_id s" "sg_source (row s) = sg_source s" for s
    by (simp_all add: row_def bind_suggestion_def)
  define put where "put p = (if wanted (pl_id p) \<noteq> None then approve_plan now operator p else p)" for p
  have plan_set: "set (st_plans st') = put ` set (st_plans st)" by (simp add: st' set_update_where put_def)
  have put_frame: "pl_id (put p) = pl_id p" "pl_source (put p) = pl_source p" "pl_items (put p) = pl_items p" for p
    by (simp_all add: put_def)
  have put_active: "active_plan_status (pl_status p)" if "p \<in> set (st_plans st)" "active_plan_status (pl_status (put p))" for p
    using that checked [of p] by (auto simp: put_def chosen active_plan_status_def split: if_splits)
  show ?thesis
    unfolding binding_inv_def
  proof (intro conjI ballI impI)
    show "primary sg_id (st_suggestions st')"
      using keys(3) by (simp add: st' binding.primary_update)
    show "primary pl_id (st_plans st')"
      using keys(1) by (simp add: st' approving.primary_update)
    show "active_unique (st_plans st')"
      unfolding st' set_plans_frame
      by (rule active_unique_update) (use keys(2) checked in \<open>auto simp: chosen active_plan_status_def\<close>)
  next
    fix q assume q: "q \<in> set (st_plans st')" "pl_status q = Plan_approved"
    then obtain p where p: "p \<in> set (st_plans st)" "q = put p" by (auto simp: plan_set)
    have "pl_approved_hash p \<noteq> None \<and> pl_approved_by p \<noteq> None" if "wanted (pl_id p) = None"
      using inv p q(2) that unfolding binding_inv_def put_def by auto
    then show "pl_approved_hash q \<noteq> None" "pl_approved_by q \<noteq> None"
      unfolding p(2) put_def by (auto simp: approve_plan_def)
  next
    fix q it s assume "q \<in> set (st_plans st')" "active_plan_status (pl_status q)" "it \<in> set (pl_items q)"
      "s \<in> set (st_suggestions st')" "sg_id s = it_suggestion it"
    then show "sg_source s = pl_source q"
      using own put_active by (auto simp: plan_set sugg row_frame put_frame)
  next
    fix q it assume q: "q \<in> set (st_plans st')" "pl_status q = Plan_approved" "it \<in> set (pl_items q)"
    then obtain p where p: "p \<in> set (st_plans st)" "q = put p" by (auto simp: plan_set)
    show "\<exists>s\<in>set (st_suggestions st'). sg_id s = it_suggestion it \<and> sg_plan s = Some (pl_id q)"
    proof (cases "wanted (pl_id p) = None")
      case False
      then have it: "p \<in> set plans" "it \<in> set (pl_items p)" using p q(3) by (simp_all add: chosen put_frame)
      then have named: "(it_suggestion it, pl_id p) \<in> set ?b" by (auto simp: pair)
      from free [OF this] obtain s where s: "s \<in> set (st_suggestions st)" "sg_id s = it_suggestion it"
        by (metis find_suggestion_found)
      have "sg_id s \<in> fst ` set ?b" using named by (metis s(2) fst_conv image_eqI)
      then have "sg_plan (row s) = Some (pl_id q)"
        by (simp add: row_def bind_suggestion_def s(2) bind [OF it] p(2) put_frame)
      then show ?thesis using s by (intro bexI [of _ "row s"]) (simp_all add: row_frame sugg)
    next
      case True
      then have "p = q" using p by (simp add: put_def)
      then obtain s where s: "s \<in> set (st_suggestions st)" "sg_id s = it_suggestion it" "sg_plan s = Some (pl_id q)"
        using inv p(1) q unfolding binding_inv_def by blast
      have "sg_id s \<notin> fst ` set ?b"
      proof
        assume "sg_id s \<in> fst ` set ?b"
        then obtain j where "(sg_id s, j) \<in> set ?b" by auto
        from free [OF this] get_row_primary [OF keys(3) s(1)] s(3) show False by (auto simp: find_suggestion_def)
      qed
      with s show ?thesis by (intro bexI [of _ s]) (auto simp: sugg row_def image_iff)
    qed
  qed
qed


text \<open>The worker unbinds rows only from a plan it marks stale.\<close>

definition row_keys :: "store \<Rightarrow> (nat \<times> nat \<times> nat option) list" where
  "row_keys st = map (\<lambda>s. (sg_id s, sg_source s, sg_plan s)) (st_suggestions st)"

lemma row_keys_kept: "row_keys st' = row_keys st \<Longrightarrow> rows_kept st st'"
  by (auto simp: row_keys_def rows_kept_def row_kept_def list_all2_conv_all_nth list_eq_iff_nth_eq)

lemma row_keys_update:
  "(\<And>s. sg_id (f s) = sg_id s \<and> sg_source (f s) = sg_source s \<and> sg_plan (f s) = sg_plan s)
    \<Longrightarrow> st_suggestions st' = update_where P f (st_suggestions st) \<Longrightarrow> row_keys st' = row_keys st"
  by (simp add: row_keys_def update_where_def)

lemma mark_stale_kept: "rows_kept st (mark_stale now reason i st)"
proof (rule rows_kept_update)
  show "st_suggestions (mark_stale now reason i st)
      = update_where (\<lambda>s. sg_plan s = Some i) (\<lambda>s. s\<lparr>sg_plan := None\<rparr>) (st_suggestions st)"
    by (simp add: mark_stale_def)
  have "pl_status p \<noteq> Plan_approved" if "p \<in> set (st_plans (mark_stale now reason i st))" "pl_id p = i" for p
  proof -
    from that(1) obtain q where "p = (if pl_id q = i then stale_plan now reason q else q)"
      unfolding mark_stale_def set_suggestions_frame set_plans_frame set_update_where by blast
    with that(2) show ?thesis by (cases "pl_id q = i") (simp_all add: stale_plan_def)
  qed
  then show "row_kept (mark_stale now reason i st) s (s\<lparr>sg_plan := None\<rparr>)" if "sg_plan s = Some i" for s
    using that unfolding row_kept_def bound_to_def by fastforce
qed

lemma fail_plan_keys [simp]: "row_keys (fail_plan now reason i st) = row_keys st"
proof -
  let ?f = "\<lambda>s. s\<lparr>sg_status := Failed, sg_error := Some (str_take 2000 reason)\<rparr>"
  have "row_keys (set_suggestions P ?f (set_plans Q g st)) = row_keys st" for P Q g
    by (rule row_keys_update [where f = ?f and P = P]) simp_all
  then show ?thesis by (simp add: fail_plan_def split: option.split)
qed

lemma charge_keys [simp]: "row_keys (fst (record_attempt_failure limit ids reason st)) = row_keys st"
proof -
  have "sg_source (charge limit reason s) = sg_source s" for s by (simp add: charge_def Let_def)
  then have "row_keys (add_events es (set_suggestions P (charge limit reason) st)) = row_keys st" for es P
    by (intro row_keys_update [where f = "charge limit reason" and P = P]) simp_all
  then show ?thesis by (simp add: record_attempt_failure_def Let_def)
qed

lemma retry_keys: "row_keys (wk_store (retry_plan limit now i reason items attempted c w)) = row_keys (wk_store w)"
  by (simp add: retry_plan_def Let_def split_beta)

lemma finalize_keys: "row_keys (wk_store (finalize_plan now p w)) = row_keys (wk_store w)"
  by (rule row_keys_update [where f = "applied_row now (pl_items p)"]) (simp_all add: applied_row_def finalize_plan_def)

lemma handle_stale_kept: "rows_kept (wk_store w) (wk_store (handle_stale_plan now i reason items w))"
  by (auto simp: handle_stale_plan_def mark_stale_kept intro!: rows_kept_refl split: option.split)

lemma publish_plan_kept: "rows_kept (wk_store w) (wk_store (publish_plan sha limit now net batched w))"
proof (cases "\<exists>p source. ready sha w batched p source")
  case True
  then obtain p source where ready: "ready sha w batched p source" by blast
  obtain res live sent where edit: "apply_planned_edit net (wk_live w) source (pl_original p) (pl_updated p)
      = (res, live, sent)" by (metis prod_cases3)
  let ?w = "w\<lparr>wk_live := live, wk_sent := wk_sent w @ sent\<rparr>"
  have "rows_kept (wk_store w) (wk_store (retry_plan limit now i reason items attempted c ?w))" for i reason items attempted c
    by (rule row_keys_kept) (simp add: retry_keys)
  moreover have "rows_kept (wk_store w) (wk_store (finalize_plan now p ?w))"
    by (rule row_keys_kept) (simp add: finalize_keys)
  ultimately show ?thesis unfolding publish_plan_ready [OF ready edit] Let_def
    using handle_stale_kept [of ?w] by (simp split: edit_result.split)
next
  case False
  have "rows_kept (wk_store w) (wk_store (refuse_plan now i reason items w))" for i reason items
    by (rule row_keys_kept) (simp add: refuse_plan_def)
  with False handle_stale_kept [of w] show ?thesis
    by (auto simp: publish_plan_def ready_def Let_def rows_kept_refl split: option.splits)
qed

lemma published_inv:
  assumes "binding_inv (wk_store w)"
  shows "binding_inv (wk_store (publish_plan sha limit now net batched w))"
  by (rule binding_inv_retire [OF assms publish_plan_kept publish_plan_retires])
     (use assms in \<open>simp add: binding_inv_def\<close>)

section \<open>The system\<close>

text \<open>The committed steps of operators, policies and workers on one database, undo left out. A preparation
  step is one group of the batch: the ids of one article.\<close>

inductive consent_step :: "review_db \<Rightarrow> review_db \<Rightarrow> bool" where
  single: "review_suggestion now p actor i status reason db = Inr db' \<Longrightarrow> consent_step db db'"
| batch: "bulk_review now p actor r db = Inr (db', res) \<Longrightarrow> consent_step db db'"
| rule: "bulk_review_by_filter now uid p actor ru db = Inr (db', out) \<Longrightarrow> consent_step db db'"
| exposed: "mark_suggestions_exposed now p ids db = Inr (db', n) \<Longrightarrow> consent_step db db'"
| placed: "consent_step db (db\<lparr>rv_store := fst (store_placement (rv_store db) i pm)\<rparr>)"
| pool: "consent_step db (db\<lparr>rv_store := expire_pool_target_suggestions site revoked (rv_store db)\<rparr>)"
| policy: "expire_ineligible_external_suggestions idna today (rv_sites db) policies site statuses actor (rv_store db)
      = Some (st, n) \<Longrightarrow> consent_step db (db\<lparr>rv_store := st\<rparr>)"
| superseded: "consent_step db (db\<lparr>rv_store := fst (expire_superseded ids (rv_store db))\<rparr>)"
| prepared: "\<lbrakk>prepare_one sha preview now site (rv_store db) (rv_store db) (rv_store db) source ids = (st, r);
      \<forall>s\<in>set (st_suggestions (rv_store db)). sg_id s \<in> set ids \<longrightarrow> sg_source s = source\<rbrakk>
      \<Longrightarrow> consent_step db (db\<lparr>rv_store := st\<rparr>)"
| approved: "approve_plans sha now operator site approvals (rv_store db) = Inr (st, ps)
      \<Longrightarrow> consent_step db (db\<lparr>rv_store := st\<rparr>)"
| published: "wk_store w = rv_store db
      \<Longrightarrow> consent_step db (db\<lparr>rv_store := wk_store (publish_plan sha limit now net batched w)\<rparr>)"

lemma consent_step_inv: "consent_step db db' \<Longrightarrow> binding_inv (rv_store db) \<Longrightarrow> binding_inv (rv_store db')"
proof (induction rule: consent_step.induct)
  case (single now p actor i status reason db db')
  then show ?case by (rule single_inv)
next
  case (batch now p actor r db db' res)
  then show ?case by (rule batch_inv)
next
  case (rule now uid p actor ru db db' out)
  then show ?case by (rule rule_inv)
next
  case (exposed now p ids db db' n)
  then show ?case by (rule exposed_inv)
next
  case (policy idna today db policies site statuses actor st n)
  with policy_inv [OF policy.hyps] show ?case by simp
next
  case (prepared sha preview now site db source ids st r)
  with prepared_inv [OF prepared.prems prepared.hyps] show ?case by simp
next
  case (approved sha now operator site approvals db st ps)
  with approved_inv [OF approved.prems approved.hyps] show ?case by simp
next
  case (published w db sha limit now net batched)
  with published_inv [of w sha limit now net batched] show ?case by simp
qed (simp_all add: placed_inv pool_inv superseded_inv)

lemma consent_run_inv: "consent_step\<^sup>*\<^sup>* db db' \<Longrightarrow> binding_inv (rv_store db) \<Longrightarrow> binding_inv (rv_store db')"
  by (induction rule: rtranclp_induct) (auto intro: consent_step_inv)

section \<open>Withdrawn links are not published\<close>



section \<open>The exception\<close>

text \<open>Suggestion 5 was approved by bulk rule \<open>op\<close> and is bound to the approved plan 4.\<close>

definition sample_consent :: "(string \<Rightarrow> string) \<Rightarrow> review_db" where
  "sample_consent sha = \<lparr>rv_store = wk_store (sample_worker sha 0), rv_sites = rv_sites sample_review_db,
     rv_ops = [\<lparr>bo_id = ''op'', bo_actor = ''ann'', bo_from = Pending, bo_to = Approved, bo_reviewed = 1,
       bo_undone_count = None, bo_skipped_count = None, bo_undone_at = None\<rparr>],
     rv_items = [(''op'', 5)]\<rparr>"

lemma sample_consent_inv: "binding_inv (rv_store (sample_consent sha))"
  using sample_worker_primary [of sha 0]
  by (simp add: binding_inv_def sample_consent_def sample_worker_def sample_plan_facts active_unique_def)
     (simp add: sample_plan_def sample_store_def new_suggestion_def approve_plan_def)

text \<open>Every write succeeds.\<close>

definition good_net :: net where
  "good_net = \<lparr>net_read = True, net_post = Post_stored ''ab'' True, net_commit = True\<rparr>"

lemma sample_sends:
  assumes "w = (sample_worker sha 0)\<lparr>wk_store := st\<rparr>" and "ready sha w (sample_plan sha) (sample_plan sha) source"
    and "ar_external_id source = Some ''9''"
  shows "wk_sent (publish_plan sha 3 100 good_net (sample_plan sha) w) = [(''9'', ''ab'')]"
proof -
  have "apply_planned_edit good_net (wk_live w) source (pl_original (sample_plan sha)) (pl_updated (sample_plan sha))
      = (Written, (wk_live w)(''9'' \<mapsto> ''ab''), [(''9'', ''ab'')])"
    using assms(3) by (simp add: apply_planned_edit_def truthy_def good_net_def Let_def assms(1) sample_worker_def sample_plan_facts)
  from publish_plan_ready [OF assms(2) this, of 3 100] show ?thesis
    by (simp add: good_net_def assms(1) sample_worker_def)
qed


text \<open>C30. Undo is the exception, and a real one: with suggestion 5 approved, bound and its plan approved,
  undoing the bulk rule returns it to pending and unbinds it, and the worker then still writes the link
  to WordPress.\<close>

theorem undo_lets_withdrawn_link_out:
  "\<exists>db' res w s. binding_inv (rv_store (sample_consent sha))
    \<and> undo_filtered_bulk_review 50 sample_admin ''ann'' ''op'' (sample_consent sha) = Inr (db', res)
    \<and> ur_restored res = 1 \<and> find_suggestion (rv_store db') 5 = Some s \<and> sg_status s = Pending \<and> sg_plan s = None
    \<and> wk_store w = rv_store db' \<and> wk_sent w = []
    \<and> wk_sent (publish_plan sha 3 100 good_net (sample_plan sha) w) = [(''9'', ''ab'')]"
proof -
  let ?db = "sample_consent sha" and ?op = "hd (rv_ops (sample_consent sha))"
  have op: "get_row bo_id ''op'' (rv_ops ?db) = Some ?op" "bo_id ?op = ''op''" "bo_undone_at ?op = None"
    "bo_from ?op = Pending" "bo_to ?op = Approved" "bo_reviewed ?op = 1"
    by (simp_all add: sample_consent_def get_row_def)
  obtain s0 where s0: "st_suggestions (rv_store ?db) = [s0]" "sg_id s0 = 5" "sg_status s0 = Approved"
    by (simp add: sample_consent_def sample_worker_def new_suggestion_def)
  have guard: "undo_guard ?db ?op s0"
    by (simp add: undo_guard_def op s0) (simp add: sample_consent_def)
  have tenants: "check_tenants sample_admin ts = None" for ts
    by (simp add: check_tenants_def check_all_None_iff check_site_access_def sample_admin_def)
  let ?s = "review_values 50 Pending (Some ''ann'') None s0"
  let ?st = "set_suggestions (undo_guard ?db ?op) (review_values 50 Pending (Some ''ann'') None) (rv_store ?db)"
  have st: "st_suggestions ?st = [?s]" using guard by (simp add: s0)
  obtain db' res where undo: "undo_filtered_bulk_review 50 sample_admin ''ann'' ''op'' ?db = Inr (db', res)"
    and db': "rv_store db' = ?st" and res: "ur_restored res = 1"
    using guard by (simp add: undo_filtered_bulk_review_def op tenants s0 Let_def)
  let ?w = "(sample_worker sha 0)\<lparr>wk_store := ?st\<rparr>"
  obtain source where source: "ready sha ?w (sample_plan sha) (sample_plan sha) source" "ar_external_id source = Some ''9''"
    using sample_ready [of sha 0] st
    by (auto simp: ready_def find_plan_def sample_consent_def bound_rows_def review_values_def)
  have "find_suggestion ?st 5 = Some ?s \<and> sg_status ?s = Pending \<and> sg_plan ?s = None"
    by (simp only: find_suggestion_def st) (simp add: get_row_def review_values_def s0)
  moreover have "wk_sent ?w = []" by (simp add: sample_worker_def)
  ultimately show ?thesis
    using sample_consent_inv undo db' res sample_sends [OF refl source]
    by (intro exI [of _ db'] exI [of _ res] exI [of _ ?w] exI [of _ ?s]) simp
qed


end
