(* ===== verification/Dashboard.thy ===== *)
theory Dashboard
  imports Placement
begin

text \<open>
  Dashboard login: \<^verbatim>\<open>app/services/dashboard_auth.py\<close>, the routes of \<^verbatim>\<open>app/api/routes/auth.py\<close> and the
  identity dependencies of \<^verbatim>\<open>app/api/deps.py\<close>. \<open>hmac\<close> is HMAC-SHA256, a parameter, and the random
  codes and tokens are arguments. Codes are ASCII. One request is one step; a code is looked up in
  \<open>seen\<close>, the database when the request began, and spent in the current one.
\<close>

section \<open>Tables\<close>

text \<open>Codes are deleted once spent, so their ids come from the sequence \<open>dd_nonce_seq\<close>.\<close>

datatype user_status = User_pending | User_approved | User_revoked

record dash_user =
  du_id :: nat
  du_telegram :: int
  du_username :: "string option"
  du_display :: "string option"
  du_status :: user_status
  du_admin :: bool
  du_approved_at :: "time option"
  du_approved_by :: "string option"
  du_revoked_at :: "time option"
  du_last_seen :: "time option"

record login_nonce =
  ln_id :: nat
  ln_nonce :: string
  ln_telegram :: int
  ln_bound_at :: time
  ln_expires :: time
  ln_consumed :: "time option"

record dash_session =
  ds_id :: nat
  ds_user :: nat
  ds_hash :: string
  ds_expires :: time
  ds_last_seen :: "time option"
  ds_revoked :: "time option"

record dash_db =
  dd_users :: "dash_user list"
  dd_nonces :: "login_nonce list"
  dd_sessions :: "dash_session list"
  dd_nonce_seq :: nat

record dash_settings =
  dc_auth :: auth_settings
  dc_nonce_ttl :: int
  dc_session_ttl_minutes :: int
  dc_bootstrap :: "int option"
  dc_bot_token :: string
  dc_bot_username :: string

type_synonym hmac = "string \<Rightarrow> string \<Rightarrow> string"

definition set_users :: "(dash_user \<Rightarrow> bool) \<Rightarrow> (dash_user \<Rightarrow> dash_user) \<Rightarrow> dash_db \<Rightarrow> dash_db" where
  "set_users P f db = db\<lparr>dd_users := update_where P f (dd_users db)\<rparr>"

definition set_nonces :: "(login_nonce \<Rightarrow> bool) \<Rightarrow> (login_nonce \<Rightarrow> login_nonce) \<Rightarrow> dash_db \<Rightarrow> dash_db" where
  "set_nonces P f db = db\<lparr>dd_nonces := update_where P f (dd_nonces db)\<rparr>"

definition set_sessions :: "(dash_session \<Rightarrow> bool) \<Rightarrow> (dash_session \<Rightarrow> dash_session) \<Rightarrow> dash_db \<Rightarrow> dash_db" where
  "set_sessions P f db = db\<lparr>dd_sessions := update_where P f (dd_sessions db)\<rparr>"

section \<open>Login codes\<close>

definition upper_char :: "char \<Rightarrow> char" where
  "upper_char c = (let n = (of_char c :: nat) in if 97 \<le> n \<and> n \<le> 122 then char_of (n - 32) else c)"

definition is_alnum :: "char \<Rightarrow> bool" where
  "is_alnum c \<longleftrightarrow> (let n = (of_char c :: nat) in
     48 \<le> n \<and> n \<le> 57 \<or> 65 \<le> n \<and> n \<le> 90 \<or> 97 \<le> n \<and> n \<le> 122)"

definition normalize_login_code :: "string \<Rightarrow> string" where
  "normalize_login_code code = filter is_alnum (map upper_char code)"

definition hash_login_code :: "dash_settings \<Rightarrow> hmac \<Rightarrow> string \<Rightarrow> http_error + string" where
  "hash_login_code cfg hmac code =
     bind_ok (pepper (dc_auth cfg)) (\<lambda>p. Inr (hmac p (''login:'' @ normalize_login_code code)))"

definition hash_session_token :: "dash_settings \<Rightarrow> hmac \<Rightarrow> string \<Rightarrow> http_error + string" where
  "hash_session_token cfg hmac raw = bind_ok (pepper (dc_auth cfg)) (\<lambda>p. Inr (hmac p raw))"

definition dashboard_login_configured :: "dash_settings \<Rightarrow> bool" where
  "dashboard_login_configured cfg \<longleftrightarrow> dc_bot_token cfg \<noteq> [] \<and> dc_bot_username cfg \<noteq> []"

definition login_deep_link :: "dash_settings \<Rightarrow> string option" where
  "login_deep_link cfg = (if dc_bot_username cfg = [] then None
     else Some (''https://t.me/'' @ dc_bot_username cfg @ ''?start=login''))"

definition upsert_user_request ::
  "int \<Rightarrow> string option \<Rightarrow> string option \<Rightarrow> dash_db \<Rightarrow> dash_db \<times> dash_user" where
  "upsert_user_request tg username display db =
     (case get_row du_telegram tg (dd_users db) of
        None \<Rightarrow>
          let u = \<lparr>du_id = next_id du_id (dd_users db), du_telegram = tg, du_username = username,
                   du_display = display, du_status = User_pending, du_admin = False,
                   du_approved_at = None, du_approved_by = None, du_revoked_at = None,
                   du_last_seen = None\<rparr>
          in (db\<lparr>dd_users := dd_users db @ [u]\<rparr>, u)
      | Some u \<Rightarrow>
          let touch = (\<lambda>x. x\<lparr>du_username := (if username \<noteq> None then username else du_username x),
                             du_display := (if display \<noteq> None then display else du_display x)\<rparr>)
          in (set_users (\<lambda>x. du_telegram x = tg) touch db, touch u))"

text \<open>The twelve random characters of the alphabet, shown in three groups of four.\<close>

definition login_code_alphabet :: string where
  "login_code_alphabet = ''23456789ABCDEFGHJKLMNPQRSTUVWXYZ''"

definition group_code :: "string \<Rightarrow> string" where
  "group_code s = take 4 s @ ''-'' @ take 4 (drop 4 s) @ ''-'' @ drop 8 s"

text \<open>\<open>Inl (Http 500)\<close>: the unique index on the digest refused the new code, or no pepper is set.\<close>

definition create_login_code ::
  "dash_settings \<Rightarrow> hmac \<Rightarrow> time \<Rightarrow> string \<Rightarrow> int \<Rightarrow> string option \<Rightarrow> string option \<Rightarrow> dash_db
     \<Rightarrow> http_error + (dash_db \<times> dash_user \<times> string option)" where
  "create_login_code cfg hmac now drawn tg username display db =
     (case upsert_user_request tg username display db of
        (db, u) \<Rightarrow>
          if du_status u \<noteq> User_approved then Inr (db, u, None)
          else
            let db = set_nonces (\<lambda>n. ln_telegram n = tg \<and> ln_consumed n = None)
                       (\<lambda>n. n\<lparr>ln_consumed := Some now\<rparr>) db;
                raw = group_code drawn
            in bind_ok (hash_login_code cfg hmac raw) (\<lambda>h.
                 if h \<in> ln_nonce ` set (dd_nonces db) then Inl (Http 500)
                 else Inr (db\<lparr>dd_nonces := dd_nonces db @
                        [\<lparr>ln_id = dd_nonce_seq db, ln_nonce = h, ln_telegram = tg,
                          ln_bound_at = now, ln_expires = now + dc_nonce_ttl cfg, ln_consumed = None\<rparr>],
                        dd_nonce_seq := Suc (dd_nonce_seq db)\<rparr>,
                      u, Some raw)))"

section \<open>Sessions\<close>

definition issue_session ::
  "dash_settings \<Rightarrow> hmac \<Rightarrow> time \<Rightarrow> string \<Rightarrow> dash_user \<Rightarrow> dash_db \<Rightarrow> http_error + dash_db" where
  "issue_session cfg hmac now token u db =
     bind_ok (hash_session_token cfg hmac token) (\<lambda>h.
       if h \<in> ds_hash ` set (dd_sessions db) then Inl (Http 500)
       else Inr (set_users (\<lambda>x. du_id x = du_id u) (\<lambda>x. x\<lparr>du_last_seen := Some now\<rparr>)
         (db\<lparr>dd_sessions := dd_sessions db @
            [\<lparr>ds_id = next_id ds_id (dd_sessions db), ds_user = du_id u, ds_hash = h,
              ds_expires = now + 60 * dc_session_ttl_minutes cfg, ds_last_seen = Some now,
              ds_revoked = None\<rparr>]\<rparr>)))"

datatype login_state = Login_approved | Login_revoked | Login_invalid

record login_outcome =
  lo_state :: login_state
  lo_token :: "string option"
  lo_user :: "dash_user option"

definition invalid_login :: login_outcome where
  "invalid_login = \<lparr>lo_state = Login_invalid, lo_token = None, lo_user = None\<rparr>"

definition redeem_login_code ::
  "dash_settings \<Rightarrow> hmac \<Rightarrow> time \<Rightarrow> string \<Rightarrow> string \<Rightarrow> dash_db \<Rightarrow> dash_db
     \<Rightarrow> http_error + (dash_db \<times> login_outcome)" where
  "redeem_login_code cfg hmac now token raw seen db =
     (let normalized = normalize_login_code raw in
      if length normalized \<noteq> 12 then Inr (db, invalid_login)
      else bind_ok (hash_login_code cfg hmac normalized) (\<lambda>h.
        case get_row ln_nonce h (dd_nonces seen) of
          None \<Rightarrow> Inr (db, invalid_login)
        | Some n \<Rightarrow>
            if ln_consumed n \<noteq> None \<or> ln_expires n \<le> now then Inr (db, invalid_login)
            else (case get_row du_telegram (ln_telegram n) (dd_users seen) of
              None \<Rightarrow> Inr (db, invalid_login)
            | Some u \<Rightarrow>
                if \<not> list_ex (\<lambda>x. ln_id x = ln_id n \<and> ln_consumed x = None) (dd_nonces db)
                then Inr (db, invalid_login)
                else
                  let db = set_nonces (\<lambda>x. ln_id x = ln_id n \<and> ln_consumed x = None)
                             (\<lambda>x. x\<lparr>ln_consumed := Some now\<rparr>) db
                  in if du_status u \<noteq> User_approved
                     then Inr (db, \<lparr>lo_state = Login_revoked, lo_token = None, lo_user = Some u\<rparr>)
                     else bind_ok (issue_session cfg hmac now token u db) (\<lambda>db.
                       Inr (db, \<lparr>lo_state = Login_approved, lo_token = Some token, lo_user = Some u\<rparr>)))))"

definition purge_expired_login_codes :: "time \<Rightarrow> dash_db \<Rightarrow> dash_db" where
  "purge_expired_login_codes now db =
     db\<lparr>dd_nonces := filter (\<lambda>n. \<not> (ln_expires n \<le> now \<or> ln_consumed n \<noteq> None)) (dd_nonces db)\<rparr>"

text \<open>\<open>slid\<close>: whether the extending transaction succeeds.\<close>

definition slide :: "dash_settings \<Rightarrow> time \<Rightarrow> bool \<Rightarrow> dash_session \<Rightarrow> dash_user \<Rightarrow> dash_db \<Rightarrow> dash_db" where
  "slide cfg now slid s u db =
     (if (case ds_last_seen s of Some t \<Rightarrow> now - t < 60 | None \<Rightarrow> False) \<or> \<not> slid then db
      else set_users (\<lambda>x. du_id x = du_id u) (\<lambda>x. x\<lparr>du_last_seen := Some now\<rparr>)
             (set_sessions (\<lambda>x. ds_id x = ds_id s)
               (\<lambda>x. x\<lparr>ds_last_seen := Some now, ds_expires := now + 60 * dc_session_ttl_minutes cfg\<rparr>) db))"

definition verify_session ::
  "dash_settings \<Rightarrow> hmac \<Rightarrow> time \<Rightarrow> bool \<Rightarrow> string option \<Rightarrow> dash_db
     \<Rightarrow> http_error + (dash_db \<times> dash_user option)" where
  "verify_session cfg hmac now slid token db =
     (if \<not> truthy token then Inr (db, None)
      else bind_ok (hash_session_token cfg hmac (or_else token [])) (\<lambda>h.
        case get_row ds_hash h (dd_sessions db) of
          None \<Rightarrow> Inr (db, None)
        | Some s \<Rightarrow>
            if ds_revoked s \<noteq> None \<or> ds_expires s \<le> now then Inr (db, None)
            else (case get_row du_id (ds_user s) (dd_users db) of
                    None \<Rightarrow> Inr (db, None)
                  | Some u \<Rightarrow> if du_status u \<noteq> User_approved then Inr (db, None)
                              else Inr (slide cfg now slid s u db, Some u))))"

definition revoke_session ::
  "dash_settings \<Rightarrow> hmac \<Rightarrow> time \<Rightarrow> string option \<Rightarrow> dash_db \<Rightarrow> http_error + dash_db" where
  "revoke_session cfg hmac now token db =
     (if \<not> truthy token then Inr db
      else bind_ok (hash_session_token cfg hmac (or_else token [])) (\<lambda>h.
        Inr (set_sessions (\<lambda>s. ds_hash s = h \<and> ds_revoked s = None) (\<lambda>s. s\<lparr>ds_revoked := Some now\<rparr>) db)))"

definition revoke_sessions_for_user :: "time \<Rightarrow> nat \<Rightarrow> dash_db \<Rightarrow> dash_db" where
  "revoke_sessions_for_user now i =
     set_sessions (\<lambda>s. ds_user s = i \<and> ds_revoked s = None) (\<lambda>s. s\<lparr>ds_revoked := Some now\<rparr>)"

section \<open>Admission\<close>

definition approve_user :: "time \<Rightarrow> string \<Rightarrow> nat \<Rightarrow> dash_db \<Rightarrow> dash_db" where
  "approve_user now who i = set_users (\<lambda>u. du_id u = i)
     (\<lambda>u. u\<lparr>du_status := User_approved, du_approved_at := Some now, du_approved_by := Some who,
            du_revoked_at := None\<rparr>)"

definition set_admin :: "bool \<Rightarrow> nat \<Rightarrow> dash_db \<Rightarrow> dash_db" where
  "set_admin flag i = set_users (\<lambda>u. du_id u = i) (\<lambda>u. u\<lparr>du_admin := flag\<rparr>)"

definition revoke_user :: "time \<Rightarrow> nat \<Rightarrow> dash_db \<Rightarrow> dash_db" where
  "revoke_user now i db = revoke_sessions_for_user now i
     (set_users (\<lambda>u. du_id u = i) (\<lambda>u. u\<lparr>du_status := User_revoked, du_revoked_at := Some now\<rparr>) db)"

definition admin_telegram_ids :: "dash_db \<Rightarrow> int list" where
  "admin_telegram_ids db =
     map du_telegram (filter (\<lambda>u. du_status u = User_approved \<and> du_admin u) (dd_users db))"

definition describe_user :: "dash_user \<Rightarrow> string" where
  "describe_user u =
     (if truthy (du_username u) then ''@'' @ or_else (du_username u) []
      else if truthy (du_display u) then or_else (du_display u) []
      else ''Telegram ID '' @ json_int (du_telegram u))"

definition ensure_bootstrap_admin :: "dash_settings \<Rightarrow> time \<Rightarrow> dash_db \<Rightarrow> dash_db" where
  "ensure_bootstrap_admin cfg now db =
     (case dc_bootstrap cfg of
        None \<Rightarrow> db
      | Some tg \<Rightarrow>
          let db = (if get_row du_telegram tg (dd_users db) = None
                    then fst (upsert_user_request tg None None db) else db)
          in case get_row du_telegram tg (dd_users db) of
               None \<Rightarrow> db
             | Some u \<Rightarrow>
                 let db = (if du_status u = User_pending then approve_user now ''bootstrap'' (du_id u) db else db)
                 in if du_status u \<noteq> User_revoked \<and> \<not> du_admin u then set_admin True (du_id u) db else db)"

section \<open>The routes\<close>

definition require_dashboard_session ::
  "dash_settings \<Rightarrow> hmac \<Rightarrow> time \<Rightarrow> bool \<Rightarrow> string option \<Rightarrow> dash_db
     \<Rightarrow> http_error + (dash_db \<times> dash_user)" where
  "require_dashboard_session cfg hmac now slid token db =
     bind_ok (verify_session cfg hmac now slid token db) (\<lambda>(db, u).
       case u of None \<Rightarrow> Inl (Http 401) | Some u \<Rightarrow> Inr (db, u))"

definition require_dashboard_admin ::
  "dash_settings \<Rightarrow> hmac \<Rightarrow> time \<Rightarrow> bool \<Rightarrow> string option \<Rightarrow> dash_db
     \<Rightarrow> http_error + (dash_db \<times> dash_user)" where
  "require_dashboard_admin cfg hmac now slid token db =
     bind_ok (require_dashboard_session cfg hmac now slid token db) (\<lambda>(db, u).
       if du_admin u then Inr (db, u) else Inl (Http 403))"

definition start_login :: "dash_settings \<Rightarrow> http_error + (string \<times> int)" where
  "start_login cfg =
     (if \<not> dashboard_login_configured cfg then Inl (Http 503)
      else case login_deep_link cfg of None \<Rightarrow> Inl (Http 503) | Some l \<Rightarrow> Inr (l, dc_nonce_ttl cfg))"

text \<open>\<open>purged\<close>: whether the housekeeping succeeds. The cookie is the token of the outcome.\<close>

definition complete_login ::
  "dash_settings \<Rightarrow> hmac \<Rightarrow> time \<Rightarrow> string \<Rightarrow> bool \<Rightarrow> string \<Rightarrow> dash_db \<Rightarrow> dash_db
     \<Rightarrow> http_error + (dash_db \<times> login_outcome)" where
  "complete_login cfg hmac now token purged raw seen db =
     bind_ok (redeem_login_code cfg hmac now token raw seen db) (\<lambda>(db, out).
       Inr (if lo_state out \<noteq> Login_invalid \<and> purged then purge_expired_login_codes now db else db, out))"

text \<open>The session check commits its slide on its own, so the refusals after it keep that write.\<close>

definition as_admin ::
  "dash_settings \<Rightarrow> hmac \<Rightarrow> time \<Rightarrow> bool \<Rightarrow> string option \<Rightarrow> nat
     \<Rightarrow> (dash_user \<Rightarrow> dash_user \<Rightarrow> dash_db \<Rightarrow> http_error + dash_db) \<Rightarrow> dash_db
     \<Rightarrow> dash_db \<times> http_error option" where
  "as_admin cfg hmac now slid token i act db =
     (case verify_session cfg hmac now slid token db of
        Inl e \<Rightarrow> (db, Some e)
      | Inr (db, None) \<Rightarrow> (db, Some (Http 401))
      | Inr (db, Some actor) \<Rightarrow>
          if \<not> du_admin actor then (db, Some (Http 403))
          else case get_row du_id i (dd_users db) of
                 None \<Rightarrow> (db, Some (Http 404))
               | Some u \<Rightarrow> (case act actor u db of Inl e \<Rightarrow> (db, Some e) | Inr db' \<Rightarrow> (db', None)))"

definition approve_dashboard_user :: "time \<Rightarrow> dash_user \<Rightarrow> dash_user \<Rightarrow> dash_db \<Rightarrow> http_error + dash_db" where
  "approve_dashboard_user now actor u db = Inr (approve_user now (json_int (du_telegram actor)) (du_id u) db)"

definition revoke_dashboard_user :: "time \<Rightarrow> dash_user \<Rightarrow> dash_user \<Rightarrow> dash_db \<Rightarrow> http_error + dash_db" where
  "revoke_dashboard_user now actor u db =
     (if du_id u = du_id actor then Inl (Http 409) else Inr (revoke_user now (du_id u) db))"

definition grant_dashboard_admin :: "dash_user \<Rightarrow> dash_user \<Rightarrow> dash_db \<Rightarrow> http_error + dash_db" where
  "grant_dashboard_admin actor u db =
     (if du_status u \<noteq> User_approved then Inl (Http 409) else Inr (set_admin True (du_id u) db))"

definition revoke_dashboard_admin :: "dash_user \<Rightarrow> dash_user \<Rightarrow> dash_db \<Rightarrow> http_error + dash_db" where
  "revoke_dashboard_admin actor u db =
     (if du_id u = du_id actor then Inl (Http 409) else Inr (set_admin False (du_id u) db))"

section \<open>Who signs\<close>

definition telegram_name :: "dash_user \<Rightarrow> string" where
  "telegram_name u = ''telegram:'' @ json_int (du_telegram u)"

definition open_development :: "dash_settings \<Rightarrow> bool" where
  "open_development cfg \<longleftrightarrow> cfg_environment (dc_auth cfg) = ''development''
     \<and> cfg_api_key (dc_auth cfg) = [] \<and> cfg_operator_keys (dc_auth cfg) = []"

definition operator_of :: "dash_settings \<Rightarrow> principal \<Rightarrow> dash_user option \<Rightarrow> http_error + string" where
  "operator_of cfg p u =
     (case u of
        Some u \<Rightarrow> Inr (telegram_name u)
      | None \<Rightarrow>
          if is_admin p \<and> psource p = Operator \<and> operator_id p \<noteq> None then Inr (or_else (operator_id p) [])
          else if psource p = Legacy_env \<and> is_admin p \<and> open_development cfg then Inr ''local-development''
          else Inl (Http 401))"

definition require_operator_identity ::
  "dash_settings \<Rightarrow> hmac \<Rightarrow> time \<Rightarrow> bool \<Rightarrow> principal \<Rightarrow> string option \<Rightarrow> dash_db
     \<Rightarrow> http_error + (dash_db \<times> string)" where
  "require_operator_identity cfg hmac now slid p token db =
     bind_ok (verify_session cfg hmac now slid token db) (\<lambda>(db, u).
       bind_ok (operator_of cfg p u) (\<lambda>name. Inr (db, name)))"

definition audit_actor :: "dash_settings \<Rightarrow> principal \<Rightarrow> dash_user option \<Rightarrow> string" where
  "audit_actor cfg p u =
     (case u of
        Some u \<Rightarrow> telegram_name u
      | None \<Rightarrow>
          if operator_id p \<noteq> None then str_take 255 (or_else (operator_id p) [])
          else if open_development cfg then ''local-development''
          else if psource p = Legacy_env then ''service-api''
          else case key_id p of Some k \<Rightarrow> ''api-key:'' @ json_int (int k) | None \<Rightarrow> ''authenticated-api'')"

definition get_audit_actor ::
  "dash_settings \<Rightarrow> hmac \<Rightarrow> time \<Rightarrow> bool \<Rightarrow> principal \<Rightarrow> string option \<Rightarrow> dash_db
     \<Rightarrow> http_error + (dash_db \<times> string)" where
  "get_audit_actor cfg hmac now slid p token db =
     bind_ok (verify_session cfg hmac now slid token db) (\<lambda>(db, u). Inr (db, audit_actor cfg p u))"

section \<open>The component as a whole\<close>

datatype dash_request =
    Bot_start int "string option" "string option" string
  | Complete string string bool dash_db
  | Browse "string option" bool
  | Logout "string option"
  | Approve "string option" nat
  | Revoke "string option" nat
  | Grant_admin "string option" nat
  | Drop_admin "string option" nat
  | Bootstrap

definition keep :: "dash_db \<Rightarrow> 'e + dash_db \<Rightarrow> dash_db" where
  "keep db r = (case r of Inl _ \<Rightarrow> db | Inr db' \<Rightarrow> db')"

definition dash_step :: "dash_settings \<Rightarrow> hmac \<Rightarrow> time \<times> dash_request \<Rightarrow> dash_db \<Rightarrow> dash_db" where
  "dash_step cfg hmac req db =
     (case req of (now, ev) \<Rightarrow>
      (case ev of
         Bot_start tg username display drawn \<Rightarrow>
           keep db (map_sum id fst (create_login_code cfg hmac now drawn tg username display db))
       | Complete raw token purged seen \<Rightarrow>
           keep db (map_sum id fst (complete_login cfg hmac now token purged raw seen db))
       | Browse token slid \<Rightarrow> keep db (map_sum id fst (verify_session cfg hmac now slid token db))
       | Logout token \<Rightarrow> keep db (revoke_session cfg hmac now token db)
       | Approve token i \<Rightarrow> fst (as_admin cfg hmac now True token i (approve_dashboard_user now) db)
       | Revoke token i \<Rightarrow> fst (as_admin cfg hmac now True token i (revoke_dashboard_user now) db)
       | Grant_admin token i \<Rightarrow> fst (as_admin cfg hmac now True token i grant_dashboard_admin db)
       | Drop_admin token i \<Rightarrow> fst (as_admin cfg hmac now True token i revoke_dashboard_admin db)
       | Bootstrap \<Rightarrow> ensure_bootstrap_admin cfg now db))"

section \<open>Frames\<close>

lemma set_users_frame [simp]:
  "dd_users (set_users P f db) = update_where P f (dd_users db)"
  "dd_nonces (set_users P f db) = dd_nonces db" "dd_sessions (set_users P f db) = dd_sessions db"
  "dd_nonce_seq (set_users P f db) = dd_nonce_seq db"
  by (simp_all add: set_users_def)

lemma set_nonces_frame [simp]:
  "dd_users (set_nonces P f db) = dd_users db"
  "dd_nonces (set_nonces P f db) = update_where P f (dd_nonces db)"
  "dd_sessions (set_nonces P f db) = dd_sessions db" "dd_nonce_seq (set_nonces P f db) = dd_nonce_seq db"
  by (simp_all add: set_nonces_def)

lemma set_sessions_frame [simp]:
  "dd_users (set_sessions P f db) = dd_users db" "dd_nonces (set_sessions P f db) = dd_nonces db"
  "dd_sessions (set_sessions P f db) = update_where P f (dd_sessions db)"
  "dd_nonce_seq (set_sessions P f db) = dd_nonce_seq db"
  by (simp_all add: set_sessions_def)

lemma purge_frame [simp]:
  "dd_users (purge_expired_login_codes now db) = dd_users db"
  "dd_sessions (purge_expired_login_codes now db) = dd_sessions db"
  "dd_nonce_seq (purge_expired_login_codes now db) = dd_nonce_seq db"
  by (simp_all add: purge_expired_login_codes_def)

text \<open>How a request may change each table. Users: rows keep their ids and telegram ids; apart from an
  administrator's own action and the bootstrap, nobody is admitted, removed or promoted.\<close>

definition same_standing :: "dash_user \<Rightarrow> dash_user \<Rightarrow> bool" where
  "same_standing u u' \<longleftrightarrow> du_id u' = du_id u \<and> du_telegram u' = du_telegram u
     \<and> du_status u' = du_status u \<and> du_admin u' = du_admin u"

definition users_kept :: "dash_db \<Rightarrow> dash_db \<Rightarrow> bool" where
  "users_kept db db' \<longleftrightarrow> (\<exists>new. list_all2 same_standing (dd_users db) (take (length (dd_users db)) (dd_users db'))
     \<and> dd_users db' = take (length (dd_users db)) (dd_users db') @ new
     \<and> (\<forall>u\<in>set new. du_status u = User_pending \<and> \<not> du_admin u))"

text \<open>Sessions are only ever added, extended or revoked; a revoked one stays revoked.\<close>

definition session_kept :: "dash_session \<Rightarrow> dash_session \<Rightarrow> bool" where
  "session_kept s s' \<longleftrightarrow> ds_id s' = ds_id s \<and> ds_user s' = ds_user s \<and> ds_hash s' = ds_hash s
     \<and> (ds_revoked s \<noteq> None \<longrightarrow> ds_revoked s' \<noteq> None)"

definition sessions_kept :: "dash_session list \<Rightarrow> dash_session list \<Rightarrow> bool" where
  "sessions_kept xs ys \<longleftrightarrow> (\<forall>s\<in>set xs. \<exists>s'\<in>set ys. session_kept s s')
     \<and> (primary ds_hash xs \<longrightarrow> primary ds_hash ys)"

lemma sessions_kept_refl [simp]: "sessions_kept xs xs"
  by (auto simp: sessions_kept_def session_kept_def)

lemma sessions_kept_trans: "sessions_kept xs ys \<Longrightarrow> sessions_kept ys zs \<Longrightarrow> sessions_kept xs zs"
  by (fastforce simp: sessions_kept_def session_kept_def)

lemma sessions_kept_update:
  assumes "\<And>s. session_kept s (f s)"
  shows "sessions_kept xs (update_where P f xs)"
proof -
  have "map ds_hash (update_where P f xs) = map ds_hash xs"
    using assms by (auto simp: update_where_def session_kept_def)
  moreover have "\<exists>s'\<in>set (update_where P f xs). session_kept s s'" if "s \<in> set xs" for s
    using that assms [of s] by (intro bexI [of _ "if P s then f s else s"])
      (auto simp: set_update_where session_kept_def)
  ultimately show ?thesis by (simp add: sessions_kept_def primary_def)
qed

lemma sessions_kept_add: "ds_hash s \<notin> ds_hash ` set xs \<Longrightarrow> sessions_kept xs (xs @ [s])"
  by (auto simp: sessions_kept_def session_kept_def intro: primary_append)

lemma slide_sessions: "sessions_kept (dd_sessions db) (dd_sessions (slide cfg now slid s u db))"
  by (auto simp: slide_def session_kept_def intro!: sessions_kept_update)

lemma verify_session_cases:
  assumes "verify_session cfg hmac now slid token db = Inr (db', r)"
  obtains (no) "r = None" and "db' = db"
  | (yes) h s u where "truthy token" and "hash_session_token cfg hmac (or_else token []) = Inr h"
      and "get_row ds_hash h (dd_sessions db) = Some s" and "ds_revoked s = None" and "now < ds_expires s"
      and "get_row du_id (ds_user s) (dd_users db) = Some u" and "du_status u = User_approved"
      and "r = Some u" and "db' = slide cfg now slid s u db"
proof (cases "truthy token")
  case False
  with assms no show thesis by (simp add: verify_session_def)
next
  case t: True
  then obtain h where h: "hash_session_token cfg hmac (or_else token []) = Inr h"
    using assms by (cases "hash_session_token cfg hmac (or_else token [])") (simp_all add: verify_session_def)
  show thesis
  proof (cases "get_row ds_hash h (dd_sessions db)")
    case None
    with assms no t h show thesis by (simp add: verify_session_def)
  next
    case (Some s)
    show thesis
    proof (cases "ds_revoked s = None \<and> now < ds_expires s \<and>
        (\<exists>u. get_row du_id (ds_user s) (dd_users db) = Some u \<and> du_status u = User_approved)")
      case True
      then obtain u where u: "get_row du_id (ds_user s) (dd_users db) = Some u" "du_status u = User_approved" by blast
      show thesis
        by (rule yes [OF t h Some _ _ u]) (use True u assms t h Some in \<open>simp_all add: verify_session_def\<close>)
    next
      case False
      with assms t h Some no show thesis
        by (auto simp: verify_session_def not_less split: if_splits option.splits)
    qed
  qed
qed

lemma verify_sessions:
  "verify_session cfg hmac now slid token db = Inr (db', r) \<Longrightarrow> sessions_kept (dd_sessions db) (dd_sessions db')"
  by (erule verify_session_cases) (simp_all add: slide_sessions)

lemma upsert_frame [simp]:
  "dd_sessions (fst (upsert_user_request tg a b db)) = dd_sessions db"
  "dd_nonces (fst (upsert_user_request tg a b db)) = dd_nonces db"
  "dd_nonce_seq (fst (upsert_user_request tg a b db)) = dd_nonce_seq db"
  by (auto simp: upsert_user_request_def Let_def split: option.splits)

lemma upsert_tables:
  "upsert_user_request tg a b db = (db1, u) \<Longrightarrow> dd_sessions db1 = dd_sessions db
     \<and> dd_nonces db1 = dd_nonces db \<and> dd_nonce_seq db1 = dd_nonce_seq db"
  by (metis fst_conv upsert_frame)

lemma create_sessions:
  "create_login_code cfg hmac now drawn tg a b db = Inr (db', u, c) \<Longrightarrow> dd_sessions db' = dd_sessions db"
  by (auto simp: create_login_code_def bind_ok_eq_Inr Let_def dest!: upsert_tables split: prod.splits if_splits)

lemma issue_sessions:
  "issue_session cfg hmac now token u db = Inr db' \<Longrightarrow> sessions_kept (dd_sessions db) (dd_sessions db')"
  by (auto simp: issue_session_def bind_ok_eq_Inr intro!: sessions_kept_add split: if_splits)

lemma redeem_cases:
  assumes "redeem_login_code cfg hmac now token raw seen db = Inr (db', out)"
  obtains (invalid) "out = invalid_login" and "db' = db"
  | (spent) h n u db1 where "length (normalize_login_code raw) = 12"
      and "hash_login_code cfg hmac (normalize_login_code raw) = Inr h"
      and "get_row ln_nonce h (dd_nonces seen) = Some n" and "ln_consumed n = None" and "now < ln_expires n"
      and "get_row du_telegram (ln_telegram n) (dd_users seen) = Some u"
      and "\<exists>x\<in>set (dd_nonces db). ln_id x = ln_id n \<and> ln_consumed x = None"
      and "db1 = set_nonces (\<lambda>x. ln_id x = ln_id n \<and> ln_consumed x = None) (\<lambda>x. x\<lparr>ln_consumed := Some now\<rparr>) db"
      and "if du_status u = User_approved
        then issue_session cfg hmac now token u db1 = Inr db'
          \<and> out = \<lparr>lo_state = Login_approved, lo_token = Some token, lo_user = Some u\<rparr>
        else db' = db1 \<and> out = \<lparr>lo_state = Login_revoked, lo_token = None, lo_user = Some u\<rparr>"
proof (cases "length (normalize_login_code raw) = 12")
  case False
  with assms invalid show thesis by (simp add: redeem_login_code_def Let_def)
next
  case len: True
  then obtain h where h: "hash_login_code cfg hmac (normalize_login_code raw) = Inr h"
    using assms by (cases "hash_login_code cfg hmac (normalize_login_code raw)")
      (simp_all add: redeem_login_code_def Let_def)
  show thesis
  proof (cases "\<exists>n u. get_row ln_nonce h (dd_nonces seen) = Some n \<and> ln_consumed n = None \<and> now < ln_expires n
      \<and> get_row du_telegram (ln_telegram n) (dd_users seen) = Some u
      \<and> (\<exists>x\<in>set (dd_nonces db). ln_id x = ln_id n \<and> ln_consumed x = None)")
    case False
    with assms len h have "out = invalid_login \<and> db' = db"
      by (cases "get_row ln_nonce h (dd_nonces seen)")
         (auto simp: redeem_login_code_def Let_def list_ex_iff not_less split: if_splits option.splits)
    with invalid show thesis by blast
  next
    case True
    then obtain n u where n: "get_row ln_nonce h (dd_nonces seen) = Some n" "ln_consumed n = None"
        "now < ln_expires n" "get_row du_telegram (ln_telegram n) (dd_users seen) = Some u"
      and x: "\<exists>x\<in>set (dd_nonces db). ln_id x = ln_id n \<and> ln_consumed x = None" by blast
    then have "list_ex (\<lambda>x. ln_id x = ln_id n \<and> ln_consumed x = None) (dd_nonces db)" by (simp add: list_ex_iff)
    with assms len h n show thesis
      by (intro spent [OF len h n x refl])
         (auto simp: redeem_login_code_def Let_def bind_ok_eq_Inr not_le split: if_splits)
  qed
qed

lemma redeem_sessions:
  "redeem_login_code cfg hmac now token raw seen db = Inr (db', out) \<Longrightarrow>
     sessions_kept (dd_sessions db) (dd_sessions db')"
  by (erule redeem_cases) (auto dest!: issue_sessions split: if_splits)

lemma revoke_user_sessions: "sessions_kept (dd_sessions db) (dd_sessions (revoke_user now i db))"
  by (auto simp: revoke_user_def revoke_sessions_for_user_def session_kept_def intro!: sessions_kept_update)

lemma admission_sessions [simp]:
  "dd_sessions (approve_user now who i db) = dd_sessions db"
  "dd_sessions (set_admin b i db) = dd_sessions db"
  "dd_sessions (ensure_bootstrap_admin cfg now db) = dd_sessions db"
  by (simp_all add: approve_user_def set_admin_def ensure_bootstrap_admin_def Let_def split: option.split)

lemma as_admin_sessions:
  assumes "\<And>a u d d'. act a u d = Inr d' \<Longrightarrow> sessions_kept (dd_sessions d) (dd_sessions d')"
  shows "sessions_kept (dd_sessions db) (dd_sessions (fst (as_admin cfg hmac now slid token i act db)))"
  using assms
  by (auto simp: as_admin_def dest!: verify_sessions split: sum.splits option.splits prod.splits
      intro: sessions_kept_trans)

lemma step_sessions: "sessions_kept (dd_sessions db) (dd_sessions (dash_step cfg hmac req db))"
proof -
  obtain now ev where req: "req = (now, ev)" by fastforce
  show ?thesis
  proof (cases ev)
    case (Bot_start tg a b c)
    then show ?thesis by (auto simp: req dash_step_def keep_def dest!: create_sessions split: sum.splits)
  next
    case (Complete raw token purged seen)
    then show ?thesis
      by (auto simp: req dash_step_def keep_def complete_login_def bind_ok_eq_Inr dest!: redeem_sessions
          split: sum.splits)
  next
    case (Browse token slid)
    then show ?thesis by (auto simp: req dash_step_def keep_def dest!: verify_sessions split: sum.splits)
  next
    case (Logout token)
    then show ?thesis
      by (auto simp: req dash_step_def keep_def revoke_session_def bind_ok_eq_Inr session_kept_def
          intro!: sessions_kept_update split: sum.splits if_splits)
  next
    case (Revoke token i)
    then show ?thesis unfolding req dash_step_def
      by (simp, intro as_admin_sessions)
         (auto simp: revoke_dashboard_user_def revoke_user_sessions split: if_splits)
  qed (simp_all add: req dash_step_def, (intro as_admin_sessions,
      auto simp: approve_dashboard_user_def grant_dashboard_admin_def revoke_dashboard_admin_def split: if_splits)+)
qed

section \<open>Sessions end for good\<close>

lemma run_sessions: "sessions_kept (dd_sessions db) (dd_sessions (fold (dash_step cfg hmac) es db))"
  by (induction es arbitrary: db) (auto intro: sessions_kept_trans [OF step_sessions])

lemma verify_closed:
  assumes "primary ds_hash (dd_sessions db)" and "s \<in> set (dd_sessions db)" and "ds_revoked s \<noteq> None"
    and "hash_session_token cfg hmac raw = Inr (ds_hash s)"
  shows "verify_session cfg hmac now slid (Some raw) db = Inr (db, None)"
  using assms(3,4) get_row_primary [OF assms(1,2)]
  by (auto simp: verify_session_def or_else_def split: if_splits option.splits)

lemma closed_for_good:
  assumes "sessions_kept (dd_sessions db) (dd_sessions db1)" and "primary ds_hash (dd_sessions db)"
    and "s \<in> set (dd_sessions db1)" and "ds_revoked s \<noteq> None"
    and "hash_session_token cfg hmac raw = Inr (ds_hash s)"
  shows "verify_session cfg hmac later slid (Some raw) (fold (dash_step cfg hmac) es db1)
    = Inr (fold (dash_step cfg hmac) es db1, None)"
proof -
  let ?db2 = "fold (dash_step cfg hmac) es db1"
  have kept: "sessions_kept (dd_sessions db1) (dd_sessions ?db2)" by (rule run_sessions)
  then obtain s' where s': "s' \<in> set (dd_sessions ?db2)" "session_kept s s'"
    using assms(3) unfolding sessions_kept_def by blast
  have "primary ds_hash (dd_sessions ?db2)" using assms(1,2) kept by (simp add: sessions_kept_def)
  then show ?thesis using s' assms(4,5)
    by (intro verify_closed [of _ s']) (simp_all add: session_kept_def)
qed

text \<open>C36. Revocation is immediate and final: once an administrator has removed a person, or a browser has
  logged out, no cookie of that person's sessions (of that browser) is ever accepted again, whatever
  requests follow, even if the person is admitted again later.\<close>

theorem revocation_is_final:
  assumes "primary ds_hash (dd_sessions db)" and "s \<in> set (dd_sessions db)"
    and "hash_session_token cfg hmac raw = Inr (ds_hash s)" and "raw \<noteq> []"
    and "as_admin cfg hmac now True token (ds_user s) (revoke_dashboard_user now) db = (db1, None)
      \<or> revoke_session cfg hmac now (Some raw) db = Inr db1"
  shows "verify_session cfg hmac later slid (Some raw) (fold (dash_step cfg hmac) es db1)
    = Inr (fold (dash_step cfg hmac) es db1, None)"
proof -
  have "\<exists>s'\<in>set (dd_sessions db1). ds_hash s' = ds_hash s \<and> ds_revoked s' \<noteq> None"
    and kept: "sessions_kept (dd_sessions db) (dd_sessions db1)"
  proof -
    have revoke: "\<exists>s'\<in>set (dd_sessions db1). ds_hash s' = ds_hash s \<and> ds_revoked s' \<noteq> None"
      if db1: "db1 = revoke_user now (ds_user s) d" and kd: "sessions_kept (dd_sessions db) (dd_sessions d)" for d
    proof -
      obtain s' where "s' \<in> set (dd_sessions d)" "session_kept s s'"
        using kd assms(2) unfolding sessions_kept_def by blast
      then show ?thesis using db1
        by (intro bexI [of _ "if ds_revoked s' = None then s'\<lparr>ds_revoked := Some now\<rparr> else s'"])
           (auto simp: revoke_user_def revoke_sessions_for_user_def set_update_where session_kept_def)
    qed
    from assms(5) show "\<exists>s'\<in>set (dd_sessions db1). ds_hash s' = ds_hash s \<and> ds_revoked s' \<noteq> None"
    proof
      assume "as_admin cfg hmac now True token (ds_user s) (revoke_dashboard_user now) db = (db1, None)"
      then obtain d u v where "verify_session cfg hmac now True token db = Inr (d, u)"
        "get_row du_id (ds_user s) (dd_users d) = Some v" "db1 = revoke_user now (du_id v) d"
        by (auto simp: as_admin_def revoke_dashboard_user_def split: sum.splits option.splits prod.splits if_splits)
      then show ?thesis using revoke [of d] verify_sessions get_row_Some [of du_id] by metis
    next
      assume "revoke_session cfg hmac now (Some raw) db = Inr db1"
      then have "db1 = set_sessions (\<lambda>x. ds_hash x = ds_hash s \<and> ds_revoked x = None)
          (\<lambda>x. x\<lparr>ds_revoked := Some now\<rparr>) db"
        using assms(3,4) by (simp add: revoke_session_def truthy_def)
      then show ?thesis using assms(2)
        by (intro bexI [of _ "if ds_revoked s = None then s\<lparr>ds_revoked := Some now\<rparr> else s"])
           (auto simp: set_update_where)
    qed
    from assms(5) show "sessions_kept (dd_sessions db) (dd_sessions db1)"
    proof
      assume a: "as_admin cfg hmac now True token (ds_user s) (revoke_dashboard_user now) db = (db1, None)"
      show ?thesis
        using step_sessions [of db cfg hmac "(now, Revoke token (ds_user s))"] a by (simp add: dash_step_def)
    next
      assume b: "revoke_session cfg hmac now (Some raw) db = Inr db1"
      show ?thesis using step_sessions [of db cfg hmac "(now, Logout (Some raw))"] b
        by (simp add: dash_step_def keep_def)
    qed
  qed
  then obtain s' where "s' \<in> set (dd_sessions db1)" "ds_hash s' = ds_hash s" "ds_revoked s' \<noteq> None" by blast
  then show ?thesis using closed_for_good [OF kept assms(1), of s'] assms(3) by simp
qed

section \<open>Codes are spent once\<close>

definition spent :: "nat \<Rightarrow> dash_db \<Rightarrow> bool" where
  "spent j db \<longleftrightarrow> j < dd_nonce_seq db \<and> (\<forall>n\<in>set (dd_nonces db). ln_id n = j \<longrightarrow> ln_consumed n \<noteq> None)"

lemma spent_consume:
  "spent j db \<Longrightarrow> spent j (set_nonces P (\<lambda>n. n\<lparr>ln_consumed := Some now\<rparr>) db)"
  by (auto simp: spent_def set_update_where)

lemma spent_purge: "spent j db \<Longrightarrow> spent j (purge_expired_login_codes now db)"
  by (auto simp: spent_def purge_expired_login_codes_def)

lemma slide_nonces [simp]: "dd_nonces (slide cfg now slid s u db) = dd_nonces db"
    "dd_nonce_seq (slide cfg now slid s u db) = dd_nonce_seq db"
  by (simp_all add: slide_def split: option.split)

lemma verify_nonces: "verify_session cfg hmac now slid token db = Inr (db', r) \<Longrightarrow>
    dd_nonces db' = dd_nonces db \<and> dd_nonce_seq db' = dd_nonce_seq db"
  by (erule verify_session_cases) simp_all

lemma issue_spent: "issue_session cfg hmac now token u db = Inr db' \<Longrightarrow> spent j db' = spent j db"
  by (auto simp: issue_session_def bind_ok_eq_Inr spent_def split: if_splits)

lemma redeem_spent: "redeem_login_code cfg hmac now token raw seen db = Inr (db', out) \<Longrightarrow> spent j db \<Longrightarrow> spent j db'"
  by (erule redeem_cases) (auto simp: issue_spent spent_consume split: if_splits)

lemma create_spent:
  assumes "create_login_code cfg hmac now drawn tg a b db = Inr (db', u, c)" and "spent j db"
  shows "spent j db'"
proof -
  obtain db1 u1 where up: "upsert_user_request tg a b db = (db1, u1)" by fastforce
  have "spent j db1" using upsert_tables [OF up] assms(2) by (simp add: spent_def)
  with assms(1) up show ?thesis
    using spent_consume [of j db1 "\<lambda>n. ln_telegram n = tg \<and> ln_consumed n = None" now]
    by (auto simp: create_login_code_def bind_ok_eq_Inr Let_def spent_def split: if_splits)
qed

lemma as_admin_spent:
  assumes "\<And>a u d d'. act a u d = Inr d' \<Longrightarrow> dd_nonces d' = dd_nonces d \<and> dd_nonce_seq d' = dd_nonce_seq d"
  shows "spent j (fst (as_admin cfg hmac now slid token i act db)) = spent j db"
  by (auto simp: as_admin_def spent_def dest!: verify_nonces assms split: sum.splits option.splits prod.splits)

lemma bootstrap_nonces [simp]: "dd_nonces (ensure_bootstrap_admin cfg now db) = dd_nonces db"
    "dd_nonce_seq (ensure_bootstrap_admin cfg now db) = dd_nonce_seq db"
  by (simp_all add: ensure_bootstrap_admin_def approve_user_def set_admin_def Let_def split: option.split)

lemma step_spent: "spent j db \<Longrightarrow> spent j (dash_step cfg hmac req db)"
proof -
  assume j: "spent j db"
  obtain now ev where req: "req = (now, ev)" by fastforce
  show ?thesis
  proof (cases ev)
    case (Bot_start tg a b c)
    then show ?thesis using j create_spent
      by (auto simp: req dash_step_def keep_def split: sum.splits)
  next
    case (Complete raw token purged seen)
    then show ?thesis using j redeem_spent spent_purge
      by (auto simp: req dash_step_def keep_def complete_login_def bind_ok_eq_Inr split: sum.splits)
  next
    case (Browse token slid)
    then show ?thesis using j
      by (auto simp: req dash_step_def keep_def spent_def dest!: verify_nonces split: sum.splits)
  next
    case (Logout token)
    then show ?thesis using j
      by (auto simp: req dash_step_def keep_def revoke_session_def bind_ok_eq_Inr spent_def
          split: sum.splits if_splits)
  next
    case Bootstrap
    then show ?thesis using j by (simp add: req dash_step_def spent_def)
  qed (use j in \<open>simp_all add: req dash_step_def\<close>, (subst as_admin_spent, auto simp: approve_dashboard_user_def
      grant_dashboard_admin_def revoke_dashboard_admin_def revoke_dashboard_user_def approve_user_def set_admin_def
      revoke_user_def revoke_sessions_for_user_def split: if_splits)+)
qed

interpretation code_spent: driven_system "dash_step cfg hmac" "spent j" for cfg hmac j
  by unfold_locales (rule step_spent)

text \<open>A code buys one session: once a code was accepted (whether it opened a session or met a revoked
  account), no request that carries the same code and found the same row is accepted again, whatever
  happened in between and even if that request had read the row before the first one spent it.\<close>

lemma code_is_spent_once:
  assumes "complete_login cfg hmac t1 token1 purged1 raw seen1 db = Inr (db1, out)"
    and "lo_state out \<noteq> Login_invalid" and "\<forall>n\<in>set (dd_nonces db). ln_id n < dd_nonce_seq db"
    and "hash_login_code cfg hmac (normalize_login_code raw) = Inr h"
    and "map_option ln_id (get_row ln_nonce h (dd_nonces seen2)) = map_option ln_id (get_row ln_nonce h (dd_nonces seen1))"
    and "db2 = fold (dash_step cfg hmac) es db1"
  shows "complete_login cfg hmac t2 token2 purged2 raw seen2 db2 = Inr (db2, invalid_login)"
proof -
  obtain d where d: "redeem_login_code cfg hmac t1 token1 raw seen1 db = Inr (d, out)"
    and db1: "db1 = d \<or> db1 = purge_expired_login_codes t1 d"
    using assms(1) by (auto simp: complete_login_def bind_ok_eq_Inr split: if_splits)
  from d obtain n where n: "get_row ln_nonce h (dd_nonces seen1) = Some n" and sp: "spent (ln_id n) d"
    and len: "length (normalize_login_code raw) = 12"
  proof (cases rule: redeem_cases)
    case invalid
    with assms(2) show ?thesis by (simp add: invalid_login_def)
  next
    case (spent h' n u dbx)
    have "spent (ln_id n) dbx" using spent(7) assms(3) unfolding spent(8) by (force simp: spent_def set_update_where)
    then have "spent (ln_id n) d" using spent(9) by (auto simp: issue_spent split: if_splits)
    with spent that assms(4) show ?thesis by simp
  qed
  have "spent (ln_id n) db1" using db1 sp spent_purge by auto
  then have "spent (ln_id n) db2" unfolding assms(6) by (rule code_spent.run_inv)
  moreover obtain n2 where "get_row ln_nonce h (dd_nonces seen2) = Some n2" "ln_id n2 = ln_id n"
    using assms(5) n by auto
  ultimately have "redeem_login_code cfg hmac t2 token2 raw seen2 db2 = Inr (db2, invalid_login)"
    using len assms(4)
    by (auto simp: redeem_login_code_def Let_def list_ex_iff spent_def split: option.split)
  then show ?thesis by (simp add: complete_login_def invalid_login_def)
qed

section \<open>Logging in\<close>

lemma alphabet_fixed: "c \<in> set login_code_alphabet \<Longrightarrow> is_alnum c \<and> upper_char c = c"
  unfolding login_code_alphabet_def by (auto simp: is_alnum_def upper_char_def Let_def)

lemma normalize_alphabet: "set s \<subseteq> set login_code_alphabet \<Longrightarrow> normalize_login_code s = s"
  using alphabet_fixed by (induction s) (auto simp: normalize_login_code_def)

lemma normalize_append: "normalize_login_code (a @ b) = normalize_login_code a @ normalize_login_code b"
  by (simp add: normalize_login_code_def)

lemma normalize_dash: "normalize_login_code ''-'' = []"
  by (simp add: normalize_login_code_def is_alnum_def upper_char_def)

lemma normalize_group:
  assumes "set s \<subseteq> set login_code_alphabet"
  shows "normalize_login_code (group_code s) = s"
proof -
  have sub: "set (take 4 s) \<subseteq> set login_code_alphabet" "set (take 4 (drop 4 s)) \<subseteq> set login_code_alphabet"
    "set (drop 8 s) \<subseteq> set login_code_alphabet"
    using assms by (auto dest: in_set_takeD in_set_dropD)
  have "normalize_login_code (group_code s) = take 4 s @ take 4 (drop 4 s) @ drop 8 s"
    unfolding group_code_def normalize_append normalize_dash by (simp only: normalize_alphabet [OF sub(1)]
      normalize_alphabet [OF sub(2)] normalize_alphabet [OF sub(3)] append_Nil)
  also have "drop 8 s = drop 4 (drop 4 s)" by simp
  finally show ?thesis by (simp only: append_take_drop_id)
qed

lemma hash_code_cong: "normalize_login_code a = normalize_login_code b \<Longrightarrow>
    hash_login_code cfg hmac a = hash_login_code cfg hmac b"
  by (simp add: hash_login_code_def)

lemma nonce_hashes: "ln_nonce ` set (update_where P (\<lambda>n. n\<lparr>ln_consumed := v\<rparr>) ns) = ln_nonce ` set ns"
  by (induction ns) simp_all

lemma create_codeE:
  assumes "create_login_code cfg hmac now drawn tg a b db = Inr (db1, u, Some raw)"
  obtains dbu h n where "upsert_user_request tg a b db = (dbu, u)" and "du_status u = User_approved"
    and "raw = group_code drawn" and "hash_login_code cfg hmac raw = Inr h"
    and "h \<notin> ln_nonce ` set (dd_nonces db)"
    and "n = \<lparr>ln_id = dd_nonce_seq db, ln_nonce = h, ln_telegram = tg, ln_bound_at = now,
      ln_expires = now + dc_nonce_ttl cfg, ln_consumed = None\<rparr>"
    and "dd_users db1 = dd_users dbu" and "dd_sessions db1 = dd_sessions db"
    and "dd_nonces db1 = update_where (\<lambda>n. ln_telegram n = tg \<and> ln_consumed n = None)
      (\<lambda>n. n\<lparr>ln_consumed := Some now\<rparr>) (dd_nonces db) @ [n]"
proof -
  obtain dbu u1 where up: "upsert_user_request tg a b db = (dbu, u1)" by fastforce
  note tables = upsert_tables [OF up]
  obtain h where h: "hash_login_code cfg hmac (group_code drawn) = Inr h"
    and ok: "du_status u1 = User_approved" "u1 = u" "raw = group_code drawn" "h \<notin> ln_nonce ` set (dd_nonces db)"
    and db1: "db1 = (set_nonces (\<lambda>n. ln_telegram n = tg \<and> ln_consumed n = None) (\<lambda>n. n\<lparr>ln_consumed := Some now\<rparr>) dbu)
      \<lparr>dd_nonces := update_where (\<lambda>n. ln_telegram n = tg \<and> ln_consumed n = None)
      (\<lambda>n. n\<lparr>ln_consumed := Some now\<rparr>) (dd_nonces db) @ [\<lparr>ln_id = dd_nonce_seq db, ln_nonce = h, ln_telegram = tg,
        ln_bound_at = now, ln_expires = now + dc_nonce_ttl cfg, ln_consumed = None\<rparr>],
        dd_nonce_seq := Suc (dd_nonce_seq dbu)\<rparr>"
    using assms up tables
    by (auto simp: create_login_code_def bind_ok_eq_Inr Let_def nonce_hashes split: if_splits)
  show thesis
    by (rule that [OF _ _ _ _ _ refl]) (use up h ok db1 tables in \<open>simp_all\<close>)
qed

lemma upsert_user:
  assumes "upsert_user_request tg a b db = (db1, u)" and "primary du_telegram (dd_users db)"
    and "primary du_id (dd_users db)"
  shows "u \<in> set (dd_users db1) \<and> du_telegram u = tg \<and> primary du_telegram (dd_users db1) \<and> primary du_id (dd_users db1)"
proof (cases "get_row du_telegram tg (dd_users db)")
  case None
  then have "dd_users db1 = dd_users db @ [u]" "du_telegram u = tg" "du_id u = next_id du_id (dd_users db)"
    using assms(1) by (auto simp: upsert_user_request_def Let_def)
  then show ?thesis using None assms(2,3) next_id_fresh [of du_id "dd_users db"]
    by (simp add: get_row_None_iff primary_append)
next
  case (Some v)
  let ?touch = "\<lambda>x::dash_user. x\<lparr>du_username := (if a \<noteq> None then a else du_username x),
                      du_display := (if b \<noteq> None then b else du_display x)\<rparr>"
  have "u = ?touch v" "dd_users db1 = update_where (\<lambda>x. du_telegram x = tg) ?touch (dd_users db)"
    using assms(1) Some by (auto simp: upsert_user_request_def Let_def)
  moreover have "v \<in> set (dd_users db)" "du_telegram v = tg" using get_row_Some [OF Some] by auto
  moreover have "primary du_telegram (update_where P ?touch (dd_users db))"
      "primary du_id (update_where P ?touch (dd_users db))" for P
    using assms(2,3) row_update.primary_update [of du_telegram ?touch] row_update.primary_update [of du_id ?touch]
    by (simp_all add: row_update_def)
  ultimately show ?thesis by (force simp: set_update_where)
qed

text \<open>Logging in works: the code the bot shows an approved person, typed back in time in any letter case
  and with any separators, opens a session for exactly that person, and the cookie it sets is then
  accepted and names them.\<close>

lemma login_round_trip:
  assumes "create_login_code cfg hmac t1 drawn tg a b db = Inr (db1, u, Some raw)"
    and "length drawn = 12" and "set drawn \<subseteq> set login_code_alphabet"
    and "normalize_login_code typed = normalize_login_code raw" and "t2 < t1 + dc_nonce_ttl cfg"
    and "primary du_telegram (dd_users db)" and "primary du_id (dd_users db)"
    and "hash_session_token cfg hmac token = Inr th" and "th \<notin> ds_hash ` set (dd_sessions db)"
    and "token \<noteq> []" and "0 < dc_session_ttl_minutes cfg"
  shows "\<exists>db2 out db3 v. complete_login cfg hmac t2 token purged typed db1 db1 = Inr (db2, out)
    \<and> lo_state out = Login_approved \<and> lo_token out = Some token
    \<and> verify_session cfg hmac t2 slid (Some token) db2 = Inr (db3, Some v)
    \<and> du_telegram v = tg \<and> du_status v = User_approved \<and> du_id v = du_id u"
  using assms(1)
proof (rule create_codeE)
  fix dbu h n
  assume up: "upsert_user_request tg a b db = (dbu, u)" and appr: "du_status u = User_approved"
    and raw: "raw = group_code drawn" and h: "hash_login_code cfg hmac raw = Inr h"
    and fresh: "h \<notin> ln_nonce ` set (dd_nonces db)"
    and n: "n = \<lparr>ln_id = dd_nonce_seq db, ln_nonce = h, ln_telegram = tg, ln_bound_at = t1,
      ln_expires = t1 + dc_nonce_ttl cfg, ln_consumed = None\<rparr>"
    and users: "dd_users db1 = dd_users dbu" and sessions: "dd_sessions db1 = dd_sessions db"
    and nonces: "dd_nonces db1 = update_where (\<lambda>n. ln_telegram n = tg \<and> ln_consumed n = None)
      (\<lambda>n. n\<lparr>ln_consumed := Some t1\<rparr>) (dd_nonces db) @ [n]"
  have typed: "normalize_login_code typed = drawn"
    using assms(3,4) by (simp add: raw normalize_group)
  have hash: "hash_login_code cfg hmac drawn = Inr h"
    using hash_code_cong [of drawn raw cfg hmac] h assms(3) by (simp add: raw normalize_group normalize_alphabet)
  have found: "get_row ln_nonce h (dd_nonces db1) = Some n"
    using fresh unfolding nonces by (intro get_row_snoc) (simp_all add: nonce_hashes n)
  note user = upsert_user [OF up assms(6,7)]
  have uu: "u \<in> set (dd_users db1)" "du_telegram u = tg" "primary du_telegram (dd_users db1)" "primary du_id (dd_users db1)"
    using user by (simp_all add: users)
  have gu: "get_row du_telegram tg (dd_users db1) = Some u" using get_row_primary [OF uu(3,1)] uu(2) by simp
  let ?consumed = "set_nonces (\<lambda>x. ln_id x = ln_id n \<and> ln_consumed x = None) (\<lambda>x. x\<lparr>ln_consumed := Some t2\<rparr>) db1"
  let ?s = "\<lparr>ds_id = next_id ds_id (dd_sessions db), ds_user = du_id u, ds_hash = th,
    ds_expires = t2 + 60 * dc_session_ttl_minutes cfg, ds_last_seen = Some t2, ds_revoked = None\<rparr>"
  let ?seen = "\<lambda>x. x\<lparr>du_last_seen := Some t2\<rparr>"
  define d where "d = set_users (\<lambda>x. du_id x = du_id u) ?seen (?consumed\<lparr>dd_sessions := dd_sessions db @ [?s]\<rparr>)"
  have "list_ex (\<lambda>x. ln_id x = ln_id n \<and> ln_consumed x = None) (dd_nonces db1)"
    by (simp add: nonces n)
  moreover have "issue_session cfg hmac t2 token u ?consumed = Inr d"
    using assms(8,9) by (simp add: issue_session_def sessions d_def)
  ultimately have redeem: "redeem_login_code cfg hmac t2 token typed db1 db1
      = Inr (d, \<lparr>lo_state = Login_approved, lo_token = Some token, lo_user = Some u\<rparr>)"
    using assms(2,5) gu appr by (simp add: redeem_login_code_def typed hash found Let_def) (simp add: n)
  define db2 where "db2 = (if purged then purge_expired_login_codes t2 d else d)"
  have tables: "dd_users db2 = update_where (\<lambda>x. du_id x = du_id u) ?seen (dd_users db1)"
    "dd_sessions db2 = dd_sessions db @ [?s]"
    by (simp_all add: db2_def d_def)
  have "get_row du_id (du_id u) (dd_users db2) = Some (?seen u)"
    using row_update.get_update [of du_id ?seen "du_id u" "\<lambda>x. du_id x = du_id u" "dd_users db1"]
      get_row_primary [OF uu(4,1)] by (simp add: tables row_update_def)
  moreover have "get_row ds_hash th (dd_sessions db2) = Some ?s"
    using assms(9) unfolding tables by (intro get_row_snoc) simp_all
  ultimately have "verify_session cfg hmac t2 slid (Some token) db2 = Inr (slide cfg t2 slid ?s (?seen u) db2, Some (?seen u))"
    using assms(8,10,11) appr by (simp add: verify_session_def truthy_def)
  moreover have "complete_login cfg hmac t2 token purged typed db1 db1
      = Inr (db2, \<lparr>lo_state = Login_approved, lo_token = Some token, lo_user = Some u\<rparr>)"
    using redeem by (simp add: complete_login_def db2_def)
  ultimately show ?thesis using uu(2) appr by auto
qed

section \<open>The dashboard is never locked out\<close>

definition admins :: "dash_user list \<Rightarrow> dash_user set" where
  "admins us = {u \<in> set us. du_status u = User_approved \<and> du_admin u}"

definition guarded :: "dash_db \<Rightarrow> bool" where
  "guarded db \<longleftrightarrow> admins (dd_users db) \<noteq> {}"

lemma guarded_same: "dd_users db' = dd_users db \<Longrightarrow> guarded db \<Longrightarrow> guarded db'"
  by (simp add: guarded_def)

lemma guarded_tables [simp]: "guarded (set_nonces P f db) = guarded db"
    "guarded (set_sessions Q g db) = guarded db" "guarded (purge_expired_login_codes now db) = guarded db"
  by (simp_all add: guarded_def)

lemma guarded_set_users:
  assumes "guarded db" and "\<And>u. du_status u = User_approved \<Longrightarrow> du_admin u \<Longrightarrow>
      du_status (f u) = User_approved \<and> du_admin (f u)"
  shows "guarded (set_users P f db)"
proof -
  obtain u where "u \<in> set (dd_users db)" "du_status u = User_approved" "du_admin u"
    using assms(1) by (auto simp: guarded_def admins_def)
  with assms(2) [of u] have "(if P u then f u else u) \<in> admins (dd_users (set_users P f db))"
    by (auto simp: admins_def set_update_where)
  then show ?thesis by (auto simp: guarded_def)
qed

lemma guarded_slide: "guarded db \<Longrightarrow> guarded (slide cfg now slid s u db)"
  unfolding slide_def by (auto intro!: guarded_set_users)

lemma guarded_verify: "verify_session cfg hmac now slid token db = Inr (db', r) \<Longrightarrow> guarded db \<Longrightarrow> guarded db'"
  by (erule verify_session_cases) (simp_all add: guarded_slide)

text \<open>The administrator behind a request is still one after the request's own session check.\<close>

lemma actor_is_admin:
  assumes "verify_session cfg hmac now slid token db = Inr (db', Some u)" and "du_admin u"
  shows "\<exists>v\<in>admins (dd_users db'). du_id v = du_id u"
  using assms(1)
proof (cases rule: verify_session_cases)
  case (yes h s u')
  then have u: "u \<in> set (dd_users db)" "du_status u = User_approved" using get_row_Some by fastforce+
  show ?thesis
    using u assms(2) unfolding yes(9)
    by (intro bexI [of _ "if u \<in> set (dd_users db') then u else u\<lparr>du_last_seen := Some now\<rparr>"])
       (auto simp: slide_def admins_def set_update_where yes(9) split: option.splits)
qed simp

lemma guarded_upsert: "guarded db \<Longrightarrow> guarded (fst (upsert_user_request tg a b db))"
  by (auto simp: upsert_user_request_def Let_def guarded_set_users split: option.split)
     (auto simp: guarded_def admins_def)

lemma guarded_create:
  assumes "create_login_code cfg hmac now drawn tg a b db = Inr (db', u, c)" and "guarded db"
  shows "guarded db'"
proof -
  obtain db1 u1 where up: "upsert_user_request tg a b db = (db1, u1)" by fastforce
  have "guarded db1" using guarded_upsert [OF assms(2), of tg a b] up by simp
  moreover have "dd_users db' = dd_users db1"
    using assms(1) up by (auto simp: create_login_code_def bind_ok_eq_Inr Let_def split: if_splits)
  ultimately show ?thesis by (simp add: guarded_def)
qed

lemma guarded_issue:
  assumes "issue_session cfg hmac now token u db = Inr db'" and "guarded db"
  shows "guarded db'"
proof -
  have "dd_users db' = update_where (\<lambda>x. du_id x = du_id u) (\<lambda>x. x\<lparr>du_last_seen := Some now\<rparr>) (dd_users db)"
    using assms(1) by (auto simp: issue_session_def bind_ok_eq_Inr split: if_splits)
  then have "dd_users db' = dd_users (set_users (\<lambda>x. du_id x = du_id u) (\<lambda>x. x\<lparr>du_last_seen := Some now\<rparr>) db)"
    by simp
  then show ?thesis by (rule guarded_same) (simp add: guarded_set_users assms(2))
qed

lemma guarded_redeem:
  assumes "redeem_login_code cfg hmac now token raw seen db = Inr (db', out)" and "guarded db"
  shows "guarded db'"
  using assms(1)
proof (cases rule: redeem_cases)
  case invalid
  with assms(2) show ?thesis by simp
next
  case (spent h n u db1)
  have "guarded db1" unfolding spent(8) using assms(2) by simp
  then show ?thesis using spent(9) by (cases "du_status u = User_approved") (auto dest: guarded_issue)
qed

lemma guarded_bootstrap: "guarded db \<Longrightarrow> guarded (ensure_bootstrap_admin cfg now db)"
  by (auto simp: ensure_bootstrap_admin_def Let_def approve_user_def set_admin_def
      intro!: guarded_set_users guarded_upsert split: option.split)

lemma guarded_as_admin:
  assumes "guarded db"
    and "\<And>a u d d'. act a u d = Inr d' \<Longrightarrow> \<exists>v\<in>admins (dd_users d). du_id v = du_id a \<Longrightarrow> guarded d'"
  shows "guarded (fst (as_admin cfg hmac now slid token i act db))"
proof (cases "verify_session cfg hmac now slid token db")
  case (Inr r)
  obtain d who where r: "r = (d, who)" by fastforce
  have d: "guarded d" using guarded_verify Inr r assms(1) by blast
  show ?thesis
  proof (cases who)
    case (Some a)
    have "guarded d'" if "du_admin a" "act a u d = Inr d'" for u d'
      using assms(2) [OF that(2)] actor_is_admin [OF _ that(1)] Inr r Some by blast
    with d show ?thesis by (auto simp: as_admin_def Inr r Some split: sum.splits option.splits)
  qed (simp add: as_admin_def Inr r d)
qed (simp add: as_admin_def assms(1))

lemma guarded_step: "guarded db \<Longrightarrow> guarded (dash_step cfg hmac req db)"
proof -
  assume g: "guarded db"
  obtain now ev where req: "req = (now, ev)" by fastforce
  have some: "guarded d" if "\<exists>v\<in>admins (dd_users d). Q v" for d Q using that by (auto simp: guarded_def)
  show ?thesis
  proof (cases ev)
    case (Bot_start tg a b c)
    then show ?thesis using g guarded_create by (auto simp: req dash_step_def keep_def split: sum.splits)
  next
    case (Complete raw token purged seen)
    then show ?thesis using g
      by (auto simp: req dash_step_def keep_def complete_login_def bind_ok_eq_Inr
          intro: guarded_redeem split: sum.splits)
  next
    case (Browse token slid)
    then show ?thesis using g guarded_verify by (auto simp: req dash_step_def keep_def split: sum.splits)
  next
    case (Logout token)
    then show ?thesis using g
      by (auto simp: req dash_step_def keep_def revoke_session_def bind_ok_eq_Inr guarded_def
          split: sum.splits if_splits)
  next
    case (Approve token i)
    have "guarded (fst (as_admin cfg hmac now True token i (approve_dashboard_user now) db))"
      by (rule guarded_as_admin [OF g])
         (auto simp: approve_dashboard_user_def approve_user_def intro!: guarded_set_users dest!: some)
    then show ?thesis by (simp add: req dash_step_def Approve)
  next
    case (Revoke token i)
    have "guarded (fst (as_admin cfg hmac now True token i (revoke_dashboard_user now) db))"
      by (rule guarded_as_admin [OF g])
         (force simp: revoke_dashboard_user_def revoke_user_def revoke_sessions_for_user_def guarded_def
          admins_def set_update_where split: if_splits)
    then show ?thesis by (simp add: req dash_step_def Revoke)
  next
    case (Grant_admin token i)
    have "guarded (fst (as_admin cfg hmac now True token i grant_dashboard_admin db))"
      by (rule guarded_as_admin [OF g])
         (auto simp: grant_dashboard_admin_def set_admin_def intro!: guarded_set_users dest!: some split: if_splits)
    then show ?thesis by (simp add: req dash_step_def Grant_admin)
  next
    case (Drop_admin token i)
    have "guarded (fst (as_admin cfg hmac now True token i revoke_dashboard_admin db))"
      by (rule guarded_as_admin [OF g])
         (force simp: revoke_dashboard_admin_def set_admin_def guarded_def admins_def set_update_where split: if_splits)
    then show ?thesis by (simp add: req dash_step_def Drop_admin)
  next
    case Bootstrap
    then show ?thesis using g guarded_bootstrap by (simp add: req dash_step_def)
  qed
qed

interpretation never_locked: driven_system "dash_step cfg hmac" guarded for cfg hmac
  by unfold_locales (rule guarded_step)

text \<open>The dashboard is never locked out: once it has an approved administrator, it keeps at least one,
  whatever sequence of logins, approvals, revocations, promotions and demotions follows (each request
  being atomic), because nobody can remove or demote themselves.\<close>

lemma never_locked_out:
  assumes "u \<in> set (dd_users db)" and "du_status u = User_approved" and "du_admin u"
  shows "\<exists>v\<in>set (dd_users (fold (dash_step cfg hmac) es db)). du_status v = User_approved \<and> du_admin v"
proof -
  have "guarded db" using assms by (auto simp: guarded_def admins_def)
  then have "guarded (fold (dash_step cfg hmac) es db)" by (rule never_locked.run_inv)
  then show ?thesis by (auto simp: guarded_def admins_def)
qed

text \<open>Removing an administrator leaves the flag set: the next approval restores the rights without the
  separate grant that the admin routes insist on.\<close>

lemma approval_rearms_admin:
  assumes "v \<in> set (dd_users db)" and "du_id v = i" and "du_admin v"
  shows "\<exists>w\<in>set (dd_users (approve_user t2 who i (revoke_user t1 i db))). du_id w = i
    \<and> du_status w = User_approved \<and> du_admin w"
proof -
  let ?w = "v\<lparr>du_status := User_revoked, du_revoked_at := Some t1\<rparr>\<lparr>du_status := User_approved,
    du_approved_at := Some t2, du_approved_by := Some who, du_revoked_at := None\<rparr>"
  have "v\<lparr>du_status := User_revoked, du_revoked_at := Some t1\<rparr> \<in> set (dd_users (revoke_user t1 i db))"
    using assms(1,2) by (auto simp: revoke_user_def revoke_sessions_for_user_def set_update_where)
  then have "?w \<in> set (dd_users (approve_user t2 who i (revoke_user t1 i db)))"
    using assms(2) unfolding approve_user_def set_users_frame set_update_where
    by (intro image_eqI [of _ _ "v\<lparr>du_status := User_revoked, du_revoked_at := Some t1\<rparr>"]) simp_all
  then show ?thesis using assms(2,3) by (intro bexI [of _ ?w]) auto
qed

section \<open>Examples\<close>

definition ex_dash_settings :: dash_settings where
  "ex_dash_settings = \<lparr>dc_auth = \<lparr>cfg_api_key = ''a'', cfg_operator_keys = [], cfg_environment = ''production'',
     cfg_pepper = ''p''\<rparr>, dc_nonce_ttl = 300, dc_session_ttl_minutes = 60, dc_bootstrap = None,
     dc_bot_token = ''b'', dc_bot_username = ''bot''\<rparr>"

definition ex_hmac :: hmac where
  "ex_hmac p s = p @ s"

definition ex_person :: "nat \<Rightarrow> int \<Rightarrow> bool \<Rightarrow> dash_user" where
  "ex_person i tg adm = \<lparr>du_id = i, du_telegram = tg, du_username = None, du_display = None,
     du_status = User_approved, du_admin = adm, du_approved_at = Some 0, du_approved_by = Some ''x'',
     du_revoked_at = None, du_last_seen = None\<rparr>"

definition ex_browser :: "nat \<Rightarrow> nat \<Rightarrow> string \<Rightarrow> dash_session" where
  "ex_browser i u token = \<lparr>ds_id = i, ds_user = u, ds_hash = ex_hmac ''p'' token, ds_expires = 1000,
     ds_last_seen = None, ds_revoked = None\<rparr>"

definition ex_code :: login_nonce where
  "ex_code = \<lparr>ln_id = 2, ln_nonce = ex_hmac ''p'' ''login:23456789ABCD'', ln_telegram = 30, ln_bound_at = 0,
     ln_expires = 300, ln_consumed = None\<rparr>"

definition ex_dash :: dash_db where
  "ex_dash = \<lparr>dd_users = [ex_person 2 20 True, ex_person 3 30 False], dd_nonces = [ex_code],
     dd_sessions = [ex_browser 2 2 ''ta'', ex_browser 3 3 ''tb''], dd_nonce_seq = 3\<rparr>"

lemmas ex_dash_defs = ex_dash_settings_def ex_hmac_def ex_person_def ex_browser_def ex_code_def ex_dash_def

theorem revocation_is_final_witness:
  "verify_session ex_dash_settings ex_hmac 20 True (Some ''tb'')
     (fold (dash_step ex_dash_settings ex_hmac) [(15, Approve (Some ''ta'') 3)]
       (fst (as_admin ex_dash_settings ex_hmac 10 True (Some ''ta'') 3 (revoke_dashboard_user 10) ex_dash)))
   = Inr (fold (dash_step ex_dash_settings ex_hmac) [(15, Approve (Some ''ta'') 3)]
       (fst (as_admin ex_dash_settings ex_hmac 10 True (Some ''ta'') 3 (revoke_dashboard_user 10) ex_dash)), None)"
  by (rule revocation_is_final [where db = ex_dash and s = "ex_browser 3 3 ''tb''" and ?now = 10
        and token = "Some ''ta''" and raw = "''tb''"]) code_simp+

definition ex_redeemed :: "dash_db \<times> login_outcome" where
  "ex_redeemed = projr (complete_login ex_dash_settings ex_hmac 10 ''tc'' True ''2345-6789-abcd'' ex_dash ex_dash)"

lemma code_is_spent_once_witness:
  "complete_login ex_dash_settings ex_hmac 20 ''td'' True ''2345-6789-abcd'' ex_dash
     (fold (dash_step ex_dash_settings ex_hmac) [(15, Browse (Some ''tb'') True)] (fst ex_redeemed))
   = Inr (fold (dash_step ex_dash_settings ex_hmac) [(15, Browse (Some ''tb'') True)] (fst ex_redeemed), invalid_login)"
  by (rule code_is_spent_once [where ?t1.0 = 10 and ?token1.0 = "''tc''" and ?purged1.0 = True and ?seen1.0 = ex_dash
        and db = ex_dash and ?db1.0 = "fst ex_redeemed" and out = "snd ex_redeemed"
        and h = "ex_hmac ''p'' ''login:23456789ABCD''" and es = "[(15, Browse (Some ''tb'') True)]"]) code_simp+

definition ex_shown :: "dash_db \<times> dash_user \<times> string option" where
  "ex_shown = projr (create_login_code ex_dash_settings ex_hmac 10 ''FGHJKLMNPQRS'' 30 None None ex_dash)"

lemma login_round_trip_witness:
  "\<exists>db2 out db3 v. complete_login ex_dash_settings ex_hmac 20 ''tc'' True ''fghj klmn pqrs'' (fst ex_shown) (fst ex_shown)
      = Inr (db2, out)
    \<and> lo_state out = Login_approved \<and> lo_token out = Some ''tc''
    \<and> verify_session ex_dash_settings ex_hmac 20 True (Some ''tc'') db2 = Inr (db3, Some v)
    \<and> du_telegram v = 30 \<and> du_status v = User_approved \<and> du_id v = du_id (fst (snd ex_shown))"
  by (rule login_round_trip [where ?t1.0 = 10 and drawn = "''FGHJKLMNPQRS''" and a = None and b = None and db = ex_dash
        and raw = "''FGHJ-KLMN-PQRS''" and th = "ex_hmac ''p'' ''tc''"]) code_simp+

lemma never_locked_out_witness:
  "\<exists>v\<in>set (dd_users (fold (dash_step ex_dash_settings ex_hmac)
       [(5, Drop_admin (Some ''ta'') 2), (6, Revoke (Some ''ta'') 3), (7, Revoke (Some ''ta'') 2)] ex_dash)).
     du_status v = User_approved \<and> du_admin v"
  by (rule never_locked_out [where u = "ex_person 2 20 True"]) code_simp+

end
