(* ===== verification/Jobs.thy ===== *)
theory Jobs
  imports PublicationProgress Placement
begin

text \<open>
  Durable job runs, \<^verbatim>\<open>app/services/job_service.py\<close>, and the status route of
  \<^verbatim>\<open>app/api/routes/jobs.py\<close>. RQ and Redis are parameters: what \<open>Job.fetch\<close> answers for a queue id, and
  the id an enqueue returns (\<open>None\<close> when it raises). The per-site and per-tenant advisory locks make an
  enqueue atomic; workers commit independently, so a row may be newer when it is read again.
\<close>

section \<open>Rows\<close>

datatype job_kind = Ingestion | Analysis | Publication_preparation | Publication

datatype run_status = Queued | Running | Succeeded | Run_failed

record job_run =
  jr_id :: nat
  jr_site :: nat
  jr_kind :: job_kind
  jr_status :: run_status
  jr_queue_id :: "string option"
  jr_requested_by :: "string option"
  jr_attempts :: nat
  jr_result :: "json option"
  jr_progress :: "progress option"
  jr_progress_at :: "time option"
  jr_error :: "string option"
  jr_enqueued_at :: time
  jr_started_at :: "time option"
  jr_finished_at :: "time option"

record ingestion_run =
  ir_id :: nat
  ir_site :: nat
  ir_job_run :: "nat option"
  ir_status :: run_status
  ir_error :: "string option"
  ir_finished_at :: "time option"

datatype alert_kind = Job_lost | Job_failed | Job_stopped

record job_db =
  jd_sites :: "site list"
  jd_runs :: "job_run list"
  jd_ingestions :: "ingestion_run list"
  jd_alerts :: "(alert_kind \<times> nat) list"

definition active :: "job_run \<Rightarrow> bool" where
  "active r \<longleftrightarrow> jr_status r \<in> {Queued, Running}"

definition set_runs :: "(job_run \<Rightarrow> bool) \<Rightarrow> (job_run \<Rightarrow> job_run) \<Rightarrow> job_db \<Rightarrow> job_db" where
  "set_runs P f db = db\<lparr>jd_runs := update_where P f (jd_runs db)\<rparr>"

definition add_alert :: "alert_kind \<Rightarrow> nat \<Rightarrow> job_db \<Rightarrow> job_db" where
  "add_alert k i db = db\<lparr>jd_alerts := jd_alerts db @ [(k, i)]\<rparr>"

section \<open>Redis\<close>

datatype rq_status = Rq_queued | Rq_started | Rq_deferred | Rq_scheduled
  | Rq_finished | Rq_failed | Rq_stopped | Rq_canceled

datatype rq_lookup = No_such_job | Rq_job rq_status | Rq_unreachable

type_synonym redis = "string \<Rightarrow> rq_lookup"

definition rq_active :: "rq_status \<Rightarrow> bool" where
  "rq_active s \<longleftrightarrow> s \<in> {Rq_queued, Rq_started, Rq_deferred, Rq_scheduled}"

definition rq_terminal_failure :: "rq_status \<Rightarrow> bool" where
  "rq_terminal_failure s \<longleftrightarrow> s \<in> {Rq_failed, Rq_stopped, Rq_canceled}"

fun public_status :: "rq_status \<Rightarrow> run_status" where
  "public_status Rq_queued = Queued"
| "public_status Rq_deferred = Queued"
| "public_status Rq_scheduled = Queued"
| "public_status Rq_started = Running"
| "public_status Rq_finished = Succeeded"
| "public_status Rq_failed = Run_failed"
| "public_status Rq_stopped = Run_failed"
| "public_status Rq_canceled = Run_failed"

text \<open>\<open>None\<close>: Redis raised.\<close>

definition still_in_queue :: "redis \<Rightarrow> job_run \<Rightarrow> bool option" where
  "still_in_queue redis r =
     (case jr_queue_id r of
        None \<Rightarrow> Some False
      | Some q \<Rightarrow>
          (case redis q of
             No_such_job \<Rightarrow> Some False
           | Rq_job s \<Rightarrow> Some (rq_active s)
           | Rq_unreachable \<Rightarrow> None))"

section \<open>Lost runs\<close>

definition lost :: "time \<Rightarrow> job_run \<Rightarrow> job_run" where
  "lost now r = r\<lparr>jr_status := Run_failed, jr_error := Some ''lost from queue before completion'',
     jr_finished_at := Some now\<rparr>"

definition mark_run_lost :: "time \<Rightarrow> nat \<Rightarrow> job_db \<Rightarrow> job_db" where
  "mark_run_lost now i db = add_alert Job_lost i (set_runs (\<lambda>r. jr_id r = i) (lost now) db)"

text \<open>\<open>db.refresh(run)\<close> and the status test after it. Sessions do not autoflush, so a refresh reads the committed
  row of \<open>stored\<close> and forgets what the session \<open>db\<close> had pending on it.\<close>

definition mark_if_active :: "time \<Rightarrow> job_db \<Rightarrow> nat \<Rightarrow> job_db \<Rightarrow> job_db" where
  "mark_if_active now stored i db =
     (case get_row jr_id i (jd_runs stored) of
        None \<Rightarrow> db
      | Some r \<Rightarrow> if active r then mark_run_lost now i db else db)"

definition unassigned_queue_id_grace :: int where "unassigned_queue_id_grace = 30"

text \<open>The result is the session, the runs kept, and whether anything changed, which is then committed.\<close>

fun reconcile_active_job_runs ::
  "redis \<Rightarrow> time \<Rightarrow> job_db \<Rightarrow> job_run list \<Rightarrow> job_db \<Rightarrow> job_db \<times> job_run list \<times> bool" where
  "reconcile_active_job_runs redis now stored [] db = (db, [], False)"
| "reconcile_active_job_runs redis now stored (r # runs) db =
     (let keep = apsnd (apfst (Cons r)) (reconcile_active_job_runs redis now stored runs db)
      in if jr_queue_id r = None \<and> now - jr_enqueued_at r < unassigned_queue_id_grace then keep
         else case still_in_queue redis r of
                None \<Rightarrow> keep
              | Some True \<Rightarrow> keep
              | Some False \<Rightarrow>
                  apsnd (apsnd (\<lambda>changed. changed
                      \<or> (case get_row jr_id (jr_id r) (jd_runs stored) of None \<Rightarrow> False | Some x \<Rightarrow> active x)))
                    (reconcile_active_job_runs redis now stored runs (mark_if_active now stored (jr_id r) db)))"

section \<open>Enqueueing\<close>

datatype enqueue_error = Duplicate_job job_run | Job_capacity nat nat | Unknown_site | Redis_down

text \<open>The loop over the active runs of the site and kind; the flag tells whether Redis raised.\<close>

fun expire_lost_runs :: "redis \<Rightarrow> time \<Rightarrow> job_db \<Rightarrow> job_run list \<Rightarrow> job_db \<Rightarrow> job_db \<times> bool" where
  "expire_lost_runs redis now stored [] db = (db, False)"
| "expire_lost_runs redis now stored (r # runs) db =
     (case still_in_queue redis r of
        None \<Rightarrow> (db, True)
      | Some True \<Rightarrow> expire_lost_runs redis now stored runs db
      | Some False \<Rightarrow> expire_lost_runs redis now stored runs (mark_if_active now stored (jr_id r) db))"

definition new_run :: "nat \<Rightarrow> nat \<Rightarrow> job_kind \<Rightarrow> string option \<Rightarrow> time \<Rightarrow> job_run" where
  "new_run i site kind who now =
     \<lparr>jr_id = i, jr_site = site, jr_kind = kind, jr_status = Queued, jr_queue_id = None,
      jr_requested_by = who, jr_attempts = 0, jr_result = None, jr_progress = None,
      jr_progress_at = None, jr_error = None, jr_enqueued_at = now, jr_started_at = None,
      jr_finished_at = None\<rparr>"

definition tenant_runs :: "job_db \<Rightarrow> nat \<Rightarrow> job_run list" where
  "tenant_runs db tenant = filter (\<lambda>r. active r
     \<and> list_ex (\<lambda>s. site_id s = jr_site r \<and> site_tenant s = tenant) (jd_sites db)) (jd_runs db)"

text \<open>A transaction that raises is rolled back to \<open>db\<close>; the alerts were sent all the same. The tenant's runs are
  read before the pending losses are flushed, so they still appear there as active. After the insert is
  committed, a failing enqueue leaves the row without a queue id.\<close>

definition enqueue_job_locked ::
  "redis \<Rightarrow> string option \<Rightarrow> nat \<Rightarrow> time \<Rightarrow> nat \<Rightarrow> nat \<Rightarrow> job_kind \<Rightarrow> string option \<Rightarrow> job_db
     \<Rightarrow> job_db \<times> (enqueue_error + job_run)" where
  "enqueue_job_locked redis enqueued limit now site tenant kind who db =
     (let runs = filter (\<lambda>r. jr_site r = site \<and> jr_kind r = kind \<and> active r) (jd_runs db)
      in case expire_lost_runs redis now db runs db of
           (db1, True) \<Rightarrow> (db\<lparr>jd_alerts := jd_alerts db1\<rparr>, Inl Redis_down)
         | (db1, False) \<Rightarrow>
             let still = filter active (List.map_filter (\<lambda>r. get_row jr_id (jr_id r) (jd_runs db1)) runs)
             in case still of
                  r # _ \<Rightarrow> (db1, Inl (Duplicate_job r))
                | [] \<Rightarrow>
                    let (db2, held, changed) = reconcile_active_job_runs redis now db (tenant_runs db tenant) db1
                    in if limit \<le> length held
                       then (if changed then db2 else db\<lparr>jd_alerts := jd_alerts db2\<rparr>, Inl (Job_capacity tenant limit))
                       else
                         let run = new_run (next_id jr_id (jd_runs db2)) site kind who now;
                             db3 = db2\<lparr>jd_runs := jd_runs db2 @ [run]\<rparr>
                         in case enqueued of
                              None \<Rightarrow> (db3, Inl Redis_down)
                            | Some q \<Rightarrow>
                                (set_runs (\<lambda>r. jr_id r = jr_id run) (\<lambda>r. r\<lparr>jr_queue_id := Some q\<rparr>) db3,
                                 Inr (run\<lparr>jr_queue_id := Some q\<rparr>)))"

definition enqueue_job ::
  "redis \<Rightarrow> string option \<Rightarrow> nat \<Rightarrow> time \<Rightarrow> nat \<Rightarrow> job_kind \<Rightarrow> string option \<Rightarrow> job_db
     \<Rightarrow> job_db \<times> (enqueue_error + job_run)" where
  "enqueue_job redis enqueued limit now site kind who db =
     (case get_row site_id site (jd_sites db) of
        None \<Rightarrow> (db, Inl Unknown_site)
      | Some s \<Rightarrow> enqueue_job_locked redis enqueued limit now site (site_tenant s) kind who db)"

section \<open>Running\<close>

text \<open>\<open>run_durably\<close> in two steps, with the task between them. The task commits its progress through its
  own sessions. A missing row is tolerated.\<close>

definition start_run :: "time \<Rightarrow> nat \<Rightarrow> job_db \<Rightarrow> job_db" where
  "start_run now i = set_runs (\<lambda>r. jr_id r = i) (\<lambda>r. r\<lparr>jr_status := Running,
     jr_attempts := jr_attempts r + 1, jr_started_at := Some now, jr_finished_at := None,
     jr_result := None\<rparr>)"

datatype task_outcome = Returned json | Raised string bool

text \<open>\<open>retries\<close>: \<open>None\<close> without an RQ job, else its \<open>retries_left\<close>.\<close>

definition final_attempt :: "bool \<Rightarrow> int option option \<Rightarrow> bool" where
  "final_attempt non_retryable retries \<longleftrightarrow> non_retryable
     \<or> (case retries of None \<Rightarrow> True | Some None \<Rightarrow> True | Some (Some n) \<Rightarrow> n \<le> 0)"

definition mark_failure_progress :: "bool \<Rightarrow> time \<Rightarrow> job_run \<Rightarrow> job_run" where
  "mark_failure_progress terminal t r =
     (if jr_kind r \<noteq> Publication then r
      else case mark_publication_failure (jr_progress r) terminal of
             None \<Rightarrow> r
           | Some p \<Rightarrow> r\<lparr>jr_progress := Some p, jr_progress_at := Some t\<rparr>)"

definition fail_run :: "bool \<Rightarrow> string \<Rightarrow> time \<Rightarrow> job_run \<Rightarrow> job_run" where
  "fail_run final err now r =
     (mark_failure_progress final now r)
       \<lparr>jr_status := (if final then Run_failed else Queued), jr_error := Some err,
        jr_finished_at := (if final then Some now else None)\<rparr>"

definition succeed_run :: "json \<Rightarrow> time \<Rightarrow> job_run \<Rightarrow> job_run" where
  "succeed_run res now r = r\<lparr>jr_status := Succeeded, jr_result := Some res, jr_error := None,
     jr_finished_at := Some now\<rparr>"

text \<open>The result is the database and whether the exception is raised again, to be retried or not.\<close>

definition finish_run ::
  "time \<Rightarrow> nat \<Rightarrow> task_outcome \<Rightarrow> int option option \<Rightarrow> job_db \<Rightarrow> job_db \<times> bool option" where
  "finish_run now i outcome retries db =
     (case outcome of
        Returned res \<Rightarrow> (set_runs (\<lambda>r. jr_id r = i) (succeed_run res now) db, None)
      | Raised err non_retryable \<Rightarrow>
          let final = final_attempt non_retryable retries;
              db' = set_runs (\<lambda>r. jr_id r = i) (fail_run final (str_take 2000 err) now) db
          in (if final then add_alert Job_failed i db' else db', Some final))"

section \<open>Interrupted jobs\<close>

text \<open>What a callback sees of the RQ job: its id, \<open>retries_left\<close>, and the \<open>job_run_id\<close> in its arguments.\<close>

record rq_job =
  q_id :: string
  q_retries :: "int option"
  q_run :: "nat option"

definition claimed_run :: "rq_job \<Rightarrow> job_db \<Rightarrow> job_run option" where
  "claimed_run job db =
     (case find (\<lambda>r. jr_queue_id r = Some (q_id job)) (jd_runs db) of
        Some r \<Rightarrow> Some r
      | None \<Rightarrow>
          (case q_run job of
             None \<Rightarrow> None
           | Some i \<Rightarrow>
               (case get_row jr_id i (jd_runs db) of
                  None \<Rightarrow> None
                | Some r \<Rightarrow> if jr_queue_id r \<in> {None, Some (q_id job)}
                            then Some (r\<lparr>jr_queue_id := Some (q_id job)\<rparr>) else None)))"

definition close_ingestion :: "string \<Rightarrow> time \<Rightarrow> job_run \<Rightarrow> ingestion_run list \<Rightarrow> ingestion_run list" where
  "close_ingestion err now r =
     (if jr_kind r = Ingestion \<and> jr_started_at r \<noteq> None
      then update_where (\<lambda>x. ir_job_run x = Some (jr_id r) \<and> ir_site x = jr_site r \<and> ir_status x = Running)
             (\<lambda>x. x\<lparr>ir_status := Run_failed, ir_error := Some err, ir_finished_at := Some now\<rparr>)
      else id)"

definition interrupted_run :: "bool \<Rightarrow> string \<Rightarrow> time \<Rightarrow> job_run \<Rightarrow> job_run" where
  "interrupted_run will_retry err now r =
     (mark_failure_progress (\<not> will_retry) now
        (r\<lparr>jr_status := (if will_retry then Queued else Run_failed), jr_error := Some err,
          jr_finished_at := (if will_retry then None else Some now)\<rparr>))\<lparr>jr_result := None\<rparr>"

text \<open>\<open>failed\<close>: some database call raised, everything was rolled back and the exception swallowed. An
  early return closes the session, which discards the queue id assigned just before.\<close>

definition reconcile_interrupted_job ::
  "bool option \<Rightarrow> alert_kind \<Rightarrow> string \<Rightarrow> time \<Rightarrow> bool \<Rightarrow> rq_job \<Rightarrow> job_db \<Rightarrow> job_db" where
  "reconcile_interrupted_job will alert err now failed job db =
     (case (if failed then None else claimed_run job db) of
        None \<Rightarrow> db
      | Some r \<Rightarrow>
          let err = str_take 2000 err;
              will_retry = (case will of
                 Some b \<Rightarrow> b
               | None \<Rightarrow> (case q_retries job of None \<Rightarrow> False | Some n \<Rightarrow> 0 < n))
          in if jr_status r = Run_failed then db
             else if jr_status r = Succeeded \<and> \<not> will_retry then db
             else
               let db' = (set_runs (\<lambda>x. jr_id x = jr_id r) (\<lambda>_. interrupted_run will_retry err now r) db)
                           \<lparr>jd_ingestions := close_ingestion err now r (jd_ingestions db)\<rparr>
               in if will_retry then db' else add_alert alert (jr_id r) db')"

definition handle_work_horse_killed :: "string \<Rightarrow> time \<Rightarrow> bool \<Rightarrow> rq_job \<Rightarrow> job_db \<Rightarrow> job_db" where
  "handle_work_horse_killed status now failed job =
     reconcile_interrupted_job None Job_failed
       (''work horse terminated unexpectedly (waitpid status '' @ status @ '')'') now failed job"

definition handle_abandoned_job :: "bool \<Rightarrow> time \<Rightarrow> bool \<Rightarrow> rq_job \<Rightarrow> job_db \<Rightarrow> job_db" where
  "handle_abandoned_job abandoned now failed job =
     (if \<not> abandoned then id
      else reconcile_interrupted_job None Job_failed ''job abandoned after worker termination'' now failed job)"

definition handle_job_stopped :: "time \<Rightarrow> bool \<Rightarrow> rq_job \<Rightarrow> job_db \<Rightarrow> job_db" where
  "handle_job_stopped now failed job =
     reconcile_interrupted_job (Some False) Job_stopped ''job stopped intentionally'' now failed job"

section \<open>Status\<close>

record job_status_view =
  js_status :: run_status
  js_result :: "json option"
  js_error :: "string option"
  js_progress :: "progress option"
  js_progress_at :: "time option"

text \<open>\<open>value\<close> is what RQ stored as the return value, \<open>exc\<close> the last line of its last traceback.\<close>

definition get_job_status ::
  "rq_status option \<Rightarrow> json option \<Rightarrow> string option \<Rightarrow> string \<Rightarrow> job_db \<Rightarrow> job_status_view option" where
  "get_job_status rq value exc q db =
     (let run = find (\<lambda>r. jr_queue_id r = Some q) (jd_runs db);
          durable = (\<lambda>r. \<lparr>js_status = jr_status r, js_result = jr_result r, js_error = jr_error r,
                          js_progress = jr_progress r, js_progress_at = jr_progress_at r\<rparr>)
      in case rq of
           None \<Rightarrow> map_option durable run
         | Some s \<Rightarrow>
             let status = public_status s;
                 progress = (case run of None \<Rightarrow> None | Some r \<Rightarrow> jr_progress r);
                 progress_at = (case run of None \<Rightarrow> None | Some r \<Rightarrow> jr_progress_at r);
                 durable_error = (case run of None \<Rightarrow> None | Some r \<Rightarrow> jr_error r);
                 durable_result = (case run of None \<Rightarrow> None
                   | Some r \<Rightarrow> if jr_status r = Succeeded then jr_result r else None);
                 live = \<lparr>js_status = status,
                   js_result = (if status \<noteq> Succeeded then None else if value = None then durable_result else value),
                   js_error = (if exc \<noteq> None then exc else durable_error),
                   js_progress = progress, js_progress_at = progress_at\<rparr>
             in case run of
                  None \<Rightarrow> Some live
                | Some r \<Rightarrow> if jr_status r = Succeeded \<and> rq_terminal_failure s
                            then Some ((durable r)\<lparr>js_status := Succeeded\<rparr>) else Some live)"

definition job_status ::
  "(string \<Rightarrow> rq_status option) \<Rightarrow> (string \<Rightarrow> json option) \<Rightarrow> (string \<Rightarrow> string option) \<Rightarrow> principal
     \<Rightarrow> string \<Rightarrow> job_db \<Rightarrow> http_error + job_status_view" where
  "job_status rq value exc p q db =
     (case find (\<lambda>r. jr_queue_id r = Some q) (jd_runs db) of
        None \<Rightarrow> Inl (Http 404)
      | Some r \<Rightarrow>
          bind_ok (authorize_site (jd_sites db) p (jr_site r)) (\<lambda>_.
            case get_job_status (rq q) (value q) (exc q) q db of
              None \<Rightarrow> Inl (Http 404) | Some v \<Rightarrow> Inr v))"

definition list_active_job_runs ::
  "redis \<Rightarrow> time \<Rightarrow> principal \<Rightarrow> nat \<Rightarrow> job_db \<Rightarrow> http_error + (job_db \<times> job_run list)" where
  "list_active_job_runs redis now p limit db =
     bind_ok (tenant_site_filter p) (\<lambda>owned.
       let rows = filter (\<lambda>r. active r \<and> (case owned of None \<Rightarrow> True
                    | Some f \<Rightarrow> list_ex (\<lambda>s. site_id s = jr_site r \<and> f s) (jd_sites db))) (jd_runs db)
       in Inr (apsnd fst (reconcile_active_job_runs redis now db
                 (take limit (sort_key (\<lambda>r. - jr_enqueued_at r) rows)) db)))"

section \<open>Losing runs\<close>

lemma lost_frame [simp]:
  "jr_id (lost now r) = jr_id r" "jr_site (lost now r) = jr_site r" "jr_kind (lost now r) = jr_kind r"
  "\<not> active (lost now r)" "jr_queue_id (lost now r) = jr_queue_id r"
  by (simp_all add: lost_def active_def)

interpretation losing: row_update jr_id "lost now" for now
  by unfold_locales simp

definition lose :: "time \<Rightarrow> nat set \<Rightarrow> job_run list \<Rightarrow> job_run list" where
  "lose now I runs = update_where (\<lambda>r. active r \<and> jr_id r \<in> I) (lost now) runs"

lemma lose_lose: "lose now J (lose now I runs) = lose now (I \<union> J) runs"
  by (induction runs) (auto simp: lose_def)

lemma lose_empty [simp]: "lose now {} runs = runs"
  by (simp add: lose_def table_simps)

lemma primary_lose [simp]: "primary jr_id (lose now I runs) \<longleftrightarrow> primary jr_id runs"
  by (simp add: lose_def losing.primary_update)

lemma set_lose: "set (lose now I runs) = (\<lambda>r. if active r \<and> jr_id r \<in> I then lost now r else r) ` set runs"
  by (simp add: lose_def set_update_where)

lemma active_lose: "r \<in> set (lose now I runs) \<and> active r \<longleftrightarrow> r \<in> set runs \<and> active r \<and> jr_id r \<notin> I"
  by (auto simp: set_lose)

lemma lost_lost [simp]: "lost now (lost now r) = lost now r"
  by (simp add: lost_def)

lemma mark_if_active_frame [simp]:
  "jd_sites (mark_if_active now stored i db) = jd_sites db"
  "jd_ingestions (mark_if_active now stored i db) = jd_ingestions db"
  by (auto simp: mark_if_active_def mark_run_lost_def add_alert_def set_runs_def split: option.splits)

lemma mark_if_active_eq:
  assumes "primary jr_id (jd_runs stored)" and "jd_runs db = lose now I (jd_runs stored)"
  shows "jd_runs (mark_if_active now stored i db) = lose now (insert i I) (jd_runs stored)"
proof -
  have "update_where (\<lambda>r. jr_id r = i) (lost now) (lose now I (jd_runs stored)) = lose now (insert i I) (jd_runs stored)"
    if "get_row jr_id i (jd_runs stored) = Some x" "active x" for x
    unfolding lose_def update_where_def using that get_row_primary [OF assms(1)] by auto
  moreover have "lose now (insert i I) (jd_runs stored) = lose now I (jd_runs stored)"
    if "\<forall>x. get_row jr_id i (jd_runs stored) = Some x \<longrightarrow> \<not> active x"
    unfolding lose_def update_where_def using that get_row_primary [OF assms(1)] by (intro map_cong) auto
  ultimately show ?thesis using assms(2)
    by (auto simp: mark_if_active_def mark_run_lost_def add_alert_def set_runs_def split: option.splits)
qed

definition gone :: "redis \<Rightarrow> job_run list \<Rightarrow> nat set" where
  "gone redis runs = jr_id ` {r \<in> set runs. still_in_queue redis r = Some False}"

lemma gone_Cons: "gone redis (r # runs) =
    (if still_in_queue redis r = Some False then {jr_id r} else {}) \<union> gone redis runs"
  by (auto simp: gone_def)

lemma expire_lost_runs_eq:
  assumes "expire_lost_runs redis now stored runs db = (db', False)" and "primary jr_id (jd_runs stored)"
    and "jd_runs db = lose now I (jd_runs stored)"
  shows "jd_runs db' = lose now (I \<union> gone redis runs) (jd_runs stored) \<and> jd_sites db' = jd_sites db
    \<and> jd_ingestions db' = jd_ingestions db"
  using assms
proof (induction runs arbitrary: db I)
  case Nil
  then show ?case by (simp add: gone_def)
next
  case (Cons r runs)
  from Cons.prems(1) obtain b where b: "still_in_queue redis r = Some b"
    by (cases "still_in_queue redis r") auto
  show ?case
  proof (cases b)
    case True
    with Cons b show ?thesis by (simp add: gone_Cons)
  next
    case False
    have "jd_runs (mark_if_active now stored (jr_id r) db) = lose now (insert (jr_id r) I) (jd_runs stored)"
      by (rule mark_if_active_eq [OF Cons.prems(2,3)])
    with Cons.IH [of "mark_if_active now stored (jr_id r) db" "insert (jr_id r) I"] Cons.prems(1,2) b False
    show ?thesis by (simp add: gone_Cons)
  qed
qed

definition forsaken :: "redis \<Rightarrow> time \<Rightarrow> job_run \<Rightarrow> bool" where
  "forsaken redis now r \<longleftrightarrow> still_in_queue redis r = Some False
     \<and> \<not> (jr_queue_id r = None \<and> now - jr_enqueued_at r < unassigned_queue_id_grace)"

lemma reconcile_eq:
  assumes "primary jr_id (jd_runs stored)" and "jd_runs db = lose now I (jd_runs stored)"
    and "reconcile_active_job_runs redis now stored runs db = (db', held, changed)"
  shows "jd_runs db' = lose now (I \<union> jr_id ` {r \<in> set runs. forsaken redis now r}) (jd_runs stored)
    \<and> jd_sites db' = jd_sites db \<and> jd_ingestions db' = jd_ingestions db
    \<and> held = filter (\<lambda>r. \<not> forsaken redis now r) runs"
  using assms(2,3)
proof (induction runs arbitrary: db I held changed)
  case (Cons r runs)
  have step: "jr_id ` {x. (x = r \<or> x \<in> set runs) \<and> forsaken redis now x}
      = (if forsaken redis now r then {jr_id r} else {}) \<union> jr_id ` {x \<in> set runs. forsaken redis now x}"
    by auto
  show ?case
  proof (cases "forsaken redis now r")
    case True
    then obtain changed' where "reconcile_active_job_runs redis now stored runs (mark_if_active now stored (jr_id r) db)
        = (db', held, changed')"
      using Cons.prems(2) by (auto simp: forsaken_def Let_def apsnd_def apfst_def map_prod_def split: prod.splits if_splits)
    from Cons.IH [OF mark_if_active_eq [OF assms(1) Cons.prems(1), of "jr_id r"] this] True
    show ?thesis by (simp add: step)
  next
    case False
    then obtain held' where "reconcile_active_job_runs redis now stored runs db = (db', held', changed)" "held = r # held'"
      using Cons.prems(2)
      by (auto simp: forsaken_def Let_def apsnd_def apfst_def map_prod_def split: prod.splits option.splits bool.splits if_splits)
    with Cons.IH [OF Cons.prems(1) this(1)] False show ?thesis by (simp add: step)
  qed
qed simp

section \<open>Enqueueing is exclusive\<close>

lemma enqueue_okE:
  assumes "enqueue_job redis enqueued limit now site kind who db = (db', Inr run)"
    and "primary jr_id (jd_runs db)"
  obtains s q I where "get_row site_id site (jd_sites db) = Some s" and "enqueued = Some q"
    and "jd_sites db' = jd_sites db" and "jd_ingestions db' = jd_ingestions db"
    and "run = (new_run (next_id jr_id (jd_runs db)) site kind who now)\<lparr>jr_queue_id := Some q\<rparr>"
    and "jd_runs db' = lose now I (jd_runs db) @ [run]"
    and "\<forall>r\<in>set (jd_runs db). active r \<and> jr_id r \<in> I \<longrightarrow> still_in_queue redis r = Some False"
    and "\<forall>r\<in>set (jd_runs db). jr_site r = site \<and> jr_kind r = kind \<and> active r \<longrightarrow> jr_id r \<in> I"
    and "length (tenant_runs (db\<lparr>jd_runs := lose now I (jd_runs db)\<rparr>) (site_tenant s)) < limit"
proof -
  let ?runs = "filter (\<lambda>r. jr_site r = site \<and> jr_kind r = kind \<and> active r) (jd_runs db)"
  obtain s where s: "get_row site_id site (jd_sites db) = Some s"
    using assms(1) by (auto simp: enqueue_job_def split: option.splits)
  obtain db1 where db1: "expire_lost_runs redis now db ?runs db = (db1, False)"
    using assms(1) s by (auto simp: enqueue_job_def enqueue_job_locked_def Let_def split: prod.splits bool.splits)
  define I where "I = gone redis ?runs"
  have runs1: "jd_runs db1 = lose now I (jd_runs db)" "jd_sites db1 = jd_sites db" "jd_ingestions db1 = jd_ingestions db"
    using expire_lost_runs_eq [OF db1 assms(2), of "{}"] by (simp_all add: I_def)
  have prim1: "primary jr_id (jd_runs db1)" using assms(2) by (simp add: runs1)
  obtain db2 held changed where
    rec: "reconcile_active_job_runs redis now db (tenant_runs db (site_tenant s)) db1 = (db2, held, changed)"
    using prod_cases3 by blast
  define J where "J = jr_id ` {r \<in> set (tenant_runs db (site_tenant s)). forsaken redis now r}"
  have runs2: "jd_runs db2 = lose now (I \<union> J) (jd_runs db)" "jd_sites db2 = jd_sites db"
      "jd_ingestions db2 = jd_ingestions db"
    and held: "held = filter (\<lambda>r. \<not> forsaken redis now r) (tenant_runs db (site_tenant s))"
    using reconcile_eq [OF assms(2) runs1(1) rec] runs1 by (simp_all add: J_def)
  have none: "filter active (List.map_filter (\<lambda>r. get_row jr_id (jr_id r) (jd_runs db1)) ?runs) = []"
    and cap: "\<not> limit \<le> length held" and q: "\<exists>q. enqueued = Some q"
    using assms(1) by (auto simp: enqueue_job_def enqueue_job_locked_def s db1 rec Let_def
        split: list.splits if_splits option.splits)
  from q obtain q where q: "enqueued = Some q" by blast
  let ?new = "new_run (next_id jr_id (jd_runs db)) site kind who now"
  have same_id: "next_id jr_id (jd_runs db2) = next_id jr_id (jd_runs db)"
    by (simp add: runs2 next_id_def lose_def losing.keys_update)
  have out: "run = ?new\<lparr>jr_queue_id := Some q\<rparr>"
    "db' = set_runs (\<lambda>r. jr_id r = jr_id ?new) (\<lambda>r. r\<lparr>jr_queue_id := Some q\<rparr>) (db2\<lparr>jd_runs := jd_runs db2 @ [?new]\<rparr>)"
    using assms(1) none cap q by (simp_all add: enqueue_job_def enqueue_job_locked_def s db1 rec Let_def same_id)
  have "update_where (\<lambda>r. jr_id r = jr_id ?new) (\<lambda>r. r\<lparr>jr_queue_id := Some q\<rparr>) (jd_runs db2) = jd_runs db2"
    using next_id_fresh [of jr_id "jd_runs db2"] by (intro update_where_none) (simp add: new_run_def same_id image_iff, metis)
  then have final: "jd_runs db' = lose now (I \<union> J) (jd_runs db) @ [run]"
    by (simp add: out set_runs_def update_where_def runs2)
  show ?thesis
  proof (rule that [OF s q])
    show "\<forall>r\<in>set (jd_runs db). active r \<and> jr_id r \<in> I \<union> J \<longrightarrow> still_in_queue redis r = Some False"
    proof (intro ballI impI)
      fix r assume r: "r \<in> set (jd_runs db)" "active r \<and> jr_id r \<in> I \<union> J"
      have "\<exists>x\<in>set (jd_runs db). jr_id x = jr_id r \<and> still_in_queue redis x = Some False"
        using r(2) by (auto simp: I_def J_def gone_def tenant_runs_def forsaken_def runs1 set_lose split: if_splits)
      with r(1) show "still_in_queue redis r = Some False" using primary_same [OF assms(2)] by metis
    qed
    show "\<forall>r\<in>set (jd_runs db). jr_site r = site \<and> jr_kind r = kind \<and> active r \<longrightarrow> jr_id r \<in> I \<union> J"
    proof (intro ballI impI)
      fix r assume r: "r \<in> set (jd_runs db)" "jr_site r = site \<and> jr_kind r = kind \<and> active r"
      show "jr_id r \<in> I \<union> J"
      proof (rule ccontr)
        assume "jr_id r \<notin> I \<union> J"
        then have "r \<in> set (jd_runs db1)" using r by (force simp: runs1 set_lose)
        then have "get_row jr_id (jr_id r) (jd_runs db1) = Some r" using prim1 by (rule get_row_primary [rotated])
        with none r show False by (force simp: filter_empty_conv List.map_filter_def)
      qed
    qed
    let ?T = "tenant_runs (db\<lparr>jd_runs := lose now (I \<union> J) (jd_runs db)\<rparr>) (site_tenant s)"
    have "jr_id ` set ?T \<subseteq> jr_id ` set held"
    proof (rule image_subsetI)
      fix r assume r: "r \<in> set ?T"
      then have keep: "r \<in> set (jd_runs db)" "active r" "jr_id r \<notin> I" "jr_id r \<notin> J"
        using active_lose [of r now "I \<union> J" "jd_runs db"] by (auto simp: tenant_runs_def)
      then have "r \<in> set (tenant_runs db (site_tenant s))" using r by (auto simp: tenant_runs_def)
      with keep(4) show "jr_id r \<in> jr_id ` set held" by (auto simp: held J_def)
    qed
    then have "card (jr_id ` set ?T) \<le> length held"
      by (meson card_image_le card_length card_mono finite_imageI List.finite_set order_trans)
    moreover have "distinct (map jr_id ?T)"
      using assms(2) primary_lose [of now "I \<union> J" "jd_runs db"]
      by (simp add: tenant_runs_def primary_def distinct_map_filter)
    then have "card (jr_id ` set ?T) = length ?T" using distinct_card by force
    ultimately show "length ?T < limit" using cap by simp
  qed (use final out runs2 in \<open>simp_all add: set_runs_def\<close>)
qed

lemma new_run_fields [simp]:
  "jr_id (new_run i site kind who now) = i" "jr_site (new_run i site kind who now) = site"
  "jr_kind (new_run i site kind who now) = kind" "active (new_run i site kind who now)"
  "jr_requested_by (new_run i site kind who now) = who"
  "active (r\<lparr>jr_queue_id := q\<rparr>) = active r"
  by (simp_all add: new_run_def active_def)

lemma tenant_runs_append: "length (tenant_runs (db\<lparr>jd_runs := xs @ [r]\<rparr>) t)
    \<le> Suc (length (tenant_runs (db\<lparr>jd_runs := xs\<rparr>) t))"
  by (simp add: tenant_runs_def)

text \<open>C37. Enqueueing is exclusive and bounded: when a trigger is accepted, its run is the only active run of
  that kind on the site, carries the queue's job id and the operator's name, and the tenant's active
  runs stay within the limit; no other row changed, except that active runs Redis no longer knows are
  closed as lost.\<close>

theorem enqueue_is_exclusive:
  assumes "enqueue_job redis enqueued limit now site kind who db = (db', Inr run)"
    and "primary jr_id (jd_runs db)"
  shows "{r \<in> set (jd_runs db'). jr_site r = site \<and> jr_kind r = kind \<and> active r} = {run}
    \<and> jr_queue_id run = enqueued \<and> jr_requested_by run = who \<and> primary jr_id (jd_runs db')
    \<and> (\<exists>s. get_row site_id site (jd_sites db) = Some s \<and> length (tenant_runs db' (site_tenant s)) \<le> limit)
    \<and> (\<forall>r\<in>set (jd_runs db). r \<in> set (jd_runs db')
        \<or> active r \<and> still_in_queue redis r = Some False \<and> lost now r \<in> set (jd_runs db'))
    \<and> (\<forall>r'\<in>set (jd_runs db'). r' = run \<or> r' \<in> set (jd_runs db) \<or> (\<exists>r\<in>set (jd_runs db). r' = lost now r))"
proof -
  obtain s q I where s: "get_row site_id site (jd_sites db) = Some s" and q: "enqueued = Some q"
    and sites: "jd_sites db' = jd_sites db"
    and run: "run = (new_run (next_id jr_id (jd_runs db)) site kind who now)\<lparr>jr_queue_id := Some q\<rparr>"
    and runs: "jd_runs db' = lose now I (jd_runs db) @ [run]"
    and gone: "\<forall>r\<in>set (jd_runs db). active r \<and> jr_id r \<in> I \<longrightarrow> still_in_queue redis r = Some False"
    and cleared: "\<forall>r\<in>set (jd_runs db). jr_site r = site \<and> jr_kind r = kind \<and> active r \<longrightarrow> jr_id r \<in> I"
    and cap: "length (tenant_runs (db\<lparr>jd_runs := lose now I (jd_runs db)\<rparr>) (site_tenant s)) < limit"
    using assms by (rule enqueue_okE) (rule that; assumption)
  have only: "{r \<in> set (jd_runs db'). jr_site r = site \<and> jr_kind r = kind \<and> active r} = {run}"
    using cleared active_lose [of _ now I "jd_runs db"] by (auto simp: runs run)
  have "tenant_runs db' t = tenant_runs (db\<lparr>jd_runs := lose now I (jd_runs db) @ [run]\<rparr>) t" for t
    by (simp add: tenant_runs_def runs sites)
  then have "length (tenant_runs db' (site_tenant s)) \<le> limit"
    using tenant_runs_append [of "lose now I (jd_runs db)" run db "site_tenant s"] cap by simp
  moreover have "primary jr_id (jd_runs db')"
    unfolding runs using assms(2) next_id_fresh [of jr_id "jd_runs db"]
    by (intro primary_append) (auto simp: run set_lose image_iff split: if_splits)
  ultimately show ?thesis
    using only s gone by (auto simp: runs set_lose run q)
qed

lemma expire_lost_runs_seen:
  "expire_lost_runs redis now stored runs db = (db', False) \<Longrightarrow> r \<in> set runs \<Longrightarrow> still_in_queue redis r \<noteq> None"
  by (induction runs arbitrary: db) (auto split: option.splits bool.splits)

text \<open>A refusal is justified: a trigger is refused as a duplicate only because an active run of the same
  kind on the site is still in its queue, and for capacity only with the tenant's own limit; a refusal
  adds no run and changes none, except to close runs Redis no longer knows.\<close>

lemma refusal_is_justified:
  assumes "enqueue_job redis enqueued limit now site kind who db = (db', Inl e)"
    and "primary jr_id (jd_runs db)"
  shows "(\<forall>r. e = Duplicate_job r \<longrightarrow> r \<in> set (jd_runs db) \<and> active r \<and> jr_site r = site \<and> jr_kind r = kind
        \<and> still_in_queue redis r = Some True)
    \<and> (\<forall>t n. e = Job_capacity t n \<longrightarrow> n = limit
        \<and> (\<exists>s. get_row site_id site (jd_sites db) = Some s \<and> t = site_tenant s))
    \<and> (e \<noteq> Redis_down \<longrightarrow> (\<exists>I. jd_runs db' = lose now I (jd_runs db)
        \<and> (\<forall>r\<in>set (jd_runs db). active r \<and> jr_id r \<in> I \<longrightarrow> still_in_queue redis r = Some False)))"
proof (cases "get_row site_id site (jd_sites db)")
  case None
  then have "e = Unknown_site" "db' = db" using assms(1) by (simp_all add: enqueue_job_def)
  then show ?thesis by (auto intro: exI [of _ "{}"])
next
  case (Some s)
  let ?runs = "filter (\<lambda>r. jr_site r = site \<and> jr_kind r = kind \<and> active r) (jd_runs db)"
  obtain db1 raised where exp: "expire_lost_runs redis now db ?runs db = (db1, raised)" by fastforce
  note eq = assms(1) [unfolded enqueue_job_def Some option.case enqueue_job_locked_def Let_def exp prod.case]
  show ?thesis
  proof (cases raised)
    case True
    with eq show ?thesis by auto
  next
    case False
    have exp: "expire_lost_runs redis now db ?runs db = (db1, False)" using exp False by simp
    let ?I = "gone redis ?runs"
    have runs1: "jd_runs db1 = lose now ?I (jd_runs db)"
      using expire_lost_runs_eq [OF exp assms(2), of "{}"] by simp
    have same: "still_in_queue redis r = Some False"
      if "r \<in> set (jd_runs db)" "jr_id r \<in> jr_id ` {x \<in> set (jd_runs db). still_in_queue redis x = Some False}" for r
      using that primary_same [OF assms(2)] by auto
    have gone: "still_in_queue redis r = Some False" if "r \<in> set (jd_runs db)" "jr_id r \<in> ?I" for r
      using same [OF that(1)] that(2) by (auto simp: gone_def)
    show ?thesis
    proof (cases "filter active (List.map_filter (\<lambda>r. get_row jr_id (jr_id r) (jd_runs db1)) ?runs)")
      case (Cons r rest)
      then have e: "e = Duplicate_job r" "db' = db1" using eq False by simp_all
      have "r \<in> set (filter active (List.map_filter (\<lambda>r. get_row jr_id (jr_id r) (jd_runs db1)) ?runs))"
        using Cons by simp
      then obtain r0 where r0: "r0 \<in> set ?runs" "get_row jr_id (jr_id r0) (jd_runs db1) = Some r" "active r"
        by (auto simp: List.map_filter_def)
      then have "r \<in> set (jd_runs db1)" "jr_id r = jr_id r0" using get_row_Some by fastforce+
      then have r: "r \<in> set (jd_runs db)" "jr_id r \<notin> ?I" using active_lose [of r now ?I "jd_runs db"] r0(3)
        by (auto simp: runs1)
      then have "r = r0" using primary_same [OF assms(2)] r0(1) \<open>jr_id r = jr_id r0\<close> by simp
      then have "still_in_queue redis r = Some True"
        using r(2) r0(1) expire_lost_runs_seen [OF exp r0(1)] by (cases "still_in_queue redis r0") (auto simp: gone_def)
      with e r0 r \<open>r = r0\<close> gone show ?thesis by (auto simp: runs1)
    next
      case Nil
      obtain db2 held changed where
        rec: "reconcile_active_job_runs redis now db (tenant_runs db (site_tenant s)) db1 = (db2, held, changed)"
        using prod_cases3 by blast
      let ?J = "jr_id ` {r \<in> set (tenant_runs db (site_tenant s)). forsaken redis now r}"
      have runs2: "jd_runs db2 = lose now (?I \<union> ?J) (jd_runs db)"
        using reconcile_eq [OF assms(2) runs1 rec] by simp
      have J: "?J \<subseteq> jr_id ` {x \<in> set (jd_runs db). still_in_queue redis x = Some False}"
      proof (rule image_subsetI)
        fix r assume "r \<in> {r \<in> set (tenant_runs db (site_tenant s)). forsaken redis now r}"
        then have "r \<in> set (jd_runs db)" "still_in_queue redis r = Some False"
          by (auto simp: tenant_runs_def forsaken_def)
        then show "jr_id r \<in> jr_id ` {x \<in> set (jd_runs db). still_in_queue redis x = Some False}" by blast
      qed
      have lost_ok: "\<forall>r\<in>set (jd_runs db). active r \<and> jr_id r \<in> ?I \<union> ?J \<longrightarrow> still_in_queue redis r = Some False"
        using gone J same by blast
      show ?thesis
      proof (cases "limit \<le> length held")
        case True
        with eq False Nil rec have "e = Job_capacity (site_tenant s) limit" "jd_runs db' = jd_runs db2 \<or> jd_runs db' = lose now {} (jd_runs db)"
          by (auto split: if_splits)
        moreover have "\<exists>I. jd_runs db' = lose now I (jd_runs db)
            \<and> (\<forall>r\<in>set (jd_runs db). active r \<and> jr_id r \<in> I \<longrightarrow> still_in_queue redis r = Some False)"
          using calculation(2)
        proof
          assume "jd_runs db' = jd_runs db2"
          with runs2 lost_ok show ?thesis by (intro exI [of _ "?I \<union> ?J"]) simp
        next
          assume "jd_runs db' = lose now {} (jd_runs db)"
          then show ?thesis by blast
        qed
        ultimately show ?thesis using Some by simp
      next
        case held: False
        with eq False Nil rec have "e = Redis_down" by (simp split: option.splits)
        then show ?thesis by simp
      qed
    qed
  qed
qed

text \<open>A site with one publication run that Redis has lost, and one analysis still in its queue.\<close>

definition sample_jobs :: job_db where
  "sample_jobs = \<lparr>jd_sites = [\<lparr>site_id = 7, site_tenant = 5, site_base_url = ''https://a.example'',
       site_platform = WordPress, wp_username = Some ''ed'', pool_source_approved = False,
       pool_source_failures = 0, pool_source_quarantined = False,
       pool_source_quarantine_reason = None, domain_registered_at = None\<rparr>],
     jd_runs = [(new_run 3 7 Publication None 100)\<lparr>jr_queue_id := Some ''gone''\<rparr>,
                (new_run 4 7 Analysis None 100)\<lparr>jr_queue_id := Some ''here''\<rparr>],
     jd_ingestions = [], jd_alerts = []\<rparr>"

definition sample_redis :: redis where
  "sample_redis q = (if q = ''here'' then Rq_job Rq_started else No_such_job)"

lemma sample_jobs_primary: "primary jr_id (jd_runs sample_jobs)"
  by (simp add: sample_jobs_def primary_def)

text \<open>The tenant check refreshes a run the site check has just closed, and closes and reports it again.\<close>

lemma lost_run_is_alerted_twice:
  "jd_alerts (fst (enqueue_job sample_redis (Some ''new'') 2 200 7 Publication (Some ''ann'') sample_jobs))
    = [(Job_lost, 3), (Job_lost, 3)]"
  by code_simp

lemma sample_enqueue: "\<exists>db' run. enqueue_job sample_redis (Some ''new'') 2 200 7 Publication (Some ''ann'') sample_jobs
    = (db', Inr run)"
  by (simp add: enqueue_job_def enqueue_job_locked_def sample_jobs_def sample_redis_def get_row_def
      still_in_queue_def rq_active_def mark_if_active_def mark_run_lost_def add_alert_def set_runs_def
      tenant_runs_def Let_def List.map_filter_def new_run_def active_def lost_def)

theorem enqueue_is_exclusive_witness:
  "\<exists>db' run. enqueue_job sample_redis (Some ''new'') 2 200 7 Publication (Some ''ann'') sample_jobs = (db', Inr run)
    \<and> {r \<in> set (jd_runs db'). jr_site r = 7 \<and> jr_kind r = Publication \<and> active r} = {run}
    \<and> jr_requested_by run = Some ''ann''"
  using sample_enqueue enqueue_is_exclusive [OF _ sample_jobs_primary] by blast

lemma refusal_is_justified_witness:
  "\<exists>db' r. enqueue_job sample_redis (Some ''new'') 2 200 7 Analysis None sample_jobs = (db', Inl (Duplicate_job r))
    \<and> r \<in> set (jd_runs sample_jobs) \<and> active r \<and> still_in_queue sample_redis r = Some True"
proof -
  have "\<exists>db' r. enqueue_job sample_redis (Some ''new'') 2 200 7 Analysis None sample_jobs = (db', Inl (Duplicate_job r))"
    by (simp add: enqueue_job_def enqueue_job_locked_def sample_jobs_def sample_redis_def get_row_def
        still_in_queue_def rq_active_def Let_def List.map_filter_def new_run_def active_def)
  with refusal_is_justified [OF _ sample_jobs_primary] show ?thesis by blast
qed

section \<open>The life of a run\<close>

text \<open>What the columns of a row may say together.\<close>

definition run_wf :: "job_run \<Rightarrow> bool" where
  "run_wf r \<longleftrightarrow> (jr_finished_at r = None \<longleftrightarrow> active r)
     \<and> (jr_result r \<noteq> None \<longrightarrow> jr_status r = Succeeded)
     \<and> (jr_status r = Succeeded \<longrightarrow> jr_error r = None \<and> jr_result r \<noteq> None)
     \<and> (jr_status r = Run_failed \<longrightarrow> jr_error r \<noteq> None)"

text \<open>One committed step of the system: an API trigger, a worker that starts or ends an attempt, a
  callback of RQ, the reconciliation of the active list. RQ ends an attempt only after it started, on a
  row that is still running.\<close>

inductive job_step :: "job_db \<Rightarrow> job_db \<Rightarrow> bool" where
  trigger: "fst (enqueue_job redis enqueued limit now site kind who db) = db' \<Longrightarrow> job_step db db'"
| start: "job_step db (start_run now i db)"
| finish: "\<lbrakk>\<forall>r\<in>set (jd_runs db). jr_id r = i \<longrightarrow> jr_status r = Running \<and> jr_result r = None\<rbrakk>
    \<Longrightarrow> job_step db (fst (finish_run now i outcome retries db))"
| killed: "job_step db (handle_work_horse_killed status now failed job db)"
| abandoned: "job_step db (handle_abandoned_job flag now failed job db)"
| stopped: "job_step db (handle_job_stopped now failed job db)"
| listed: "list_active_job_runs redis now p limit db = Inr (db', rows) \<Longrightarrow> job_step db db'"

definition jobs_inv :: "job_db \<Rightarrow> bool" where
  "jobs_inv db \<longleftrightarrow> primary jr_id (jd_runs db) \<and> (\<forall>r\<in>set (jd_runs db). run_wf r)"

lemma run_wf_queue_id [simp]: "run_wf (r\<lparr>jr_queue_id := q\<rparr>) = run_wf r"
  by (simp add: run_wf_def)

lemma jobs_inv_set_runs:
  assumes "jobs_inv db" and "\<And>r. r \<in> set (jd_runs db) \<Longrightarrow> P r \<Longrightarrow> jr_id (f r) = jr_id r \<and> run_wf (f r)"
  shows "jobs_inv (set_runs P f db)"
proof -
  have "map jr_id (update_where P f (jd_runs db)) = map jr_id (jd_runs db)"
    using assms(2) by (auto simp: update_where_def)
  with assms show ?thesis by (auto simp: jobs_inv_def set_runs_def primary_def set_update_where)
qed

lemma jobs_inv_queue_id: "jobs_inv db \<Longrightarrow> jobs_inv (set_runs P (\<lambda>r. r\<lparr>jr_queue_id := q\<rparr>) db)"
  by (rule jobs_inv_set_runs) (simp_all add: jobs_inv_def)

lemma jobs_inv_frame [simp]:
  "jobs_inv (db\<lparr>jd_alerts := a\<rparr>) = jobs_inv db" "jobs_inv (db\<lparr>jd_ingestions := g\<rparr>) = jobs_inv db"
  "jobs_inv (add_alert k i db) = jobs_inv db"
  by (simp_all add: jobs_inv_def add_alert_def)

lemma jobs_inv_lose: "jobs_inv stored \<Longrightarrow> jd_runs db = lose now I (jd_runs stored) \<Longrightarrow> jobs_inv db"
  by (auto simp: jobs_inv_def set_lose run_wf_def lost_def active_def)

lemma jobs_inv_add:
  "jobs_inv db \<Longrightarrow> jobs_inv (db\<lparr>jd_runs := jd_runs db @ [new_run (next_id jr_id (jd_runs db)) site kind who now]\<rparr>)"
  using next_id_fresh [of jr_id "jd_runs db"]
  by (auto simp: jobs_inv_def run_wf_def new_run_def active_def intro!: primary_append)

lemma jobs_inv_enqueue:
  assumes "jobs_inv db"
  shows "jobs_inv (fst (enqueue_job redis enqueued limit now site kind who db))"
proof (cases "get_row site_id site (jd_sites db)")
  case None
  with assms show ?thesis by (simp add: enqueue_job_def)
next
  case (Some s)
  let ?runs = "filter (\<lambda>r. jr_site r = site \<and> jr_kind r = kind \<and> active r) (jd_runs db)"
  have prim: "primary jr_id (jd_runs db)" using assms by (simp add: jobs_inv_def)
  obtain db1 raised where exp: "expire_lost_runs redis now db ?runs db = (db1, raised)" by fastforce
  obtain db2 held changed where
    rec: "reconcile_active_job_runs redis now db (tenant_runs db (site_tenant s)) db1 = (db2, held, changed)"
    using prod_cases3 by blast
  show ?thesis
  proof (cases raised)
    case True
    with assms show ?thesis by (simp add: enqueue_job_def enqueue_job_locked_def Some exp Let_def)
  next
    case False
    have runs1: "jd_runs db1 = lose now (gone redis ?runs) (jd_runs db)"
      using expire_lost_runs_eq [of redis now db ?runs db db1 "{}"] exp False prim by simp
    then have "jobs_inv db1" by (rule jobs_inv_lose [OF assms])
    moreover have "jobs_inv db2" using reconcile_eq [OF prim runs1 rec] jobs_inv_lose [OF assms] by blast
    moreover from jobs_inv_add [OF this, of site kind who now]
    have "jobs_inv (set_runs P (\<lambda>r. r\<lparr>jr_queue_id := q\<rparr>)
        (db2\<lparr>jd_runs := jd_runs db2 @ [new_run (next_id jr_id (jd_runs db2)) site kind who now]\<rparr>))" for P q
      by (rule jobs_inv_queue_id)
    ultimately show ?thesis using assms jobs_inv_add False
      by (simp add: enqueue_job_def enqueue_job_locked_def Some exp rec Let_def split: bool.splits list.splits option.splits)
  qed
qed

lemma run_wf_start: "run_wf (r\<lparr>jr_status := Running, jr_attempts := n, jr_started_at := t,
    jr_finished_at := None, jr_result := None\<rparr>)"
  by (simp add: run_wf_def active_def)

lemma run_wf_succeed: "run_wf (succeed_run res now r)"
  by (simp add: run_wf_def active_def succeed_run_def)

lemma mark_failure_progress_frame [simp]:
  "jr_id (mark_failure_progress terminal t r) = jr_id r"
  "jr_status (mark_failure_progress terminal t r) = jr_status r"
  "jr_result (mark_failure_progress terminal t r) = jr_result r"
  "jr_error (mark_failure_progress terminal t r) = jr_error r"
  "jr_finished_at (mark_failure_progress terminal t r) = jr_finished_at r"
  "jr_queue_id (mark_failure_progress terminal t r) = jr_queue_id r"
  "jr_site (mark_failure_progress terminal t r) = jr_site r"
  "jr_kind (mark_failure_progress terminal t r) = jr_kind r"
  by (auto simp: mark_failure_progress_def split: option.splits)

lemma run_wf_fail: "jr_result r = None \<Longrightarrow> run_wf (fail_run final err now r)"
  by (simp add: run_wf_def active_def fail_run_def)

lemma run_wf_interrupted: "run_wf (interrupted_run w err now r)"
  by (simp add: run_wf_def active_def interrupted_run_def)

lemma claimed_run_id: "claimed_run job db = Some r \<Longrightarrow> \<exists>x\<in>set (jd_runs db). jr_id x = jr_id r
    \<and> r = x\<lparr>jr_queue_id := Some (q_id job)\<rparr>"
  by (auto simp: claimed_run_def find_Some_iff dest!: get_row_Some split: option.splits if_splits)

lemma jobs_inv_reconcile_interrupted:
  "jobs_inv db \<Longrightarrow> jobs_inv (reconcile_interrupted_job will alert err now failed job db)"
proof (cases "if failed then None else claimed_run job db")
  case (Some r)
  assume inv: "jobs_inv db"
  have "jobs_inv (set_runs (\<lambda>x. jr_id x = jr_id r) (\<lambda>_. interrupted_run w e now r) db)" for w e
    by (rule jobs_inv_set_runs [OF inv]) (simp add: run_wf_interrupted, simp add: interrupted_run_def)
  with Some inv show ?thesis by (auto simp: reconcile_interrupted_job_def Let_def)
qed (auto simp: reconcile_interrupted_job_def)

lemma job_step_inv: "job_step db db' \<Longrightarrow> jobs_inv db \<Longrightarrow> jobs_inv db'"
proof (induction rule: job_step.induct)
  case (trigger redis enqueued limit now site kind who db db')
  then show ?case using jobs_inv_enqueue by blast
next
  case (start db now i)
  then show ?case unfolding start_run_def by (intro jobs_inv_set_runs) (simp_all add: run_wf_start)
next
  case (finish db i now outcome retries)
  have "jobs_inv (set_runs (\<lambda>r. jr_id r = i) (succeed_run res now) db)" for res
    by (rule jobs_inv_set_runs [OF finish.prems]) (simp add: run_wf_succeed, simp add: succeed_run_def)
  moreover have "jobs_inv (set_runs (\<lambda>r. jr_id r = i) (fail_run final err now) db)" for final err
    using finish.hyps by (intro jobs_inv_set_runs [OF finish.prems]) (simp_all add: run_wf_fail, simp add: fail_run_def)
  ultimately show ?case by (simp add: finish_run_def Let_def split: task_outcome.split)
next
  case (listed redis now p limit db db' rows)
  from listed.hyps obtain rs where "apsnd fst (reconcile_active_job_runs redis now db rs db) = (db', rows)"
    by (auto simp: list_active_job_runs_def bind_ok_eq_Inr Let_def)
  then obtain changed where rec: "reconcile_active_job_runs redis now db rs db = (db', rows, changed)"
    by (cases "reconcile_active_job_runs redis now db rs db") auto
  have "\<exists>I. jd_runs db' = lose now I (jd_runs db)"
    using listed.prems reconcile_eq [OF _ _ rec, of "{}"] by (auto simp: jobs_inv_def)
  with listed.prems show ?case by (auto intro: jobs_inv_lose)
qed (simp_all add: handle_work_horse_killed_def handle_abandoned_job_def handle_job_stopped_def
    jobs_inv_reconcile_interrupted)



section \<open>Callbacks\<close>

lemma claimed_again:
  assumes "claimed_run job db = Some r" and "primary jr_id (jd_runs db)"
    and "jd_runs db' = update_where (\<lambda>x. jr_id x = jr_id r) (\<lambda>_. r') (jd_runs db)"
    and "jr_id r' = jr_id r" and "jr_queue_id r' = Some (q_id job)"
  shows "claimed_run job db' = Some r'"
proof -
  let ?upd = "\<lambda>x. if jr_id x = jr_id r then r' else x"
  obtain x where x: "x \<in> set (jd_runs db)" "jr_id x = jr_id r" using claimed_run_id [OF assms(1)] by auto
  have found: "find (\<lambda>r. jr_queue_id r = Some (q_id job)) (map ?upd runs) = Some r'"
    if "\<exists>x\<in>set runs. jr_id x = jr_id r"
      "\<And>y. find (\<lambda>r. jr_queue_id r = Some (q_id job)) runs = Some y \<Longrightarrow> jr_id y = jr_id r" for runs
    using that
  proof (induction runs)
    case Nil
    from Nil(1) show ?case by simp
  next
    case (Cons a runs)
    show ?case
    proof (cases "jr_id a = jr_id r")
      case False
      have other: "jr_queue_id a \<noteq> Some (q_id job)"
      proof
        assume "jr_queue_id a = Some (q_id job)"
        then have "jr_id a = jr_id r" by (intro Cons.prems(2)) simp
        with False show False by contradiction
      qed
      have "find (\<lambda>r. jr_queue_id r = Some (q_id job)) (map ?upd runs) = Some r'"
      proof (rule Cons.IH)
        show "\<exists>x\<in>set runs. jr_id x = jr_id r" using Cons.prems(1) False by simp
        show "jr_id y = jr_id r" if "find (\<lambda>r. jr_queue_id r = Some (q_id job)) runs = Some y" for y
          by (rule Cons.prems(2)) (simp add: other that)
      qed
      with other False show ?thesis by simp
    qed (simp add: assms(5))
  qed
  moreover have "jr_id y = jr_id r" if "find (\<lambda>r. jr_queue_id r = Some (q_id job)) (jd_runs db) = Some y" for y
    using assms(1) that by (simp add: claimed_run_def)
  ultimately have "find (\<lambda>r. jr_queue_id r = Some (q_id job)) (jd_runs db') = Some r'"
    using x unfolding assms(3) update_where_def by (intro found) blast+
  then show ?thesis by (simp add: claimed_run_def)
qed

text \<open>Callbacks are idempotent and never undo finished work: a terminal interruption (a stopped job, or a
  dead worker with no retries left) applied twice, by whichever callbacks and at whatever times, is the
  same as applied once, so it raises at most one alert; and it leaves a run that had succeeded exactly as
  it was.\<close>

lemma interruption_is_idempotent:
  assumes "primary jr_id (jd_runs db)"
    and "will = Some False \<or> will = None \<and> (\<forall>n. q_retries job = Some n \<longrightarrow> n \<le> 0)"
    and "will2 = Some False \<or> will2 = None \<and> (\<forall>n. q_retries job = Some n \<longrightarrow> n \<le> 0)"
    and "db' = reconcile_interrupted_job will alert err now False job db"
  shows "reconcile_interrupted_job will2 alert2 err2 now2 failed2 job db' = db'
    \<and> (\<forall>r\<in>set (jd_runs db). jr_status r = Succeeded \<longrightarrow> r \<in> set (jd_runs db'))
    \<and> length (jd_alerts db') \<le> Suc (length (jd_alerts db))"
proof (cases "claimed_run job db")
  case None
  then show ?thesis using assms(4) by (simp add: reconcile_interrupted_job_def)
next
  case (Some r)
  have no: "(case w of Some b \<Rightarrow> b | None \<Rightarrow> (case q_retries job of None \<Rightarrow> False | Some n \<Rightarrow> 0 < n)) = False"
    if "w = Some False \<or> w = None \<and> (\<forall>n. q_retries job = Some n \<longrightarrow> n \<le> 0)" for w
    using that by (auto split: option.splits)
  show ?thesis
  proof (cases "jr_status r \<in> {Run_failed, Succeeded}")
    case True
    then have "db' = db" using Some no [OF assms(2)] assms(4) by (auto simp: reconcile_interrupted_job_def Let_def)
    moreover have "reconcile_interrupted_job will2 alert2 err2 now2 failed2 job db = db"
      using True Some no [OF assms(3)] by (auto simp: reconcile_interrupted_job_def Let_def)
    ultimately show ?thesis by simp
  next
    case False
    let ?r = "interrupted_run False (str_take 2000 err) now r"
    have db': "db' = add_alert alert (jr_id r) ((set_runs (\<lambda>x. jr_id x = jr_id r) (\<lambda>_. ?r) db)
        \<lparr>jd_ingestions := close_ingestion (str_take 2000 err) now r (jd_ingestions db)\<rparr>)"
      using False Some no [OF assms(2)] assms(4) by (simp add: reconcile_interrupted_job_def Let_def)
    then have runs: "jd_runs db' = update_where (\<lambda>x. jr_id x = jr_id r) (\<lambda>_. ?r) (jd_runs db)"
      by (simp add: add_alert_def set_runs_def)
    obtain x where x: "x \<in> set (jd_runs db)" "jr_id x = jr_id r" "r = x\<lparr>jr_queue_id := Some (q_id job)\<rparr>"
      using claimed_run_id [OF Some] by blast
    have "jr_id ?r = jr_id r" "jr_queue_id ?r = Some (q_id job)" "jr_status ?r = Run_failed"
      using x(3) by (simp_all add: interrupted_run_def)
    then have "claimed_run job db' = Some ?r" using claimed_again [OF Some assms(1) runs] by simp
    then have "reconcile_interrupted_job will2 alert2 err2 now2 failed2 job db' = db'"
      using \<open>jr_status ?r = Run_failed\<close> by (simp add: reconcile_interrupted_job_def Let_def)
    moreover have "y \<in> set (jd_runs db')" if "y \<in> set (jd_runs db)" "jr_status y = Succeeded" for y
    proof -
      have "jr_id y \<noteq> jr_id r" using that x False primary_same [OF assms(1)] by fastforce
      with that(1) show ?thesis by (force simp: runs set_update_where)
    qed
    moreover have "length (jd_alerts db') \<le> Suc (length (jd_alerts db))"
      by (simp add: db' add_alert_def set_runs_def)
    ultimately show ?thesis by blast
  qed
qed

lemma interruption_is_idempotent_witness:
  "handle_job_stopped 400 False \<lparr>q_id = ''here'', q_retries = Some 1, q_run = None\<rparr>
      (handle_job_stopped 300 False \<lparr>q_id = ''here'', q_retries = Some 1, q_run = None\<rparr> sample_jobs)
    = handle_job_stopped 300 False \<lparr>q_id = ''here'', q_retries = Some 1, q_run = None\<rparr> sample_jobs"
  unfolding handle_job_stopped_def
  using interruption_is_idempotent [OF sample_jobs_primary, of "Some False" _ "Some False"] by blast

end
