(* ===== verification/Csv.thy ===== *)
theory Csv
  imports Json
begin

text \<open>
  CSV exports: \<^verbatim>\<open>app/api/csv_stream.py\<close>. The writer is the standard library's \<open>csv.writer\<close> with its default
  dialect (minimal quoting, doubled quotes, CRLF); the reader below is the specification, an RFC 4180
  automaton. Streaming row by row writes the same text as writing the whole file, so the chunks are
  modelled as a list.
\<close>

section \<open>Formulas\<close>

definition csv_formula_prefixes :: "char list" where
  "csv_formula_prefixes = [CHR ''='', CHR ''+'', CHR ''-'', CHR ''@'', CHR 0x09, CHR 0x0D]"

definition csv_escape_formula :: "string \<Rightarrow> string" where
  "csv_escape_formula rendered =
     (case rendered of [] \<Rightarrow> []
      | c # _ \<Rightarrow> if c \<in> set csv_formula_prefixes then CHR 0x27 # rendered else rendered)"

definition inert :: "string \<Rightarrow> bool" where
  "inert cell \<longleftrightarrow> (case cell of [] \<Rightarrow> True | c # _ \<Rightarrow> c \<notin> set csv_formula_prefixes)"

lemma escape_inert [simp]: "inert (csv_escape_formula s)"
  by (cases s) (auto simp: inert_def csv_escape_formula_def csv_formula_prefixes_def)

text \<open>The cell is the value, behind an apostrophe exactly when it would be a formula.\<close>

lemma escape_value: "csv_escape_formula s = (if inert s then s else CHR 0x27 # s)"
  by (cases s) (auto simp: inert_def csv_escape_formula_def)

section \<open>Writing\<close>

definition csv_special :: "char list" where
  "csv_special = [CHR '','', CHR 0x22, CHR 0x0D, CHR 0x0A]"

definition csv_field :: "string \<Rightarrow> string" where
  "csv_field s =
     (if list_ex (\<lambda>c. c \<in> set csv_special) s
      then CHR 0x22 # concat (map (\<lambda>c. if c = CHR 0x22 then [c, c] else [c]) s) @ [CHR 0x22]
      else s)"

fun csv_join :: "string list \<Rightarrow> string" where
  "csv_join [] = []"
| "csv_join [s] = csv_field s"
| "csv_join (s # ss) = csv_field s @ CHR '','' # csv_join ss"

text \<open>A row that is one empty field is written as a pair of quotes.\<close>

definition csv_row :: "string list \<Rightarrow> string" where
  "csv_row cells = (if cells = [[]] then [CHR 0x22, CHR 0x22] else csv_join cells) @ [CHR 0x0D, CHR 0x0A]"

definition csv_chunks :: "string list \<Rightarrow> string list list \<Rightarrow> string list" where
  "csv_chunks header rows = csv_row header # map csv_row rows"

section \<open>Reading\<close>

datatype csv_mode = At_start | Plain | Quoted | Quote_seen | Return_seen

record csv_reader =
  cr_mode :: csv_mode
  cr_field :: string
  cr_fields :: "string list"
  cr_rows :: "string list list"

definition end_field :: "csv_reader \<Rightarrow> csv_reader" where
  "end_field r = r\<lparr>cr_mode := At_start, cr_field := [], cr_fields := cr_fields r @ [cr_field r]\<rparr>"

definition take_char :: "csv_mode \<Rightarrow> char \<Rightarrow> csv_reader \<Rightarrow> csv_reader" where
  "take_char m c r = r\<lparr>cr_mode := m, cr_field := cr_field r @ [c]\<rparr>"

definition csv_step :: "char \<Rightarrow> csv_reader \<Rightarrow> csv_reader option" where
  "csv_step c r =
     (case cr_mode r of
        Quoted \<Rightarrow> Some (if c = CHR 0x22 then r\<lparr>cr_mode := Quote_seen\<rparr> else take_char Quoted c r)
      | Return_seen \<Rightarrow>
          if c = CHR 0x0A
          then Some \<lparr>cr_mode = At_start, cr_field = [], cr_fields = [],
                     cr_rows = cr_rows r @ [cr_fields r @ [cr_field r]]\<rparr>
          else None
      | m \<Rightarrow>
          if c = CHR '','' then Some (end_field r)
          else if c = CHR 0x0D then Some (r\<lparr>cr_mode := Return_seen\<rparr>)
          else if c = CHR 0x22 then
            (if m = At_start then Some (r\<lparr>cr_mode := Quoted\<rparr>)
             else if m = Quote_seen then Some (take_char Quoted c r) else None)
          else if c = CHR 0x0A \<or> m = Quote_seen then None
          else Some (take_char Plain c r))"

fun csv_run :: "string \<Rightarrow> csv_reader \<Rightarrow> csv_reader option" where
  "csv_run [] r = Some r"
| "csv_run (c # s) r = (case csv_step c r of None \<Rightarrow> None | Some r' \<Rightarrow> csv_run s r')"

definition row_start :: "string list list \<Rightarrow> csv_reader" where
  "row_start rows = \<lparr>cr_mode = At_start, cr_field = [], cr_fields = [], cr_rows = rows\<rparr>"

definition csv_parse :: "string \<Rightarrow> string list list option" where
  "csv_parse s = (case csv_run s (row_start []) of
     None \<Rightarrow> None | Some r \<Rightarrow> if r = row_start (cr_rows r) then Some (cr_rows r) else None)"

section \<open>What is written reads back\<close>

lemma csv_run_append: "csv_run (s @ t) r = (case csv_run s r of None \<Rightarrow> None | Some r' \<Rightarrow> csv_run t r')"
  by (induction s arbitrary: r) (auto split: option.split)

lemma run_plain:
  "list_all (\<lambda>c. c \<notin> set csv_special) s \<Longrightarrow> cr_mode r \<in> {At_start, Plain} \<Longrightarrow>
    csv_run s r = Some (r\<lparr>cr_mode := (if s = [] then cr_mode r else Plain), cr_field := cr_field r @ s\<rparr>)"
  by (induction s arbitrary: r) (auto simp: csv_step_def take_char_def csv_special_def split: csv_mode.split)

lemma run_quoted:
  "cr_mode r = Quoted \<Longrightarrow> csv_run (concat (map (\<lambda>c. if c = CHR 0x22 then [c, c] else [c]) s)) r
    = Some (r\<lparr>cr_field := cr_field r @ s\<rparr>)"
  by (induction s arbitrary: r) (auto simp: csv_step_def take_char_def)

lemma swap_field_mode: "r\<lparr>cr_field := s, cr_mode := m\<rparr> = r\<lparr>cr_mode := m, cr_field := s\<rparr>"
  by (cases r) simp

text \<open>After a field the reader is ready for a separator, with the field read.\<close>

lemma run_field:
  assumes "cr_mode r = At_start" and "cr_field r = []"
  shows "\<exists>m. m \<in> {At_start, Plain, Quote_seen} \<and> csv_run (csv_field s) r = Some (r\<lparr>cr_mode := m, cr_field := s\<rparr>)"
proof (cases "list_ex (\<lambda>c. c \<in> set csv_special) s")
  case True
  then show ?thesis
    using assms by (intro exI [of _ Quote_seen])
      (simp add: csv_field_def csv_run_append csv_step_def [of "CHR 0x22"] run_quoted swap_field_mode)
next
  case False
  then have "list_all (\<lambda>c. c \<notin> set csv_special) s" by (simp add: list_ex_iff list_all_iff)
  from run_plain [OF this, of r] assms False show ?thesis by (auto simp: csv_field_def)
qed

lemma step_separator:
  assumes "m \<in> {At_start, Plain, Quote_seen}"
  shows "csv_step CHR '','' (r\<lparr>cr_mode := m\<rparr>) = Some (end_field r)"
    and "csv_step CHR 0x0D (r\<lparr>cr_mode := m\<rparr>) = Some (r\<lparr>cr_mode := Return_seen\<rparr>)"
  using assms by (auto simp: csv_step_def end_field_def)

lemma run_join:
  "cells \<noteq> [] \<Longrightarrow> cr_mode r = At_start \<Longrightarrow> cr_field r = [] \<Longrightarrow>
    csv_run (csv_join cells @ [CHR 0x0D, CHR 0x0A]) r = Some (row_start (cr_rows r @ [cr_fields r @ cells]))"
proof (induction cells arbitrary: r rule: csv_join.induct)
  case (2 s)
  obtain m where m: "m \<in> {At_start, Plain, Quote_seen}" "csv_run (csv_field s) r = Some (r\<lparr>cr_mode := m, cr_field := s\<rparr>)"
    using run_field [OF 2(2,3)] by blast
  have "csv_step CHR 0x0D (r\<lparr>cr_mode := m, cr_field := s\<rparr>) = Some (r\<lparr>cr_mode := Return_seen, cr_field := s\<rparr>)"
    using step_separator(2) [OF m(1), of "r\<lparr>cr_field := s\<rparr>"] by (simp add: swap_field_mode)
  then show ?case by (simp add: csv_run_append m) (simp add: csv_step_def row_start_def)
next
  case (3 s t ss)
  obtain m where m: "m \<in> {At_start, Plain, Quote_seen}" "csv_run (csv_field s) r = Some (r\<lparr>cr_mode := m, cr_field := s\<rparr>)"
    using run_field [OF 3(3,4)] by blast
  have "csv_step CHR '','' (r\<lparr>cr_mode := m, cr_field := s\<rparr>) = Some (end_field (r\<lparr>cr_field := s\<rparr>))"
    using step_separator(1) [OF m(1), of "r\<lparr>cr_field := s\<rparr>"] by (simp add: swap_field_mode)
  then show ?case using 3(1) [of "end_field (r\<lparr>cr_field := s\<rparr>)"]
    by (simp add: csv_run_append m end_field_def)
qed simp

lemma run_row: "cells \<noteq> [] \<Longrightarrow> csv_run (csv_row cells) (row_start rows) = Some (row_start (rows @ [cells]))"
proof (cases "cells = [[]]")
  case True
  then show ?thesis by (simp add: csv_row_def csv_step_def row_start_def)
next
  case False
  assume "cells \<noteq> []"
  with False run_join [of cells "row_start rows"] show ?thesis by (simp add: csv_row_def row_start_def)
qed

lemma run_rows:
  "\<forall>cells\<in>set rest. cells \<noteq> [] \<Longrightarrow> csv_run (concat (map csv_row rest)) (row_start rows) = Some (row_start (rows @ rest))"
  by (induction rest arbitrary: rows) (auto simp: csv_run_append run_row)

lemma csv_reads_back:
  assumes "header \<noteq> []" and "\<And>row. row \<in> set rows \<Longrightarrow> row \<noteq> []"
  shows "csv_parse (concat (csv_chunks header rows)) = Some (header # rows)"
proof -
  have "concat (csv_chunks header rows) = concat (map csv_row (header # rows))" by (simp add: csv_chunks_def)
  moreover have "csv_run (concat (map csv_row (header # rows))) (row_start []) = Some (row_start ([] @ header # rows))"
    using assms by (intro run_rows) auto
  ultimately show ?thesis by (simp add: csv_parse_def row_start_def)
qed

end
