(* ===== verification/PublishRoutes.thy ===== *)
theory PublishRoutes
  imports Review Jobs PublicationWorker Csv
begin

text \<open>
  The publication routes, \<^verbatim>\<open>app/api/routes/publish.py\<close> and the validators of
  \<^verbatim>\<open>app/schemas/publication.py\<close>: the inbox, preparation and publication triggers, the export of approved
  artifacts, approval and status. A route takes the site and the operator its dependencies resolved.
  A site's display name is a column of its own (\<open>names\<close>), ISO dates are a parameter.
\<close>

section \<open>State and queued tasks\<close>

datatype publish_task = Prepare_plans nat "nat list option" | Publish_plans "nat list option"

record publish_db =
  pu_store :: store
  pu_jobs :: job_db
  pu_queue :: "(string \<times> nat \<times> publish_task) list"

text \<open>\<open>enqueue_job\<close> with the task it hands to RQ: the queue holds the queue id, the site and the call.\<close>

definition enqueue_task ::
  "redis \<Rightarrow> string option \<Rightarrow> nat \<Rightarrow> time \<Rightarrow> nat \<Rightarrow> job_kind \<Rightarrow> publish_task \<Rightarrow> string option \<Rightarrow> publish_db
     \<Rightarrow> publish_db \<times> (enqueue_error + job_run)" where
  "enqueue_task redis enqueued limit now site kind task who db =
     (case enqueue_job redis enqueued limit now site kind who (pu_jobs db) of
        (jobs, Inl e) \<Rightarrow> (db\<lparr>pu_jobs := jobs\<rparr>, Inl e)
      | (jobs, Inr run) \<Rightarrow>
          (db\<lparr>pu_jobs := jobs, pu_queue := pu_queue db @ [(or_else (jr_queue_id run) [], site, task)]\<rparr>, Inr run))"

type_synonym job_accepted = "string option \<times> nat"

section \<open>The inbox\<close>

record pending_row =
  pp_site :: nat
  pp_name :: string
  pp_platform :: platform
  pp_selected :: nat
  pp_approved :: nat
  pp_can_publish :: bool
  pp_can_export :: bool

definition selected_count :: "store \<Rightarrow> nat \<Rightarrow> nat" where
  "selected_count st i = length (filter (awaiting i) (st_suggestions st))"

definition approved_plans_of :: "store \<Rightarrow> nat \<Rightarrow> plan list" where
  "approved_plans_of st i = filter (\<lambda>p. pl_site p = i \<and> pl_status p = Plan_approved) (st_plans st)"

definition pending_row_of :: "(nat \<Rightarrow> string) \<Rightarrow> store \<Rightarrow> site \<Rightarrow> pending_row" where
  "pending_row_of names st s =
     \<lparr>pp_site = site_id s, pp_name = names (site_id s), pp_platform = site_platform s,
      pp_selected = selected_count st (site_id s), pp_approved = length (approved_plans_of st (site_id s)),
      pp_can_publish = has_wordpress_credentials s, pp_can_export = (site_platform s = Html)\<rparr>"

text \<open>The typed characters are not escaped here: \<open>%\<close> and \<open>_\<close> in a search are wildcards.\<close>

definition site_search :: "(nat \<Rightarrow> string) \<Rightarrow> string \<Rightarrow> site \<Rightarrow> bool" where
  "site_search names search s \<longleftrightarrow>
     (let pattern = CHR ''%'' # strip search @ [CHR ''%'']
      in ilike (names (site_id s)) pattern \<or> ilike (site_base_url s) pattern)"

definition pending_publication_query ::
  "(nat \<Rightarrow> string) \<Rightarrow> principal \<Rightarrow> string option \<Rightarrow> publish_db \<Rightarrow> http_error + pending_row list" where
  "pending_publication_query names p search db =
     bind_ok (tenant_site_filter p) (\<lambda>owned.
       Inr (map (pending_row_of names (pu_store db))
         (filter (\<lambda>s. (0 < selected_count (pu_store db) (site_id s) \<or> approved_plans_of (pu_store db) (site_id s) \<noteq> [])
            \<and> (case owned of None \<Rightarrow> True | Some f \<Rightarrow> f s)
            \<and> (truthy search \<longrightarrow> site_search names (or_else search []) s)) (jd_sites (pu_jobs db)))))"

record pending_page =
  pg_items :: "pending_row list"
  pg_next :: "nat option"
  pg_totals :: "(nat \<times> nat \<times> nat) option"

definition pending_page_of :: "nat option \<Rightarrow> nat \<Rightarrow> bool \<Rightarrow> pending_row list \<Rightarrow> pending_page" where
  "pending_page_of cursor limit include_totals inbox =
     (let rows = take (limit + 1) (sort_key pp_site
            (filter (\<lambda>r. case cursor of None \<Rightarrow> True | Some c \<Rightarrow> c < pp_site r) inbox));
          has_more = limit < length rows;
          shown = take limit rows
      in \<lparr>pg_items = shown,
          pg_next = (if has_more \<and> shown \<noteq> [] then Some (pp_site (last shown)) else None),
          pg_totals = (if include_totals
            then Some (length inbox, sum_list (map pp_selected inbox), sum_list (map pp_approved inbox)) else None)\<rparr>)"

definition pending_publication_sites ::
  "(nat \<Rightarrow> string) \<Rightarrow> principal \<Rightarrow> nat \<Rightarrow> nat option \<Rightarrow> string option \<Rightarrow> bool \<Rightarrow> publish_db
     \<Rightarrow> http_error + pending_page" where
  "pending_publication_sites names p limit cursor search include_totals db =
     (if limit < 1 \<or> 100 < limit \<or> cursor = Some 0
         \<or> (case search of None \<Rightarrow> False | Some q \<Rightarrow> length q < 1 \<or> 255 < length q)
      then Inl (Http 422)
      else bind_ok (pending_publication_query names p search db)
             (\<lambda>inbox. Inr (pending_page_of cursor limit include_totals inbox)))"

definition pending_publication_site ::
  "(nat \<Rightarrow> string) \<Rightarrow> principal \<Rightarrow> nat \<Rightarrow> publish_db \<Rightarrow> http_error + pending_row" where
  "pending_publication_site names p i db =
     bind_ok (pending_publication_query names p None db) (\<lambda>inbox.
       case get_row pp_site i inbox of None \<Rightarrow> Inl (Http 404) | Some r \<Rightarrow> Inr r)"

section \<open>Preparation\<close>

text \<open>\<open>JobCapacityError\<close> is a \<open>DuplicateJobError\<close> without a run, so reading \<open>error.run\<close> raises, a 500.\<close>

definition prepare_publication_plans_async ::
  "redis \<Rightarrow> string option \<Rightarrow> nat \<Rightarrow> time \<Rightarrow> site \<Rightarrow> string \<Rightarrow> nat \<Rightarrow> nat list option \<Rightarrow> publish_db
     \<Rightarrow> publish_db \<times> (http_error + job_accepted)" where
  "prepare_publication_plans_async redis enqueued limit now site operator max_articles only db =
     (if max_articles < 1 \<or> 100 < max_articles \<or> (case only of None \<Rightarrow> False | Some ids \<Rightarrow> 50 < length ids)
      then (db, Inl (Http 422))
      else if site_platform site = Pool then (db, Inl (Http 409))
      else if site_platform site = WordPress \<and> \<not> has_wordpress_credentials site then (db, Inl (Http 409))
      else case enqueue_task redis enqueued limit now (site_id site) Publication_preparation
                  (Prepare_plans max_articles only) (Some operator) db of
             (db', Inr run) \<Rightarrow> (db', Inr (jr_queue_id run, jr_id run))
           | (db', Inl (Duplicate_job run)) \<Rightarrow>
               (db', if jr_requested_by run = Some operator \<and> truthy (jr_queue_id run)
                     then Inr (jr_queue_id run, jr_id run) else Inl (Http 409))
           | (db', Inl _) \<Rightarrow> (db', Inl (Http 500)))"

record plan_html =
  ph_id :: nat
  ph_hash :: string
  ph_original :: string
  ph_updated :: string

definition publication_plan_html :: "nat \<Rightarrow> site \<Rightarrow> store \<Rightarrow> http_error + plan_html" where
  "publication_plan_html i site st =
     (case find (\<lambda>p. pl_id p = i \<and> pl_site p = site_id site) (st_plans st) of
        None \<Rightarrow> Inl (Http 404)
      | Some p \<Rightarrow> Inr \<lparr>ph_id = pl_id p, ph_hash = pl_hash p, ph_original = pl_original p, ph_updated = pl_updated p\<rparr>)"

section \<open>Export\<close>

datatype cell = Cell_none | Cell_int int | Cell_str string | Cell_time time | Cell_json json

definition rendered :: "(time \<Rightarrow> string) \<Rightarrow> (rat \<Rightarrow> string) \<Rightarrow> cell \<Rightarrow> string" where
  "rendered isoformat fr c =
     (case c of
        Cell_none \<Rightarrow> []
      | Cell_int i \<Rightarrow> json_int i
      | Cell_str s \<Rightarrow> s
      | Cell_time t \<Rightarrow> isoformat t
      | Cell_json j \<Rightarrow> json_dumps fr j)"

definition export_cell :: "(time \<Rightarrow> string) \<Rightarrow> (rat \<Rightarrow> string) \<Rightarrow> cell \<Rightarrow> string" where
  "export_cell isoformat fr c = (if c = Cell_none then [] else csv_escape_formula (rendered isoformat fr c))"

definition cell_of :: "string option \<Rightarrow> cell" where
  "cell_of v = (case v of None \<Rightarrow> Cell_none | Some s \<Rightarrow> Cell_str s)"

definition publication_export_header :: "string list" where
  "publication_export_header = [''plan_id'', ''plan_hash'', ''site_id'', ''source_article_id'', ''source_url'',
     ''source_title'', ''target_url'', ''anchor_text'', ''placement_context'', ''outcome'', ''original_html'',
     ''updated_html'', ''plan_status'', ''approved_by'', ''approved_at'']"

fun plan_status_name :: "plan_status \<Rightarrow> string" where
  "plan_status_name Plan_prepared = ''prepared''"
| "plan_status_name Plan_approved = ''approved''"
| "plan_status_name Plan_applied = ''applied''"
| "plan_status_name Plan_stale = ''stale''"
| "plan_status_name Plan_superseded = ''superseded''"
| "plan_status_name Plan_failed = ''failed''"

text \<open>The suggestion of an item, with the title of its source article (a foreign key). No item: one row of
  blanks.\<close>

definition export_values :: "store \<Rightarrow> plan \<Rightarrow> plan_item option \<Rightarrow> cell list" where
  "export_values st p item =
     (let sug = (case item of None \<Rightarrow> None | Some it \<Rightarrow> find_suggestion st (it_suggestion it));
          title = (case sug of None \<Rightarrow> None
            | Some s \<Rightarrow> map_option ar_title (get_row ar_id (sg_source s) (st_articles st)));
          context = (case sug of None \<Rightarrow> None | Some s \<Rightarrow> sg_context s)
      in [Cell_int (int (pl_id p)), Cell_str (pl_hash p), Cell_int (int (pl_site p)), Cell_int (int (pl_source p)),
          Cell_str (pl_source_url p), cell_of title, cell_of (map_option it_target_url item),
          cell_of (case item of None \<Rightarrow> None | Some it \<Rightarrow> it_anchor it), cell_of context,
          cell_of (map_option it_outcome item), Cell_str (pl_original p), Cell_str (pl_updated p),
          Cell_str (plan_status_name (pl_status p)), cell_of (pl_approved_by p),
          (case pl_approved_at p of None \<Rightarrow> Cell_none | Some t \<Rightarrow> Cell_time t)])"

definition export_rows :: "(time \<Rightarrow> string) \<Rightarrow> (rat \<Rightarrow> string) \<Rightarrow> store \<Rightarrow> plan \<Rightarrow> string list list" where
  "export_rows isoformat fr st p =
     map (\<lambda>item. map (export_cell isoformat fr) (export_values st p item))
       (if pl_items p = [] then [None] else map Some (pl_items p))"

definition export_non_wordpress_publication ::
  "(string \<Rightarrow> string) \<Rightarrow> (time \<Rightarrow> string) \<Rightarrow> (rat \<Rightarrow> string) \<Rightarrow> site \<Rightarrow> store \<Rightarrow> http_error + string list" where
  "export_non_wordpress_publication sha isoformat fr site st =
     (if site_platform site = WordPress then Inl (Http 409)
      else if site_platform site = Pool then Inl (Http 409)
      else
        let plans = sort_key pl_id (approved_plans_of st (site_id site))
        in if list_ex (\<lambda>p. pl_approved_hash p = None \<or> \<not> verify_integrity sha p) plans then Inl (Http 409)
           else Inr (csv_chunks publication_export_header (concat (map (export_rows isoformat fr st) plans))))"

section \<open>Approval and publication\<close>

definition plan_hash_length :: nat where "plan_hash_length = 64"
definition max_plans_per_approval :: nat where "max_plans_per_approval = 100"

definition valid_approval_request :: "(nat \<times> string) list \<Rightarrow> bool" where
  "valid_approval_request plans \<longleftrightarrow> plans \<noteq> [] \<and> length plans \<le> max_plans_per_approval
     \<and> list_all (\<lambda>(i, h). length h = plan_hash_length) plans \<and> distinct (map fst plans)"

definition valid_queue_request :: "nat list \<Rightarrow> bool" where
  "valid_queue_request ids \<longleftrightarrow> ids \<noteq> [] \<and> length ids \<le> max_plans_per_approval \<and> distinct ids"

definition approve_publication_plans ::
  "(string \<Rightarrow> string) \<Rightarrow> time \<Rightarrow> site \<Rightarrow> string \<Rightarrow> (nat \<times> string) list \<Rightarrow> publish_db
     \<Rightarrow> http_error + (publish_db \<times> nat list \<times> string)" where
  "approve_publication_plans sha now site operator payload db =
     (if \<not> valid_approval_request payload then Inl (Http 422)
      else if site_platform site = Pool then Inl (Http 409)
      else case approve_plans sha now operator (site_id site) payload (pu_store db) of
             Inl e \<Rightarrow> Inl (Http 409)
           | Inr (st, plans) \<Rightarrow> Inr (db\<lparr>pu_store := st\<rparr>, map pl_id plans, operator))"

definition trigger_publication ::
  "redis \<Rightarrow> string option \<Rightarrow> nat \<Rightarrow> time \<Rightarrow> nat list option \<Rightarrow> site \<Rightarrow> publish_db
     \<Rightarrow> publish_db \<times> (http_error + job_accepted)" where
  "trigger_publication redis enqueued limit now payload site db =
     (if (case payload of None \<Rightarrow> False | Some ids \<Rightarrow> \<not> valid_queue_request ids) then (db, Inl (Http 422))
      else if site_platform site = Pool then (db, Inl (Http 409))
      else if site_platform site = Html then (db, Inl (Http 409))
      else
        let approved_ids = map pl_id (filter (\<lambda>p. case payload of None \<Rightarrow> True | Some ids \<Rightarrow> pl_id p \<in> set ids)
              (approved_plans_of (pu_store db) (site_id site)))
        in if (case payload of None \<Rightarrow> False | Some ids \<Rightarrow> length approved_ids \<noteq> length ids) then (db, Inl (Http 409))
           else if approved_ids = [] then (db, Inl (Http 409))
           else case enqueue_task redis enqueued limit now (site_id site) Publication (Publish_plans payload) None db of
                  (db', Inr run) \<Rightarrow> (db', Inr (jr_queue_id run, jr_id run))
                | (db', Inl (Duplicate_job _)) \<Rightarrow> (db', Inl (Http 409))
                | (db', Inl (Job_capacity _ _)) \<Rightarrow> (db', Inl (Http 409))
                | (db', Inl _) \<Rightarrow> (db', Inl (Http 500)))"

record status_view =
  sv_applied :: nat
  sv_selected :: nat
  sv_approved_plans :: nat

definition publication_status :: "site \<Rightarrow> store \<Rightarrow> status_view" where
  "publication_status site st =
     (let rows = filter (\<lambda>s. sg_site s = site_id site
            \<and> (sg_status s = Applied \<or> sg_status s = Approved \<and> sg_plan s = None)) (st_suggestions st)
      in \<lparr>sv_applied = length (filter (\<lambda>s. sg_status s = Applied) rows),
          sv_selected = length (filter (\<lambda>s. sg_status s = Approved) rows),
          sv_approved_plans = length (filter (\<lambda>p. pl_site p = site_id site \<and> pl_status p = Plan_approved) (st_plans st))\<rparr>)"


section \<open>What an export contains\<close>

lemma export_cell_inert [simp]: "inert (export_cell isoformat fr c)"
  by (cases "c = Cell_none") (simp_all add: export_cell_def, simp add: inert_def)

lemma export_rows_shape: "row \<in> set (export_rows isoformat fr st p) \<Longrightarrow> length row = 15 \<and> (\<forall>c\<in>set row. inert c)"
  by (auto simp: export_rows_def export_values_def Let_def)

lemma export_rows_columns: "row \<in> set (export_rows isoformat fr st p) \<Longrightarrow>
    row ! 0 = csv_escape_formula (json_int (int (pl_id p))) \<and> row ! 1 = csv_escape_formula (pl_hash p)
    \<and> row ! 10 = csv_escape_formula (pl_original p) \<and> row ! 11 = csv_escape_formula (pl_updated p)"
  by (auto simp: export_rows_def export_values_def Let_def export_cell_def rendered_def)

lemma export_rows_items: "it \<in> set (pl_items p) \<Longrightarrow>
    \<exists>row\<in>set (export_rows isoformat fr st p). row ! 6 = csv_escape_formula (it_target_url it)
      \<and> row ! 9 = csv_escape_formula (it_outcome it)"
  by (auto simp: export_rows_def export_values_def Let_def export_cell_def rendered_def cell_of_def
      intro!: bexI [of _ it])

lemma export_ok:
  assumes "export_non_wordpress_publication sha isoformat fr site st = Inr chunks"
  shows "site_platform site = Html"
    and "chunks = csv_chunks publication_export_header
      (concat (map (export_rows isoformat fr st) (sort_key pl_id (approved_plans_of st (site_id site)))))"
    and "\<And>p. p \<in> set (approved_plans_of st (site_id site)) \<Longrightarrow> verify_integrity sha p \<and> pl_approved_hash p \<noteq> None"
  using assms by (auto simp: export_non_wordpress_publication_def Let_def list_ex_iff
      split: if_splits intro: platform.exhaust [of "site_platform site"])

text \<open>C24. The export of a static site is faithful and safe to open. A CSV reader gets back the header and rows of
  fifteen cells, none of which a spreadsheet evaluates as a formula; every row carries the identifier, the
  approved hash and the exact bytes of a plan a named approval covers, its integrity checked; and every link
  of every approved plan of the site has its row.\<close>

theorem export_is_exact:
  assumes "export_non_wordpress_publication sha isoformat fr site st = Inr chunks"
  shows "\<exists>rows. csv_parse (concat chunks) = Some (publication_export_header # rows)
    \<and> (\<forall>row\<in>set rows. length row = 15 \<and> (\<forall>c\<in>set row. inert c)
        \<and> (\<exists>p\<in>set (st_plans st). pl_site p = site_id site \<and> pl_status p = Plan_approved
              \<and> pl_approved_hash p = Some (compute_plan_hash sha p) \<and> pl_hash p = compute_plan_hash sha p
              \<and> row ! 0 = csv_escape_formula (json_int (int (pl_id p))) \<and> row ! 1 = csv_escape_formula (pl_hash p)
              \<and> row ! 10 = csv_escape_formula (pl_original p) \<and> row ! 11 = csv_escape_formula (pl_updated p)))
    \<and> (\<forall>p\<in>set (approved_plans_of st (site_id site)). \<forall>it\<in>set (pl_items p).
        \<exists>row\<in>set rows. row ! 1 = csv_escape_formula (pl_hash p) \<and> row ! 6 = csv_escape_formula (it_target_url it)
          \<and> row ! 9 = csv_escape_formula (it_outcome it) \<and> row ! 11 = csv_escape_formula (pl_updated p))"
proof -
  note ok = export_ok [OF assms]
  let ?plans = "approved_plans_of st (site_id site)"
  define rows where "rows = concat (map (export_rows isoformat fr st) (sort_key pl_id ?plans))"
  have rows: "row \<in> set rows \<longleftrightarrow> (\<exists>p\<in>set ?plans. row \<in> set (export_rows isoformat fr st p))" for row
    by (simp add: rows_def)
  have shape: "length row = 15 \<and> (\<forall>c\<in>set row. inert c)" if "row \<in> set rows" for row
    using that export_rows_shape unfolding rows by blast
  have "csv_parse (concat chunks) = Some (publication_export_header # rows)"
    unfolding ok(2) rows_def [symmetric]
    by (rule csv_reads_back) (use shape in \<open>fastforce simp: publication_export_header_def\<close>)+
  moreover have "\<exists>p\<in>set (st_plans st). pl_site p = site_id site \<and> pl_status p = Plan_approved
      \<and> pl_approved_hash p = Some (compute_plan_hash sha p) \<and> pl_hash p = compute_plan_hash sha p
      \<and> row ! 0 = csv_escape_formula (json_int (int (pl_id p))) \<and> row ! 1 = csv_escape_formula (pl_hash p)
      \<and> row ! 10 = csv_escape_formula (pl_original p) \<and> row ! 11 = csv_escape_formula (pl_updated p)"
    if row: "row \<in> set rows" for row
  proof -
    obtain p where p: "p \<in> set ?plans" "row \<in> set (export_rows isoformat fr st p)" using row unfolding rows by blast
    with ok(3) [OF p(1)] export_rows_columns [OF p(2)] show ?thesis
      by (intro bexI [of _ p]) (auto simp: verify_integrity_def approved_plans_of_def Let_def split: if_splits)
  qed
  moreover have "\<exists>row\<in>set rows. row ! 1 = csv_escape_formula (pl_hash p) \<and> row ! 6 = csv_escape_formula (it_target_url it)
      \<and> row ! 9 = csv_escape_formula (it_outcome it) \<and> row ! 11 = csv_escape_formula (pl_updated p)"
    if pi: "p \<in> set ?plans" "it \<in> set (pl_items p)" for p it
  proof -
    obtain row where row: "row \<in> set (export_rows isoformat fr st p)"
      "row ! 6 = csv_escape_formula (it_target_url it)" "row ! 9 = csv_escape_formula (it_outcome it)"
      using export_rows_items [OF pi(2), of isoformat fr st] by blast
    with export_rows_columns [OF row(1)] pi(1) show ?thesis by (intro bexI [of _ row]) (auto simp: rows)
  qed
  ultimately show ?thesis using shape by blast
qed

section \<open>What reaches the queue\<close>

lemma enqueue_task_frame:
  assumes "enqueue_task redis enqueued limit now site kind task who db = (db', res)"
  shows "pu_store db' = pu_store db"
    and "(\<exists>e. res = Inl e) \<Longrightarrow> pu_queue db' = pu_queue db"
    and "res = Inr run \<Longrightarrow> \<exists>q. jr_queue_id run = Some q \<and> pu_queue db' = pu_queue db @ [(q, site, task)]"
proof -
  have q: "\<exists>q. jr_queue_id run = Some q" if "enqueue_job redis enqueued limit now site kind who (pu_jobs db) = (jobs, Inr run)"
    for jobs run
    using that by (auto simp: enqueue_job_def enqueue_job_locked_def Let_def split: option.splits prod.splits bool.splits list.splits if_splits)
  show "pu_store db' = pu_store db" and "(\<exists>e. res = Inl e) \<Longrightarrow> pu_queue db' = pu_queue db"
    using assms by (auto simp: enqueue_task_def split: prod.splits sum.splits)
  show "\<exists>q. jr_queue_id run = Some q \<and> pu_queue db' = pu_queue db @ [(q, site, task)]" if "res = Inr run"
    using assms q that by (fastforce simp: enqueue_task_def split: prod.splits sum.splits)
qed

text \<open>Naming \<open>n\<close> distinct keys and finding \<open>n\<close> rows means that every key was found.\<close>

lemma all_keys_found:
  assumes "primary key rows" and "distinct ids" and "length (filter (\<lambda>r. key r \<in> set ids) (filter P rows)) = length ids"
  shows "\<forall>i\<in>set ids. \<exists>r\<in>set rows. key r = i \<and> P r"
proof -
  let ?found = "map key (filter (\<lambda>r. key r \<in> set ids) (filter P rows))"
  have "distinct ?found" using assms(1) by (simp add: primary_def distinct_map inj_on_def)
  then have "card (set ?found) = card (set ids)"
    using assms(2,3) distinct_card [of ?found] distinct_card [of ids] by simp
  moreover have "set ?found \<subseteq> set ids" by auto
  ultimately have "set ?found = set ids" by (intro card_subset_eq) simp_all
  then have "i \<in> set ?found" if "i \<in> set ids" for i using that by simp
  then show ?thesis by fastforce
qed

lemma trigger_queued:
  assumes "trigger_publication redis enqueued limit now payload site db = (db', res)" and "pu_queue db' \<noteq> pu_queue db"
  shows "site_platform site = WordPress" and "load_approved_plans (pu_store db) (site_id site) payload \<noteq> []"
    and "payload = Some ids \<Longrightarrow> distinct ids \<and> length (filter (\<lambda>p. pl_id p \<in> set ids)
           (approved_plans_of (pu_store db) (site_id site))) = length ids"
    and "\<exists>q i. res = Inr (Some q, i) \<and> pu_queue db' = pu_queue db @ [(q, site_id site, Publish_plans payload)]"
proof -
  let ?t = "enqueue_task redis enqueued limit now (site_id site) Publication (Publish_plans payload) None db"
  obtain db'' r where t: "?t = (db'', r)" by (cases ?t)
  note d = assms(1) [unfolded trigger_publication_def Let_def t]
  have refused: "pu_queue db' = pu_queue db" if "db' = db" using that by simp
  have found: "filter (\<lambda>p. case payload of None \<Rightarrow> True | Some ids \<Rightarrow> pl_id p \<in> set ids)
      (approved_plans_of (pu_store db) (site_id site)) \<noteq> []" and "db'' = db'" and "\<And>e. r \<noteq> Inl e"
    using d assms(2) enqueue_task_frame(2) [OF t] by (auto split: if_splits sum.splits enqueue_error.splits)
  then show "load_approved_plans (pu_store db) (site_id site) payload \<noteq> []"
    by (auto simp: load_approved_plans_def approved_plans_of_def filter_empty_conv simp flip: set_empty)
  show "site_platform site = WordPress"
    using d assms(2) by (cases "site_platform site") (auto split: if_splits)
  show "distinct ids \<and> length (filter (\<lambda>p. pl_id p \<in> set ids) (approved_plans_of (pu_store db) (site_id site))) = length ids"
    if "payload = Some ids"
    using d assms(2) that by (auto simp: valid_queue_request_def split: if_splits)
  obtain run where run: "r = Inr run" using \<open>\<And>e. r \<noteq> Inl e\<close> by (cases r) auto
  with d assms(2) have "res = Inr (jr_queue_id run, jr_id run)" by (auto split: if_splits)
  with enqueue_task_frame(3) [OF t run] \<open>db'' = db'\<close>
  show "\<exists>q i. res = Inr (Some q, i) \<and> pu_queue db' = pu_queue db @ [(q, site_id site, Publish_plans payload)]" by auto
qed

lemma trigger_keeps_store:
  "trigger_publication redis enqueued limit now payload site db = (db', res) \<Longrightarrow> pu_store db' = pu_store db"
  by (auto simp: trigger_publication_def Let_def split: if_splits prod.splits sum.splits enqueue_error.splits
      dest: enqueue_task_frame(1))

text \<open>C10. Triggering publication decides nothing. The editorial tables are untouched, and either the queue is
  unchanged, or one task was added: for a WordPress site with approved plans, naming exactly the plans of the
  request, every one of them approved for that site at that moment; these are the plans a worker that starts
  from the same tables loads.\<close>

theorem only_approved_plans_are_queued:
  assumes "primary pl_id (st_plans (pu_store db))"
    and "trigger_publication redis enqueued limit now payload site db = (db', res)"
  shows "pu_store db' = pu_store db
    \<and> (pu_queue db' \<noteq> pu_queue db \<longrightarrow>
        (\<exists>q i. res = Inr (Some q, i) \<and> pu_queue db' = pu_queue db @ [(q, site_id site, Publish_plans payload)]
          \<and> site_platform site = WordPress \<and> load_approved_plans (pu_store db') (site_id site) payload \<noteq> []
          \<and> (\<forall>ids. payload = Some ids \<longrightarrow>
               distinct ids \<and> pl_id ` set (load_approved_plans (pu_store db') (site_id site) payload) = set ids)))"
proof -
  note frame = trigger_keeps_store [OF assms(2)] and queued = trigger_queued [OF assms(2)]
  have "pl_id ` set (load_approved_plans (pu_store db) (site_id site) payload) = set ids"
    if "pu_queue db' \<noteq> pu_queue db" "payload = Some ids" for ids
  proof -
    have "\<forall>i\<in>set ids. \<exists>p\<in>set (st_plans (pu_store db)). pl_id p = i \<and> pl_site p = site_id site \<and> pl_status p = Plan_approved"
      using queued(3) [OF that] by (intro all_keys_found [OF assms(1)]) (simp_all add: approved_plans_of_def)
    then show ?thesis by (auto simp: load_approved_plans_def that(2))
  qed
  with frame queued(1,2,3,4) show ?thesis by simp
qed


text \<open>A row of the inbox carries the numbers the status route reports, and at least one of them is positive.\<close>

lemma inbox_counts:
  assumes "primary site_id (jd_sites (pu_jobs db))" and "s \<in> set (jd_sites (pu_jobs db))"
    and "pending_publication_site names p (site_id s) db = Inr r"
  shows "pp_selected r = sv_selected (publication_status s (pu_store db))
    \<and> pp_approved r = sv_approved_plans (publication_status s (pu_store db))
    \<and> 0 < pp_selected r + pp_approved r \<and> pp_can_publish r = has_wordpress_credentials s"
proof -
  obtain inbox where inbox: "pending_publication_query names p None db = Inr inbox"
    and "get_row pp_site (site_id s) inbox = Some r"
    using assms(3) by (auto simp: pending_publication_site_def bind_ok_eq_Inr split: option.splits)
  then have r: "r \<in> set inbox" "pp_site r = site_id s" by (metis get_row_Some)+
  then obtain x where x: "x \<in> set (jd_sites (pu_jobs db))" "r = pending_row_of names (pu_store db) x"
    "0 < selected_count (pu_store db) (site_id x) \<or> approved_plans_of (pu_store db) (site_id x) \<noteq> []"
    using inbox by (auto simp: pending_publication_query_def bind_ok_eq_Inr)
  then have "x = s" using primary_same [OF assms(1) x(1) assms(2)] r(2) by (simp add: pending_row_of_def)
  moreover have "filter (\<lambda>q. (sg_site q = site_id s \<and> (sg_status q = Applied \<or> sg_status q = Approved \<and> sg_plan q = None))
      \<and> sg_status q = Approved) (st_suggestions (pu_store db)) = filter (awaiting (site_id s)) (st_suggestions (pu_store db))"
    by (rule filter_cong) (auto simp: awaiting_def)
  ultimately show ?thesis using x(2,3)
    by (auto simp: pending_row_of_def publication_status_def Let_def selected_count_def approved_plans_of_def)
qed

section \<open>Witnesses\<close>

definition sample_site :: "platform \<Rightarrow> site" where
  "sample_site pf = \<lparr>site_id = 7, site_tenant = 7, site_base_url = ''https://c.net'', site_platform = pf,
     wp_username = None, pool_source_approved = False, pool_source_failures = 0, pool_source_quarantined = False,
     pool_source_quarantine_reason = None, domain_registered_at = None\<rparr>"

lemma sample_approved:
  "approved_plans_of (wk_store (sample_worker sha 0)) 7 = [sample_plan sha]" "pl_site (sample_plan sha) = 7"
  "pl_approved_hash (sample_plan sha) \<noteq> None" "pl_items (sample_plan sha) \<noteq> []"
  by (auto simp: approved_plans_of_def sample_worker_def sample_plan_facts sample_plan_def approve_plan_def
      sample_store_def new_plan_def hashed_def draft_plan_def)

theorem export_is_exact_witness:
  "\<exists>sha site st chunks rows. export_non_wordpress_publication sha (\<lambda>t. []) (\<lambda>x. []) site st = Inr chunks
     \<and> csv_parse (concat chunks) = Some (publication_export_header # rows) \<and> rows \<noteq> []"
proof -
  define sha :: "string \<Rightarrow> string" where "sha = (\<lambda>s. s)"
  let ?site = "sample_site Html" and ?st = "wk_store (sample_worker sha 0)"
  have site: "site_id ?site = 7" "site_platform ?site = Html" by (simp_all add: sample_site_def)
  obtain chunks where ok: "export_non_wordpress_publication sha (\<lambda>t. []) (\<lambda>x. []) ?site ?st = Inr chunks"
    using sample_approved(3) [of sha] sample_plan_facts(6) [of sha]
    by (simp add: export_non_wordpress_publication_def site sample_approved(1))
  obtain it where it: "it \<in> set (pl_items (sample_plan sha))" using sample_approved(4) by (metis list.set_intros(1) neq_Nil_conv)
  from export_is_exact [OF ok] obtain rows where rows: "csv_parse (concat chunks) = Some (publication_export_header # rows)"
    and "\<forall>p\<in>set (approved_plans_of ?st (site_id ?site)). \<forall>it\<in>set (pl_items p). \<exists>row\<in>set rows. row ! 1 = csv_escape_formula (pl_hash p)"
    by blast
  with it have "rows \<noteq> []" by (force simp: site sample_approved(1))
  with ok rows show ?thesis by blast
qed

theorem only_approved_plans_are_queued_witness:
  "\<exists>q db db' res. trigger_publication (\<lambda>q. No_such_job) (Some ''q'') 3 100 (Some [4]) (sample_site WordPress) db = (db', res)
     \<and> pu_queue db' = pu_queue db @ [(q, 7, Publish_plans (Some [4]))]
     \<and> pl_id ` set (load_approved_plans (pu_store db') 7 (Some [4])) = {4}"
proof -
  define sha :: "string \<Rightarrow> string" where "sha = (\<lambda>s. s)"
  define db where "db = \<lparr>pu_store = wk_store (sample_worker sha 0),
    pu_jobs = \<lparr>jd_sites = [sample_site WordPress], jd_runs = [], jd_ingestions = [], jd_alerts = []\<rparr>, pu_queue = []\<rparr>"
  obtain db' res where t: "trigger_publication (\<lambda>q. No_such_job) (Some ''q'') 3 100 (Some [4]) (sample_site WordPress) db = (db', res)"
    by fastforce
  have site: "site_id (sample_site WordPress) = 7" "site_platform (sample_site WordPress) = WordPress"
    by (simp_all add: sample_site_def)
  have plans: "approved_plans_of (pu_store db) 7 = [sample_plan sha]" by (simp add: db_def sample_approved)
  have jobs: "pu_jobs db = \<lparr>jd_sites = [sample_site WordPress], jd_runs = [], jd_ingestions = [], jd_alerts = []\<rparr>"
    by (simp add: db_def)
  have "pu_queue db' \<noteq> pu_queue db"
    using t unfolding trigger_publication_def Let_def site
    by (auto simp: plans sample_plan_facts valid_queue_request_def max_plans_per_approval_def enqueue_task_def jobs
        enqueue_job_def enqueue_job_locked_def get_row_def site tenant_runs_def Let_def)
  moreover have "primary pl_id (st_plans (pu_store db))" by (simp add: db_def sample_worker_primary)
  ultimately show ?thesis using only_approved_plans_are_queued [OF _ t] t by (auto simp: site)
qed

end
