(* ===== verification/Pipelines.thy ===== *)
theory Pipelines
  imports Jobs
begin

text \<open>
  Pipelines run ingestion and then analysis on a batch of sites: \<^verbatim>\<open>app/models/pipeline.py\<close>,
  \<^verbatim>\<open>app/services/pipeline_service.py\<close>, \<^verbatim>\<open>app/tasks/pipeline.py\<close> and \<^verbatim>\<open>app/api/routes/pipelines.py\<close>. Every
  transaction is one function; a row read under its lock is read afresh. Where a function acts on an answer
  it read in an earlier transaction, that earlier database is the argument \<open>read\<close>.
\<close>

section \<open>Rows\<close>

datatype site_status = Ps_queued | Ps_ingestion_running | Ps_analysis_queued | Ps_analysis_running
  | Ps_succeeded | Ps_failed | Ps_cancelled

datatype stage = At_ingestion | At_analysis | At_completed

datatype batch_status = Pb_queued | Pb_running | Pb_succeeded | Pb_failed | Pb_partial_failed | Pb_cancelled

record pipeline_batch =
  pb_id :: nat
  pb_status :: batch_status
  pb_created_at :: time
  pb_started_at :: "time option"
  pb_finished_at :: "time option"

record pipeline_site_run =
  ps_id :: nat
  ps_batch :: nat
  ps_site :: nat
  ps_status :: site_status
  ps_stage :: stage
  ps_ingestion_run :: "nat option"
  ps_analysis_run :: "nat option"
  ps_retries :: nat
  ps_error :: "string option"
  ps_created_at :: time
  ps_started_at :: "time option"
  ps_finished_at :: "time option"

datatype rq_command = Cancel_job string | Stop_job string

text \<open>\<open>pd_queue\<close> holds the tasks handed to RQ: queue id, site, stage and pipeline site run.\<close>

record pipe_db =
  pd_batches :: "pipeline_batch list"
  pd_items :: "pipeline_site_run list"
  pd_jobs :: job_db
  pd_queue :: "(string \<times> nat \<times> stage \<times> nat) list"
  pd_commands :: "rq_command list"

definition set_items :: "(pipeline_site_run \<Rightarrow> bool) \<Rightarrow> (pipeline_site_run \<Rightarrow> pipeline_site_run) \<Rightarrow> pipe_db \<Rightarrow> pipe_db" where
  "set_items P f db = db\<lparr>pd_items := update_where P f (pd_items db)\<rparr>"

definition set_batches :: "(pipeline_batch \<Rightarrow> bool) \<Rightarrow> (pipeline_batch \<Rightarrow> pipeline_batch) \<Rightarrow> pipe_db \<Rightarrow> pipe_db" where
  "set_batches P f db = db\<lparr>pd_batches := update_where P f (pd_batches db)\<rparr>"

definition items_of :: "pipe_db \<Rightarrow> nat \<Rightarrow> pipeline_site_run list" where
  "items_of db b = filter (\<lambda>x. ps_batch x = b) (pd_items db)"

section \<open>The status of a batch\<close>

definition active_site_status :: "site_status \<Rightarrow> bool" where
  "active_site_status s \<longleftrightarrow> s \<in> {Ps_queued, Ps_ingestion_running, Ps_analysis_queued, Ps_analysis_running}"

definition aggregate :: "site_status list \<Rightarrow> batch_status" where
  "aggregate statuses =
     (if list_ex active_site_status statuses then Pb_running
      else if statuses \<noteq> [] \<and> list_all (\<lambda>s. s = Ps_succeeded) statuses then Pb_succeeded
      else if statuses \<noteq> [] \<and> list_all (\<lambda>s. s = Ps_failed) statuses then Pb_failed
      else if Ps_cancelled \<in> set statuses then Pb_cancelled
      else Pb_partial_failed)"

definition refreshed :: "time \<Rightarrow> batch_status \<Rightarrow> pipeline_batch \<Rightarrow> pipeline_batch" where
  "refreshed now s b = b\<lparr>pb_status := s, pb_started_at := Some (or_else (pb_started_at b) now),
     pb_finished_at := (if s = Pb_running then None else Some now)\<rparr>"

text \<open>\<open>None\<close> where a row is missing, a \<open>ValueError\<close>. The statuses come from \<open>stored\<close>: a session does not
  autoflush, so the query sees what was flushed before.\<close>

definition refresh_pipeline_batch_status :: "time \<Rightarrow> pipe_db \<Rightarrow> nat \<Rightarrow> pipe_db \<Rightarrow> pipe_db option" where
  "refresh_pipeline_batch_status now stored i db =
     (case get_row pb_id i (pd_batches db) of
        None \<Rightarrow> None
      | Some b \<Rightarrow>
          if pb_status b = Pb_cancelled then Some db
          else Some (set_batches (\<lambda>b. pb_id b = i)
                 (refreshed now (aggregate (map ps_status (items_of stored i)))) db))"

definition moved :: "time \<Rightarrow> site_status \<Rightarrow> stage \<Rightarrow> string option \<Rightarrow> pipeline_site_run \<Rightarrow> pipeline_site_run" where
  "moved now s st err x =
     (let x1 = x\<lparr>ps_status := s, ps_stage := st,
            ps_error := (case err of None \<Rightarrow> None | Some e \<Rightarrow> if e = [] then None else Some (str_take 2000 e))\<rparr>
      in if s \<in> {Ps_ingestion_running, Ps_analysis_running}
         then x1\<lparr>ps_started_at := Some (or_else (ps_started_at x) now), ps_finished_at := None\<rparr>
         else if s \<in> {Ps_succeeded, Ps_failed, Ps_cancelled}
         then x1\<lparr>ps_started_at := Some (or_else (ps_started_at x) now), ps_finished_at := Some now\<rparr>
         else x1)"

definition update_pipeline_site ::
  "time \<Rightarrow> nat \<Rightarrow> site_status \<Rightarrow> stage \<Rightarrow> string option \<Rightarrow> pipe_db \<Rightarrow> pipe_db option" where
  "update_pipeline_site now i s st err db =
     (case get_row ps_id i (pd_items db) of
        None \<Rightarrow> None
      | Some x \<Rightarrow>
          if ps_status x = Ps_cancelled \<and> s \<noteq> Ps_cancelled then Some db
          else let db' = set_items (\<lambda>x. ps_id x = i) (moved now s st err) db
               in refresh_pipeline_batch_status now db' (ps_batch x) db')"

record batch_counts =
  bc_total :: nat
  bc_active :: nat
  bc_succeeded :: nat
  bc_failed :: nat
  bc_cancelled :: nat

definition pipeline_batch_counts :: "pipe_db \<Rightarrow> nat \<Rightarrow> batch_counts" where
  "pipeline_batch_counts db i =
     (let n = (\<lambda>P. length (filter (\<lambda>x. P (ps_status x)) (items_of db i)))
      in \<lparr>bc_total = n (\<lambda>s. True), bc_active = n active_site_status, bc_succeeded = n (\<lambda>s. s = Ps_succeeded),
          bc_failed = n (\<lambda>s. s = Ps_failed), bc_cancelled = n (\<lambda>s. s = Ps_cancelled)\<rparr>)"

section \<open>The workers\<close>

definition require_pipeline_site :: "pipe_db \<Rightarrow> nat \<Rightarrow> nat \<Rightarrow> bool option" where
  "require_pipeline_site db i site =
     (case get_row ps_id i (pd_items db) of
        None \<Rightarrow> None
      | Some x \<Rightarrow> if ps_site x \<noteq> site then None else Some (ps_status x \<noteq> Ps_cancelled))"

definition mark_stage_failure :: "bool \<Rightarrow> time \<Rightarrow> nat \<Rightarrow> stage \<Rightarrow> string \<Rightarrow> pipe_db \<Rightarrow> pipe_db option" where
  "mark_stage_failure final now i st err db =
     (if \<not> final then Some db else update_pipeline_site now i Ps_failed st (Some err) db)"

text \<open>The start of a stage; the flag tells whether the stage is to run.\<close>

definition begin_stage ::
  "pipe_db \<Rightarrow> time \<Rightarrow> site_status \<Rightarrow> stage \<Rightarrow> nat \<Rightarrow> nat \<Rightarrow> pipe_db \<Rightarrow> (pipe_db \<times> bool) option" where
  "begin_stage read now s st site i db =
     (case require_pipeline_site read i site of
        None \<Rightarrow> None
      | Some False \<Rightarrow> Some (db, False)
      | Some True \<Rightarrow> map_option (\<lambda>db'. (db', True)) (update_pipeline_site now i s st None db))"

definition enqueue_pipeline_task ::
  "redis \<Rightarrow> string option \<Rightarrow> nat \<Rightarrow> time \<Rightarrow> nat \<Rightarrow> stage \<Rightarrow> nat \<Rightarrow> pipe_db \<Rightarrow> pipe_db \<times> (enqueue_error + job_run)" where
  "enqueue_pipeline_task redis enqueued limit now site st i db =
     (case enqueue_job redis enqueued limit now site (if st = At_ingestion then Ingestion else Analysis) None (pd_jobs db) of
        (jobs, Inl e) \<Rightarrow> (db\<lparr>pd_jobs := jobs\<rparr>, Inl e)
      | (jobs, Inr run) \<Rightarrow>
          (db\<lparr>pd_jobs := jobs, pd_queue := pd_queue db @ [(or_else (jr_queue_id run) [], site, st, i)]\<rparr>, Inr run))"

text \<open>A fast analysis worker may have advanced the row before its job run is recorded.\<close>

definition handed_over :: "nat \<Rightarrow> pipeline_site_run \<Rightarrow> pipeline_site_run" where
  "handed_over run x =
     (let x1 = x\<lparr>ps_analysis_run := Some run\<rparr>
      in if ps_status x = Ps_ingestion_running
         then x1\<lparr>ps_status := Ps_analysis_queued, ps_stage := At_analysis, ps_error := None\<rparr> else x1)"

definition hand_over :: "nat \<Rightarrow> nat \<Rightarrow> pipe_db \<Rightarrow> pipe_db option" where
  "hand_over run i db =
     (case get_row ps_id i (pd_items db) of
        None \<Rightarrow> None | Some x \<Rightarrow> Some (set_items (\<lambda>x. ps_id x = i) (handed_over run) db))"

text \<open>\<open>str(error)\<close> of a failed enqueue; \<open>down\<close> is the text of a Redis exception.\<close>

fun kind_name :: "job_kind \<Rightarrow> string" where
  "kind_name Ingestion = ''ingestion''"
| "kind_name Analysis = ''analysis''"
| "kind_name Publication_preparation = ''publication_preparation''"
| "kind_name Publication = ''publication''"

fun run_status_name :: "run_status \<Rightarrow> string" where
  "run_status_name Queued = ''queued''"
| "run_status_name Running = ''running''"
| "run_status_name Succeeded = ''succeeded''"
| "run_status_name Run_failed = ''failed''"

fun error_text :: "string \<Rightarrow> nat \<Rightarrow> enqueue_error \<Rightarrow> string" where
  "error_text down site (Duplicate_job r) = kind_name (jr_kind r) @ '' job already '' @ run_status_name (jr_status r)
     @ '' for site '' @ digits (jr_site r)"
| "error_text down site (Job_capacity t limit) = ''tenant '' @ digits t @ '' already has '' @ digits limit @ '' active jobs''"
| "error_text down site Unknown_site = ''site '' @ digits site @ '' not found''"
| "error_text down site Redis_down = down"

definition is_duplicate :: "enqueue_error \<Rightarrow> bool" where
  "is_duplicate e \<longleftrightarrow> (case e of Duplicate_job _ \<Rightarrow> True | Job_capacity _ _ \<Rightarrow> True | _ \<Rightarrow> False)"

definition enqueue_message :: "string \<Rightarrow> nat \<Rightarrow> string \<Rightarrow> enqueue_error \<Rightarrow> string" where
  "enqueue_message down site intro e =
     (if is_duplicate e then error_text down site e else intro @ error_text down site e)"

datatype stage_end = Stage_returned | Stage_raised | Stage_cancelled | Stage_enqueue_error

text \<open>What follows the ingestion. A duplicate run fails the site at once; any other error is retried by RQ until
  the last attempt. \<open>None\<close>: a \<open>ValueError\<close> from the bookkeeping itself.\<close>

definition finish_ingestion ::
  "redis \<Rightarrow> string option \<Rightarrow> nat \<Rightarrow> string \<Rightarrow> bool \<Rightarrow> time \<Rightarrow> string option \<Rightarrow> nat \<Rightarrow> nat \<Rightarrow> pipe_db
     \<Rightarrow> (pipe_db \<times> stage_end) option" where
  "finish_ingestion redis enqueued limit down final now raised site i db =
     (case raised of
        Some err \<Rightarrow> map_option (\<lambda>db'. (db', Stage_raised)) (mark_stage_failure final now i At_ingestion err db)
      | None \<Rightarrow>
          (case require_pipeline_site db i site of
             None \<Rightarrow> None
           | Some False \<Rightarrow> Some (db, Stage_cancelled)
           | Some True \<Rightarrow>
               (case enqueue_pipeline_task redis enqueued limit now site At_analysis i db of
                  (db1, Inr run) \<Rightarrow> map_option (\<lambda>db'. (db', Stage_returned)) (hand_over (jr_id run) i db1)
                | (db1, Inl e) \<Rightarrow>
                    if is_duplicate e
                    then map_option (\<lambda>db'. (db', Stage_enqueue_error))
                           (update_pipeline_site now i Ps_failed At_analysis (Some (error_text down site e)) db1)
                    else map_option (\<lambda>db'. (db', Stage_raised))
                           (mark_stage_failure final now i At_analysis (error_text down site e) db1))))"

definition finish_analysis ::
  "bool \<Rightarrow> time \<Rightarrow> string option \<Rightarrow> nat \<Rightarrow> nat \<Rightarrow> pipe_db \<Rightarrow> (pipe_db \<times> stage_end) option" where
  "finish_analysis final now raised site i db =
     (case raised of
        Some err \<Rightarrow> map_option (\<lambda>db'. (db', Stage_raised)) (mark_stage_failure final now i At_analysis err db)
      | None \<Rightarrow>
          (case require_pipeline_site db i site of
             None \<Rightarrow> None
           | Some False \<Rightarrow> Some (db, Stage_cancelled)
           | Some True \<Rightarrow>
               map_option (\<lambda>db'. (set_items (\<lambda>x. ps_id x = i) (\<lambda>x. x\<lparr>ps_finished_at := Some now\<rparr>) db', Stage_returned))
                 (update_pipeline_site now i Ps_succeeded At_completed None db)))"

text \<open>The two tasks with nothing else committed while they run: \<open>outcome\<close> is what the wrapped task does,
  \<open>retries\<close> what RQ has left. A non-retryable error leaves no retries.\<close>

definition on_jobs :: "(job_db \<Rightarrow> job_db) \<Rightarrow> pipe_db \<Rightarrow> pipe_db" where
  "on_jobs f db = db\<lparr>pd_jobs := f (pd_jobs db)\<rparr>"

definition run_stage_durably :: "time \<Rightarrow> nat option \<Rightarrow> task_outcome \<Rightarrow> int option option \<Rightarrow> pipe_db \<Rightarrow> pipe_db" where
  "run_stage_durably now run outcome retries db =
     (case run of
        None \<Rightarrow> db
      | Some r \<Rightarrow> on_jobs (\<lambda>jobs. fst (finish_run now r outcome retries (start_run now r jobs))) db)"

definition raised_text :: "task_outcome \<Rightarrow> string option" where
  "raised_text outcome = (case outcome of Returned _ \<Rightarrow> None | Raised err _ \<Rightarrow> Some err)"

definition last_try :: "task_outcome \<Rightarrow> int option option \<Rightarrow> bool" where
  "last_try outcome retries = (case outcome of Returned _ \<Rightarrow> final_attempt False retries
     | Raised _ non_retryable \<Rightarrow> final_attempt non_retryable retries)"

definition ingest_pipeline_site ::
  "redis \<Rightarrow> string option \<Rightarrow> nat \<Rightarrow> string \<Rightarrow> time \<Rightarrow> nat option \<Rightarrow> task_outcome \<Rightarrow> int option option \<Rightarrow> nat \<Rightarrow> nat
     \<Rightarrow> pipe_db \<Rightarrow> (pipe_db \<times> stage_end) option" where
  "ingest_pipeline_site redis enqueued limit down now run outcome retries site i db =
     (case begin_stage db now Ps_ingestion_running At_ingestion site i db of
        None \<Rightarrow> None
      | Some (db1, False) \<Rightarrow> Some (db1, Stage_cancelled)
      | Some (db1, True) \<Rightarrow>
          finish_ingestion redis enqueued limit down (last_try outcome retries) now (raised_text outcome) site i
            (run_stage_durably now run outcome retries db1))"

definition analyze_pipeline_site ::
  "time \<Rightarrow> nat option \<Rightarrow> task_outcome \<Rightarrow> int option option \<Rightarrow> nat \<Rightarrow> nat \<Rightarrow> pipe_db
     \<Rightarrow> (pipe_db \<times> stage_end) option" where
  "analyze_pipeline_site now run outcome retries site i db =
     (case begin_stage db now Ps_analysis_running At_analysis site i db of
        None \<Rightarrow> None
      | Some (db1, False) \<Rightarrow> Some (db1, Stage_cancelled)
      | Some (db1, True) \<Rightarrow>
          finish_analysis (last_try outcome retries) now (raised_text outcome) site i
            (run_stage_durably now run outcome retries db1))"

section \<open>The routes\<close>

record batch_out =
  bo_batch :: pipeline_batch
  bo_counts :: batch_counts
  bo_sites :: "pipeline_site_run list"

definition batch_out_of :: "pipe_db \<Rightarrow> pipeline_batch \<Rightarrow> batch_out" where
  "batch_out_of db b = \<lparr>bo_batch = b, bo_counts = pipeline_batch_counts db (pb_id b),
     bo_sites = sort_key ps_id (items_of db (pb_id b))\<rparr>"

definition terminal_batch_status :: "batch_status \<Rightarrow> bool" where
  "terminal_batch_status s \<longleftrightarrow> s \<in> {Pb_succeeded, Pb_failed, Pb_partial_failed, Pb_cancelled}"

definition pipeline_snapshot :: "nat \<Rightarrow> pipe_db \<Rightarrow> batch_out option \<times> bool" where
  "pipeline_snapshot i db =
     (case get_row pb_id i (pd_batches db) of
        None \<Rightarrow> (None, True)
      | Some b \<Rightarrow> (Some (batch_out_of db b), terminal_batch_status (pb_status b)))"

definition min_stream_interval :: rat where "min_stream_interval = 1"
definition max_stream_interval :: rat where "max_stream_interval = 5"

definition next_stream_interval :: "rat \<Rightarrow> bool \<Rightarrow> rat" where
  "next_stream_interval interval changed =
     (if changed then min_stream_interval else min (interval * 2) max_stream_interval)"

datatype stream_event = Batch_deleted | Batch_event batch_out | Keep_alive | Stream_done | Sleep rat

text \<open>The generator over the snapshots it reads and the clock at each; it is still waiting when they run out.\<close>

fun stream_events ::
  "(batch_out option \<times> bool \<times> rat) list \<Rightarrow> batch_out option \<Rightarrow> rat \<Rightarrow> rat \<Rightarrow> stream_event list" where
  "stream_events [] previous last_sent interval = []"
| "stream_events ((None, terminal, now) # later) previous last_sent interval = [Batch_deleted]"
| "stream_events ((Some payload, terminal, now) # later) previous last_sent interval =
     (let changed = Some payload \<noteq> previous;
          sent = (if changed then [Batch_event payload] else if 15 \<le> now - last_sent then [Keep_alive] else []);
          last = (if sent \<noteq> [] then now else last_sent);
          delay = next_stream_interval interval changed
      in sent @ (if terminal then [Stream_done]
                 else Sleep delay # stream_events later (Some payload) last delay))"

definition authorized_batch :: "principal \<Rightarrow> nat \<Rightarrow> pipe_db \<Rightarrow> http_error + pipeline_batch" where
  "authorized_batch p i db =
     (case get_row pb_id i (pd_batches db) of
        None \<Rightarrow> Inl (Http 404)
      | Some b \<Rightarrow>
          if items_of db i = [] \<and> \<not> is_admin p then Inl (Http 404)
          else case check_all (\<lambda>x. case authorize_site (jd_sites (pd_jobs db)) p (ps_site x) of
                                    Inl e \<Rightarrow> Some e | Inr _ \<Rightarrow> None) (items_of db i) of
                 Some e \<Rightarrow> Inl e
               | None \<Rightarrow> Inr b)"

definition get_pipeline_batch :: "principal \<Rightarrow> nat \<Rightarrow> pipe_db \<Rightarrow> http_error + batch_out" where
  "get_pipeline_batch p i db = bind_ok (authorized_batch p i db) (\<lambda>b. Inr (batch_out_of db b))"

definition stream_pipeline_batch ::
  "principal \<Rightarrow> nat \<Rightarrow> rat \<Rightarrow> pipe_db \<Rightarrow> (pipe_db \<times> rat) list \<Rightarrow> http_error + stream_event list" where
  "stream_pipeline_batch p i start db reads =
     bind_ok (authorized_batch p i db) (\<lambda>_.
       Inr (stream_events (map (\<lambda>(db', now). case pipeline_snapshot i db' of (payload, terminal) \<Rightarrow> (payload, terminal, now))
              reads) None start min_stream_interval))"

text \<open>After an enqueue: the job run is recorded and a retried analysis is no longer merely queued.\<close>

definition stage_enqueued :: "stage \<Rightarrow> nat \<Rightarrow> pipeline_site_run \<Rightarrow> pipeline_site_run" where
  "stage_enqueued st run x =
     (if st = At_ingestion then x\<lparr>ps_ingestion_run := Some run\<rparr>
      else (let x1 = x\<lparr>ps_analysis_run := Some run\<rparr>
            in if ps_status x = Ps_queued then x1\<lparr>ps_status := Ps_analysis_queued\<rparr> else x1))"

definition enqueue_pipeline_stage ::
  "redis \<Rightarrow> string option \<Rightarrow> nat \<Rightarrow> time \<Rightarrow> pipeline_site_run \<Rightarrow> stage \<Rightarrow> pipe_db \<Rightarrow> pipe_db \<times> enqueue_error option" where
  "enqueue_pipeline_stage redis enqueued limit now x st db =
     (case enqueue_pipeline_task redis enqueued limit now (ps_site x) (if st = At_ingestion then st else At_analysis)
             (ps_id x) db of
        (db1, Inl e) \<Rightarrow> (db1, Some e)
      | (db1, Inr run) \<Rightarrow> (set_items (\<lambda>y. ps_id y = ps_id x) (stage_enqueued st (jr_id run)) db1, None))"

fun enqueue_batch ::
  "redis \<Rightarrow> (nat \<Rightarrow> string option) \<Rightarrow> nat \<Rightarrow> string \<Rightarrow> time \<Rightarrow> pipeline_site_run list \<Rightarrow> pipe_db \<Rightarrow> pipe_db option" where
  "enqueue_batch redis enqueued limit down now [] db = Some db"
| "enqueue_batch redis enqueued limit down now (x # xs) db =
     (case enqueue_pipeline_stage redis (enqueued (ps_id x)) limit now x At_ingestion db of
        (db1, None) \<Rightarrow> enqueue_batch redis enqueued limit down now xs db1
      | (db1, Some e) \<Rightarrow>
          (case update_pipeline_site now (ps_id x) Ps_failed At_ingestion
                  (Some (enqueue_message down (ps_site x) ''could not enqueue ingestion: '' e)) db1 of
             None \<Rightarrow> None
           | Some db2 \<Rightarrow> enqueue_batch redis enqueued limit down now xs db2))"

definition valid_batch_create :: "nat list \<Rightarrow> bool" where
  "valid_batch_create ids \<longleftrightarrow> ids \<noteq> [] \<and> length ids \<le> 100 \<and> 0 \<notin> set ids \<and> distinct ids"

definition new_items :: "time \<Rightarrow> nat \<Rightarrow> nat \<Rightarrow> nat list \<Rightarrow> pipeline_site_run list" where
  "new_items now batch first sites =
     map (\<lambda>(k, site). \<lparr>ps_id = first + k, ps_batch = batch, ps_site = site, ps_status = Ps_queued,
        ps_stage = At_ingestion, ps_ingestion_run = None, ps_analysis_run = None, ps_retries = 0, ps_error = None,
        ps_created_at = now, ps_started_at = None, ps_finished_at = None\<rparr>) (zip [0..<length sites] sites)"

definition insert_batch :: "time \<Rightarrow> nat list \<Rightarrow> pipe_db \<Rightarrow> pipe_db \<times> nat \<times> pipeline_site_run list" where
  "insert_batch now sites db =
     (let b = next_id pb_id (pd_batches db);
          items = new_items now b (next_id ps_id (pd_items db)) sites
      in (db\<lparr>pd_batches := pd_batches db @ [\<lparr>pb_id = b, pb_status = Pb_queued, pb_created_at = now,
              pb_started_at = None, pb_finished_at = None\<rparr>],
            pd_items := pd_items db @ items\<rparr>, b, items))"

definition create_pipeline_batch ::
  "redis \<Rightarrow> (nat \<Rightarrow> string option) \<Rightarrow> nat \<Rightarrow> string \<Rightarrow> time \<Rightarrow> principal \<Rightarrow> nat list \<Rightarrow> pipe_db
     \<Rightarrow> http_error + (pipe_db \<times> nat)" where
  "create_pipeline_batch redis enqueued limit down now p site_ids db =
     (let sites = filter (\<lambda>s. site_id s \<in> set site_ids) (jd_sites (pd_jobs db))
      in if \<not> valid_batch_create site_ids then Inl (Http 422)
         else if \<not> set site_ids \<subseteq> site_id ` set sites then Inl (Http 404)
         else case check_all (\<lambda>s. case authorize_site (jd_sites (pd_jobs db)) p (site_id s) of
                                   Inl e \<Rightarrow> Some e | Inr _ \<Rightarrow> None) sites of
                Some e \<Rightarrow> Inl e
              | None \<Rightarrow>
                  if list_ex (\<lambda>s. site_platform s = Pool) sites then Inl (Http 409)
                  else case insert_batch now site_ids db of
                         (db1, b, items) \<Rightarrow>
                           (case enqueue_batch redis enqueued limit down now items db1 of
                              None \<Rightarrow> Inl (Http 500)
                            | Some db2 \<Rightarrow>
                                (case refresh_pipeline_batch_status now db2 b db2 of
                                   None \<Rightarrow> Inl (Http 500) | Some db3 \<Rightarrow> Inr (db3, b))))"

definition stopped_run :: "time \<Rightarrow> string \<Rightarrow> job_run \<Rightarrow> job_run" where
  "stopped_run now reason r = r\<lparr>jr_status := Run_failed, jr_error := Some reason, jr_finished_at := Some now\<rparr>"

definition stop_queue_job :: "redis \<Rightarrow> time \<Rightarrow> string \<Rightarrow> nat option \<Rightarrow> pipe_db \<Rightarrow> pipe_db" where
  "stop_queue_job redis now reason run db =
     (case (case run of None \<Rightarrow> None | Some i \<Rightarrow> get_row jr_id i (jd_runs (pd_jobs db))) of
        None \<Rightarrow> db
      | Some r \<Rightarrow>
          if \<not> truthy (jr_queue_id r) then db
          else
            let q = or_else (jr_queue_id r) [];
                commands = (case redis q of
                    Rq_job s \<Rightarrow> if s \<in> {Rq_queued, Rq_deferred, Rq_scheduled} then [Cancel_job q]
                                else if s = Rq_started then [Stop_job q] else []
                  | _ \<Rightarrow> []);
                db1 = db\<lparr>pd_commands := pd_commands db @ commands\<rparr>
            in if active r
               then db1\<lparr>pd_jobs := set_runs (\<lambda>x. jr_id x = jr_id r) (stopped_run now reason) (pd_jobs db1)\<rparr>
               else db1)"

definition cancelled_item :: "time \<Rightarrow> string \<Rightarrow> pipeline_site_run \<Rightarrow> pipeline_site_run" where
  "cancelled_item now reason x = x\<lparr>ps_status := Ps_cancelled, ps_error := Some reason, ps_finished_at := Some now\<rparr>"

definition unfinished :: "pipeline_site_run \<Rightarrow> bool" where
  "unfinished x \<longleftrightarrow> ps_status x \<notin> {Ps_succeeded, Ps_failed}"

definition cancelled_batch :: "time \<Rightarrow> pipeline_batch \<Rightarrow> pipeline_batch" where
  "cancelled_batch now b = b\<lparr>pb_status := Pb_cancelled, pb_started_at := Some (or_else (pb_started_at b) now),
     pb_finished_at := Some now\<rparr>"

text \<open>The batch is loaded when the caller is authorized; locking it afterwards does not reload the row, so its
  status is still the one of \<open>read\<close>.\<close>

definition cancel_pipeline_batch ::
  "redis \<Rightarrow> time \<Rightarrow> principal \<Rightarrow> string \<Rightarrow> nat \<Rightarrow> pipe_db \<Rightarrow> pipe_db \<Rightarrow> http_error + pipe_db" where
  "cancel_pipeline_batch redis now p actor i read db =
     bind_ok (authorized_batch p i read) (\<lambda>b.
       if get_row pb_id i (pd_batches db) = None then Inl (Http 404)
       else if pb_status b \<in> {Pb_succeeded, Pb_failed, Pb_partial_failed} then Inl (Http 409)
       else if pb_status b = Pb_cancelled then Inr db
       else
         let reason = ''Cancelled by '' @ actor;
             stop = (\<lambda>x db. stop_queue_job redis now reason (ps_analysis_run x)
                              (stop_queue_job redis now reason (ps_ingestion_run x) db));
             db1 = fold stop (filter unfinished (items_of db i)) db
         in Inr (set_batches (\<lambda>b. pb_id b = i) (cancelled_batch now)
                  (set_items (\<lambda>x. ps_batch x = i \<and> unfinished x) (cancelled_item now reason) db1)))"

definition requeued :: "pipeline_site_run \<Rightarrow> pipeline_site_run" where
  "requeued x = x\<lparr>ps_status := Ps_queued, ps_error := None, ps_finished_at := None, ps_retries := ps_retries x + 1\<rparr>"

text \<open>The pending change of the row is not flushed when the batch is refreshed: the statuses read are the old
  ones.\<close>

definition retry_pipeline_site ::
  "redis \<Rightarrow> string option \<Rightarrow> nat \<Rightarrow> string \<Rightarrow> time \<Rightarrow> principal \<Rightarrow> nat \<Rightarrow> nat \<Rightarrow> pipe_db
     \<Rightarrow> pipe_db \<times> http_error option" where
  "retry_pipeline_site redis enqueued limit down now p i site db =
     (case authorized_batch p i db of
        Inl e \<Rightarrow> (db, Some e)
      | Inr b \<Rightarrow>
          (case find (\<lambda>x. ps_batch x = i \<and> ps_site x = site) (pd_items db) of
             None \<Rightarrow> (db, Some (Http 404))
           | Some x \<Rightarrow>
               if ps_status x \<noteq> Ps_failed then (db, Some (Http 409))
               else
                 (case refresh_pipeline_batch_status now db i (set_items (\<lambda>y. ps_id y = ps_id x) requeued db) of
                    None \<Rightarrow> (db, Some (Http 500))
                  | Some db1 \<Rightarrow>
                      (case enqueue_pipeline_stage redis enqueued limit now x (ps_stage x) db1 of
                         (db2, None) \<Rightarrow> (db2, None)
                       | (db2, Some e) \<Rightarrow>
                           (case update_pipeline_site now (ps_id x) Ps_failed (ps_stage x) 
                                   (Some (enqueue_message down site ''could not enqueue retry: '' e)) db2 of
                              None \<Rightarrow> (db2, Some (Http 500))
                            | Some db3 \<Rightarrow> (db3, Some (Http (if is_duplicate e then 409 else 503))))))))"


section \<open>The abstract batch\<close>

text \<open>Abstractly a batch is its sites and whether it was cancelled; its status is not stored but derived. The
  flag \<open>ab_started\<close> is false only until the status is computed for the first time.\<close>

record abatch =
  ab_sites :: "(nat \<times> site_status) list"
  ab_cancelled :: bool
  ab_started :: bool

definition derived :: "abatch \<Rightarrow> batch_status" where
  "derived a = (if ab_cancelled a then Pb_cancelled else if ab_started a then aggregate (map snd (ab_sites a))
     else Pb_queued)"

definition put_site :: "nat \<Rightarrow> site_status \<Rightarrow> (nat \<times> site_status) list \<Rightarrow> (nat \<times> site_status) list" where
  "put_site i s = update_where (\<lambda>x. fst x = i) (\<lambda>x. (fst x, s))"

definition cancel_site :: "nat \<times> site_status \<Rightarrow> nat \<times> site_status" where
  "cancel_site x = (fst x, if snd x \<in> {Ps_succeeded, Ps_failed} then snd x else Ps_cancelled)"

inductive abs_step :: "abatch \<Rightarrow> abatch \<Rightarrow> bool" where
  Idle: "abs_step a a"
| Create: "distinct ids \<Longrightarrow> abs_step \<lparr>ab_sites = [], ab_cancelled = False, ab_started = False\<rparr>
      \<lparr>ab_sites = map (\<lambda>i. (i, Ps_queued)) ids, ab_cancelled = False, ab_started = False\<rparr>"
| Start: "abs_step a (a\<lparr>ab_started := True\<rparr>)"
| Move: "(i, s0) \<in> set (ab_sites a) \<Longrightarrow> s0 \<noteq> Ps_cancelled
    \<Longrightarrow> s \<in> {Ps_ingestion_running, Ps_analysis_running, Ps_succeeded, Ps_failed}
    \<Longrightarrow> abs_step a (a\<lparr>ab_sites := put_site i s (ab_sites a), ab_started := True\<rparr>)"
| Hand_over: "(i, s0) \<in> set (ab_sites a) \<Longrightarrow> s0 \<in> {Ps_queued, Ps_ingestion_running}
    \<Longrightarrow> abs_step a (a\<lparr>ab_sites := put_site i Ps_analysis_queued (ab_sites a)\<rparr>)"
| Cancel: "abs_step a (a\<lparr>ab_sites := map cancel_site (ab_sites a), ab_cancelled := True, ab_started := True\<rparr>)"

definition abs_batch :: "nat \<Rightarrow> pipe_db \<Rightarrow> abatch" where
  "abs_batch b db = \<lparr>ab_sites = map (\<lambda>x. (ps_id x, ps_status x)) (items_of db b),
     ab_cancelled = list_ex (\<lambda>x. pb_id x = b \<and> pb_status x = Pb_cancelled) (pd_batches db),
     ab_started = list_ex (\<lambda>x. pb_id x = b \<and> pb_status x \<noteq> Pb_queued) (pd_batches db)\<rparr>"

section \<open>Transactions\<close>

text \<open>Every committed change, in any order, by any number of workers and requests. Retries are apart.\<close>

inductive pipe_step :: "pipe_db \<Rightarrow> pipe_db \<Rightarrow> bool" where
  Insert: "distinct sites \<Longrightarrow> pipe_step db (fst (insert_batch now sites db))"
| Refresh: "refresh_pipeline_batch_status now db i db = Some db' \<Longrightarrow> pipe_step db db'"
| Update: "update_pipeline_site now i s st err db = Some db'
    \<Longrightarrow> s \<in> {Ps_ingestion_running, Ps_analysis_running, Ps_succeeded, Ps_failed} \<Longrightarrow> pipe_step db db'"
| Enqueue: "pipe_step db (fst (enqueue_pipeline_task redis enqueued limit now site st i db))"
| Link: "pipe_step db (set_items (\<lambda>y. ps_id y = i) (stage_enqueued st run) db)"
| Handed: "hand_over run i db = Some db' \<Longrightarrow> pipe_step db db'"
| Finished: "pipe_step db (set_items (\<lambda>y. ps_id y = i) (\<lambda>y. y\<lparr>ps_finished_at := Some now\<rparr>) db)"
| Jobs: "pipe_step db (on_jobs f db)"
| Cancelled: "cancel_pipeline_batch redis now p actor i read db = Inr db' \<Longrightarrow> pipe_step db db'"

definition requeue_step :: "pipe_db \<Rightarrow> pipe_db \<Rightarrow> bool" where
  "requeue_step db db' \<longleftrightarrow> (\<exists>x\<in>set (pd_items db). \<exists>now. ps_status x = Ps_failed
     \<and> refresh_pipeline_batch_status now db (ps_batch x) (set_items (\<lambda>y. ps_id y = ps_id x) requeued db) = Some db')"

definition pipe_inv :: "pipe_db \<Rightarrow> bool" where
  "pipe_inv db \<longleftrightarrow> primary pb_id (pd_batches db) \<and> primary ps_id (pd_items db)
     \<and> (\<forall>x\<in>set (pd_items db). \<exists>b\<in>set (pd_batches db). pb_id b = ps_batch x)
     \<and> (\<forall>x\<in>set (pd_items db). ps_status x = Ps_cancelled \<longrightarrow> ab_cancelled (abs_batch (ps_batch x) db))
     \<and> (\<forall>b\<in>set (pd_batches db). pb_status b = derived (abs_batch (pb_id b) db))"

lemma pipe_invD:
  assumes "pipe_inv db"
  shows "primary pb_id (pd_batches db)" and "primary ps_id (pd_items db)"
    and "x \<in> set (pd_items db) \<Longrightarrow> \<exists>b\<in>set (pd_batches db). pb_id b = ps_batch x"
    and "x \<in> set (pd_items db) \<Longrightarrow> ps_status x = Ps_cancelled \<Longrightarrow> ab_cancelled (abs_batch (ps_batch x) db)"
    and "b \<in> set (pd_batches db) \<Longrightarrow> pb_status b = derived (abs_batch (pb_id b) db)"
  using assms unfolding pipe_inv_def by blast+

section \<open>Frames\<close>

lemma set_items_frame [simp]:
  "pd_batches (set_items P f db) = pd_batches db" "pd_items (set_items P f db) = update_where P f (pd_items db)"
  "pd_jobs (set_items P f db) = pd_jobs db" "pd_queue (set_items P f db) = pd_queue db"
  by (simp_all add: set_items_def)

lemma set_batches_frame [simp]:
  "pd_batches (set_batches P f db) = update_where P f (pd_batches db)" "pd_items (set_batches P f db) = pd_items db"
  "items_of (set_batches P f db) b = items_of db b"
  "pd_jobs (set_batches P f db) = pd_jobs db" "pd_queue (set_batches P f db) = pd_queue db"
  by (simp_all add: set_batches_def items_of_def)

lemma enqueue_task_tables [simp]:
  "pd_batches (fst (enqueue_pipeline_task redis enqueued limit now site st i db)) = pd_batches db"
  "pd_items (fst (enqueue_pipeline_task redis enqueued limit now site st i db)) = pd_items db"
  by (auto simp: enqueue_pipeline_task_def split: prod.splits sum.splits)

lemma stop_queue_job_frame [simp]:
  "pd_batches (stop_queue_job redis now reason run db) = pd_batches db"
  "pd_items (stop_queue_job redis now reason run db) = pd_items db"
  by (auto simp: stop_queue_job_def Let_def split: option.splits)

lemma fold_stop_frame [simp]:
  "pd_batches (fold (\<lambda>x db. stop_queue_job redis now reason (f x) (stop_queue_job redis now reason (g x) db)) xs db) = pd_batches db"
  "pd_items (fold (\<lambda>x db. stop_queue_job redis now reason (f x) (stop_queue_job redis now reason (g x) db)) xs db) = pd_items db"
  by (induction xs arbitrary: db) simp_all

lemma moved_frame [simp]:
  "ps_id (moved now s st err x) = ps_id x" "ps_batch (moved now s st err x) = ps_batch x"
  "ps_status (moved now s st err x) = s"
  by (simp_all add: moved_def Let_def)

lemma refreshed_frame [simp]: "pb_id (refreshed now s b) = pb_id b" "pb_status (refreshed now s b) = s"
  by (simp_all add: refreshed_def)

text \<open>The abstraction sees the two tables only.\<close>

lemma abs_batch_cong: "pd_batches db' = pd_batches db \<Longrightarrow> pd_items db' = pd_items db \<Longrightarrow> abs_batch b db' = abs_batch b db"
  by (simp add: abs_batch_def items_of_def)

lemma pipe_inv_cong: "pd_batches db' = pd_batches db \<Longrightarrow> pd_items db' = pd_items db \<Longrightarrow> pipe_inv db' = pipe_inv db"
  by (simp add: pipe_inv_def abs_batch_cong [of db' db])

lemma abs_batch_flags:
  assumes "primary pb_id (pd_batches db)" and "x \<in> set (pd_batches db)"
  shows "ab_cancelled (abs_batch (pb_id x) db) \<longleftrightarrow> pb_status x = Pb_cancelled"
    and "ab_started (abs_batch (pb_id x) db) \<longleftrightarrow> pb_status x \<noteq> Pb_queued"
  using assms primary_same [OF assms(1)] by (auto simp: abs_batch_def list_ex_iff)

lemma items_of_set_items:
  "(\<And>x. P x \<Longrightarrow> ps_batch (f x) = ps_batch x) \<Longrightarrow> items_of (set_items P f db) b = update_where P f (items_of db b)"
  by (rule trans [OF _ trans]) (auto simp: items_of_def set_items_def update_where_def filter_map comp_def
      intro!: map_cong filter_cong)

section \<open>Aggregation\<close>

lemma aggregate_facts: "aggregate ss \<noteq> Pb_queued" "aggregate ss = Pb_cancelled \<Longrightarrow> Ps_cancelled \<in> set ss"
  by (auto simp: aggregate_def split: if_splits)

text \<open>Moving between active statuses does not show in the aggregate.\<close>

lemma aggregate_cong:
  assumes "list_all2 (\<lambda>s t. s = t \<or> active_site_status s \<and> active_site_status t) ss ts"
  shows "aggregate ss = aggregate ts"
proof (cases "list_ex active_site_status ss")
  case True
  have "list_ex active_site_status ts" using assms True by (induction rule: list_all2_induct) auto
  with True show ?thesis by (simp add: aggregate_def)
next
  case False
  have "ss = ts" using assms False by (induction rule: list_all2_induct) auto
  then show ?thesis by simp
qed


section \<open>Every transaction is an abstract step\<close>

lemma snd_put_site:
  assumes "distinct (map fst sites)" and "(i, s0) \<in> set sites"
  shows "list_all2 (\<lambda>x y. snd x = snd y \<or> snd x = s0 \<and> snd y = s) sites (put_site i s sites)"
proof -
  have "x = (i, s0)" if "x \<in> set sites" "fst x = i" for x
    using assms that by (metis eq_key_imp_eq_value prod.collapse)
  then show ?thesis unfolding put_site_def update_where_def list_all2_map2 by (auto intro!: list.rel_refl_strong)
qed

lemma put_site_same: "\<forall>x\<in>set sites. fst x = i \<longrightarrow> snd x = s \<Longrightarrow> put_site i s sites = sites"
  unfolding put_site_def update_where_def by (rule map_idI) auto

lemma abs_sites_distinct: "primary ps_id (pd_items db) \<Longrightarrow> distinct (map fst (ab_sites (abs_batch b db)))"
  by (simp add: abs_batch_def items_of_def primary_def comp_def distinct_map_filter)

lemma abs_set_items:
  assumes "primary ps_id (pd_items db)" and "x \<in> set (pd_items db)" and "ps_id x = i"
    and "\<And>x. ps_id (f x) = ps_id x \<and> ps_batch (f x) = ps_batch x"
  shows "abs_batch b (set_items (\<lambda>y. ps_id y = i) f db) = (if ps_batch x = b
    then (abs_batch b db)\<lparr>ab_sites := put_site i (ps_status (f x)) (ab_sites (abs_batch b db))\<rparr> else abs_batch b db)"
proof -
  have items: "items_of (set_items (\<lambda>y. ps_id y = i) f db) b = update_where (\<lambda>y. ps_id y = i) f (items_of db b)"
    by (rule items_of_set_items) (simp add: assms(4))
  have one: "y = x" if "y \<in> set (items_of db b)" "ps_id y = i" for y
    using primary_same [OF assms(1) _ assms(2)] that assms(3) by (simp add: items_of_def)
  have "map (\<lambda>x. (ps_id x, ps_status x)) (update_where (\<lambda>y. ps_id y = i) f (items_of db b))
      = put_site i (ps_status (f x)) (map (\<lambda>x. (ps_id x, ps_status x)) (items_of db b))"
    using one by (auto simp: update_where_def put_site_def assms(4))
  moreover have "update_where (\<lambda>y. ps_id y = i) f (items_of db b) = items_of db b" if "ps_batch x \<noteq> b"
    using one that by (intro update_where_none) (auto simp: items_of_def)
  ultimately show ?thesis by (cases "ps_batch x = b") (simp_all add: abs_batch_def items)
qed

definition pipe_pre :: "pipe_db \<Rightarrow> bool" where
  "pipe_pre db \<longleftrightarrow> primary pb_id (pd_batches db) \<and> primary ps_id (pd_items db)
     \<and> (\<forall>x\<in>set (pd_items db). \<exists>b\<in>set (pd_batches db). pb_id b = ps_batch x)
     \<and> (\<forall>x\<in>set (pd_items db). ps_status x = Ps_cancelled \<longrightarrow> ab_cancelled (abs_batch (ps_batch x) db))"

lemma pipe_inv_iff: "pipe_inv db \<longleftrightarrow> pipe_pre db
    \<and> (\<forall>b\<in>set (pd_batches db). pb_status b = derived (abs_batch (pb_id b) db))"
  unfolding pipe_inv_def pipe_pre_def by blast

lemma set_items_keys: "(\<And>x. ps_id (f x) = ps_id x) \<Longrightarrow> primary ps_id (pd_items (set_items P f db)) = primary ps_id (pd_items db)"
  by (simp add: primary_def update_where_def comp_def if_distrib cong: if_cong)

lemma pre_set_items:
  assumes "pipe_pre db" and "\<And>x. ps_id (f x) = ps_id x \<and> ps_batch (f x) = ps_batch x"
    and "\<And>x. x \<in> set (pd_items db) \<Longrightarrow> P x \<Longrightarrow> ps_status (f x) = Ps_cancelled \<Longrightarrow> ps_status x = Ps_cancelled"
  shows "pipe_pre (set_items P f db)"
proof -
  have "ab_cancelled (abs_batch b (set_items P f db)) = ab_cancelled (abs_batch b db)" for b
    by (simp add: abs_batch_def)
  with assms show ?thesis
    unfolding pipe_pre_def set_items_keys [of f P db, OF conjunct1 [OF assms(2)]]
    by (auto simp: set_update_where split: if_splits)
qed

text \<open>Refreshing a batch whose sites just changed restores the invariant and only starts the batch.\<close>

lemma list_ex_update: "list_ex Q (update_where P f xs) = list_ex (\<lambda>x. Q (if P x then f x else x)) xs"
  by (induction xs) (simp_all add: update_where_def)

lemma refresh_cases:
  assumes "pipe_pre db" and "refresh_pipeline_batch_status now db c db = Some db'"
  shows "pd_items db' = pd_items db" and "map pb_id (pd_batches db') = map pb_id (pd_batches db)"
    and "\<And>y. y \<in> set (pd_batches db') \<Longrightarrow> pb_id y \<noteq> c \<Longrightarrow> y \<in> set (pd_batches db)"
    and "abs_batch b db' = (if b = c then (abs_batch b db)\<lparr>ab_started := True\<rparr> else abs_batch b db)"
    and "\<And>y. y \<in> set (pd_batches db') \<Longrightarrow> pb_id y = c \<Longrightarrow> pb_status y = derived ((abs_batch c db)\<lparr>ab_started := True\<rparr>)"
proof -
  have prim: "primary pb_id (pd_batches db)" using assms(1) by (simp add: pipe_pre_def)
  obtain x where x: "x \<in> set (pd_batches db)" "pb_id x = c" "get_row pb_id c (pd_batches db) = Some x"
    using assms(2) get_row_Some [of pb_id c "pd_batches db"] by (auto simp: refresh_pipeline_batch_status_def split: option.splits)
  note flags = abs_batch_flags [OF prim x(1), unfolded x(2)]
  have only: "y = x" if "y \<in> set (pd_batches db)" "pb_id y = c" for y
    using primary_same [OF prim that(1) x(1)] that(2) x(2) by simp
  let ?s = "aggregate (map ps_status (items_of db c))"
  have agg: "aggregate (map snd (ab_sites (abs_batch c db))) = ?s" by (simp add: abs_batch_def comp_def)
  have "pd_items db' = pd_items db \<and> map pb_id (pd_batches db') = map pb_id (pd_batches db)
    \<and> (\<forall>y\<in>set (pd_batches db'). pb_id y \<noteq> c \<longrightarrow> y \<in> set (pd_batches db))
    \<and> abs_batch b db' = (if b = c then (abs_batch b db)\<lparr>ab_started := True\<rparr> else abs_batch b db)
    \<and> (\<forall>y\<in>set (pd_batches db'). pb_id y = c \<longrightarrow> pb_status y = derived ((abs_batch c db)\<lparr>ab_started := True\<rparr>))"
  proof (cases "pb_status x = Pb_cancelled")
    case True
    then have "db' = db" using assms(2) x(3) by (simp add: refresh_pipeline_batch_status_def)
    then show ?thesis using flags True only by (auto simp: derived_def)
  next
    case False
    then have db': "db' = set_batches (\<lambda>y. pb_id y = c) (refreshed now ?s) db"
      using assms(2) x(3) by (simp add: refresh_pipeline_batch_status_def)
    have "ab_cancelled (abs_batch c db)" if "?s = Pb_cancelled"
      using assms(1) aggregate_facts(2) [OF that] by (auto simp: pipe_pre_def items_of_def)
    then have s: "?s \<noteq> Pb_cancelled" "?s \<noteq> Pb_queued" using flags False aggregate_facts(1) by auto
    have "abs_batch b db' = (if b = c then (abs_batch b db)\<lparr>ab_started := True\<rparr> else abs_batch b db)"
    proof (cases "b = c")
      case True
      have "list_ex (\<lambda>y. pb_id y = c) (pd_batches db)" using x(1,2) by (auto simp: list_ex_iff)
      with True s have "ab_cancelled (abs_batch b db') = False \<and> ab_started (abs_batch b db') = True"
        by (simp add: abs_batch_def db' list_ex_update if_distrib cong: list_ex_cong if_cong)
          (simp add: list_ex_iff)
      then show ?thesis using True flags(1) False by (simp add: abs_batch_def db')
    next
      case other: False
      then show ?thesis by (auto simp: abs_batch_def db' list_ex_update intro!: list_ex_cong)
    qed
    moreover have "derived ((abs_batch c db)\<lparr>ab_started := True\<rparr>) = ?s"
      using flags(1) False agg by (simp add: derived_def)
    moreover have "pb_status y = ?s" if y: "y \<in> set (pd_batches db')" "pb_id y = c" for y
    proof -
      obtain z where "y = (if pb_id z = c then refreshed now ?s z else z)" using y(1) unfolding db' set_batches_frame set_update_where by blast
      then show ?thesis using y(2) by (auto split: if_splits)
    qed
    moreover have "y \<in> set (pd_batches db)" if "y \<in> set (pd_batches db')" "pb_id y \<noteq> c" for y
      using that by (auto simp: db' set_update_where split: if_splits)
    moreover have "map pb_id (pd_batches db') = map pb_id (pd_batches db)"
      by (simp add: db' update_where_def comp_def if_distrib cong: if_cong)
    moreover have "pd_items db' = pd_items db" by (simp add: db')
    ultimately show ?thesis by simp
  qed
  then show "pd_items db' = pd_items db" and "map pb_id (pd_batches db') = map pb_id (pd_batches db)"
    and "\<And>y. y \<in> set (pd_batches db') \<Longrightarrow> pb_id y \<noteq> c \<Longrightarrow> y \<in> set (pd_batches db)"
    and "abs_batch b db' = (if b = c then (abs_batch b db)\<lparr>ab_started := True\<rparr> else abs_batch b db)"
    and "\<And>y. y \<in> set (pd_batches db') \<Longrightarrow> pb_id y = c \<Longrightarrow> pb_status y = derived ((abs_batch c db)\<lparr>ab_started := True\<rparr>)"
    by blast+
qed

lemma refresh_sim:
  assumes "pipe_pre db" and "\<And>x. x \<in> set (pd_batches db) \<Longrightarrow> pb_id x \<noteq> c \<Longrightarrow> pb_status x = derived (abs_batch (pb_id x) db)"
    and "refresh_pipeline_batch_status now db c db = Some db'"
  shows "pipe_inv db'"
proof -
  note r = refresh_cases [OF assms(1,3)]
  have ids: "pb_id ` set (pd_batches db') = pb_id ` set (pd_batches db)" by (metis r(2) set_map)
  have "primary pb_id (pd_batches db')" using assms(1) by (simp add: pipe_pre_def primary_def r(2))
  moreover have "\<exists>b\<in>set (pd_batches db'). pb_id b = ps_batch x" if "x \<in> set (pd_items db)" for x
    using assms(1) that ids unfolding pipe_pre_def by (metis image_iff)
  moreover have "ab_cancelled (abs_batch i db') = ab_cancelled (abs_batch i db)" for i by (simp add: r(4))
  ultimately have "pipe_pre db'" using assms(1) by (simp add: pipe_pre_def r(1))
  moreover have "pb_status y = derived (abs_batch (pb_id y) db')" if "y \<in> set (pd_batches db')" for y
    using r(5) [OF that] assms(2) [OF r(3) [OF that]] by (cases "pb_id y = c") (simp_all add: r(4))
  ultimately show ?thesis by (simp add: pipe_inv_iff)
qed


text \<open>A change of one row between active statuses: the stored status stays the derived one.\<close>

lemma hand_over_sim:
  assumes "pipe_inv db" and frame: "\<And>x. ps_id (f x) = ps_id x \<and> ps_batch (f x) = ps_batch x"
    and status: "\<And>x. ps_status (f x) = ps_status x
      \<or> ps_status x \<in> {Ps_queued, Ps_ingestion_running} \<and> ps_status (f x) = Ps_analysis_queued"
  shows "pipe_inv (set_items (\<lambda>y. ps_id y = i) f db) \<and> abs_step (abs_batch b db) (abs_batch b (set_items (\<lambda>y. ps_id y = i) f db))"
proof (cases "\<exists>x\<in>set (pd_items db). ps_id x = i")
  case False
  then have "set_items (\<lambda>y. ps_id y = i) f db = db" by (simp add: set_items_def update_where_none)
  then show ?thesis using assms(1) by (simp add: abs_step.Idle)
next
  case True
  then obtain x where x: "x \<in> set (pd_items db)" "ps_id x = i" by blast
  let ?db = "set_items (\<lambda>y. ps_id y = i) f db"
  note prim = pipe_invD(2) [OF assms(1)]
  note abs = abs_set_items [OF prim x, of f, OF frame]
  have site: "(i, ps_status x) \<in> set (ab_sites (abs_batch (ps_batch x) db))"
    using x by (auto simp: abs_batch_def items_of_def)
  have same: "put_site i (ps_status x) (ab_sites (abs_batch c db)) = ab_sites (abs_batch c db)" for c
  proof (rule put_site_same)
    have "y = x" if "y \<in> set (pd_items db)" "ps_id y = i" for y
      using primary_same [OF prim that(1) x(1)] that(2) x(2) by simp
    then show "\<forall>y\<in>set (ab_sites (abs_batch c db)). fst y = i \<longrightarrow> snd y = ps_status x"
      by (auto simp: abs_batch_def items_of_def)
  qed
  have "abs_step (abs_batch b db) (abs_batch b ?db)"
  proof (cases "ps_batch x = b \<and> ps_status (f x) \<noteq> ps_status x")
    case True
    then show ?thesis using status [of x] site unfolding abs by (auto intro: abs_step.Hand_over)
  next
    case False
    then have "abs_batch b ?db = abs_batch b db" using same unfolding abs by auto
    then show ?thesis by (simp add: abs_step.Idle)
  qed
  moreover have "derived (abs_batch c ?db) = derived (abs_batch c db)" for c
  proof (cases "ps_batch x = c \<and> ps_status (f x) \<noteq> ps_status x")
    case True
    then have st: "active_site_status (ps_status x)" "active_site_status (ps_status (f x))"
      using status [of x] by (auto simp: active_site_status_def)
    have "list_all2 (\<lambda>s t. s = t \<or> active_site_status s \<and> active_site_status t)
        (map snd (ab_sites (abs_batch c db))) (map snd (put_site i (ps_status (f x)) (ab_sites (abs_batch c db))))"
      unfolding list_all2_map1 list_all2_map2 conjunct1 [OF True, symmetric]
      by (rule list_all2_mono [OF snd_put_site [OF abs_sites_distinct [OF prim] site, of "ps_status (f x)"]]) (use st in auto)
    from aggregate_cong [OF this] show ?thesis using True unfolding abs by (simp add: derived_def)
  next
    case False
    then show ?thesis using same unfolding abs by auto
  qed
  moreover have "pipe_pre ?db"
    using assms(1) frame status by (intro pre_set_items) (auto simp: pipe_inv_iff, metis site_status.distinct)
  ultimately show ?thesis using assms(1) by (simp add: pipe_inv_iff)
qed

lemma update_sim:
  assumes "pipe_inv db" and "update_pipeline_site now i s st err db = Some db'"
    and s: "s \<in> {Ps_ingestion_running, Ps_analysis_running, Ps_succeeded, Ps_failed}"
  shows "pipe_inv db' \<and> abs_step (abs_batch b db) (abs_batch b db')"
proof -
  obtain x where x: "x \<in> set (pd_items db)" "ps_id x = i" "get_row ps_id i (pd_items db) = Some x"
    using assms(2) get_row_Some [of ps_id i "pd_items db"] by (auto simp: update_pipeline_site_def split: option.splits)
  show ?thesis
  proof (cases "ps_status x = Ps_cancelled")
    case True
    then have "db' = db" using assms(2) x(3) s by (auto simp: update_pipeline_site_def)
    then show ?thesis using assms(1) by (simp add: abs_step.Idle)
  next
    case False
    let ?db = "set_items (\<lambda>y. ps_id y = i) (moved now s st err) db"
    have r: "refresh_pipeline_batch_status now ?db (ps_batch x) ?db = Some db'"
      using assms(2) x(3) False by (simp add: update_pipeline_site_def Let_def)
    note abs = abs_set_items [OF pipe_invD(2) [OF assms(1)] x(1,2), of "moved now s st err"]
    have pre: "pipe_pre ?db" using assms(1) s by (intro pre_set_items) (auto simp: pipe_inv_iff)
    have "pb_status y = derived (abs_batch (pb_id y) ?db)" if "y \<in> set (pd_batches ?db)" "pb_id y \<noteq> ps_batch x" for y
      using that pipe_invD(5) [OF assms(1), of y] by (simp add: abs)
    from refresh_sim [OF pre this r] have "pipe_inv db'" by blast
    moreover have "(i, ps_status x) \<in> set (ab_sites (abs_batch (ps_batch x) db))"
      using x by (auto simp: abs_batch_def items_of_def)
    from abs_step.Move [OF this False s] refresh_cases(4) [OF pre r, of b]
    have "abs_step (abs_batch b db) (abs_batch b db')" by (auto simp: abs intro: abs_step.Idle)
    ultimately show ?thesis by blast
  qed
qed

lemma cancel_batch_shape:
  assumes "cancel_pipeline_batch redis now p actor i read db = Inr db'"
  shows "db' = db \<or> pd_batches db' = update_where (\<lambda>b. pb_id b = i) (cancelled_batch now) (pd_batches db)
    \<and> pd_items db' = update_where (\<lambda>x. ps_batch x = i \<and> unfinished x)
        (cancelled_item now (''Cancelled by '' @ actor)) (pd_items db) \<and> (\<exists>b\<in>set (pd_batches db). pb_id b = i)"
  using assms get_row_None_iff [of pb_id i "pd_batches db"]
  by (auto simp: cancel_pipeline_batch_def bind_ok_eq_Inr Let_def split: if_splits)

lemma cancel_sim:
  assumes "pipe_inv db" and "cancel_pipeline_batch redis now p actor i read db = Inr db'"
  shows "pipe_inv db' \<and> abs_step (abs_batch b db) (abs_batch b db')"
proof (cases "db' = db")
  case True
  then show ?thesis using assms(1) by (simp add: abs_step.Idle)
next
  case False
  define f where "f = cancelled_item now (''Cancelled by '' @ actor)"
  let ?f = f
  have shape: "pd_batches db' = update_where (\<lambda>b. pb_id b = i) (cancelled_batch now) (pd_batches db)"
    "pd_items db' = update_where (\<lambda>x. ps_batch x = i \<and> unfinished x) ?f (pd_items db)" "\<exists>b\<in>set (pd_batches db). pb_id b = i"
    using cancel_batch_shape [OF assms(2)] False by (auto simp: f_def)
  have f: "ps_id (?f x) = ps_id x" "ps_batch (?f x) = ps_batch x" "ps_status (?f x) = Ps_cancelled" for x
    by (simp_all add: f_def cancelled_item_def)
  have g: "pb_id (cancelled_batch now b) = pb_id b" "pb_status (cancelled_batch now b) = Pb_cancelled" for b
    by (simp_all add: cancelled_batch_def)
  have items: "items_of db' c = (if c = i then update_where unfinished ?f (items_of db c) else items_of db c)" for c
    using items_of_set_items [of "\<lambda>x. ps_batch x = i \<and> unfinished x" ?f db c] f
    by (auto simp: items_of_def shape(2) update_where_def intro!: map_cong map_idI)
  have abs: "abs_batch c db' = (if c = i then (abs_batch c db)\<lparr>ab_sites := map cancel_site (ab_sites (abs_batch c db)),
      ab_cancelled := True, ab_started := True\<rparr> else abs_batch c db)" for c
  proof (cases "c = i")
    case True
    have "list_ex (\<lambda>y. pb_id y = i) (pd_batches db)" using shape(3) by (auto simp: list_ex_iff)
    then have "ab_cancelled (abs_batch i db') \<and> ab_started (abs_batch i db')"
      by (simp add: abs_batch_def shape(1) list_ex_update g if_distrib cong: list_ex_cong if_cong)
    moreover have "ab_sites (abs_batch i db') = map cancel_site (ab_sites (abs_batch i db))"
      by (auto simp: abs_batch_def items update_where_def f cancel_site_def unfinished_def)
    ultimately show ?thesis unfolding True by simp
  next
    case other: False
    then show ?thesis by (auto simp: abs_batch_def items shape(1) list_ex_update g intro!: list_ex_cong)
  qed
  have "primary pb_id (pd_batches db')" "primary ps_id (pd_items db')"
    using pipe_invD(1,2) [OF assms(1)]
    by (simp_all add: shape primary_def update_where_def comp_def if_distrib f g cong: if_cong)
  moreover have "\<exists>y\<in>set (pd_batches db'). pb_id y = ps_batch x" if item: "x \<in> set (pd_items db')" for x
  proof -
    obtain z where z: "z \<in> set (pd_items db)" "ps_batch z = ps_batch x"
      using item unfolding shape(2) set_update_where by (auto simp: f split: if_splits)
    have "map pb_id (pd_batches db') = map pb_id (pd_batches db)"
      by (simp add: shape(1) update_where_def comp_def if_distrib g cong: if_cong)
    then have "pb_id ` set (pd_batches db') = pb_id ` set (pd_batches db)" by (metis set_map)
    with pipe_invD(3) [OF assms(1) z(1)] z(2) show ?thesis by (metis (no_types, lifting) image_iff)
  qed
  moreover have "ab_cancelled (abs_batch (ps_batch x) db')" if "x \<in> set (pd_items db')" "ps_status x = Ps_cancelled" for x
    using that pipe_invD(4) [OF assms(1)] by (auto simp: shape(2) set_update_where f abs split: if_splits)
  moreover have "pb_status y = derived (abs_batch (pb_id y) db')" if "y \<in> set (pd_batches db')" for y
    using that pipe_invD(5) [OF assms(1)] by (auto simp: shape(1) set_update_where g abs derived_def split: if_splits)
  ultimately have "pipe_inv db'" unfolding pipe_inv_def by blast
  moreover have "abs_step (abs_batch b db) (abs_batch b db')" by (simp add: abs abs_step.Idle abs_step.Cancel)
  ultimately show ?thesis by blast
qed


lemma new_items_frame:
  assumes "x \<in> set (new_items now b first sites)"
  shows "ps_batch x = b" and "ps_status x = Ps_queued" and "first \<le> ps_id x"
  using assms by (auto simp: new_items_def)

lemma new_items_ids: "map ps_id (new_items now b first sites) = [first..<first + length sites]"
  by (rule nth_equalityI) (simp_all add: new_items_def)

lemma next_id_above: "x \<in> set rows \<Longrightarrow> key x < next_id key rows"
  unfolding next_id_def using fold_max_ge [of 0 "map key rows"] by fastforce

lemma insert_sim:
  assumes "pipe_inv db"
  shows "pipe_inv (fst (insert_batch now sites db)) \<and> abs_step (abs_batch b db) (abs_batch b (fst (insert_batch now sites db)))"
proof -
  let ?b = "next_id pb_id (pd_batches db)" and ?i = "next_id ps_id (pd_items db)"
  let ?items = "new_items now ?b ?i sites" and ?db = "fst (insert_batch now sites db)"
  let ?row = "\<lparr>pb_id = ?b, pb_status = Pb_queued, pb_created_at = now, pb_started_at = None, pb_finished_at = None\<rparr>"
  have tables: "pd_batches ?db = pd_batches db @ [?row]" "pd_items ?db = pd_items db @ ?items"
    by (simp_all add: insert_batch_def Let_def)
  have old: "pb_id x \<noteq> ?b" if "x \<in> set (pd_batches db)" for x using next_id_above [OF that, of pb_id] by simp
  have none: "ps_batch x \<noteq> ?b" if "x \<in> set (pd_items db)" for x
    using pipe_invD(3) [OF assms that] old by metis
  have abs: "abs_batch c ?db = (if c = ?b then \<lparr>ab_sites = map (\<lambda>i. (i, Ps_queued)) (map ps_id ?items),
      ab_cancelled = False, ab_started = False\<rparr> else abs_batch c db)" for c
  proof -
    have "filter (\<lambda>x. ps_batch x = c) ?items = (if c = ?b then ?items else [])"
      using new_items_frame(1) [of _ now ?b ?i sites] by (auto simp: filter_empty_conv filter_id_conv)
    moreover have "map (\<lambda>x. (ps_id x, ps_status x)) ?items = map (\<lambda>i. (i, Ps_queued)) (map ps_id ?items)"
      using new_items_frame(2) [of _ now ?b ?i sites] by simp
    ultimately show ?thesis using none old
      by (auto simp: abs_batch_def items_of_def tables filter_empty_conv list_ex_iff)
  qed
  have fresh: "abs_batch ?b db = \<lparr>ab_sites = [], ab_cancelled = False, ab_started = False\<rparr>"
    using none old by (auto simp: abs_batch_def items_of_def filter_empty_conv list_ex_iff)
  have "primary pb_id (pd_batches ?db)" using pipe_invD(1) [OF assms] next_id_fresh [of pb_id "pd_batches db"]
    by (simp add: tables primary_def)
  moreover have "primary ps_id (pd_items ?db)"
    using pipe_invD(2) [OF assms] next_id_above [of _ "pd_items db" ps_id] by (fastforce simp: tables primary_def new_items_ids)
  moreover have "\<exists>y\<in>set (pd_batches ?db). pb_id y = ps_batch x" if "x \<in> set (pd_items ?db)" for x
    using that pipe_invD(3) [OF assms] new_items_frame(1) by (fastforce simp: tables)
  moreover have "ab_cancelled (abs_batch (ps_batch x) ?db)" if "x \<in> set (pd_items ?db)" "ps_status x = Ps_cancelled" for x
    using that pipe_invD(4) [OF assms] none new_items_frame(2) [of x now ?b ?i sites] by (auto simp: tables abs)
  moreover have "pb_status y = derived (abs_batch (pb_id y) ?db)" if "y \<in> set (pd_batches ?db)" for y
    using that pipe_invD(5) [OF assms] old by (auto simp: tables abs derived_def)
  ultimately have "pipe_inv ?db" unfolding pipe_inv_def by blast
  moreover have "abs_step (abs_batch b db) (abs_batch b ?db)"
  proof (cases "b = ?b")
    case True
    have "distinct (map ps_id ?items)" unfolding new_items_ids by simp
    from abs_step.Create [OF this] show ?thesis by (simp only: True abs fresh simp_thms if_True)
  next
    case False
    then show ?thesis by (simp add: abs abs_step.Idle)
  qed
  ultimately show ?thesis by blast
qed

lemma pipe_step_sim:
  assumes "pipe_step db db'" and "pipe_inv db"
  shows "pipe_inv db' \<and> abs_step (abs_batch b db) (abs_batch b db')"
  using assms
proof cases
  case (Insert sites now)
  then show ?thesis using insert_sim [OF assms(2)] by blast
next
  case (Refresh now i)
  have pre: "pipe_pre db" and derived: "\<And>x. x \<in> set (pd_batches db) \<Longrightarrow> pb_status x = derived (abs_batch (pb_id x) db)"
    using assms(2) by (auto simp: pipe_inv_iff)
  have "pipe_inv db'" using refresh_sim [OF pre _ Refresh] derived by blast
  then show ?thesis using refresh_cases(4) [OF pre Refresh, of b] abs_step.Start [of "abs_batch b db"]
    by (auto intro: abs_step.Idle)
next
  case (Update now i s st err)
  then show ?thesis using update_sim [OF assms(2)] by blast
next
  case Enqueue
  then show ?thesis using assms(2) pipe_inv_cong [of db' db] abs_batch_cong [of db' db] by (simp add: abs_step.Idle)
next
  case (Link i st run)
  have "pipe_inv (set_items (\<lambda>y. ps_id y = i) (stage_enqueued st run) db)
      \<and> abs_step (abs_batch b db) (abs_batch b (set_items (\<lambda>y. ps_id y = i) (stage_enqueued st run) db))"
    by (rule hand_over_sim [OF assms(2)]) (auto simp: stage_enqueued_def Let_def)
  then show ?thesis using Link by simp
next
  case (Handed run i)
  have "pipe_inv (set_items (\<lambda>y. ps_id y = i) (handed_over run) db)
      \<and> abs_step (abs_batch b db) (abs_batch b (set_items (\<lambda>y. ps_id y = i) (handed_over run) db))"
    by (rule hand_over_sim [OF assms(2)]) (auto simp: handed_over_def Let_def)
  then show ?thesis using Handed by (auto simp: hand_over_def split: option.splits)
next
  case (Finished i now)
  have "pipe_inv (set_items (\<lambda>y. ps_id y = i) (\<lambda>y. y\<lparr>ps_finished_at := Some now\<rparr>) db)
      \<and> abs_step (abs_batch b db) (abs_batch b (set_items (\<lambda>y. ps_id y = i) (\<lambda>y. y\<lparr>ps_finished_at := Some now\<rparr>) db))"
    by (rule hand_over_sim [OF assms(2)]) auto
  then show ?thesis using Finished by simp
next
  case (Jobs f)
  then show ?thesis using assms(2) pipe_inv_cong [of db' db] abs_batch_cong [of db' db] by (simp add: on_jobs_def abs_step.Idle)
next
  case (Cancelled redis now p actor i read)
  then show ?thesis using cancel_sim [OF assms(2)] by blast
qed

section \<open>Refinement\<close>

text \<open>A forward simulation: each concrete step, from a state of the invariant, is an abstract one.\<close>

locale simulation =
  fixes step :: "'c \<Rightarrow> 'c \<Rightarrow> bool" and astep :: "'a \<Rightarrow> 'a \<Rightarrow> bool" and abs :: "'c \<Rightarrow> 'a" and good :: "'c \<Rightarrow> bool"
  assumes simulates: "step c c' \<Longrightarrow> good c \<Longrightarrow> good c' \<and> astep (abs c) (abs c')"
begin

lemma run: "step\<^sup>*\<^sup>* c c' \<Longrightarrow> good c \<Longrightarrow> good c' \<and> astep\<^sup>*\<^sup>* (abs c) (abs c')"
proof (induction rule: rtranclp_induct)
  case (step d e)
  then show ?case using simulates [of d e] by (meson rtranclp.rtrancl_into_rtrancl)
qed simp

end

interpretation batch: simulation pipe_step abs_step "abs_batch b" pipe_inv for b
  by unfold_locales (rule pipe_step_sim)



section \<open>Cancellation\<close>

definition any_step :: "pipe_db \<Rightarrow> pipe_db \<Rightarrow> bool" where
  "any_step db db' \<longleftrightarrow> pipe_step db db' \<or> requeue_step db db'"

definition keyed :: "pipe_db \<Rightarrow> bool" where
  "keyed db \<longleftrightarrow> primary ps_id (pd_items db) \<and> primary pb_id (pd_batches db)"

text \<open>What a step may do to the tables: rows are rewritten in place, keeping their keys and what is cancelled, and
  fresh rows are added.\<close>

definition kept_item :: "pipeline_site_run \<Rightarrow> pipeline_site_run \<Rightarrow> bool" where
  "kept_item x y \<longleftrightarrow> ps_id y = ps_id x \<and> ps_site y = ps_site x \<and> ps_batch y = ps_batch x
     \<and> (ps_status x = Ps_cancelled \<longrightarrow> ps_status y = Ps_cancelled)"

definition kept_batch :: "pipeline_batch \<Rightarrow> pipeline_batch \<Rightarrow> bool" where
  "kept_batch x y \<longleftrightarrow> pb_id y = pb_id x \<and> (pb_status x = Pb_cancelled \<longrightarrow> pb_status y = Pb_cancelled)"

definition rows_follow :: "pipe_db \<Rightarrow> pipe_db \<Rightarrow> bool" where
  "rows_follow db db' \<longleftrightarrow> keyed db' \<and> (\<forall>x\<in>set (pd_items db). \<exists>y\<in>set (pd_items db'). kept_item x y)
     \<and> (\<forall>x\<in>set (pd_batches db). \<exists>y\<in>set (pd_batches db'). kept_batch x y)"

lemma rows_follow_refl: "keyed db \<Longrightarrow> rows_follow db db"
  by (force simp: rows_follow_def kept_item_def kept_batch_def)

lemma rows_follow_trans: "rows_follow db db' \<Longrightarrow> rows_follow db' db'' \<Longrightarrow> rows_follow db db''"
  unfolding rows_follow_def kept_item_def kept_batch_def by metis

lemma rows_follow_update:
  assumes "keyed db"
    and "\<And>x. x \<in> set (pd_items db) \<Longrightarrow> P x \<Longrightarrow> kept_item x (f x)"
    and "\<And>x. x \<in> set (pd_batches db) \<Longrightarrow> Q x \<Longrightarrow> kept_batch x (g x)"
    and "pd_items db' = update_where P f (pd_items db)" and "pd_batches db' = update_where Q g (pd_batches db)"
  shows "rows_follow db db'"
proof -
  have item: "kept_item x (if P x then f x else x)" if "x \<in> set (pd_items db)" for x
    using assms(2) [OF that] by (simp add: kept_item_def)
  have row: "kept_batch x (if Q x then g x else x)" if "x \<in> set (pd_batches db)" for x
    using assms(3) [OF that] by (simp add: kept_batch_def)
  have "map ps_id (pd_items db') = map ps_id (pd_items db)" "map pb_id (pd_batches db') = map pb_id (pd_batches db)"
    unfolding assms(4,5) update_where_def using item row by (simp_all add: kept_item_def kept_batch_def)
  then have "keyed db'" using assms(1) by (simp add: keyed_def primary_def)
  moreover have "\<exists>y\<in>set (pd_items db'). kept_item x y" if "x \<in> set (pd_items db)" for x
    using item [OF that] that unfolding assms(4) set_update_where by blast
  moreover have "\<exists>y\<in>set (pd_batches db'). kept_batch x y" if "x \<in> set (pd_batches db)" for x
    using row [OF that] that unfolding assms(5) set_update_where by blast
  ultimately show ?thesis unfolding rows_follow_def by blast
qed

lemma update_where_False: "update_where (\<lambda>x. False) f xs = xs"
  by (simp add: update_where_def)

lemma rows_follow_items:
  assumes "keyed db" and "\<And>x. x \<in> set (pd_items db) \<Longrightarrow> P x \<Longrightarrow> kept_item x (f x)"
  shows "rows_follow db (set_items P f db)"
  using assms by (rule rows_follow_update [where Q = "\<lambda>x. False"]) (simp_all add: update_where_False)

lemma rows_follow_refresh:
  assumes "keyed db" and "refresh_pipeline_batch_status now stored i db = Some db'"
  shows "rows_follow db db'"
proof (cases "db' = db")
  case True
  then show ?thesis using assms(1) by (simp add: rows_follow_refl)
next
  case False
  then obtain x where x: "get_row pb_id i (pd_batches db) = Some x" "pb_status x \<noteq> Pb_cancelled"
    and db': "db' = set_batches (\<lambda>b. pb_id b = i) (refreshed now (aggregate (map ps_status (items_of stored i)))) db"
    using assms(2) by (auto simp: refresh_pipeline_batch_status_def split: option.splits if_splits)
  have "y = x" if "y \<in> set (pd_batches db)" "pb_id y = i" for y
    using get_row_primary [of pb_id "pd_batches db" y] that x(1) assms(1) by (simp add: keyed_def)
  then show ?thesis using assms(1) x(2) unfolding db'
    by (intro rows_follow_update [where P = "\<lambda>x. False"]) (auto simp: kept_batch_def update_where_False)
qed

lemma rows_follow_one:
  assumes "keyed db" and "get_row ps_id i (pd_items db) = Some x" and "kept_item x (f x)"
  shows "rows_follow db (set_items (\<lambda>y. ps_id y = i) f db)"
proof (rule rows_follow_items [OF assms(1)])
  fix y assume "y \<in> set (pd_items db)" "ps_id y = i"
  then have "y = x" using get_row_primary [of ps_id "pd_items db" y] assms(1,2) by (simp add: keyed_def)
  with assms(3) show "kept_item y (f y)" by simp
qed

lemma pipe_step_rows:
  assumes "pipe_step db db'" and "keyed db"
  shows "rows_follow db db'"
  using assms
proof cases
  case (Insert sites now)
  let ?items = "new_items now (next_id pb_id (pd_batches db)) (next_id ps_id (pd_items db)) sites"
  have "primary ps_id (pd_items db @ ?items)"
    using assms(2) next_id_above [of _ "pd_items db" ps_id] by (fastforce simp: keyed_def primary_def new_items_ids)
  moreover have "next_id pb_id (pd_batches db) \<notin> pb_id ` set (pd_batches db)" by (rule next_id_fresh)
  ultimately show ?thesis using assms(2) unfolding Insert(1) insert_batch_def Let_def
    by (force simp: rows_follow_def keyed_def primary_def kept_item_def kept_batch_def)
next
  case (Refresh now i)
  then show ?thesis using rows_follow_refresh assms(2) by blast
next
  case (Update now i s st err)
  then obtain x where x: "get_row ps_id i (pd_items db) = Some x" by (auto simp: update_pipeline_site_def split: option.splits)
  show ?thesis
  proof (cases "ps_status x = Ps_cancelled")
    case True
    then have "db' = db" using Update x by (auto simp: update_pipeline_site_def)
    then show ?thesis using assms(2) by (simp add: rows_follow_refl)
  next
    case False
    have "ps_site (moved now s st err x) = ps_site x" by (simp add: moved_def Let_def)
    with rows_follow_one [OF assms(2) x, of "moved now s st err"] False
    have first: "rows_follow db (set_items (\<lambda>y. ps_id y = i) (moved now s st err) db)" by (simp add: kept_item_def)
    have "refresh_pipeline_batch_status now (set_items (\<lambda>y. ps_id y = i) (moved now s st err) db) (ps_batch x)
        (set_items (\<lambda>y. ps_id y = i) (moved now s st err) db) = Some db'"
      using Update x False by (simp add: update_pipeline_site_def Let_def)
    from rows_follow_refresh [OF _ this] rows_follow_trans [OF first] first show ?thesis by (simp add: rows_follow_def)
  qed
next
  case Enqueue
  then show ?thesis using rows_follow_refl [OF assms(2)] by (simp add: rows_follow_def keyed_def)
next
  case (Link i st run)
  then show ?thesis using rows_follow_items [OF assms(2)] by (auto simp: kept_item_def stage_enqueued_def Let_def)
next
  case (Handed run i)
  then have "db' = set_items (\<lambda>y. ps_id y = i) (handed_over run) db" by (auto simp: hand_over_def split: option.splits)
  then show ?thesis using rows_follow_items [OF assms(2)] by (auto simp: kept_item_def handed_over_def Let_def)
next
  case (Finished i now)
  then show ?thesis using rows_follow_items [OF assms(2)] by (auto simp: kept_item_def)
next
  case (Jobs f)
  then show ?thesis using rows_follow_refl [OF assms(2)] by (simp add: rows_follow_def keyed_def on_jobs_def)
next
  case (Cancelled redis now p actor i read)
  show ?thesis
  proof (cases "db' = db")
    case False
    with cancel_batch_shape [OF Cancelled] show ?thesis
      by (intro rows_follow_update [OF assms(2)]) (auto simp: kept_item_def kept_batch_def cancelled_item_def cancelled_batch_def)
  qed (simp add: rows_follow_refl assms(2))
qed

lemma any_step_rows:
  assumes "any_step db db'" and "keyed db"
  shows "rows_follow db db'"
proof (cases "pipe_step db db'")
  case True
  then show ?thesis using pipe_step_rows assms(2) by blast
next
  case False
  then obtain x now where x: "x \<in> set (pd_items db)" "ps_status x = Ps_failed"
    and r: "refresh_pipeline_batch_status now db (ps_batch x) (set_items (\<lambda>y. ps_id y = ps_id x) requeued db) = Some db'"
    using assms(1) by (auto simp: any_step_def requeue_step_def)
  have "get_row ps_id (ps_id x) (pd_items db) = Some x"
    using get_row_primary [of ps_id "pd_items db" x] x(1) assms(2) by (simp add: keyed_def)
  then have first: "rows_follow db (set_items (\<lambda>y. ps_id y = ps_id x) requeued db)"
    using rows_follow_one [OF assms(2)] x(2) by (auto simp: kept_item_def requeued_def)
  then show ?thesis using rows_follow_refresh [OF _ r] rows_follow_trans [OF first] by (simp add: rows_follow_def)
qed

lemma any_run_rows: "any_step\<^sup>*\<^sup>* db0 db \<Longrightarrow> keyed db0 \<Longrightarrow> rows_follow db0 db"
proof (induction rule: rtranclp_induct)
  case (step d e)
  then have first: "rows_follow db0 d" by blast
  then have "keyed d" by (simp add: rows_follow_def)
  from rows_follow_trans [OF first any_step_rows [OF step(2) this]] show ?case .
qed (rule rows_follow_refl)



section \<open>Tasks and requests are runs of transactions\<close>

lemma update_run: "update_pipeline_site now i s st err db = Some db'
    \<Longrightarrow> s \<in> {Ps_ingestion_running, Ps_analysis_running, Ps_succeeded, Ps_failed} \<Longrightarrow> pipe_step\<^sup>*\<^sup>* db db'"
  by (blast intro: pipe_step.Update)

lemma begin_stage_run: "begin_stage read now s st site i db = Some (db', b)
    \<Longrightarrow> s \<in> {Ps_ingestion_running, Ps_analysis_running} \<Longrightarrow> pipe_step\<^sup>*\<^sup>* db db'"
  by (auto simp: begin_stage_def split: option.splits bool.splits intro: update_run)

lemma mark_stage_failure_run: "mark_stage_failure final now i st err db = Some db' \<Longrightarrow> pipe_step\<^sup>*\<^sup>* db db'"
  by (auto simp: mark_stage_failure_def split: if_splits intro: update_run)

lemma enqueue_run: "enqueue_pipeline_task redis enqueued limit now site st i db = (db', r) \<Longrightarrow> pipe_step db db'"
  using pipe_step.Enqueue [of db redis enqueued limit now site st i] by simp

lemma finish_ingestion_run:
  assumes "finish_ingestion redis enqueued limit down final now raised site i db = Some (db', e)"
  shows "pipe_step\<^sup>*\<^sup>* db db'"
proof (cases raised)
  case None
  obtain db1 r where q: "enqueue_pipeline_task redis enqueued limit now site At_analysis i db = (db1, r)" by fastforce
  have "db' = db \<or> pipe_step\<^sup>*\<^sup>* db1 db'"
    using assms None by (auto simp: finish_ingestion_def q split: option.splits bool.splits sum.splits if_splits
        intro: update_run mark_stage_failure_run r_into_rtranclp pipe_step.Handed)
  with enqueue_run [OF q] show ?thesis by (auto intro: converse_rtranclp_into_rtranclp)
next
  case (Some err)
  then show ?thesis using assms by (auto simp: finish_ingestion_def intro: mark_stage_failure_run)
qed

lemma finish_analysis_run:
  "finish_analysis final now raised site i db = Some (db', e) \<Longrightarrow> pipe_step\<^sup>*\<^sup>* db db'"
  by (auto simp: finish_analysis_def split: option.splits bool.splits
      intro: mark_stage_failure_run rtranclp.rtrancl_into_rtrancl [OF update_run] pipe_step.Finished)

lemma run_stage_durably_run: "pipe_step\<^sup>*\<^sup>* db (run_stage_durably now run outcome retries db)"
  by (auto simp: run_stage_durably_def split: option.split intro: pipe_step.Jobs)

lemma ingest_pipeline_site_run:
  assumes "ingest_pipeline_site redis enqueued limit down now run outcome retries site i db = Some (db', e)"
  shows "pipe_step\<^sup>*\<^sup>* db db'"
proof -
  obtain db1 b where b: "begin_stage db now Ps_ingestion_running At_ingestion site i db = Some (db1, b)"
    using assms by (auto simp: ingest_pipeline_site_def split: option.splits)
  have "pipe_step\<^sup>*\<^sup>* db1 db'" using assms b
    by (cases b) (auto simp: ingest_pipeline_site_def intro: rtranclp_trans [OF run_stage_durably_run finish_ingestion_run])
  with begin_stage_run [OF b] show ?thesis by (auto intro: rtranclp_trans)
qed

lemma analyze_pipeline_site_run:
  assumes "analyze_pipeline_site now run outcome retries site i db = Some (db', e)"
  shows "pipe_step\<^sup>*\<^sup>* db db'"
proof -
  obtain db1 b where b: "begin_stage db now Ps_analysis_running At_analysis site i db = Some (db1, b)"
    using assms by (auto simp: analyze_pipeline_site_def split: option.splits)
  have "pipe_step\<^sup>*\<^sup>* db1 db'" using assms b
    by (cases b) (auto simp: analyze_pipeline_site_def intro: rtranclp_trans [OF run_stage_durably_run finish_analysis_run])
  with begin_stage_run [OF b] show ?thesis by (auto intro: rtranclp_trans)
qed

lemma enqueue_pipeline_stage_run: "enqueue_pipeline_stage redis enqueued limit now x st db = (db', r) \<Longrightarrow> pipe_step\<^sup>*\<^sup>* db db'"
  by (auto simp: enqueue_pipeline_stage_def split: prod.splits sum.splits dest!: enqueue_run
      intro: converse_rtranclp_into_rtranclp pipe_step.Link)

lemma enqueue_batch_run: "enqueue_batch redis enqueued limit down now items db = Some db' \<Longrightarrow> pipe_step\<^sup>*\<^sup>* db db'"
proof (induction items arbitrary: db)
  case (Cons x items)
  obtain db1 r where s: "enqueue_pipeline_stage redis (enqueued (ps_id x)) limit now x At_ingestion db = (db1, r)" by fastforce
  obtain db2 where "pipe_step\<^sup>*\<^sup>* db1 db2" "enqueue_batch redis enqueued limit down now items db2 = Some db'"
    using Cons.prems s by (cases r) (auto split: option.splits intro: update_run)
  with Cons.IH enqueue_pipeline_stage_run [OF s] show ?case by (meson rtranclp_trans)
qed simp

lemma create_pipeline_batch_run:
  assumes "create_pipeline_batch redis enqueued limit down now p site_ids db = Inr (db', b)"
  shows "pipe_step\<^sup>*\<^sup>* db db'"
proof -
  obtain db1 items where i: "insert_batch now site_ids db = (db1, b, items)"
    and "valid_batch_create site_ids"
    and "\<exists>db2. enqueue_batch redis enqueued limit down now items db1 = Some db2 \<and> refresh_pipeline_batch_status now db2 b db2 = Some db'"
    using assms by (auto simp: create_pipeline_batch_def Let_def split: if_splits option.splits prod.splits)
  moreover have "pipe_step db db1"
    using pipe_step.Insert [of site_ids db now] i \<open>valid_batch_create site_ids\<close> by (simp add: valid_batch_create_def)
  ultimately show ?thesis
    by (meson converse_rtranclp_into_rtranclp enqueue_batch_run pipe_step.Refresh rtranclp.rtrancl_into_rtrancl)
qed

lemma retry_run:
  assumes "retry_pipeline_site redis enqueued limit down now p i site db = (db', None)"
  shows "any_step\<^sup>*\<^sup>* db db'"
proof -
  have all: "any_step\<^sup>*\<^sup>* d d'" if "pipe_step\<^sup>*\<^sup>* d d'" for d d'
    using that by (induction rule: rtranclp_induct) (auto simp: any_step_def intro: rtranclp.rtrancl_into_rtrancl)
  obtain x db1 where x: "x \<in> set (pd_items db)" "ps_batch x = i" "ps_status x = Ps_failed"
    and r: "refresh_pipeline_batch_status now db i (set_items (\<lambda>y. ps_id y = ps_id x) requeued db) = Some db1"
    and e: "enqueue_pipeline_stage redis enqueued limit now x (ps_stage x) db1 = (db', None)"
    using assms by (auto simp: retry_pipeline_site_def find_Some_iff in_set_conv_nth split: sum.splits option.splits if_splits prod.splits)
  from x r have "any_step db db1" by (auto simp: any_step_def requeue_step_def)
  then show ?thesis using all [OF enqueue_pipeline_stage_run [OF e]] by (rule converse_rtranclp_into_rtranclp)
qed


section \<open>Retries and races\<close>

definition sample_pipe :: "batch_status \<Rightarrow> site_status \<Rightarrow> stage \<Rightarrow> pipe_db" where
  "sample_pipe b s st =
     \<lparr>pd_batches = [\<lparr>pb_id = 2, pb_status = b, pb_created_at = 10, pb_started_at = Some 11, pb_finished_at = Some 12\<rparr>],
      pd_items = [\<lparr>ps_id = 3, ps_batch = 2, ps_site = 7, ps_status = s, ps_stage = st, ps_ingestion_run = None,
        ps_analysis_run = None, ps_retries = 0, ps_error = None, ps_created_at = 10, ps_started_at = Some 11,
        ps_finished_at = Some 12\<rparr>],
      pd_jobs = \<lparr>jd_sites = [\<lparr>site_id = 7, site_tenant = 9, site_base_url = ''u'', site_platform = Html,
          wp_username = None, pool_source_approved = False, pool_source_failures = 0, pool_source_quarantined = False,
          pool_source_quarantine_reason = None, domain_registered_at = None\<rparr>],
        jd_runs = [], jd_ingestions = [], jd_alerts = []\<rparr>,
      pd_queue = [], pd_commands = []\<rparr>"

definition pipe_admin :: principal where
  "pipe_admin = \<lparr>is_admin = True, psource = Operator, tenant_id = None, key_id = None, operator_id = Some ''ann''\<rparr>"

lemmas sample_pipe_simps = sample_pipe_def pipe_admin_def get_row_def items_of_def update_where_def
  set_items_def set_batches_def authorized_batch_def authorize_site_def

lemma sample_pipe_inv: "pipe_inv (sample_pipe Pb_failed Ps_failed st)" "keyed (sample_pipe b s st)"
  by (simp_all add: pipe_inv_def keyed_def primary_def sample_pipe_def derived_def abs_batch_def items_of_def
      aggregate_def active_site_status_def)

lemma sample_retry:
  assumes "b \<in> {Pb_failed, Pb_cancelled}"
  shows "\<exists>db' x. retry_pipeline_site (\<lambda>q. No_such_job) (Some ''q'') 3 ''down'' 100 pipe_admin 2 7 (sample_pipe b Ps_failed At_analysis)
      = (db', None) \<and> pd_queue db' = [(''q'', 7, At_analysis, 3)] \<and> pd_items db' = [x] \<and> ps_status x = Ps_analysis_queued
    \<and> (\<exists>y. pd_batches db' = [y] \<and> pb_id y = 2 \<and> pb_status y = b) \<and> ps_site x = 7 \<and> ps_batch x = 2
    \<and> jd_sites (pd_jobs db') = jd_sites (pd_jobs (sample_pipe b Ps_failed At_analysis))"
  using assms
  by (auto simp: retry_pipeline_site_def sample_pipe_simps refresh_pipeline_batch_status_def aggregate_def
      active_site_status_def refreshed_def requeued_def enqueue_pipeline_stage_def enqueue_pipeline_task_def
      enqueue_job_def enqueue_job_locked_def tenant_runs_def Let_def new_run_def set_runs_def stage_enqueued_def)

text \<open>C31. A retry leaves its batch closed. After the retry of the failed analysis of site 7 in batch 2 the analysis
  is queued again, and yet the batch still counts as failed: the event stream ends with its first snapshot,
  and the batch cannot be cancelled although work is waiting for it.\<close>

theorem retry_leaves_batch_closed:
  "\<exists>db' x. retry_pipeline_site (\<lambda>q. No_such_job) (Some ''q'') 3 ''down'' 100 pipe_admin 2 7 (sample_pipe Pb_failed Ps_failed At_analysis)
      = (db', None)
    \<and> pipe_inv (sample_pipe Pb_failed Ps_failed At_analysis) \<and> pd_queue db' = [(''q'', 7, At_analysis, 3)]
    \<and> pd_items db' = [x] \<and> ps_status x = Ps_analysis_queued
    \<and> (\<exists>out. pipeline_snapshot 2 db' = (Some out, True) \<and> bc_active (bo_counts out) = 1)
    \<and> cancel_pipeline_batch (\<lambda>q. No_such_job) 101 pipe_admin ''ann'' 2 db' db' = Inl (Http 409)"
proof -
  obtain db' x y where r: "retry_pipeline_site (\<lambda>q. No_such_job) (Some ''q'') 3 ''down'' 100 pipe_admin 2 7
      (sample_pipe Pb_failed Ps_failed At_analysis) = (db', None)"
    and t: "pd_queue db' = [(''q'', 7, At_analysis, 3)]" "pd_items db' = [x]" "ps_status x = Ps_analysis_queued"
      "ps_site x = 7" "ps_batch x = 2" "pd_batches db' = [y]" "pb_id y = 2" "pb_status y = Pb_failed"
    and sites: "jd_sites (pd_jobs db') = jd_sites (pd_jobs (sample_pipe Pb_failed Ps_failed At_analysis))"
    using sample_retry [of Pb_failed] by auto
  have row: "get_row pb_id 2 [y] = Some y" and items: "items_of db' 2 = [x]"
    by (simp_all add: get_row_def items_of_def t)
  have "\<exists>out. pipeline_snapshot 2 db' = (Some out, True) \<and> bc_active (bo_counts out) = 1"
    by (simp add: pipeline_snapshot_def row batch_out_of_def terminal_batch_status_def t pipeline_batch_counts_def
        items Let_def active_site_status_def)
  moreover have "authorized_batch pipe_admin 2 db' = Inr y"
    by (simp add: authorized_batch_def row items sites sample_pipe_def authorize_site_def get_row_def t pipe_admin_def)
  then have "cancel_pipeline_batch (\<lambda>q. No_such_job) 101 pipe_admin ''ann'' 2 db' db' = Inl (Http 409)"
    by (simp add: cancel_pipeline_batch_def row t)
  ultimately show ?thesis using r t(1,2,3) sample_pipe_inv(1) by blast
qed

text \<open>Work can be queued for a cancelled batch: the retry of a site that failed before the cancellation.\<close>

lemma retry_in_cancelled_batch:
  "\<exists>db'. retry_pipeline_site (\<lambda>q. No_such_job) (Some ''q'') 3 ''down'' 100 pipe_admin 2 7 (sample_pipe Pb_cancelled Ps_failed At_analysis)
      = (db', None) \<and> pd_queue db' = [(''q'', 7, At_analysis, 3)]"
  using sample_retry [of Pb_cancelled] by auto

text \<open>A batch whose last site finished between the two reads of a cancellation is cancelled all the same.\<close>

lemma cancellation_of_a_finished_batch:
  "\<exists>db'. cancel_pipeline_batch (\<lambda>q. No_such_job) 101 pipe_admin ''ann'' 2 (sample_pipe Pb_running Ps_analysis_running At_analysis)
      (sample_pipe Pb_succeeded Ps_succeeded At_completed) = Inr db'
    \<and> map pb_status (pd_batches db') = [Pb_cancelled] \<and> map ps_status (pd_items db') = [Ps_succeeded]"
  by (simp add: cancel_pipeline_batch_def sample_pipe_simps unfinished_def cancelled_batch_def)

section \<open>Witnesses\<close>



end
