(* ===== verification/Corpus.thy ===== *)
theory Corpus
  imports Store
begin

text \<open>
  The tables a crawl writes and the ranking reads: the full article row of \<^verbatim>\<open>app/models/article.py\<close> (it extends
  the columns of \<open>Store.article\<close>), taxonomies, the links of \<^verbatim>\<open>app/models/link.py\<close>, the ingestion runs of
  \<^verbatim>\<open>app/models/site.py\<close> and the diagnostics of \<^verbatim>\<open>app/models/ingestion.py\<close>. A \<open>corpus\<close> is the content of
  these tables; the link table has no key of its own here, its rows are told apart by their two articles, which the
  database keeps unique.
\<close>

record site_article = article +
  ar_html :: "string option"
  ar_language :: "string option"
  ar_published :: "time option"
  ar_active :: bool
  ar_last_run :: "nat option"

record taxonomy =
  tx_id :: nat
  tx_site :: nat
  tx_kind :: string
  tx_name :: string
  tx_external_id :: "string option"

record article_taxonomy =
  at_article :: nat
  at_taxonomy :: nat
  at_last_run :: "nat option"

record internal_link =
  lk_source :: nat
  lk_target :: nat
  lk_anchor :: "string option"
  lk_active :: bool
  lk_last_run :: "nat option"

datatype crawl_status = Run_running | Run_succeeded | Run_failed

record crawl_run =
  cr_id :: nat
  cr_site :: nat
  cr_job :: "nat option"
  cr_status :: crawl_status
  cr_articles :: nat
  cr_links :: nat
  cr_discovered :: nat
  cr_accepted :: nat
  cr_skipped :: nat
  cr_summary :: "(string \<times> nat) list"
  cr_error :: "string option"
  cr_started_at :: time
  cr_finished_at :: "time option"

datatype observation_state = Obs_accepted | Obs_skipped | Obs_failed

record observation =
  ob_url :: string
  ob_state :: observation_state
  ob_reason :: string
  ob_detail :: "string option"
  ob_from :: "string option"
  ob_depth :: nat
  ob_http_status :: "int option"
  ob_content_type :: "string option"
  ob_final_url :: "string option"
  ob_canonical :: "string option"

text \<open>A diagnostic row is the site, the run and the observation it keeps.\<close>

record corpus =
  co_articles :: "site_article list"
  co_taxonomies :: "taxonomy list"
  co_article_taxonomies :: "article_taxonomy list"
  co_links :: "internal_link list"
  co_runs :: "crawl_run list"
  co_diagnostics :: "(nat \<times> nat \<times> observation) list"
  co_suggestions :: "suggestion list"

text \<open>What the unique constraints of the link table and the writer of its rows guarantee: one row per pair, and no
  page that links itself.\<close>

definition links_wellformed :: "internal_link list \<Rightarrow> bool" where
  "links_wellformed ls \<longleftrightarrow> distinct (map (\<lambda>l. (lk_source l, lk_target l)) ls) \<and> (\<forall>l\<in>set ls. lk_source l \<noteq> lk_target l)"

definition active_site_article :: "nat \<Rightarrow> corpus \<Rightarrow> nat \<Rightarrow> bool" where
  "active_site_article site co i \<longleftrightarrow> list_ex (\<lambda>a. ar_id a = i \<and> ar_site a = site \<and> ar_active a) (co_articles co)"

end
