(* ===== verification/FloatOrder.thy ===== *)
theory FloatOrder
  imports Float64
begin

text \<open>
  The order of rounded numbers. \<open>quantum x\<close> is the spacing of the doubles at \<open>x\<close>: rounding is to the nearest
  multiple of it. The main lemma is that rounding is monotone, so a comparison of floats never contradicts the
  comparison of the exact numbers they approximate; the operations of the ranking code (\<open>+\<close>, \<open>*\<close>, \<open>/\<close> and
  \<open>round(x, 6)\<close>) inherit it.
\<close>

section \<open>The spacing of doubles\<close>

definition quantum :: "rat \<Rightarrow> rat" where
  "quantum x = 2 ^ shift_down 971 \<bar>x\<bar> / 2 ^ shift_up 1074 \<bar>x\<bar>"

lemma quantum_pos [simp]: "0 < quantum x"
  by (simp add: quantum_def)

lemma double_of_quantum: "double_of x = of_int (round_even (x / quantum x)) * quantum x"
  by (simp add: double_of_def quantum_def Let_def)

lemma shift_up_spec:
  assumes "0 \<le> x"
  shows "shift_up n x \<le> n \<and> (shift_up n x < n \<longrightarrow> 2 ^ 52 \<le> x * 2 ^ shift_up n x)
    \<and> (0 < shift_up n x \<longrightarrow> x * 2 ^ shift_up n x < 2 ^ 53)"
  using assms
proof (induction n x rule: shift_up.induct)
  case (2 n x)
  show ?case
  proof (cases "2 ^ 52 \<le> x")
    case False
    with 2 have "shift_up n (2 * x) \<le> n \<and> (shift_up n (2 * x) < n \<longrightarrow> 2 ^ 52 \<le> 2 * x * 2 ^ shift_up n (2 * x))
        \<and> (0 < shift_up n (2 * x) \<longrightarrow> 2 * x * 2 ^ shift_up n (2 * x) < 2 ^ 53)" by simp
    moreover have "2 * x < 2 ^ 53" using False by simp
    ultimately show ?thesis using False
      by (cases "shift_up n (2 * x)") (auto simp: algebra_simps)
  qed simp
qed simp

lemma shift_down_spec:
  "shift_down n x \<le> n \<and> (shift_down n x < n \<longrightarrow> x < 2 ^ 53 * 2 ^ shift_down n x)
    \<and> (0 < shift_down n x \<longrightarrow> 2 ^ 52 * 2 ^ shift_down n x \<le> x)"
proof (induction n x rule: shift_down.induct)
  case (2 n x)
  show ?case
  proof (cases "x < 2 ^ 53")
    case False
    then have "2 ^ 52 \<le> x / 2" by simp
    with 2 [OF False] False show ?thesis
      by (cases "shift_down n (x / 2)") (auto simp: field_simps)
  qed simp
qed simp

lemma shift_down_of_up: "0 \<le> x \<Longrightarrow> 0 < shift_up n x \<Longrightarrow> shift_down m x = 0"
  by (cases n) (auto intro!: shift_down_small split: if_splits)

text \<open>The spacing is a power of two, and the number of steps to \<open>x\<close> lies between \<open>2 ^ 52\<close> and \<open>2 ^ 53\<close> unless the
  spacing is at the end of the range.\<close>

lemma quantum_powi:
  assumes "0 \<le> x"
  shows "\<exists>e. quantum x = 2 powi e \<and> -1074 \<le> e \<and> e \<le> 971
    \<and> (-1074 < e \<longrightarrow> 2 ^ 52 * quantum x \<le> x) \<and> (e < 971 \<longrightarrow> x < 2 ^ 53 * quantum x)"
proof (cases "shift_up 1074 x")
  case 0
  then have big: "2 ^ 52 \<le> x" using shift_up_spec [OF assms, of 1074] by simp
  have q: "quantum x = 2 ^ shift_down 971 x" using 0 assms by (simp add: quantum_def)
  have "2 ^ 52 * quantum x \<le> x"
    using shift_down_spec [of 971 x] big q by (cases "shift_down 971 x = 0") auto
  moreover have "int (shift_down 971 x) < 971 \<longrightarrow> x < 2 ^ 53 * quantum x" using shift_down_spec [of 971 x] q by simp
  moreover have "shift_down 971 x \<le> 971" using shift_down_spec [of 971 x] by simp
  ultimately show ?thesis using q by (intro exI [of _ "int (shift_down 971 x)"]) (simp add: power_int_of_nat)
next
  case (Suc k)
  then have zero: "shift_down 971 x = 0" using assms by (intro shift_down_of_up [of x 1074]) auto
  have q: "quantum x = 1 / 2 ^ Suc k" using Suc zero assms by (simp add: quantum_def)
  note spec = shift_up_spec [OF assms, of 1074, unfolded Suc]
  have "x < 2 ^ 53 * quantum x" unfolding q using spec by (simp add: field_simps)
  moreover have "Suc k < 1074 \<longrightarrow> 2 ^ 52 * quantum x \<le> x" unfolding q using spec by (simp add: field_simps)
  moreover have "Suc k \<le> 1074" using spec by simp
  moreover have "quantum x = 2 powi (- int (Suc k))"
    unfolding q by (simp only: power_int_minus power_int_of_nat) (simp add: field_simps)
  ultimately show ?thesis by (intro exI [of _ "- int (Suc k)"]) simp
qed

lemma quantum_mono:
  assumes "0 \<le> x" and "x \<le> y"
  shows "quantum x = quantum y \<or> 2 * quantum x \<le> quantum y \<and> x < 2 ^ 53 * quantum x \<and> 2 ^ 52 * quantum y \<le> y"
proof -
  obtain e where e: "quantum x = 2 powi e" "-1074 \<le> e" "e \<le> 971"
    "-1074 < e \<longrightarrow> 2 ^ 52 * quantum x \<le> x" "e < 971 \<longrightarrow> x < 2 ^ 53 * quantum x"
    using quantum_powi [OF assms(1)] by blast
  have "0 \<le> y" using assms by simp
  then obtain f where f: "quantum y = 2 powi f" "-1074 \<le> f" "f \<le> 971"
    "-1074 < f \<longrightarrow> 2 ^ 52 * quantum y \<le> y" "f < 971 \<longrightarrow> y < 2 ^ 53 * quantum y"
    using quantum_powi by blast
  consider "e = f" | "e < f" | "f < e" by linarith
  then show ?thesis
  proof cases
    case 2
    then have "(2::rat) powi (e + 1) \<le> 2 powi f" by (intro power_int_increasing) auto
    then have "2 * quantum x \<le> quantum y" using e(1) f(1) by (simp add: power_int_add)
    then show ?thesis using 2 e f by auto
  next
    case 3
    then have "(2::rat) powi (f + 1) \<le> 2 powi e" by (intro power_int_increasing) auto
    then have "2 * quantum y \<le> quantum x" using e(1) f(1) by (simp add: power_int_add)
    moreover have "2 ^ 52 * quantum x \<le> x" "y < 2 ^ 53 * quantum y" using 3 e f by auto
    ultimately show ?thesis using assms(2) by simp
  qed (use e f in simp)
qed

section \<open>Rounding is monotone\<close>

lemma round_even_mono: "x \<le> y \<Longrightarrow> round_even x \<le> round_even y"
proof -
  assume le: "x \<le> y"
  show ?thesis
  proof (cases "\<lfloor>x\<rfloor> = \<lfloor>y\<rfloor>")
    case False
    then have "\<lfloor>x\<rfloor> + 1 \<le> \<lfloor>y\<rfloor>" using floor_mono [OF le] by simp
    moreover have "round_even x \<le> \<lfloor>x\<rfloor> + 1" "\<lfloor>y\<rfloor> \<le> round_even y" by (simp_all add: round_even_def Let_def)
    ultimately show ?thesis by linarith
  qed (use le in \<open>auto simp: round_even_def Let_def\<close>)
qed

lemma double_of_mono_nonneg:
  assumes "0 \<le> x" and "x \<le> y"
  shows "double_of x \<le> double_of y"
  using quantum_mono [OF assms]
proof (elim disjE conjE)
  assume q: "quantum x = quantum y"
  have "round_even (x / quantum y) \<le> round_even (y / quantum y)"
    using assms(2) by (intro round_even_mono divide_right_mono) (simp_all add: less_imp_le)
  then show ?thesis by (simp add: double_of_quantum q mult_right_mono less_imp_le)
next
  assume q: "2 * quantum x \<le> quantum y" "x < 2 ^ 53 * quantum x" "2 ^ 52 * quantum y \<le> y"
  have "x / quantum x \<le> of_int (2 ^ 53)" using q(2) by (simp add: pos_divide_le_eq)
  then have "round_even (x / quantum x) \<le> 2 ^ 53" by (rule round_even_bounds)
  then have "of_int (round_even (x / quantum x)) \<le> (2 ^ 53 :: rat)"
    by (metis of_int_le_iff of_int_numeral of_int_power)
  then have "double_of x \<le> 2 ^ 53 * quantum x" unfolding double_of_quantum by (intro mult_right_mono) (simp_all add: less_imp_le)
  moreover have "of_int (2 ^ 52) \<le> y / quantum y" using q(3) by (simp add: pos_le_divide_eq)
  then have "2 ^ 52 \<le> round_even (y / quantum y)" by (rule round_even_bounds)
  then have "(2 ^ 52 :: rat) \<le> of_int (round_even (y / quantum y))"
    by (metis of_int_le_iff of_int_numeral of_int_power)
  then have "2 ^ 52 * quantum y \<le> double_of y" unfolding double_of_quantum by (intro mult_right_mono) (simp_all add: less_imp_le)
  ultimately show ?thesis using q(1) by simp
qed


lemma round_even_minus: "round_even (- x) = - round_even x"
proof (cases "x = of_int \<lfloor>x\<rfloor>")
  case True
  then obtain n where n: "x = of_int n" by blast
  have "- x = of_int (- n)" by (simp add: n)
  then show ?thesis by (metis n round_even_int)
next
  case False
  then have f: "\<lfloor>- x\<rfloor> = - \<lfloor>x\<rfloor> - 1" by linarith
  show ?thesis unfolding round_even_def Let_def f by auto
qed

lemma double_of_minus: "double_of (- x) = - double_of x"
proof -
  have "quantum (- x) = quantum x" by (simp add: quantum_def)
  moreover have "round_even (- x / quantum x) = - round_even (x / quantum x)"
    using round_even_minus [of "x / quantum x"] by simp
  ultimately show ?thesis by (simp add: double_of_quantum)
qed

lemma double_of_mono: "x \<le> y \<Longrightarrow> double_of x \<le> double_of y"
proof -
  assume le: "x \<le> y"
  consider "0 \<le> x" | "x \<le> 0" "0 \<le> y" | "y \<le> 0" using le by linarith
  then show ?thesis
  proof cases
    case 1
    with le show ?thesis by (rule double_of_mono_nonneg [rotated])
  next
    case 2
    then show ?thesis using double_of_nonneg [of y] double_of_nonpos [of x] by linarith
  next
    case 3
    then show ?thesis using double_of_mono_nonneg [of "- y" "- x"] le by (simp add: double_of_minus)
  qed
qed

section \<open>The operations of the code\<close>

definition fadd :: "rat \<Rightarrow> rat \<Rightarrow> rat" where
  "fadd x y = double_of (x + y)"

definition fsub :: "rat \<Rightarrow> rat \<Rightarrow> rat" where
  "fsub x y = double_of (x - y)"

definition fmul :: "rat \<Rightarrow> rat \<Rightarrow> rat" where
  "fmul x y = double_of (x * y)"

definition fdiv :: "rat \<Rightarrow> rat \<Rightarrow> rat" where
  "fdiv x y = double_of (x / y)"

text \<open>Python's \<open>round(x, n)\<close>: the decimal with \<open>n\<close> places next to the exact value, ties to even, read as a double.\<close>

definition fround :: "nat \<Rightarrow> rat \<Rightarrow> rat" where
  "fround n x = double_of (of_int (round_even (x * 10 ^ n)) / 10 ^ n)"

definition is_double :: "rat \<Rightarrow> bool" where
  "is_double x \<longleftrightarrow> double_of x = x"

lemma fround_0 [simp]: "fround n 0 = 0"
  using round_even_int [of 0] by (simp add: fround_def)

lemma is_double_0 [simp]: "is_double 0"
  by (simp add: is_double_def)

lemma is_double_dyadic:
  assumes "x * 2 ^ k = of_int m" and "2 ^ 52 \<le> m" and "m < 2 ^ 53" and "k \<le> 1074"
  shows "is_double x"
proof -
  have "(of_int (2 ^ 52) :: rat) \<le> of_int m" "(of_int m :: rat) < of_int (2 ^ 53)"
    using assms(2,3) by (simp_all only: of_int_le_iff of_int_less_iff)
  then have "double_of x = of_int (round_even (x * 2 ^ k)) / 2 ^ k"
    using assms by (intro double_of_at) simp_all
  then have "double_of x * 2 ^ k = x * 2 ^ k" unfolding assms(1) by simp
  then show ?thesis by (simp add: is_double_def)
qed

lemma fadd_mono: "a \<le> b \<Longrightarrow> c \<le> d \<Longrightarrow> fadd a c \<le> fadd b d"
  by (simp add: fadd_def double_of_mono add_mono)

lemma fadd_ge: "is_double a \<Longrightarrow> 0 \<le> b \<Longrightarrow> a \<le> fadd a b"
  using fadd_mono [of a a 0 b] by (simp add: fadd_def is_double_def)

lemma fmul_le_left: "is_double a \<Longrightarrow> 0 \<le> a \<Longrightarrow> b \<le> 1 \<Longrightarrow> fmul a b \<le> a"
  using double_of_mono [of "a * b" a] mult_left_mono [of b 1 a] by (simp add: fmul_def is_double_def)

lemma fmul_nonneg: "0 \<le> a \<Longrightarrow> 0 \<le> b \<Longrightarrow> 0 \<le> fmul a b"
  by (simp add: fmul_def double_of_nonneg)

lemma fdiv_nonneg: "0 \<le> a \<Longrightarrow> 0 \<le> b \<Longrightarrow> 0 \<le> fdiv a b"
  by (simp add: fdiv_def double_of_nonneg)

end
