(* ===== verification/LinkGraph.thy ===== *)
theory LinkGraph
  imports Corpus FloatOrder "HOL-Library.AList" "HOL-Library.Product_Lexorder"
begin

text \<open>
  The link graph of a site: \<^verbatim>\<open>app/services/graph_service.py\<close>, the tables of
  \<^verbatim>\<open>app/models/graph.py\<close> and the routes of \<^verbatim>\<open>app/api/routes/graph.py\<close>. \<open>compute_graph\<close> derives the
  structural features of every page, \<open>ensure_graph_snapshot\<close> stores them under the hash of their input,
  \<open>deterministic_rerank\<close> lets them move a candidate, and \<open>simulate_graph\<close> says what the graph would become. A
  \<open>Counter\<close> is a total function with default 0 or an association list in insertion order, a \<open>dict\<close> an
  association list; scores are binary64 numbers (\<open>FloatOrder\<close>).
\<close>

section \<open>Data\<close>

type_synonym edge = "nat \<times> nat"

record graph_thresholds =
  th_underlinked :: nat
  th_hub :: nat
  th_saturation :: nat

record graph_node =
  gn_id :: nat
  gn_url :: string
  gn_title :: string

record graph_feature =
  gf_id :: nat
  gf_url :: string
  gf_title :: string
  gf_in :: nat
  gf_out :: nat
  gf_orphan :: bool
  gf_underlinked :: bool
  gf_hub :: bool
  gf_saturated :: bool
  gf_hub_score :: rat
  gf_saturation_score :: rat

record graph_computation =
  gc_features :: "graph_feature list"
  gc_edges :: "edge list"

datatype graph_mode = Graph_off | Graph_shadow | Graph_active

record graph_config =
  gcf_algorithm :: string
  gcf_thresholds :: graph_thresholds
  gcf_mode :: graph_mode
  gcf_boost :: rat
  gcf_share_warning :: rat

datatype graph_error = Features_and_nodes_disagree

section \<open>Structural features\<close>

fun count_degrees :: "edge list \<Rightarrow> (nat \<Rightarrow> nat) \<times> (nat \<Rightarrow> nat) \<Rightarrow> (nat \<Rightarrow> nat) \<times> (nat \<Rightarrow> nat)" where
  "count_degrees [] (ins, outs) = (ins, outs)"
| "count_degrees ((s, t) # es) (ins, outs) = count_degrees es (ins(t := ins t + 1), outs(s := outs s + 1))"

definition valid_edge :: "nat set \<Rightarrow> edge \<Rightarrow> bool" where
  "valid_edge ids e \<longleftrightarrow> fst e \<in> ids \<and> snd e \<in> ids \<and> fst e \<noteq> snd e"

definition node_feature :: "graph_thresholds \<Rightarrow> nat \<Rightarrow> (nat \<Rightarrow> nat) \<Rightarrow> (nat \<Rightarrow> nat) \<Rightarrow> graph_node \<Rightarrow> graph_feature" where
  "node_feature th denominator ins outs n =
     (let incoming = ins (gn_id n); outgoing = outs (gn_id n)
      in \<lparr>gf_id = gn_id n, gf_url = gn_url n, gf_title = gn_title n, gf_in = incoming, gf_out = outgoing,
          gf_orphan = (incoming = 0), gf_underlinked = (incoming \<le> th_underlinked th),
          gf_hub = (th_hub th \<le> outgoing), gf_saturated = (th_saturation th \<le> incoming),
          gf_hub_score = fround 6 (fdiv (of_nat outgoing) (of_nat denominator)),
          gf_saturation_score = fround 6 (fdiv (of_nat incoming) (of_nat denominator))\<rparr>)"

definition compute_graph :: "graph_thresholds \<Rightarrow> graph_node list \<Rightarrow> edge list \<Rightarrow> graph_error + graph_computation" where
  "compute_graph th nodes edges =
     (let node_ids = gn_id ` set nodes;
          unique_edges = sort (remdups (filter (valid_edge node_ids) edges));
          (ins, outs) = count_degrees unique_edges (\<lambda>_. 0, \<lambda>_. 0);
          denominator = max 1 (length (remdups (map gn_id nodes)) - 1);
          features = map (node_feature th denominator ins outs) (sort_key gn_id nodes)
      in if node_ids \<noteq> gf_id ` set features then Inl Features_and_nodes_disagree
         else Inr \<lparr>gc_features = features, gc_edges = unique_edges\<rparr>)"

definition article_count :: "graph_computation \<Rightarrow> nat" where
  "article_count c = length (gc_features c)"

definition edge_count :: "graph_computation \<Rightarrow> nat" where
  "edge_count c = length (gc_edges c)"

section \<open>Snapshots\<close>

record graph_snapshot =
  gs_id :: nat
  gs_site :: nat
  gs_run :: "nat option"
  gs_algorithm :: string
  gs_version :: string
  gs_articles :: nat
  gs_edges :: nat
  gs_orphans :: nat
  gs_underlinked :: nat
  gs_hubs :: nat
  gs_saturated :: nat
  gs_computed_at :: time

text \<open>A row of \<open>graph_features\<close> is the snapshot it belongs to and the feature.\<close>

record graph_db =
  gd_corpus :: corpus
  gd_snapshots :: "graph_snapshot list"
  gd_features :: "(nat \<times> graph_feature) list"

definition node_json :: "graph_node \<Rightarrow> json" where
  "node_json n = JObj [(''id'', JInt (int (gn_id n))), (''url'', JStr (gn_url n)), (''title'', JStr (gn_title n))]"

definition edge_json :: "edge \<Rightarrow> json" where
  "edge_json e = JArr [JInt (int (fst e)), JInt (int (snd e))]"

definition graph_payload :: "string \<Rightarrow> nat option \<Rightarrow> graph_node list \<Rightarrow> edge list \<Rightarrow> string" where
  "graph_payload algorithm run nodes edges = json_dumps (\<lambda>x. []) (JObj [
     (''algorithm_version'', JStr algorithm),
     (''source_ingestion_run_id'', (case run of None \<Rightarrow> JNull | Some r \<Rightarrow> JInt (int r))),
     (''nodes'', JArr (map node_json (sort_key gn_id nodes))),
     (''edges'', JArr (map edge_json (sort (remdups edges))))])"

definition graph_digest :: "(string \<Rightarrow> string) \<Rightarrow> string \<Rightarrow> nat option \<Rightarrow> graph_node list \<Rightarrow> edge list \<Rightarrow> string" where
  "graph_digest sha algorithm run nodes edges = sha (graph_payload algorithm run nodes edges)"

definition accepted_run_id :: "nat \<Rightarrow> corpus \<Rightarrow> nat option" where
  "accepted_run_id site co =
     (case rev (sort_key cr_id (filter (\<lambda>r. cr_site r = site \<and> cr_status r = Run_succeeded) (co_runs co))) of
        [] \<Rightarrow> None | r # _ \<Rightarrow> Some (cr_id r))"

text \<open>The join of \<open>internal_links\<close> with its two articles.\<close>

definition site_edges :: "nat \<Rightarrow> corpus \<Rightarrow> edge list" where
  "site_edges site co = sort (map (\<lambda>l. (lk_source l, lk_target l))
     (filter (\<lambda>l. active_site_article site co (lk_source l) \<and> active_site_article site co (lk_target l) \<and> lk_active l)
       (co_links co)))"

definition graph_inputs :: "nat \<Rightarrow> corpus \<Rightarrow> graph_node list \<times> edge list \<times> nat option" where
  "graph_inputs site co =
     (map (\<lambda>a. \<lparr>gn_id = ar_id a, gn_url = ar_url a, gn_title = ar_title a\<rparr>)
        (sort_key ar_id (filter (\<lambda>a. ar_site a = site \<and> ar_active a) (co_articles co))),
      site_edges site co, accepted_run_id site co)"

definition latest_snapshot :: "nat \<Rightarrow> graph_db \<Rightarrow> graph_snapshot option" where
  "latest_snapshot site db =
     (case rev (sort_key (\<lambda>s. (gs_computed_at s, gs_id s)) (filter (\<lambda>s. gs_site s = site) (gd_snapshots db))) of
        [] \<Rightarrow> None | s # _ \<Rightarrow> Some s)"

definition count_flag :: "(graph_feature \<Rightarrow> bool) \<Rightarrow> graph_feature list \<Rightarrow> nat" where
  "count_flag flag fs = length (filter flag fs)"

definition snapshot_row :: "graph_config \<Rightarrow> nat \<Rightarrow> time \<Rightarrow> nat \<Rightarrow> nat option \<Rightarrow> string \<Rightarrow> graph_computation \<Rightarrow> graph_snapshot" where
  "snapshot_row cfg i now site run digest c =
     \<lparr>gs_id = i, gs_site = site, gs_run = run, gs_algorithm = gcf_algorithm cfg, gs_version = digest,
      gs_articles = article_count c, gs_edges = edge_count c,
      gs_orphans = count_flag gf_orphan (gc_features c), gs_underlinked = count_flag gf_underlinked (gc_features c),
      gs_hubs = count_flag gf_hub (gc_features c), gs_saturated = count_flag gf_saturated (gc_features c),
      gs_computed_at = now\<rparr>"

definition ensure_graph_snapshot ::
  "(string \<Rightarrow> string) \<Rightarrow> graph_config \<Rightarrow> time \<Rightarrow> nat \<Rightarrow> graph_db \<Rightarrow> graph_error + (graph_snapshot \<times> bool \<times> graph_db)" where
  "ensure_graph_snapshot sha cfg now site db =
     (let (nodes, edges, run) = graph_inputs site (gd_corpus db);
          digest = graph_digest sha (gcf_algorithm cfg) run nodes edges
      in case find (\<lambda>s. gs_site s = site \<and> gs_version s = digest) (gd_snapshots db) of
           Some s \<Rightarrow> Inr (s, False, db)
         | None \<Rightarrow>
             bind_ok (compute_graph (gcf_thresholds cfg) nodes edges) (\<lambda>c.
               let s = snapshot_row cfg (next_id gs_id (gd_snapshots db)) now site run digest c
               in Inr (s, True, db\<lparr>gd_snapshots := gd_snapshots db @ [s],
                                  gd_features := gd_features db @ map (Pair (gs_id s)) (gc_features c)\<rparr>)))"

definition feature_rows :: "nat \<Rightarrow> graph_db \<Rightarrow> graph_feature list" where
  "feature_rows sid db = sort_key gf_id (map snd (filter (\<lambda>r. fst r = sid) (gd_features db)))"

text \<open>A \<open>dict\<close> comprehension over rows: a later row of the same key replaces the value in place.\<close>

definition dict_by :: "('a \<Rightarrow> 'k) \<Rightarrow> 'a list \<Rightarrow> ('k \<times> 'a) list" where
  "dict_by key xs = foldl (\<lambda>d x. AList.update (key x) x d) [] xs"

definition snapshot_features :: "nat \<Rightarrow> graph_db \<Rightarrow> (nat \<times> graph_feature) list" where
  "snapshot_features sid db = dict_by gf_id (feature_rows sid db)"

definition current_feature_map ::
  "nat \<Rightarrow> nat list option \<Rightarrow> graph_db \<Rightarrow> graph_snapshot option \<times> (nat \<times> graph_feature) list" where
  "current_feature_map site article_ids db =
     (case latest_snapshot site db of
        None \<Rightarrow> (None, [])
      | Some s \<Rightarrow>
          (let features = snapshot_features (gs_id s) db
           in (Some s, case article_ids of None \<Rightarrow> features
                       | Some ids \<Rightarrow> filter (\<lambda>f. fst f \<in> set ids) features)))"

definition graph_computation_from_snapshot :: "graph_snapshot \<Rightarrow> graph_db \<Rightarrow> graph_computation" where
  "graph_computation_from_snapshot s db =
     \<lparr>gc_features = map snd (snapshot_features (gs_id s) db), gc_edges = site_edges (gs_site s) (gd_corpus db)\<rparr>"

section \<open>Reranking\<close>

record graph_rank =
  rk_target_in :: "nat option"
  rk_source_out :: "nat option"
  rk_orphan :: bool
  rk_underlinked :: bool
  rk_source_hub :: bool
  rk_source_saturated :: bool
  rk_opportunity :: rat
  rk_adjustment :: rat
  rk_baseline :: nat
  rk_final :: nat
  rk_applied :: bool

text \<open>\<open>0.65\<close> is the double next to it; the other literals of the code are doubles themselves.\<close>

definition structural_opportunity :: "graph_feature option \<Rightarrow> graph_feature option \<Rightarrow> rat" where
  "structural_opportunity source target =
     (case target of
        None \<Rightarrow> 0
      | Some t \<Rightarrow>
          (let flags = (if gf_orphan t then 1 else if gf_underlinked t then double_of (65 / 100) else 0);
               own = (if gf_saturated t then 0 else flags)
           in case source of Some s \<Rightarrow> (if gf_saturated s then fmul own (3 / 4) else own) | None \<Rightarrow> own))"

definition structural_adjustment :: "graph_mode \<Rightarrow> rat \<Rightarrow> rat \<Rightarrow> rat \<Rightarrow> rat \<Rightarrow> rat" where
  "structural_adjustment mode boost minimum semantic opportunity =
     (if mode = Graph_active \<and> minimum \<le> semantic then min boost (fmul boost opportunity) else 0)"

definition rank_metadata ::
  "graph_mode \<Rightarrow> rat \<Rightarrow> rat \<Rightarrow> graph_feature option \<Rightarrow> graph_feature option \<Rightarrow> nat \<Rightarrow> rat \<Rightarrow> graph_rank" where
  "rank_metadata mode boost minimum source target baseline_index semantic =
     (let opportunity = structural_opportunity source target;
          adjustment = structural_adjustment mode boost minimum semantic opportunity
      in \<lparr>rk_target_in = map_option gf_in target, rk_source_out = map_option gf_out source,
          rk_orphan = (case target of Some t \<Rightarrow> gf_orphan t | None \<Rightarrow> False),
          rk_underlinked = (case target of Some t \<Rightarrow> gf_underlinked t | None \<Rightarrow> False),
          rk_source_hub = (case source of Some s \<Rightarrow> gf_hub s | None \<Rightarrow> False),
          rk_source_saturated = (case source of Some s \<Rightarrow> gf_saturated s | None \<Rightarrow> False),
          rk_opportunity = fround 6 opportunity, rk_adjustment = fround 6 adjustment,
          rk_baseline = baseline_index, rk_final = baseline_index,
          rk_applied = (mode = Graph_active \<and> 0 < adjustment)\<rparr>)"

text \<open>\<open>tid\<close> and \<open>sem\<close> read \<open>target_id\<close> and \<open>semantic_score\<close> of a candidate, all the code asks of its type. The
  position makes the sort keys distinct, so the candidates themselves are never compared.\<close>

definition adjusted_score ::
  "('c \<Rightarrow> nat) \<Rightarrow> ('c \<Rightarrow> rat) \<Rightarrow> (nat \<times> graph_feature) list \<Rightarrow> nat \<Rightarrow> rat \<Rightarrow> rat \<Rightarrow> 'c \<Rightarrow> rat" where
  "adjusted_score tid sem features source boost minimum c =
     fadd (sem c) (structural_adjustment Graph_active boost minimum (sem c)
       (structural_opportunity (map_of features source) (map_of features (tid c))))"

definition deterministic_rerank ::
  "('c \<Rightarrow> nat) \<Rightarrow> ('c \<Rightarrow> rat) \<Rightarrow> 'c list \<Rightarrow> (nat \<times> graph_feature) list \<Rightarrow> nat \<Rightarrow> graph_mode \<Rightarrow> rat \<Rightarrow> rat
    \<Rightarrow> 'c list \<times> (nat \<times> graph_rank) list" where
  "deterministic_rerank tid sem candidates features source mode boost minimum =
     (let metadata = foldl (\<lambda>m (i, c). AList.update (tid c)
            (rank_metadata mode boost minimum (map_of features source) (map_of features (tid c)) i (sem c)) m)
            [] (List.enumerate 1 candidates)
      in if mode \<noteq> Graph_active then (candidates, metadata)
         else
           (let ordered = map snd (sort_key
                  (\<lambda>(i, c). (- adjusted_score tid sem features source boost minimum c, i, tid c))
                  (List.enumerate 1 candidates))
            in (ordered, foldl (\<lambda>m (i, c). AList.map_entry (tid c) (\<lambda>old. old\<lparr>rk_final := i\<rparr>) m)
                  metadata (List.enumerate 1 ordered))))"

section \<open>Simulation\<close>

record graph_counts =
  gn_active_articles :: nat
  gn_active_links :: nat
  gn_orphans :: nat
  gn_underlinked :: nat
  gn_hubs :: nat
  gn_saturated :: nat
  gn_max_in :: nat
  gn_max_out :: nat

definition graph_counts_of :: "(nat \<times> graph_feature) list \<Rightarrow> nat \<Rightarrow> graph_counts" where
  "graph_counts_of features edges =
     (let fs = map snd features
      in \<lparr>gn_active_articles = length features, gn_active_links = edges,
          gn_orphans = count_flag gf_orphan fs, gn_underlinked = count_flag gf_underlinked fs,
          gn_hubs = count_flag gf_hub fs, gn_saturated = count_flag gf_saturated fs,
          gn_max_in = fold max (map gf_in fs) 0, gn_max_out = fold max (map gf_out fs) 0\<rparr>)"

record graph_simulation =
  sm_before :: graph_counts
  sm_after :: graph_counts
  sm_applied :: "edge list"
  sm_duplicates :: "edge list"
  sm_connected :: "nat list"
  sm_saturated :: "nat list"
  sm_concentration :: rat
  sm_warnings :: "string list"

text \<open>\<open>seen\<close> and \<open>applied\<close> hold the same edges, so one accumulator serves both.\<close>

fun split_proposed :: "edge set \<Rightarrow> nat set \<Rightarrow> edge list \<Rightarrow> edge list \<Rightarrow> edge list \<Rightarrow> edge list \<times> edge list" where
  "split_proposed current ids [] duplicates applied = (duplicates, applied)"
| "split_proposed current ids (e # es) duplicates applied =
     (if e \<in> current \<or> e \<in> set applied then split_proposed current ids es (duplicates @ [e]) applied
      else if \<not> valid_edge ids e then split_proposed current ids es duplicates applied
      else split_proposed current ids es duplicates (applied @ [e]))"

definition target_counter :: "edge list \<Rightarrow> (nat \<times> nat) list" where
  "target_counter es = foldl (\<lambda>d (s, t). AList.update t (or_else (map_of d t) 0 + 1) d) [] es"

fun first_max :: "('a \<times> nat) \<Rightarrow> ('a \<times> nat) list \<Rightarrow> 'a \<times> nat" where
  "first_max best [] = best"
| "first_max best (x # xs) = first_max (if snd best < snd x then x else best) xs"

definition percent_string :: "rat \<Rightarrow> string" where
  "percent_string x = json_int (round_even (fmul x 100)) @ ''%''"

definition simulation_warnings :: "rat \<Rightarrow> edge list \<Rightarrow> (nat \<times> nat) list \<Rightarrow> rat \<Rightarrow> nat list \<Rightarrow> string list" where
  "simulation_warnings share applied counts concentration saturated =
     (if applied = [] then [''No new internal links would change the graph.''] else [])
     @ (if share \<le> concentration \<and> applied \<noteq> []
        then (let (t, n) = first_max (hd counts) (tl counts)
              in [''Target article '' @ digits t @ '' receives '' @ digits n @ '' of '' @ digits (length applied)
                  @ '' new links ('' @ percent_string concentration @ ''); review concentration before publishing.''])
        else [])
     @ (if saturated = [] then []
        else [digits (length saturated) @ '' target article(s) become saturated under the current ''
              @ ''graph thresholds.''])"

definition newly :: "(graph_feature \<Rightarrow> bool) \<Rightarrow> (nat \<times> graph_feature) list \<Rightarrow> (nat \<times> graph_feature) list \<Rightarrow> nat list" where
  "newly flag before after = filter (\<lambda>i. case (map_of before i, map_of after i) of
       (Some b, Some a) \<Rightarrow> \<not> flag b \<and> flag a | _ \<Rightarrow> False) (sort (map fst before))"

definition simulate_graph ::
  "graph_thresholds \<Rightarrow> rat \<Rightarrow> graph_computation \<Rightarrow> edge list \<Rightarrow> graph_error + graph_simulation" where
  "simulate_graph th share c proposed =
     (let (duplicates, applied) = split_proposed (set (gc_edges c)) (gf_id ` set (gc_features c)) proposed [] [];
          nodes = map (\<lambda>f. \<lparr>gn_id = gf_id f, gn_url = gf_url f, gn_title = gf_title f\<rparr>) (gc_features c)
      in bind_ok (compute_graph th nodes (gc_edges c @ applied)) (\<lambda>after.
           let before_by_id = dict_by gf_id (gc_features c); after_by_id = dict_by gf_id (gc_features after);
               connected = newly (\<lambda>f. \<not> gf_orphan f) before_by_id after_by_id;
               saturated = newly gf_saturated before_by_id after_by_id;
               counts = target_counter applied;
               concentration = (if applied = [] then 0
                 else fdiv (of_nat (fold max (map snd counts) 0)) (of_nat (length applied)))
           in Inr \<lparr>sm_before = graph_counts_of before_by_id (edge_count c),
                  sm_after = graph_counts_of after_by_id (edge_count after),
                  sm_applied = applied, sm_duplicates = duplicates,
                  sm_connected = connected, sm_saturated = saturated,
                  sm_concentration = fround 6 concentration,
                  sm_warnings = simulation_warnings share applied counts concentration saturated\<rparr>))"


section \<open>Features\<close>

lemma count_degrees_eq:
  "count_degrees es (ins, outs) =
     (\<lambda>a. ins a + length (filter (\<lambda>e. snd e = a) es), \<lambda>a. outs a + length (filter (\<lambda>e. fst e = a) es))"
  by (induction es "(ins, outs)" arbitrary: ins outs rule: count_degrees.induct) auto

definition in_degree :: "edge list \<Rightarrow> nat \<Rightarrow> nat" where
  "in_degree es a = length (filter (\<lambda>e. snd e = a) es)"

definition out_degree :: "edge list \<Rightarrow> nat \<Rightarrow> nat" where
  "out_degree es a = length (filter (\<lambda>e. fst e = a) es)"

lemma count_degrees_start: "count_degrees es (\<lambda>_. 0, \<lambda>_. 0) = (in_degree es, out_degree es)"
  by (simp add: count_degrees_eq in_degree_def out_degree_def fun_eq_iff)

definition graph_edges :: "graph_node list \<Rightarrow> edge list \<Rightarrow> edge list" where
  "graph_edges nodes edges = sort (remdups (filter (valid_edge (gn_id ` set nodes)) edges))"

definition graph_of :: "graph_thresholds \<Rightarrow> graph_node list \<Rightarrow> edge list \<Rightarrow> graph_computation" where
  "graph_of th nodes edges =
     \<lparr>gc_features = map (node_feature th (max 1 (length (remdups (map gn_id nodes)) - 1))
          (in_degree (graph_edges nodes edges)) (out_degree (graph_edges nodes edges))) (sort_key gn_id nodes),
      gc_edges = graph_edges nodes edges\<rparr>"

lemma node_feature_simps [simp]:
  "gf_id (node_feature th d ins outs n) = gn_id n" "gf_url (node_feature th d ins outs n) = gn_url n"
  "gf_title (node_feature th d ins outs n) = gn_title n" "gf_in (node_feature th d ins outs n) = ins (gn_id n)"
  "gf_out (node_feature th d ins outs n) = outs (gn_id n)"
  "gf_orphan (node_feature th d ins outs n) \<longleftrightarrow> ins (gn_id n) = 0"
  "gf_saturated (node_feature th d ins outs n) \<longleftrightarrow> th_saturation th \<le> ins (gn_id n)"
  by (simp_all add: node_feature_def Let_def)

text \<open>The consistency check of the code never fires.\<close>

lemma compute_graph_total: "compute_graph th nodes edges = Inr (graph_of th nodes edges)"
  by (simp add: compute_graph_def graph_of_def graph_edges_def count_degrees_start
      image_image Let_def)

lemma set_graph_edges: "set (graph_edges nodes edges) = {e \<in> set edges. valid_edge (gn_id ` set nodes) e}"
  by (auto simp: graph_edges_def)

lemma distinct_graph_edges [simp]: "distinct (graph_edges nodes edges)"
  by (simp add: graph_edges_def)

lemma sort_remdups_cong: "set xs = set ys \<Longrightarrow> sort (remdups xs) = sort (remdups ys)"
  by (rule sorted_distinct_set_unique) simp_all

lemma graph_edges_cong:
  assumes "gn_id ` set nodes = gn_id ` set nodes'" and "set (graph_edges nodes edges) = set (graph_edges nodes' edges')"
  shows "graph_edges nodes edges = graph_edges nodes' edges'"
  using assms(2) unfolding graph_edges_def by (intro sort_remdups_cong) simp

text \<open>A graph depends on its nodes in id order and on the set of its valid edges only.\<close>

lemma graph_of_cong:
  assumes "sort_key gn_id nodes = sort_key gn_id nodes'"
    and "{e \<in> set edges. valid_edge (gn_id ` set nodes) e} = {e \<in> set edges'. valid_edge (gn_id ` set nodes) e}"
  shows "graph_of th nodes edges = graph_of th nodes' edges'"
proof -
  have nodes: "set nodes = set nodes'" using arg_cong [OF assms(1), of set] by simp
  have "graph_edges nodes edges = graph_edges nodes' edges'"
    by (rule graph_edges_cong) (use nodes assms(2) in \<open>auto simp: set_graph_edges\<close>)
  moreover have "length (remdups (map gn_id nodes)) = length (remdups (map gn_id nodes'))"
    by (simp add: length_remdups_card_conv nodes)
  ultimately show ?thesis by (simp add: graph_of_def assms(1))
qed

section \<open>The hash of the input\<close>

lemma node_json_members:
  "sort_members (node_json n) =
     JObj [(''id'', JInt (int (gn_id n))), (''title'', JStr (gn_title n)), (''url'', JStr (gn_url n))]"
  by (simp add: node_json_def)

lemma edge_json_members [simp]: "sort_members (edge_json e) = edge_json e"
  by (simp add: edge_json_def)

lemma node_json_inj: "inj (sort_members \<circ> node_json)"
  by (auto simp: inj_def node_json_members)

lemma edge_json_inj: "inj edge_json"
  by (auto simp: inj_def edge_json_def)

lemma graph_payload_members:
  "sort_members (JObj [(''algorithm_version'', JStr a), (''source_ingestion_run_id'', r),
       (''nodes'', JArr ns), (''edges'', JArr es)]) =
     JObj [(''algorithm_version'', JStr a), (''edges'', JArr (map sort_members es)),
       (''nodes'', JArr (map sort_members ns)), (''source_ingestion_run_id'', sort_members r)]"
  by simp

text \<open>Equal payloads describe equal graphs: nothing of the input is lost.\<close>

lemma graph_payload_inj:
  assumes "graph_payload a run nodes edges = graph_payload a' run' nodes' edges'"
  shows "a = a' \<and> run = run' \<and> sort_key gn_id nodes = sort_key gn_id nodes' \<and> set edges = set edges'"
proof -
  define run_json where "run_json = (\<lambda>r. case r of None \<Rightarrow> JNull | Some r \<Rightarrow> JInt (int r))"
  define body where "body = (\<lambda>a r ns es. JObj [(''algorithm_version'', JStr a),
    (''edges'', JArr (map edge_json (sort (remdups es)))),
    (''nodes'', JArr (map (sort_members \<circ> node_json) (sort_key gn_id ns))),
    (''source_ingestion_run_id'', run_json r)])"
  have members: "graph_payload a r ns es = encode (\<lambda>x. []) (body a r ns es)" for a r ns es
    unfolding graph_payload_def json_dumps_def graph_payload_members body_def run_json_def
    by (simp add: comp_def split: option.splits)
  have ff: "float_free (body a r ns es)" for a r ns es
    by (simp add: body_def run_json_def node_json_members edge_json_def split: option.splits)
  have "body a run nodes edges = body a' run' nodes' edges'"
    using assms unfolding members by (simp add: encode_eq_iff [OF ff ff])
  then have "a = a'" "run_json run = run_json run'" "sort_key gn_id nodes = sort_key gn_id nodes'"
    "sort (remdups edges) = sort (remdups edges')"
    by (simp_all add: body_def inj_map_eq_map [OF node_json_inj] inj_map_eq_map [OF edge_json_inj] del: comp_apply)
  moreover from this(2) have "run = run'" by (simp add: run_json_def split: option.splits)
  moreover from calculation(4) have "set edges = set edges'" by (metis set_remdups set_sort)
  ultimately show ?thesis by blast
qed

section \<open>Dictionaries\<close>

lemma update_new: "k \<notin> fst ` set d \<Longrightarrow> AList.update k v d = d @ [(k, v)]"
  by (induction d) auto

lemma dict_by_distinct:
  assumes "distinct (map key xs)"
  shows "dict_by key xs = map (\<lambda>x. (key x, x)) xs"
proof -
  have "foldl (\<lambda>d x. AList.update (key x) x d) d xs = d @ map (\<lambda>x. (key x, x)) xs"
    if "distinct (map key xs)" "fst ` set d \<inter> key ` set xs = {}" for d
    using that by (induction xs arbitrary: d) (auto simp: update_new)
  from this [OF assms, of "[]"] show ?thesis by (simp add: dict_by_def)
qed

lemma map_of_dict: "distinct (map key xs) \<Longrightarrow> x \<in> set xs \<Longrightarrow> map_of (map (\<lambda>x. (key x, x)) xs) (key x) = Some x"
  by (rule map_of_is_SomeI) (auto simp: comp_def)

section \<open>Snapshots\<close>

text \<open>What the snapshot tables hold: for every row the features and counts of some graph, stored under the hash of that
  graph's input.\<close>

definition snapshot_holds :: "graph_config \<Rightarrow> graph_snapshot \<Rightarrow> graph_computation \<Rightarrow> graph_db \<Rightarrow> bool" where
  "snapshot_holds cfg s c db \<longleftrightarrow> feature_rows (gs_id s) db = gc_features c
     \<and> s = snapshot_row cfg (gs_id s) (gs_computed_at s) (gs_site s) (gs_run s) (gs_version s) c"

definition snapshots_sound :: "(string \<Rightarrow> string) \<Rightarrow> graph_config \<Rightarrow> graph_db \<Rightarrow> bool" where
  "snapshots_sound sha cfg db \<longleftrightarrow> primary gs_id (gd_snapshots db)
     \<and> fst ` set (gd_features db) \<subseteq> gs_id ` set (gd_snapshots db)
     \<and> distinct (map (\<lambda>s. (gs_site s, gs_version s)) (gd_snapshots db))
     \<and> (\<forall>s\<in>set (gd_snapshots db). \<exists>nodes edges.
            gs_version s = graph_digest sha (gcf_algorithm cfg) (gs_run s) nodes edges
          \<and> snapshot_holds cfg s (graph_of (gcf_thresholds cfg) nodes edges) db)"

text \<open>What can happen to the tables: a crawl replaces the content of the site's corpus in any way, or a request asks
  for the snapshot of a site.\<close>

datatype graph_event = Crawled corpus | Observed time nat

fun graph_step :: "(string \<Rightarrow> string) \<Rightarrow> graph_config \<Rightarrow> graph_event \<Rightarrow> graph_db \<Rightarrow> graph_db" where
  "graph_step sha cfg (Crawled co) db = db\<lparr>gd_corpus := co\<rparr>"
| "graph_step sha cfg (Observed now site) db =
     (case ensure_graph_snapshot sha cfg now site db of Inl _ \<Rightarrow> db | Inr (_, _, db') \<Rightarrow> db')"

lemma graph_of_ids: "map gf_id (gc_features (graph_of th nodes edges)) = map gn_id (sort_key gn_id nodes)"
  by (simp add: graph_of_def comp_def)

lemma graph_of_features_sorted: "sort_key gf_id (gc_features (graph_of th nodes edges)) = gc_features (graph_of th nodes edges)"
  by (rule sort_key_id_if_sorted) (simp add: graph_of_ids)

lemma feature_rows_append:
  "feature_rows sid (db\<lparr>gd_snapshots := ss, gd_features := gd_features db @ map (Pair i) fs\<rparr>) =
     (if sid = i then sort_key gf_id (map snd (filter (\<lambda>r. fst r = sid) (gd_features db)) @ fs) else feature_rows sid db)"
  by (simp add: feature_rows_def filter_map comp_def)

lemma ensure_cases:
  fixes sha cfg now site db nodes edges run
  assumes "graph_inputs site (gd_corpus db) = (nodes, edges, run)"
  defines "digest \<equiv> graph_digest sha (gcf_algorithm cfg) run nodes edges"
  defines "c \<equiv> graph_of (gcf_thresholds cfg) nodes edges"
  defines "s \<equiv> snapshot_row cfg (next_id gs_id (gd_snapshots db)) now site run digest c"
  obtains
    (reused) t where "find (\<lambda>s. gs_site s = site \<and> gs_version s = digest) (gd_snapshots db) = Some t"
      "ensure_graph_snapshot sha cfg now site db = Inr (t, False, db)"
  | (created) "\<forall>t\<in>set (gd_snapshots db). \<not> (gs_site t = site \<and> gs_version t = digest)"
      "ensure_graph_snapshot sha cfg now site db = Inr (s, True,
         db\<lparr>gd_snapshots := gd_snapshots db @ [s], gd_features := gd_features db @ map (Pair (gs_id s)) (gc_features c)\<rparr>)"
proof (cases "find (\<lambda>s. gs_site s = site \<and> gs_version s = digest) (gd_snapshots db)")
  case None
  then have "\<forall>t\<in>set (gd_snapshots db). \<not> (gs_site t = site \<and> gs_version t = digest)"
    by (auto simp: find_None_iff)
  moreover have "ensure_graph_snapshot sha cfg now site db = Inr (s, True,
         db\<lparr>gd_snapshots := gd_snapshots db @ [s], gd_features := gd_features db @ map (Pair (gs_id s)) (gc_features c)\<rparr>)"
    using None by (simp add: ensure_graph_snapshot_def assms(1) digest_def c_def s_def compute_graph_total Let_def)
  ultimately show thesis by (rule created)
next
  case (Some t)
  moreover have "ensure_graph_snapshot sha cfg now site db = Inr (t, False, db)"
    using Some by (simp add: ensure_graph_snapshot_def assms(1) digest_def Let_def)
  ultimately show thesis by (rule reused)
qed

lemma snapshot_row_simps [simp]:
  "gs_id (snapshot_row cfg i now site run d c) = i" "gs_site (snapshot_row cfg i now site run d c) = site"
  "gs_run (snapshot_row cfg i now site run d c) = run" "gs_version (snapshot_row cfg i now site run d c) = d"
  "gs_computed_at (snapshot_row cfg i now site run d c) = now"
  by (simp_all add: snapshot_row_def)

lemma ensure_keeps_sound:
  assumes sound: "snapshots_sound sha cfg db" and ens: "ensure_graph_snapshot sha cfg now site db = Inr (s, new, db')"
  shows "snapshots_sound sha cfg db' \<and> gd_corpus db' = gd_corpus db \<and> s \<in> set (gd_snapshots db')
    \<and> (\<forall>t\<in>set (gd_snapshots db). t \<in> set (gd_snapshots db') \<and> feature_rows (gs_id t) db' = feature_rows (gs_id t) db)"
proof -
  obtain nodes edges run where inputs: "graph_inputs site (gd_corpus db) = (nodes, edges, run)"
    by (metis prod_cases3)
  show ?thesis
    using inputs
  proof (cases rule: ensure_cases [where sha = sha and cfg = cfg and now = now])
    case (reused t)
    then have "t \<in> set (gd_snapshots db)" by (auto simp: find_Some_iff)
    with reused ens sound show ?thesis by simp
  next
    case created
    define c where "c = graph_of (gcf_thresholds cfg) nodes edges"
    note new = created(2) [folded c_def]
    have eqs: "gd_corpus db' = gd_corpus db" "gd_snapshots db' = gd_snapshots db @ [s]"
      "gd_features db' = gd_features db @ map (Pair (gs_id s)) (gc_features c)"
      and s: "s = snapshot_row cfg (next_id gs_id (gd_snapshots db)) now site run
        (graph_digest sha (gcf_algorithm cfg) run nodes edges) c"
      using ens new by auto
    have fresh: "gs_id s \<notin> gs_id ` set (gd_snapshots db)" by (simp add: s next_id_fresh)
    have frame: "feature_rows (gs_id t) db' = feature_rows (gs_id t) db" if "t \<in> set (gd_snapshots db)" for t
    proof -
      have "gs_id t \<noteq> gs_id s" using fresh that by (metis image_eqI)
      then show ?thesis by (simp add: feature_rows_def eqs filter_map comp_def)
    qed
    have none: "filter (\<lambda>r. fst r = gs_id s) (gd_features db) = []"
      using sound fresh by (auto simp: snapshots_sound_def filter_empty_conv)
    have own: "feature_rows (gs_id s) db' = gc_features c"
      by (simp add: feature_rows_def eqs filter_map comp_def none c_def graph_of_features_sorted)
    have "snapshots_sound sha cfg db'"
      unfolding snapshots_sound_def
    proof (intro conjI ballI)
      show "primary gs_id (gd_snapshots db')" "fst ` set (gd_features db') \<subseteq> gs_id ` set (gd_snapshots db')"
        using sound fresh by (auto simp: snapshots_sound_def primary_def eqs)
      show "distinct (map (\<lambda>s. (gs_site s, gs_version s)) (gd_snapshots db'))"
        using sound created(1) by (auto simp: snapshots_sound_def eqs s)
      fix t assume t: "t \<in> set (gd_snapshots db')"
      show "\<exists>nodes edges. gs_version t = graph_digest sha (gcf_algorithm cfg) (gs_run t) nodes edges
          \<and> snapshot_holds cfg t (graph_of (gcf_thresholds cfg) nodes edges) db'"
      proof (cases "t = s")
        case True
        have "snapshot_holds cfg s c db'" using own by (simp add: snapshot_holds_def) (simp add: s)
        then show ?thesis using True by (intro exI [of _ nodes] exI [of _ edges]) (simp add: c_def s)
      next
        case False
        then have "t \<in> set (gd_snapshots db)" using t by (simp add: eqs)
        then show ?thesis using sound frame [of t] by (auto simp: snapshots_sound_def snapshot_holds_def)
      qed
    qed
    with eqs frame show ?thesis by auto
  qed
qed

interpretation graph: driven_system "graph_step sha cfg" "snapshots_sound sha cfg" for sha cfg
proof
  fix db e
  assume sound: "snapshots_sound sha cfg db"
  show "snapshots_sound sha cfg (graph_step sha cfg e db)"
  proof (cases e)
    case (Crawled co)
    with sound show ?thesis by (simp add: snapshots_sound_def snapshot_holds_def feature_rows_def)
  next
    case (Observed now site)
    with sound ensure_keeps_sound [OF sound] show ?thesis by (auto split: sum.splits)
  qed
qed

text \<open>The edges the simulation reads back from the live tables are those of the stored graph.\<close>

lemma site_edges_graph:
  assumes "graph_inputs site co = (nodes, edges, run)" and "links_wellformed (co_links co)"
  shows "graph_edges nodes edges = site_edges site co" and "edges = site_edges site co"
proof -
  have edges: "edges = site_edges site co" using assms(1) by (simp add: graph_inputs_def)
  have "gn_id ` set nodes = ar_id ` {a \<in> set (co_articles co). ar_site a = site \<and> ar_active a}"
    using assms(1) by (force simp: graph_inputs_def)
  then have nodes: "gn_id ` set nodes = {i. active_site_article site co i}"
    by (auto simp: active_site_article_def list_ex_iff)
  have valid: "\<forall>e\<in>set edges. valid_edge (gn_id ` set nodes) e"
    using assms(2) by (auto simp: edges nodes site_edges_def valid_edge_def links_wellformed_def)
  have "distinct edges"
    using assms(2) by (auto simp: edges site_edges_def links_wellformed_def distinct_map inj_on_def)
  moreover have "sorted edges" by (simp add: edges site_edges_def)
  ultimately have "graph_edges nodes edges = edges" using valid
    by (simp add: graph_edges_def sorted_sort_id)
  with edges show "graph_edges nodes edges = site_edges site co" "edges = site_edges site co" by simp_all
qed

text \<open>Analyses and reviews see the graph of the present: whatever crawls and requests came before, asking for the
  snapshot of a site returns one whose features, counts and edges are those computed from the articles and links as
  they are now, whether it was found or made, unless SHA-256 collides; asking again finds the same one, and no earlier
  snapshot loses or changes a row.\<close>

lemma snapshot_is_current:
  assumes "db = fold (graph_step sha cfg) events \<lparr>gd_corpus = co, gd_snapshots = [], gd_features = []\<rparr>"
    and "graph_inputs site (gd_corpus db) = (nodes, edges, run)"
    and "primary ar_id (co_articles (gd_corpus db))" and "links_wellformed (co_links (gd_corpus db))"
    and "\<And>p. sha p = sha (graph_payload (gcf_algorithm cfg) run nodes edges) \<Longrightarrow> p = graph_payload (gcf_algorithm cfg) run nodes edges"
  shows "\<exists>s new db'. ensure_graph_snapshot sha cfg now site db = Inr (s, new, db')
    \<and> compute_graph (gcf_thresholds cfg) nodes edges = Inr (graph_computation_from_snapshot s db')
    \<and> s = snapshot_row cfg (gs_id s) (gs_computed_at s) site run (gs_version s) (graph_computation_from_snapshot s db')
    \<and> (\<forall>later. ensure_graph_snapshot sha cfg later site db' = Inr (s, False, db'))
    \<and> (\<forall>t\<in>set (gd_snapshots db). t \<in> set (gd_snapshots db') \<and> feature_rows (gs_id t) db' = feature_rows (gs_id t) db)"
proof -
  define digest where "digest = graph_digest sha (gcf_algorithm cfg) run nodes edges"
  have "snapshots_sound sha cfg db"
    unfolding assms(1) by (rule graph.run_inv) (simp add: snapshots_sound_def primary_def)
  moreover obtain s new db' where ens: "ensure_graph_snapshot sha cfg now site db = Inr (s, new, db')"
    using assms(2) by (cases rule: ensure_cases [where sha = sha and cfg = cfg and now = now]) auto
  ultimately have sound: "snapshots_sound sha cfg db'" and co: "gd_corpus db' = gd_corpus db"
    and s_in: "s \<in> set (gd_snapshots db')"
    and frame: "\<forall>t\<in>set (gd_snapshots db). t \<in> set (gd_snapshots db') \<and> feature_rows (gs_id t) db' = feature_rows (gs_id t) db"
    using ensure_keeps_sound by blast+
  have key: "gs_site s = site \<and> gs_version s = digest"
    using assms(2)
  proof (cases rule: ensure_cases [where sha = sha and cfg = cfg and now = now])
    case (reused t)
    then show ?thesis using ens by (auto simp: find_Some_iff digest_def)
  qed (use ens in \<open>auto simp: digest_def\<close>)
  obtain nodes' edges' where old: "gs_version s = graph_digest sha (gcf_algorithm cfg) (gs_run s) nodes' edges'"
    "snapshot_holds cfg s (graph_of (gcf_thresholds cfg) nodes' edges') db'"
    using sound s_in by (auto simp: snapshots_sound_def)
  have "graph_payload (gcf_algorithm cfg) (gs_run s) nodes' edges' = graph_payload (gcf_algorithm cfg) run nodes edges"
    using assms(5) old(1) key by (simp add: digest_def graph_digest_def)
  from graph_payload_inj [OF this] have same: "gs_run s = run"
    "graph_of (gcf_thresholds cfg) nodes' edges' = graph_of (gcf_thresholds cfg) nodes edges"
    by (auto intro: graph_of_cong)
  define c where "c = graph_of (gcf_thresholds cfg) nodes edges"
  have rows: "feature_rows (gs_id s) db' = gc_features c" "s = snapshot_row cfg (gs_id s) (gs_computed_at s) site run (gs_version s) c"
    using old(2) key same by (simp_all add: snapshot_holds_def c_def)
  have "map gn_id nodes = map ar_id (sort_key ar_id (filter (\<lambda>a. ar_site a = site \<and> ar_active a) (co_articles (gd_corpus db))))"
    using assms(2) by (auto simp: graph_inputs_def comp_def)
  also have "distinct \<dots>" using assms(3) by (auto simp: primary_def distinct_map inj_on_def)
  finally have "distinct (map gn_id nodes)" .
  then have "distinct (map gf_id (gc_features c))" by (simp add: c_def graph_of_ids distinct_map)
  then have feats: "map snd (snapshot_features (gs_id s) db') = gc_features c"
    by (simp add: snapshot_features_def rows(1) dict_by_distinct comp_def)
  have "graph_computation_from_snapshot s db' = c"
    using site_edges_graph [OF assms(2,4)]
    by (simp add: graph_computation_from_snapshot_def feats key co c_def graph_of_def)
  moreover have "compute_graph (gcf_thresholds cfg) nodes edges = Inr c" by (simp add: compute_graph_total c_def)
  moreover have "ensure_graph_snapshot sha cfg later site db' = Inr (s, False, db')" for later
    using assms(2) [folded co]
  proof (cases rule: ensure_cases [where sha = sha and cfg = cfg and now = later])
    case (reused t)
    have "t \<in> set (gd_snapshots db')" "gs_site t = site" "gs_version t = digest"
      using reused(1) by (auto simp: find_Some_iff digest_def)
    with sound s_in key have "t = s" by (auto simp: snapshots_sound_def distinct_map inj_on_def)
    with reused(2) show ?thesis by simp
  next
    case created
    with s_in key show ?thesis by (simp add: digest_def)
  qed
  ultimately show ?thesis using ens frame rows(2) by simp
qed

section \<open>Reranking\<close>

text \<open>Python's idiom of sorting by a key with the position as tie-break is a stable sort.\<close>

lemma insort_position:
  assumes "\<forall>p\<in>set L. n < fst p"
  shows "map snd (insort_key (\<lambda>(i, c). (f c, i, g c)) (n, x) L) = insort_key f x (map snd L)"
  using assms by (induction L) (auto simp: less_eq_prod_def less_prod_def split: prod.splits)

lemma set_enumerate_ge: "p \<in> set (List.enumerate n xs) \<Longrightarrow> n \<le> fst p \<and> snd p \<in> set xs"
  by (induction xs arbitrary: n) (auto simp: Suc_le_eq dest: less_imp_le, fastforce+)

lemma sort_position:
  "map snd (sort_key (\<lambda>(i, c). (f c, i :: nat, g c :: 'k :: linorder)) (List.enumerate n xs)) = sort_key f xs"
proof (induction xs arbitrary: n)
  case (Cons x xs)
  define K where "K = (\<lambda>(i, c). (f c, i :: nat, g c))"
  have "\<forall>p\<in>set (sort_key K (List.enumerate (Suc n) xs)). n < fst p"
    using set_enumerate_ge by fastforce
  from insort_position [OF this, of f g x] show ?case using Cons.IH [of "Suc n"]
    by (simp add: K_def)
qed simp

definition opportunity_in_range :: "rat \<Rightarrow> bool" where
  "opportunity_in_range x \<longleftrightarrow> 0 \<le> x \<and> x \<le> 1"

lemma is_double_1: "is_double 1"
  by (rule is_double_dyadic [of 1 52 "2 ^ 52"]) simp_all

lemma double_of_unit: "0 \<le> x \<Longrightarrow> x \<le> 1 \<Longrightarrow> 0 \<le> double_of x \<and> double_of x \<le> 1"
  using double_of_mono [of x 1] is_double_1 by (simp add: double_of_nonneg is_double_def)

lemma structural_opportunity_range: "0 \<le> structural_opportunity source target \<and> structural_opportunity source target \<le> 1"
  using double_of_unit [of "65 / 100"] double_of_unit [of "3 / 4"] double_of_unit [of "double_of (65 / 100) * 3 / 4"]
  by (auto simp: structural_opportunity_def fmul_def Let_def split: option.splits)

lemma structural_adjustment_range:
  assumes "is_double boost" and "0 \<le> boost" and "0 \<le> opportunity" and "opportunity \<le> 1"
  shows "0 \<le> structural_adjustment mode boost minimum semantic opportunity
    \<and> structural_adjustment mode boost minimum semantic opportunity \<le> boost"
  using assms fmul_nonneg [OF assms(2,3)] by (simp add: structural_adjustment_def min_def)

lemma rerank_active:
  "fst (deterministic_rerank tid sem candidates features source Graph_active boost minimum)
     = sort_key (\<lambda>c. - adjusted_score tid sem features source boost minimum c) candidates"
  by (simp add: deterministic_rerank_def sort_position Let_def)

lemma rerank_inactive:
  "mode \<noteq> Graph_active \<Longrightarrow> fst (deterministic_rerank tid sem candidates features source mode boost minimum) = candidates"
  by (simp add: deterministic_rerank_def)

text \<open>A stable sort keeps the order of two elements whose keys are in order.\<close>

lemma sort_key_keeps_order:
  assumes "i < j" and "j < length xs" and "f (xs ! i) \<le> f (xs ! j)"
  shows "\<exists>i' j'. i' < j' \<and> j' < length xs \<and> sort_key f xs ! i' = xs ! i \<and> sort_key f xs ! j' = xs ! j"
  using assms
proof (induction xs arbitrary: i j)
  case (Cons x xs)
  define L where "L = sort_key f xs"
  have len: "length L = length xs" by (simp add: L_def)
  define p where "p = length (takeWhile (\<lambda>y. f y < f x) L)"
  have ins: "sort_key f (x # xs) = take p L @ x # drop p L"
  proof -
    have "insort_key f x L = takeWhile (\<lambda>y. f y < f x) L @ x # dropWhile (\<lambda>y. f y < f x) L"
      by (induction L) (auto simp: not_le)
    moreover have "takeWhile (\<lambda>y. f y < f x) L = take p L" "dropWhile (\<lambda>y. f y < f x) L = drop p L"
      unfolding p_def by (rule takeWhile_eq_take, rule dropWhile_eq_drop)
    ultimately show ?thesis by (simp add: L_def)
  qed
  have p: "p \<le> length L" unfolding p_def by (rule length_takeWhile_le)
  have at: "sort_key f (x # xs) ! (if k < p then k else Suc k) = L ! k" if "k < length L" for k
    unfolding ins using that p by (auto simp: nth_append)
  show ?case
  proof (cases i)
    case 0
    then obtain k where k: "j = Suc k" "k < length xs" using Cons.prems by (cases j) auto
    then have "xs ! k \<in> set L" by (simp add: L_def)
    then obtain m where m: "m < length L" "L ! m = xs ! k" by (auto simp: in_set_conv_nth)
    have "\<not> m < p"
    proof
      assume "m < p"
      then have "L ! m \<in> set (takeWhile (\<lambda>y. f y < f x) L)"
        by (metis nth_mem p_def takeWhile_nth)
      then have "f (L ! m) < f x" by (rule set_takeWhileD [THEN conjunct2])
      with Cons.prems(3) 0 k(1) m(2) show False by simp
    qed
    with at [OF m(1)] m k 0 p len show ?thesis
      unfolding ins by (intro exI [of _ p] exI [of _ "Suc m"]) (auto simp: nth_append)
  next
    case (Suc i0)
    then obtain j0 where j: "j = Suc j0" "i0 < j0" "j0 < length xs" using Cons.prems by (cases j) auto
    with Cons.IH [of i0 j0] Cons.prems(3) Suc obtain i' j' where r: "i' < j'" "j' < length xs"
      "L ! i' = xs ! i0" "L ! j' = xs ! j0" by (auto simp: L_def)
    show ?thesis
      using r at [of i'] at [of j'] len Suc j
      by (intro exI [of _ "if i' < p then i' else Suc i'"] exI [of _ "if j' < p then j' else Suc j'"]) simp
  qed
qed simp

text \<open>Structure moves a candidate by at most the configured boost: reranking keeps exactly the candidates it is given,
  outside the active mode in the order it is given, and in any mode a candidate that came earlier and is more relevant
  by the boost or more is still earlier, whatever the graph says about both.\<close>

lemma structural_boost_is_bounded:
  assumes "is_double boost" and "0 \<le> boost" and "i < j" and "j < length candidates"
    and "is_double (sem (candidates ! i))" and "sem (candidates ! j) + boost \<le> sem (candidates ! i)"
  shows "mset (fst (deterministic_rerank tid sem candidates features source mode boost minimum)) = mset candidates
    \<and> (mode \<noteq> Graph_active \<longrightarrow> fst (deterministic_rerank tid sem candidates features source mode boost minimum) = candidates)
    \<and> (\<exists>i' j'. i' < j' \<and> j' < length candidates
        \<and> fst (deterministic_rerank tid sem candidates features source mode boost minimum) ! i' = candidates ! i
        \<and> fst (deterministic_rerank tid sem candidates features source mode boost minimum) ! j' = candidates ! j)"
proof (cases "mode = Graph_active")
  case True
  let ?adj = "\<lambda>c. structural_adjustment Graph_active boost minimum (sem c)
    (structural_opportunity (map_of features source) (map_of features (tid c)))"
  have range: "0 \<le> ?adj c" "?adj c \<le> boost" for c
    using structural_adjustment_range [OF assms(1,2)] structural_opportunity_range by blast+
  have "adjusted_score tid sem features source boost minimum (candidates ! j) \<le> fadd (sem (candidates ! j)) boost"
    unfolding adjusted_score_def by (intro fadd_mono order_refl range)
  also have "\<dots> \<le> sem (candidates ! i)"
    using double_of_mono [OF assms(6)] assms(5) by (simp add: fadd_def is_double_def)
  also have "\<dots> \<le> adjusted_score tid sem features source boost minimum (candidates ! i)"
    unfolding adjusted_score_def by (intro fadd_ge assms(5) range)
  finally have "\<exists>i' j'. i' < j' \<and> j' < length candidates
      \<and> sort_key (\<lambda>c. - adjusted_score tid sem features source boost minimum c) candidates ! i' = candidates ! i
      \<and> sort_key (\<lambda>c. - adjusted_score tid sem features source boost minimum c) candidates ! j' = candidates ! j"
    by (intro sort_key_keeps_order assms(3,4)) simp
  then show ?thesis by (simp add: True rerank_active)
next
  case False
  with assms(3,4) show ?thesis by (auto simp: rerank_inactive)
qed

lemma foldl_update_distinct:
  assumes "distinct (map k xs)"
  shows "foldl (\<lambda>d x. AList.update (k x) (v x) d) [] xs = map (\<lambda>x. (k x, v x)) xs"
proof -
  have "foldl (\<lambda>d x. AList.update (k x) (v x) d) d xs = d @ map (\<lambda>x. (k x, v x)) xs"
    if "distinct (map k xs)" "fst ` set d \<inter> k ` set xs = {}" for d
    using that by (induction xs arbitrary: d) (auto simp: update_new)
  from this [OF assms, of "[]"] show ?thesis by simp
qed

lemma foldl_map_entry:
  assumes "distinct (map k xs)"
  shows "map_of (foldl (\<lambda>d x. AList.map_entry (k x) (v x) d) d xs) t =
    (case find (\<lambda>x. k x = t) xs of None \<Rightarrow> map_of d t | Some x \<Rightarrow> map_option (v x) (map_of d t))"
  using assms
proof (induction xs arbitrary: d)
  case (Cons x xs)
  show ?case
  proof (cases "k x = t")
    case True
    with Cons.prems have "find (\<lambda>x. k x = t) xs = None" by (auto simp: find_None_iff image_iff)
    with Cons True show ?thesis by (auto simp: AList.map_of_map_entry split: option.splits)
  next
    case False
    with Cons show ?thesis by (auto simp: AList.map_of_map_entry split: option.splits)
  qed
qed simp

lemma distinct_enumerate_snd: "distinct (map tid xs) \<Longrightarrow> distinct (map (\<lambda>p. tid (snd p)) (List.enumerate n xs))"
proof -
  assume d: "distinct (map tid xs)"
  have "map (\<lambda>p. tid (snd p)) (List.enumerate n xs) = map tid (map snd (List.enumerate n xs))"
    by (simp only: list.map_comp comp_def)
  with d show ?thesis by (simp only: map_snd_enumerate)
qed

text \<open>The metadata says where each candidate was and where it went.\<close>

lemma rerank_ranks:
  assumes "deterministic_rerank tid sem candidates features source mode boost minimum = (ordered, metadata)"
    and "distinct (map tid candidates)" and "n < length ordered"
  shows "\<exists>r m. map_of metadata (tid (ordered ! n)) = Some r \<and> rk_final r = Suc n
    \<and> m < length candidates \<and> candidates ! m = ordered ! n \<and> rk_baseline r = Suc m"
proof -
  define meta where "meta = (\<lambda>i c. rank_metadata mode boost minimum (map_of features source) (map_of features (tid c)) i (sem c))"
  define first where "first = map (\<lambda>p. (tid (snd p), meta (fst p) (snd p))) (List.enumerate 1 candidates)"
  have fold: "foldl (\<lambda>m (i, c). AList.update (tid c) (meta i c) m) [] (List.enumerate 1 candidates) = first"
    using foldl_update_distinct [OF distinct_enumerate_snd [OF assms(2)], of "\<lambda>p. meta (fst p) (snd p)" 1]
    by (simp add: first_def case_prod_beta')
  have same: "mset ordered = mset candidates"
    using assms(1) by (cases "mode = Graph_active") (auto simp: rerank_inactive dest!: arg_cong [of _ _ fst] simp: rerank_active)
  then have "ordered ! n \<in> set candidates" using assms(3) by (metis nth_mem set_mset_mset)
  then obtain m where m: "m < length candidates" "candidates ! m = ordered ! n" by (auto simp: in_set_conv_nth)
  have "(tid (ordered ! n), meta (Suc m) (ordered ! n)) \<in> set first"
    using m by (auto simp: first_def image_iff in_set_enumerate_eq intro!: bexI [of _ "(Suc m, ordered ! n)"])
  moreover have "distinct (map fst first)"
    using distinct_enumerate_snd [OF assms(2), of 1] by (simp add: first_def comp_def)
  ultimately have first: "map_of first (tid (ordered ! n)) = Some (meta (Suc m) (ordered ! n))" by simp
  have base: "rk_baseline (meta i c) = i" "rk_final (meta i c) = i" for i c
    by (simp_all add: meta_def rank_metadata_def Let_def)
  show ?thesis
  proof (cases "mode = Graph_active")
    case False
    then have md: "metadata = first" "ordered = candidates"
      using assms(1) fold by (auto simp: deterministic_rerank_def meta_def Let_def)
    have "m = n" using assms(2,3) m md(2) by (metis distinct_map distinct_conv_nth)
    then show ?thesis using first m base md by auto
  next
    case True
    have md: "metadata = foldl (\<lambda>m (i, c). AList.map_entry (tid c) (\<lambda>old. old\<lparr>rk_final := i\<rparr>) m) first (List.enumerate 1 ordered)"
      using assms(1) fold True by (auto simp: deterministic_rerank_def meta_def Let_def)
    have dist: "distinct (map tid ordered)" using assms(2) same by (metis distinct_map mset_eq_setD mset_eq_imp_distinct_iff)
    have find: "find (\<lambda>p. tid (snd p) = tid (ordered ! n)) (List.enumerate 1 ordered) = Some (Suc n, ordered ! n)"
      using distinct_enumerate_snd [OF dist, of 1] assms(3)
      by (auto simp: find_Some_iff nth_enumerate_eq distinct_conv_nth intro!: exI [of _ n])
    have "map_of metadata (tid (ordered ! n)) = Some ((meta (Suc m) (ordered ! n))\<lparr>rk_final := Suc n\<rparr>)"
      using foldl_map_entry [OF distinct_enumerate_snd [OF dist, of 1], where v = "\<lambda>p old. old\<lparr>rk_final := fst p\<rparr>" and d = first]
        first find by (simp add: md case_prod_beta')
    then show ?thesis using m base by auto
  qed
qed

section \<open>Simulation\<close>

lemma split_proposed_applied:
  assumes "split_proposed current ids es duplicates applied = (duplicates', applied')"
    and "distinct applied" and "set applied \<inter> current = {}"
  shows "distinct applied' \<and> set applied' = set applied \<union> {e \<in> set es. valid_edge ids e \<and> e \<notin> current}"
  using assms
proof (induction current ids es duplicates applied rule: split_proposed.induct)
  case (2 current ids e es duplicates applied)
  then show ?case by (auto split: if_splits)
qed simp

lemma features_nodes: "map (\<lambda>f. \<lparr>gn_id = gf_id f, gn_url = gf_url f, gn_title = gf_title f\<rparr>) (gc_features (graph_of th nodes edges))
    = sort_key gn_id nodes"
proof -
  have same: "(\<lambda>n. \<lparr>gn_id = gn_id n, gn_url = gn_url n, gn_title = gn_title n\<rparr>) = id" by (rule ext) simp
  show ?thesis by (simp add: graph_of_def comp_def same)
qed

lemma map_of_features:
  assumes "distinct (map gn_id nodes)"
  shows "map_of (dict_by gf_id (gc_features (graph_of th nodes edges))) i =
    (if i \<in> gn_id ` set nodes then
       Some (node_feature th (max 1 (length (remdups (map gn_id nodes)) - 1)) (in_degree (graph_edges nodes edges))
         (out_degree (graph_edges nodes edges)) (the (map_of (map (\<lambda>n. (gn_id n, n)) nodes) i)))
     else None)"
proof -
  let ?f = "node_feature th (max 1 (length (remdups (map gn_id nodes)) - 1)) (in_degree (graph_edges nodes edges))
    (out_degree (graph_edges nodes edges))"
  have dist: "distinct (map gf_id (gc_features (graph_of th nodes edges)))"
    using assms by (simp add: graph_of_ids distinct_map)
  have "dict_by gf_id (gc_features (graph_of th nodes edges)) = map (\<lambda>n. (gn_id n, ?f n)) (sort_key gn_id nodes)"
    unfolding dict_by_distinct [OF dist] by (simp add: graph_of_def comp_def)
  moreover have "distinct (map fst (map (\<lambda>n. (gn_id n, ?f n)) (sort_key gn_id nodes)))"
    using assms by (simp add: comp_def distinct_map)
  moreover have "map_of (map (\<lambda>n. (gn_id n, n)) nodes) (gn_id n) = Some n" if "n \<in> set nodes" for n
    using that assms by (intro map_of_dict)
  ultimately show ?thesis
    by (cases "i \<in> gn_id ` set nodes") (auto simp: map_of_eq_None_iff image_image intro!: map_of_is_SomeI)
qed

text \<open>C20. The simulation predicts the graph publication would leave: its counts before are those of the current graph, its
  counts after are those \<open>compute_graph\<close> gives for the same pages with the proposed links added, the links it reports
  as applied are the ones that make the difference, each once, and the pages it reports as newly connected are the
  orphans that one of them points to.\<close>

theorem simulation_predicts_the_graph:
  assumes "compute_graph th nodes edges = Inr c" and "distinct (map gn_id nodes)"
  shows "\<exists>sim after. simulate_graph th share c proposed = Inr sim
    \<and> compute_graph th nodes (edges @ proposed) = Inr after
    \<and> sm_before sim = graph_counts_of (dict_by gf_id (gc_features c)) (edge_count c)
    \<and> sm_after sim = graph_counts_of (dict_by gf_id (gc_features after)) (edge_count after)
    \<and> distinct (sm_applied sim) \<and> set (sm_applied sim) = set (gc_edges after) - set (gc_edges c)
    \<and> edge_count after = edge_count c + length (sm_applied sim)
    \<and> set (sm_connected sim) = {i. \<exists>f\<in>set (gc_features c). gf_id f = i \<and> gf_orphan f \<and> i \<in> snd ` set (sm_applied sim)}"
proof -
  have c: "c = graph_of th nodes edges" using assms(1) by (simp add: compute_graph_total)
  define after where "after = graph_of th nodes (edges @ proposed)"
  have ids: "gf_id ` set (gc_features c) = gn_id ` set nodes"
    using arg_cong [OF graph_of_ids [of th nodes edges], of set] by (simp add: c)
  have edges_c: "gc_edges c = graph_edges nodes edges" and edges_after: "gc_edges after = graph_edges nodes (edges @ proposed)"
    by (simp_all add: c after_def graph_of_def)
  obtain duplicates applied where split: "split_proposed (set (gc_edges c)) (gn_id ` set nodes) proposed [] [] = (duplicates, applied)"
    by fastforce
  from split_proposed_applied [OF this] have applied: "distinct applied"
    "set applied = {e \<in> set proposed. valid_edge (gn_id ` set nodes) e \<and> e \<notin> set (gc_edges c)}" by simp_all
  then have diff: "set applied = set (gc_edges after) - set (gc_edges c)"
    by (auto simp: edges_c edges_after set_graph_edges)
  have sub: "set (gc_edges c) \<subseteq> set (gc_edges after)" by (auto simp: edges_c edges_after set_graph_edges)
  have "graph_of th (sort_key gn_id nodes) (gc_edges c @ applied) = after"
    unfolding after_def
    by (rule graph_of_cong) (use applied(2) in \<open>auto simp: edges_c set_graph_edges sort_key_id_if_sorted\<close>)
  then have after: "compute_graph th (sort_key gn_id nodes) (gc_edges c @ applied) = Inr after"
    by (simp add: compute_graph_total)
  have count: "edge_count after = edge_count c + length applied"
  proof -
    have "card (set (gc_edges after)) = card (set (gc_edges c)) + card (set applied)"
      using sub diff by (metis card_Un_disjoint Diff_disjoint List.finite_set Un_Diff_cancel sup.absorb2)
    then show ?thesis using applied(1) by (simp add: edge_count_def distinct_card [symmetric] edges_c edges_after)
  qed
  have orphan: "in_degree (graph_edges nodes (edges @ proposed)) i = 0 \<longleftrightarrow>
      in_degree (graph_edges nodes edges) i = 0 \<and> i \<notin> snd ` set applied" for i
    using sub diff by (auto simp: in_degree_def filter_empty_conv edges_c [symmetric] edges_after [symmetric])
  define before_by_id where "before_by_id = dict_by gf_id (gc_features c)"
  define after_by_id where "after_by_id = dict_by gf_id (gc_features after)"
  have "dict_by gf_id (gc_features c) = map (\<lambda>f. (gf_id f, f)) (gc_features c)"
    using assms(2) by (intro dict_by_distinct) (simp add: c graph_of_ids distinct_map)
  then have keys: "fst ` set before_by_id = gn_id ` set nodes"
    using ids by (simp add: before_by_id_def image_image)
  have "set (newly (\<lambda>f. \<not> gf_orphan f) before_by_id after_by_id) =
      {i \<in> gn_id ` set nodes. in_degree (graph_edges nodes edges) i = 0 \<and> i \<in> snd ` set applied}"
  proof -
    have the_node: "gn_id (the (map_of (map (\<lambda>n. (gn_id n, n)) nodes) i)) = i" if "i \<in> gn_id ` set nodes" for i
      using that map_of_dict [OF assms(2)] by auto
    show ?thesis
      by (auto simp: newly_def keys [unfolded before_by_id_def c] before_by_id_def after_by_id_def map_of_features [OF assms(2)] c after_def
          the_node orphan)
  qed
  also have "\<dots> = {i. \<exists>f\<in>set (gc_features c). gf_id f = i \<and> gf_orphan f \<and> i \<in> snd ` set applied}"
    by (auto simp: c graph_of_def)
  finally have connected: "set (newly (\<lambda>f. \<not> gf_orphan f) before_by_id after_by_id) = \<dots>" .
  show ?thesis
    using connected diff applied(1) count
    by (simp add: simulate_graph_def ids split features_nodes [of th nodes edges, folded c] after Let_def
        compute_graph_total [of th nodes "edges @ proposed", folded after_def] before_by_id_def after_by_id_def)
qed

section \<open>The routes\<close>

definition get_graph_summary ::
  "(string \<Rightarrow> string) \<Rightarrow> graph_config \<Rightarrow> time \<Rightarrow> nat \<Rightarrow> nat \<Rightarrow> nat \<Rightarrow> graph_db
    \<Rightarrow> graph_error + ((graph_snapshot \<times> graph_feature list) \<times> graph_db)" where
  "get_graph_summary sha cfg now site limit offset db =
     bind_ok (ensure_graph_snapshot sha cfg now site db) (\<lambda>(s, created, db').
       let committed = (if created then db' else db)
       in Inr ((s, take limit (drop offset (feature_rows (gs_id s) committed))), committed))"

record simulation_out =
  so_snapshot :: nat
  so_version :: string
  so_requested :: "nat list"
  so_applied :: "nat list"
  so_skipped :: "nat list"
  so_duplicate_count :: nat
  so_before :: graph_counts
  so_after :: graph_counts
  so_orphan_delta :: int
  so_underlinked_delta :: int
  so_connected :: "nat list"
  so_saturated :: "nat list"
  so_concentration :: rat
  so_warnings :: "string list"

text \<open>\<open>list(dict.fromkeys(xs))\<close>: the first occurrence of each.\<close>

definition from_keys :: "'a list \<Rightarrow> 'a list" where
  "from_keys xs = rev (remdups (rev xs))"

text \<open>The rows with a target in the graph become edges, in the order asked; the first suggestion of a pair stands for it.\<close>

fun propose_pairs ::
  "nat set \<Rightarrow> suggestion list \<Rightarrow> edge list \<Rightarrow> (edge \<times> nat) list \<Rightarrow> nat list \<Rightarrow> edge list \<times> (edge \<times> nat) list \<times> nat list" where
  "propose_pairs ids [] pairs owner skipped = (pairs, owner, skipped)"
| "propose_pairs ids (s # ss) pairs owner skipped =
     (case sg_target s of
        None \<Rightarrow> propose_pairs ids ss pairs owner (skipped @ [sg_id s])
      | Some t \<Rightarrow>
          if sg_source s \<notin> ids \<or> t \<notin> ids then propose_pairs ids ss pairs owner (skipped @ [sg_id s])
          else propose_pairs ids ss (pairs @ [(sg_source s, t)])
                 (if map_of owner (sg_source s, t) = None then owner @ [((sg_source s, t), sg_id s)] else owner) skipped)"

definition simulate_selection ::
  "graph_config \<Rightarrow> nat \<Rightarrow> graph_snapshot \<Rightarrow> nat list \<Rightarrow> graph_db \<Rightarrow> http_error + simulation_out" where
  "simulate_selection cfg site snapshot requested db =
     (let rows = filter (\<lambda>s. sg_site s = site \<and> sg_id s \<in> set requested) (co_suggestions (gd_corpus db))
      in if list_ex (\<lambda>i. get_row sg_id i rows = None) requested then Inl (Http 404)
         else if list_ex (\<lambda>s. sg_status s \<noteq> Approved) rows then Inl (Http 409)
         else
           (let c = graph_computation_from_snapshot snapshot db;
                ids = gf_id ` set (gc_features c);
                asked = map (\<lambda>i. the (get_row sg_id i rows)) requested;
                (pairs, owner, skipped) = propose_pairs ids asked [] [] []
            in case simulate_graph (gcf_thresholds cfg) (gcf_share_warning cfg) c pairs of
                 Inl _ \<Rightarrow> Inl (Http 500)
               | Inr sim \<Rightarrow>
                   (let applied = map (\<lambda>e. the (map_of owner e)) (sm_applied sim);
                        skipped' = sort (remdups (skipped @ filter (\<lambda>i. i \<notin> set applied) requested));
                        external_count = length (filter (\<lambda>s. sg_target s = None) asked);
                        inactive_count = length (filter (\<lambda>s. case sg_target s of None \<Rightarrow> False
                          | Some t \<Rightarrow> sg_source s \<notin> ids \<or> t \<notin> ids) asked)
                    in Inr \<lparr>so_snapshot = gs_id snapshot, so_version = gs_version snapshot,
                          so_requested = requested, so_applied = applied, so_skipped = skipped',
                          so_duplicate_count = length (sm_duplicates sim),
                          so_before = sm_before sim, so_after = sm_after sim,
                          so_orphan_delta = int (gn_orphans (sm_after sim)) - int (gn_orphans (sm_before sim)),
                          so_underlinked_delta = int (gn_underlinked (sm_after sim)) - int (gn_underlinked (sm_before sim)),
                          so_connected = sm_connected sim, so_saturated = sm_saturated sim,
                          so_concentration = sm_concentration sim,
                          so_warnings = sm_warnings sim
                            @ (if external_count = 0 then []
                               else [digits external_count @ '' external suggestion(s) were excluded; ''
                                     @ ''this simulation covers internal links only.''])
                            @ (if inactive_count = 0 then []
                               else [digits inactive_count @ '' suggestion(s) target inactive or missing ''
                                     @ ''articles and were excluded.''])\<rparr>)))"

definition simulate_graph_application ::
  "(string \<Rightarrow> string) \<Rightarrow> graph_config \<Rightarrow> time \<Rightarrow> nat \<Rightarrow> nat list \<Rightarrow> graph_db \<Rightarrow> (http_error + simulation_out) \<times> graph_db" where
  "simulate_graph_application sha cfg now site suggestion_ids db =
     (let requested = from_keys suggestion_ids
      in case ensure_graph_snapshot sha cfg now site db of
           Inl _ \<Rightarrow> (Inl (Http 500), db)
         | Inr (snapshot, created, db') \<Rightarrow>
             (let committed = (if created then db' else db)
              in (simulate_selection cfg site snapshot requested committed, committed)))"

text \<open>Asking what publication would do publishes nothing: the only rows a simulation adds are those of a snapshot.\<close>

lemma simulation_changes_nothing:
  "gd_corpus (snd (simulate_graph_application sha cfg now site suggestion_ids db)) = gd_corpus db"
proof -
  obtain nodes edges run where inputs: "graph_inputs site (gd_corpus db) = (nodes, edges, run)" by (metis prod_cases3)
  show ?thesis
  proof (cases "ensure_graph_snapshot sha cfg now site db")
    case (Inr r)
    obtain s created db' where r: "r = (s, created, db')" by (metis prod_cases3)
    from inputs have "gd_corpus db' = gd_corpus db"
      by (cases rule: ensure_cases [where sha = sha and cfg = cfg and now = now]) (use Inr r in auto)
    then show ?thesis by (simp add: simulate_graph_application_def Inr r)
  qed (simp add: simulate_graph_application_def)
qed

section \<open>Witnesses\<close>

definition sample_page :: "nat \<Rightarrow> site_article" where
  "sample_page i = \<lparr>ar_id = i, ar_site = 7, ar_url = ''https://e.org/'' @ digits i, ar_title = ''T'', ar_text = ''t'',
     ar_external_id = None, ar_html = None, ar_language = None, ar_published = None, ar_active = True, ar_last_run = None\<rparr>"

definition sample_corpus :: corpus where
  "sample_corpus = \<lparr>co_articles = [sample_page 1, sample_page 2], co_taxonomies = [], co_article_taxonomies = [],
     co_links = [\<lparr>lk_source = 1, lk_target = 2, lk_anchor = None, lk_active = True, lk_last_run = None\<rparr>],
     co_runs = [], co_diagnostics = [], co_suggestions = []\<rparr>"

definition sample_config :: graph_config where
  "sample_config = \<lparr>gcf_algorithm = ''deterministic_v1'',
     gcf_thresholds = \<lparr>th_underlinked = 1, th_hub = 10, th_saturation = 10\<rparr>, gcf_mode = Graph_active,
     gcf_boost = 1 / 32, gcf_share_warning = 1 / 2\<rparr>"

definition sample_nodes :: "graph_node list" where
  "sample_nodes = [\<lparr>gn_id = 1, gn_url = ''https://e.org/'' @ digits 1, gn_title = ''T''\<rparr>,
     \<lparr>gn_id = 2, gn_url = ''https://e.org/'' @ digits 2, gn_title = ''T''\<rparr>]"

lemma sample_inputs: "graph_inputs 7 sample_corpus = (sample_nodes, [(1, 2)], None)"
  by (simp add: graph_inputs_def sample_corpus_def sample_page_def sample_nodes_def site_edges_def active_site_article_def
      accepted_run_id_def)

lemma sample_orphans:
  "map gf_orphan (gc_features (graph_of th sample_nodes [(1, 2)])) = [True, False]"
  by (simp add: graph_of_def sample_nodes_def graph_edges_def valid_edge_def in_degree_def)

lemma simulation_predicts_the_graph_witness:
  "\<exists>sim. simulate_graph (gcf_thresholds sample_config) (1 / 2) (graph_of (gcf_thresholds sample_config) sample_nodes [(1, 2)]) [(2, 1), (1, 2)]
      = Inr sim \<and> set (sm_applied sim) = {(2, 1)} \<and> set (sm_connected sim) = {1}"
proof -
  have dist: "distinct (map gn_id sample_nodes)" by (simp add: sample_nodes_def)
  obtain sim after where r: "simulate_graph (gcf_thresholds sample_config) (1 / 2)
      (graph_of (gcf_thresholds sample_config) sample_nodes [(1, 2)]) [(2, 1), (1, 2)] = Inr sim"
    "compute_graph (gcf_thresholds sample_config) sample_nodes ([(1, 2)] @ [(2, 1), (1, 2)]) = Inr after"
    "set (sm_applied sim) = set (gc_edges after) - set (gc_edges (graph_of (gcf_thresholds sample_config) sample_nodes [(1, 2)]))"
    "set (sm_connected sim) = {i. \<exists>f\<in>set (gc_features (graph_of (gcf_thresholds sample_config) sample_nodes [(1, 2)])).
        gf_id f = i \<and> gf_orphan f \<and> i \<in> snd ` set (sm_applied sim)}"
    using simulation_predicts_the_graph [OF compute_graph_total dist, where th = "gcf_thresholds sample_config"
        and edges = "[(1, 2)]" and share = "1 / 2" and proposed = "[(2, 1), (1, 2)]"]
    by blast
  have edges: "gc_edges (graph_of th sample_nodes es) = graph_edges sample_nodes es" for th es by (simp add: graph_of_def)
  have "after = graph_of (gcf_thresholds sample_config) sample_nodes ([(1, 2)] @ [(2, 1), (1, 2)])"
    using r(2) by (simp only: compute_graph_total sum.inject)
  then have "set (sm_applied sim) = set (graph_edges sample_nodes ([(1, 2)] @ [(2, 1), (1, 2)])) - set (graph_edges sample_nodes [(1, 2)])"
    using r(3) by (simp only: edges)
  also have "\<dots> = {(2, 1)}" by (auto simp: set_graph_edges sample_nodes_def valid_edge_def)
  finally have applied: "set (sm_applied sim) = {(2, 1)}" .
  have "gc_features (graph_of (gcf_thresholds sample_config) sample_nodes [(1, 2)]) = [f, g] \<Longrightarrow> gf_id f = 1 \<and> gf_id g = 2" for f g
    by (auto simp: graph_of_def sample_nodes_def)
  moreover obtain f g where fg: "gc_features (graph_of (gcf_thresholds sample_config) sample_nodes [(1, 2)]) = [f, g]"
    by (simp add: graph_of_def sample_nodes_def)
  ultimately have "gf_id f = 1" "gf_id g = 2" "gf_orphan f"
    using sample_orphans [of "gcf_thresholds sample_config"] by simp_all
  with r(4) applied have "set (sm_connected sim) = {1}" unfolding fg by auto
  with applied r(1) show ?thesis by blast
qed

lemma structural_boost_is_bounded_witness:
  "\<exists>i' j'. i' < j' \<and> j' < 2
     \<and> fst (deterministic_rerank fst snd [(2, 3 / 4), (1, 1 / 2)]
         (dict_by gf_id (gc_features (graph_of (gcf_thresholds sample_config) sample_nodes [(1, 2)]))) 2 Graph_active (1 / 32) 0) ! i' = (2, 3 / 4)
     \<and> fst (deterministic_rerank fst snd [(2, 3 / 4), (1, 1 / 2)]
         (dict_by gf_id (gc_features (graph_of (gcf_thresholds sample_config) sample_nodes [(1, 2)]))) 2 Graph_active (1 / 32) 0) ! j' = (1, 1 / 2)"
proof -
  have "is_double (1 / 32)" by (rule is_double_dyadic [of _ 57 "2 ^ 52"]) simp_all
  moreover have "is_double (3 / 4)" by (rule is_double_dyadic [of _ 53 "3 * 2 ^ 51"]) simp_all
  ultimately show ?thesis
    using structural_boost_is_bounded [of "1 / 32" 0 1 "[(2, 3 / 4), (1, 1 / 2)]" snd fst _ 2 Graph_active 0]
    by (simp add: numeral_2_eq_2)
qed

end
