(* ===== verification/UrlGuard.thy ===== *)
theory UrlGuard
  imports Url Json "HOL-Library.Word"
begin

text \<open>
  Outbound requests: \<^verbatim>\<open>app/connectors/url_guard.py\<close> and \<^verbatim>\<open>app/connectors/http_limits.py\<close>, with the parts of
  Python's \<open>ipaddress\<close> they use (the tables are those of CPython 3.12.4). Addresses are words; the resolver
  and the sockets are parameters. \<open>urlsplit\<close> is that of theory Url.
\<close>

unbundle bit_operations_syntax

section \<open>Addresses\<close>

type_synonym ipv4 = "32 word"
type_synonym ipv6 = "128 word"

datatype ip = V4 ipv4 | V6 ipv6

definition in_net :: "'a::len word \<times> nat \<Rightarrow> 'a word \<Rightarrow> bool" where
  "in_net net a \<longleftrightarrow> drop_bit (LENGTH('a) - snd net) a = drop_bit (LENGTH('a) - snd net) (fst net)"

definition v4 :: "nat \<Rightarrow> nat \<Rightarrow> nat \<Rightarrow> nat \<Rightarrow> ipv4" where
  "v4 a b c d = of_nat (((a * 256 + b) * 256 + c) * 256 + d)"

definition private4 :: "(ipv4 \<times> nat) list" where
  "private4 = [(v4 0 0 0 0, 8), (v4 10 0 0 0, 8), (v4 127 0 0 0, 8), (v4 169 254 0 0, 16), (v4 172 16 0 0, 12),
     (v4 192 0 0 0, 24), (v4 192 0 0 170, 31), (v4 192 0 2 0, 24), (v4 192 168 0 0, 16), (v4 198 18 0 0, 15),
     (v4 198 51 100 0, 24), (v4 203 0 113 0, 24), (v4 240 0 0 0, 4), (v4 255 255 255 255, 32)]"

definition private4_exceptions :: "(ipv4 \<times> nat) list" where
  "private4_exceptions = [(v4 192 0 0 9, 32), (v4 192 0 0 10, 32)]"

definition is_private4 :: "ipv4 \<Rightarrow> bool" where
  "is_private4 a \<longleftrightarrow> list_ex (\<lambda>net. in_net net a) private4 \<and> \<not> list_ex (\<lambda>net. in_net net a) private4_exceptions"

definition is_global4 :: "ipv4 \<Rightarrow> bool" where
  "is_global4 a \<longleftrightarrow> \<not> in_net (v4 100 64 0 0, 10) a \<and> \<not> is_private4 a"

definition is_multicast4 :: "ipv4 \<Rightarrow> bool" where "is_multicast4 = in_net (v4 224 0 0 0, 4)"

text \<open>The first bits of an IPv6 network, as a literal of 16-bit groups padded with zeros.\<close>

definition v6 :: "nat list \<Rightarrow> ipv6" where
  "v6 groups = of_nat (foldl (\<lambda>a h. a * 65536 + h) 0 (take 8 (groups @ [0, 0, 0, 0, 0, 0, 0, 0])))"

definition ipv4_mapped :: "ipv6 \<Rightarrow> ipv4 option" where
  "ipv4_mapped a = (if drop_bit 32 a = 0xFFFF then Some (ucast a) else None)"

definition private6 :: "(ipv6 \<times> nat) list" where
  "private6 = [(v6 [0, 0, 0, 0, 0, 0, 0, 1], 128), (v6 [], 128), (v6 [0, 0, 0, 0, 0, 0xFFFF], 96),
     (v6 [0x64, 0xFF9B, 1], 48), (v6 [0x100], 64), (v6 [0x2001], 23), (v6 [0x2001, 0xDB8], 32), (v6 [0x2002], 16),
     (v6 [0xFC00], 7), (v6 [0xFE80], 10)]"

definition private6_exceptions :: "(ipv6 \<times> nat) list" where
  "private6_exceptions = [(v6 [0x2001, 1, 0, 0, 0, 0, 0, 1], 128), (v6 [0x2001, 1, 0, 0, 0, 0, 0, 2], 128),
     (v6 [0x2001, 3], 32), (v6 [0x2001, 4, 0x112], 48), (v6 [0x2001, 0x20], 28), (v6 [0x2001, 0x30], 28)]"

definition is_private6 :: "ipv6 \<Rightarrow> bool" where
  "is_private6 a \<longleftrightarrow> (case ipv4_mapped a of
     Some x \<Rightarrow> is_private4 x
   | None \<Rightarrow> list_ex (\<lambda>net. in_net net a) private6 \<and> \<not> list_ex (\<lambda>net. in_net net a) private6_exceptions)"

definition is_multicast6 :: "ipv6 \<Rightarrow> bool" where "is_multicast6 = in_net (v6 [0xFF00], 8)"
definition is_site_local6 :: "ipv6 \<Rightarrow> bool" where "is_site_local6 = in_net (v6 [0xFEC0], 10)"

definition is_global :: "ip \<Rightarrow> bool" where
  "is_global i = (case i of V4 a \<Rightarrow> is_global4 a | V6 a \<Rightarrow> \<not> is_private6 a)"

definition is_multicast :: "ip \<Rightarrow> bool" where
  "is_multicast i = (case i of V4 a \<Rightarrow> is_multicast4 a | V6 a \<Rightarrow> is_multicast6 a)"

section \<open>The classifier\<close>

definition ipv4_compatible_prefix :: "ipv6 \<times> nat" where "ipv4_compatible_prefix = (v6 [], 96)"
definition ipv4_translated_prefix :: "ipv6 \<times> nat" where "ipv4_translated_prefix = (v6 [0, 0, 0, 0, 0xFFFF], 96)"
definition nat64_well_known_prefix :: "ipv6 \<times> nat" where "nat64_well_known_prefix = (v6 [0x64, 0xFF9B], 96)"

text \<open>The candidate is the embedded IPv4 address, where there is one.\<close>

definition embedded_ipv4 :: "ipv6 \<Rightarrow> ipv4 option" where
  "embedded_ipv4 a =
     (let embedded = ipv4_mapped a;
          embedded = (if embedded = None \<and> in_net ipv4_compatible_prefix a then Some (ucast (a AND 0xFFFFFFFF)) else embedded);
          embedded = (if in_net ipv4_translated_prefix a then Some (ucast (a AND 0xFFFFFFFF)) else embedded)
      in if in_net nat64_well_known_prefix a then Some (ucast (a AND 0xFFFFFFFF)) else embedded)"

definition is_public_address :: "ip \<Rightarrow> bool" where
  "is_public_address i \<longleftrightarrow>
     \<not> (is_multicast i \<or> (case i of V4 _ \<Rightarrow> False | V6 a \<Rightarrow> is_site_local6 a))
     \<and> (let candidate = (case i of V4 a \<Rightarrow> V4 a
                        | V6 a \<Rightarrow> (case embedded_ipv4 a of Some x \<Rightarrow> V4 x | None \<Rightarrow> V6 a))
        in is_global candidate \<and> \<not> is_multicast candidate)"

section \<open>Reading an address\<close>

fun split_all :: "char \<Rightarrow> string \<Rightarrow> string list" where
  "split_all c [] = [[]]"
| "split_all c (x # s) =
     (if x = c then [] # split_all c s
      else (case split_all c s of [] \<Rightarrow> [[x]] | p # ps \<Rightarrow> (x # p) # ps))"

definition parse_octet :: "string \<Rightarrow> nat option" where
  "parse_octet s =
     (if s = [] \<or> \<not> list_all is_digit_char s \<or> 3 < length s \<or> (s \<noteq> ''0'' \<and> hd s = CHR ''0'') \<or> 255 < digits_value s
      then None else Some (digits_value s))"

definition parse_ipv4 :: "string \<Rightarrow> ipv4 option" where
  "parse_ipv4 s =
     (case map parse_octet (split_all (CHR ''.'') s) of
        [Some a, Some b, Some c, Some d] \<Rightarrow> Some (v4 a b c d)
      | _ \<Rightarrow> None)"

definition hex_digit_value :: "char \<Rightarrow> nat option" where
  "hex_digit_value c = (let n = (of_char c :: nat)
     in if 48 \<le> n \<and> n \<le> 57 then Some (n - 48)
        else if 97 \<le> n \<and> n \<le> 102 then Some (n - 87) else if 65 \<le> n \<and> n \<le> 70 then Some (n - 55) else None)"

definition parse_hextet :: "string \<Rightarrow> nat option" where
  "parse_hextet s =
     (if s = [] \<or> 4 < length s \<or> list_ex (\<lambda>c. hex_digit_value c = None) s then None
      else Some (foldl (\<lambda>a c. a * 16 + (case hex_digit_value c of Some d \<Rightarrow> d | None \<Rightarrow> 0)) 0 s))"

fun all_some :: "'a option list \<Rightarrow> 'a list option" where
  "all_some [] = Some []"
| "all_some (None # xs) = None"
| "all_some (Some x # xs) = map_option (Cons x) (all_some xs)"

text \<open>A dotted suffix becomes two groups; \<open>::\<close> stands for at least one zero group.\<close>

definition ipv6_groups :: "string list \<Rightarrow> nat list option" where
  "ipv6_groups parts =
     (case filter (\<lambda>i. parts ! i = []) [1..<length parts - 1] of
        [] \<Rightarrow> if length parts = 8 then all_some (map parse_hextet parts) else None
      | [skip] \<Rightarrow>
          let hi = (if hd parts = [] then skip - 1 else skip);
              lo = length parts - skip - 1;
              lo' = (if last parts = [] then lo - 1 else lo)
          in if hd parts = [] \<and> hi \<noteq> 0 \<or> last parts = [] \<and> lo' \<noteq> 0 \<or> 8 < hi + lo' + 1 then None
             else (case (all_some (map parse_hextet (take hi parts)),
                         all_some (map parse_hextet (drop (length parts - lo') parts))) of
                     (Some front, Some rear) \<Rightarrow> Some (front @ replicate (8 - (hi + lo')) 0 @ rear)
                   | _ \<Rightarrow> None)
      | _ \<Rightarrow> None)"

definition parse_ipv6 :: "string \<Rightarrow> ipv6 option" where
  "parse_ipv6 s =
     (let (addr, sep, scope) = partition_at (CHR ''%'') s;
          parts = split_all (CHR '':'') addr;
          groups = (if CHR ''.'' \<in> set (last parts)
                    then (case parse_ipv4 (last parts) of
                            None \<Rightarrow> None
                          | Some x \<Rightarrow>
                              if 9 < length parts + 1 then None
                              else (case ipv6_groups (butlast parts @ [''0'', ''0'']) of
                                      None \<Rightarrow> None
                                    | Some g \<Rightarrow> Some (take 6 g @ [unat (drop_bit 16 x), unat (x AND 0xFFFF)])))
                    else if 9 < length parts then None else ipv6_groups parts)
      in if CHR ''/'' \<in> set s \<or> (sep \<and> (scope = [] \<or> CHR ''%'' \<in> set scope)) \<or> length parts < 3 then None
         else map_option v6 groups)"

definition ip_address :: "string \<Rightarrow> ip option" where
  "ip_address s = (case parse_ipv4 s of Some a \<Rightarrow> Some (V4 a) | None \<Rightarrow> map_option V6 (parse_ipv6 s))"

section \<open>Connecting\<close>

datatype guard_error = Unsafe_url | Bad_address | Connect_timeout | Connect_error

text \<open>\<open>None\<close>: the resolver raised \<open>gaierror\<close>. The answers are the address texts of the socket addresses.\<close>

definition resolve :: "bool \<Rightarrow> string list option \<Rightarrow> guard_error + string list" where
  "resolve allow_private answers =
     (case answers of
        None \<Rightarrow> Inl Unsafe_url
      | Some infos \<Rightarrow>
          if infos = [] then Inl Unsafe_url
          else if list_all (\<lambda>sock. case ip_address (fst (partition_at (CHR ''%'') sock)) of
                              None \<Rightarrow> False | Some i \<Rightarrow> allow_private \<or> is_public_address i) infos
          then Inr infos else Inl Unsafe_url)"

datatype socket_outcome = Connected | Timed_out | Os_error

text \<open>The sockets tried, in order, and the address connected to.\<close>

fun try_sockets :: "(string \<Rightarrow> socket_outcome) \<Rightarrow> string list \<Rightarrow> guard_error \<Rightarrow> string list \<times> (guard_error + string)" where
  "try_sockets sock [] err = ([], Inl err)"
| "try_sockets sock (a # infos) err =
     (case sock a of
        Connected \<Rightarrow> ([a], Inr a)
      | Timed_out \<Rightarrow> apfst (Cons a) (try_sockets sock infos Connect_timeout)
      | Os_error \<Rightarrow> apfst (Cons a) (try_sockets sock infos Connect_error))"

definition connect_tcp ::
  "bool \<Rightarrow> (string \<Rightarrow> string list option) \<Rightarrow> (string \<Rightarrow> socket_outcome) \<Rightarrow> string \<Rightarrow> string list \<times> (guard_error + string)" where
  "connect_tcp allow_private resolver sock host =
     (case resolve allow_private (resolver host) of
        Inl e \<Rightarrow> ([], Inl e)
      | Inr infos \<Rightarrow> try_sockets sock infos Connect_error)"

section \<open>Validating a URL\<close>

text \<open>Whether the URL carries a user name or a password.\<close>

definition has_credentials :: "string \<Rightarrow> bool" where
  "has_credentials url =
     (let netloc = snd (urlsplit url);
          userinfo = (if CHR ''@'' \<in> set netloc then rev (tl (dropWhile (\<lambda>c. c \<noteq> CHR ''@'') (rev netloc))) else [])
      in userinfo \<notin> {[], '':''})"

definition is_ip_literal :: "string \<Rightarrow> bool" where "is_ip_literal host \<longleftrightarrow> ip_address host \<noteq> None"

definition addresses :: "(string \<Rightarrow> string list option) \<Rightarrow> string \<Rightarrow> guard_error + ip list" where
  "addresses resolver host =
     (case ip_address host of
        Some i \<Rightarrow> Inr [i]
      | None \<Rightarrow>
          (case resolver host of
             None \<Rightarrow> Inl Unsafe_url
           | Some infos \<Rightarrow> (case all_some (map ip_address infos) of None \<Rightarrow> Inl Bad_address | Some is \<Rightarrow> Inr is)))"

definition validate_url ::
  "(string \<Rightarrow> string list option) \<Rightarrow> bool \<Rightarrow> bool \<Rightarrow> string option \<Rightarrow> bool \<Rightarrow> string \<Rightarrow> guard_error + unit" where
  "validate_url resolver allow_private require_https same_host_as resolve_dns url =
     (if url_scheme url \<notin> {''http'', ''https''} then Inl Unsafe_url
      else if require_https \<and> url_scheme url \<noteq> ''https'' then Inl Unsafe_url
      else if has_credentials url then Inl Unsafe_url
      else case url_hostname url of
        None \<Rightarrow> Inl Unsafe_url
      | Some host \<Rightarrow>
          if (case same_host_as of None \<Rightarrow> False
                | Some base \<Rightarrow> lower host \<noteq> lower (or_else (url_hostname base) [])) then Inl Unsafe_url
          else if allow_private \<or> (\<not> resolve_dns \<and> \<not> is_ip_literal host) then Inr ()
          else bind_ok (addresses resolver host) (\<lambda>addrs.
                 if list_all is_public_address addrs then Inr () else Inl Unsafe_url))"

definition request_guard :: "bool \<Rightarrow> bool \<Rightarrow> string \<Rightarrow> guard_error + unit" where
  "request_guard allow_private require_https url =
     validate_url (\<lambda>_. None) allow_private require_https None False url"

section \<open>Bounded bodies\<close>

datatype body_error = Bad_status | Too_large | Deadline

text \<open>\<open>int(text)\<close>: surrounding blanks, a sign, digits with single underscores between them, at most 4300 of them.\<close>

fun grouped_digits :: "string \<Rightarrow> string option" where
  "grouped_digits [] = None"
| "grouped_digits [c] = (if is_digit_char c then Some [c] else None)"
| "grouped_digits (c # d # s) =
     (if \<not> is_digit_char c then None
      else map_option (Cons c) (grouped_digits (if d = CHR ''_'' then s else d # s)))"

definition python_int :: "string \<Rightarrow> int option" where
  "python_int text =
     (let s = strip text;
          negative = (s \<noteq> [] \<and> hd s = CHR ''-'');
          body = (if s \<noteq> [] \<and> hd s \<in> {CHR ''-'', CHR ''+''} then tl s else s)
      in case grouped_digits body of
           None \<Rightarrow> None
         | Some ds \<Rightarrow> if 4300 < length ds then None
                      else Some (if negative then - int (digits_value ds) else int (digits_value ds)))"

text \<open>The chunks of the decoded body with the clock when each arrives.\<close>

fun read_chunks :: "rat option \<Rightarrow> rat \<Rightarrow> nat \<Rightarrow> (rat \<times> 'b list) list \<Rightarrow> 'b list \<Rightarrow> body_error + 'b list" where
  "read_chunks started max_duration max_bytes [] body = Inr body"
| "read_chunks started max_duration max_bytes ((now, chunk) # chunks) body =
     (if (case started of None \<Rightarrow> False | Some t \<Rightarrow> max_duration < now - t) then Inl Deadline
      else if max_bytes < length body + length chunk then Inl Too_large
      else read_chunks started max_duration max_bytes chunks (body @ chunk))"

definition read_limited_body ::
  "rat \<Rightarrow> nat \<Rightarrow> bool \<Rightarrow> rat option \<Rightarrow> bool \<Rightarrow> string option \<Rightarrow> (rat \<times> 'b list) list \<Rightarrow> body_error + 'b list" where
  "read_limited_body max_duration max_bytes raise_for_status started ok content_length chunks =
     (if raise_for_status \<and> \<not> ok then Inl Bad_status
      else if (case content_length of None \<Rightarrow> False
                 | Some text \<Rightarrow> (case python_int text of None \<Rightarrow> False | Some n \<Rightarrow> int max_bytes < n)) then Inl Too_large
      else read_chunks started max_duration max_bytes chunks [])"

definition get_limited_response ::
  "nat \<Rightarrow> bool \<Rightarrow> string option \<Rightarrow> string option \<Rightarrow> (rat \<times> 'b list) list \<Rightarrow> body_error + ('b list \<times> string option)" where
  "get_limited_response max_bytes ok content_length content_type chunks =
     bind_ok (read_limited_body 0 max_bytes True None ok content_length chunks) (\<lambda>body. Inr (body, content_type))"

text \<open>The response handed on: status, headers that still hold, body.\<close>

definition kept_headers :: "(string \<times> string) list \<Rightarrow> (string \<times> string) list" where
  "kept_headers headers =
     filter (\<lambda>(k, v). k \<notin> {''content-encoding'', ''content-length'', ''transfer-encoding''} \<and> is_ascii v) headers"

definition request_limited_http_response ::
  "rat \<Rightarrow> nat \<Rightarrow> rat option \<Rightarrow> nat \<Rightarrow> (string \<times> string) list \<Rightarrow> (rat \<times> 'b list) list
     \<Rightarrow> body_error + (nat \<times> (string \<times> string) list \<times> 'b list)" where
  "request_limited_http_response max_duration max_bytes started status headers chunks =
     bind_ok (read_limited_body max_duration max_bytes False started True (map_of headers ''content-length'') chunks)
       (\<lambda>body. Inr (status, kept_headers headers, body))"


section \<open>Which networks are out of reach\<close>

text \<open>A network inside another one: membership in the outer one is decided by its base.\<close>

lemma in_net_nested:
  fixes a :: "'a::len word"
  assumes "in_net (b, n) a" and "m \<le> n" and "n \<le> LENGTH('a)"
  shows "in_net (c, m) a \<longleftrightarrow> in_net (c, m) b"
proof -
  have "drop_bit (LENGTH('a) - m) x = drop_bit (n - m) (drop_bit (LENGTH('a) - n) x)" for x :: "'a word"
    using assms(2,3) by (simp add: drop_bit_drop_bit)
  moreover have "drop_bit (LENGTH('a) - n) a = drop_bit (LENGTH('a) - n) b" using assms(1) by (simp add: in_net_def)
  ultimately have "drop_bit (LENGTH('a) - m) a = drop_bit (LENGTH('a) - m) b" by metis
  then show ?thesis by (simp add: in_net_def)
qed

definition never4 :: "(ipv4 \<times> nat) list" where
  "never4 = [(v4 0 0 0 0, 8), (v4 10 0 0 0, 8), (v4 100 64 0 0, 10), (v4 127 0 0 0, 8), (v4 169 254 0 0, 16),
     (v4 172 16 0 0, 12), (v4 192 168 0 0, 16), (v4 224 0 0 0, 4), (v4 240 0 0 0, 4)]"

definition never6 :: "(ipv6 \<times> nat) list" where
  "never6 = [(v6 [], 96), (v6 [0, 0, 0, 0, 0, 0xFFFF], 96), (v6 [0, 0, 0, 0, 0xFFFF], 96), (v6 [0x64, 0xFF9B], 96),
     (v6 [0xFC00], 7), (v6 [0xFE80], 10), (v6 [0xFEC0], 10), (v6 [0xFF00], 8), (v6 [0x2002], 16)]"

lemma exceptions_outside:
  "list_all (\<lambda>(b, n). list_all (\<lambda>(c, m). m \<le> n \<and> n \<le> 32 \<and> (in_net (c, m) b \<longrightarrow> (c, m) = (v4 192 0 0 0, 24))) private4) private4_exceptions"
  "list_all (\<lambda>(b, n). list_all (\<lambda>(c, m). m \<le> n \<and> n \<le> 128 \<longrightarrow> \<not> in_net (c, m) b) never6) private6_exceptions"
  by (simp_all add: private4_def private4_exceptions_def never6_def private6_exceptions_def in_net_def v4_def v6_def)


text \<open>The address a packet to \<open>i\<close> finally reaches: the last 32 bits, for the four ways of embedding IPv4.\<close>

definition destination :: "ip \<Rightarrow> ip" where
  "destination i = (case i of V4 a \<Rightarrow> V4 a
     | V6 a \<Rightarrow> if list_ex (\<lambda>net. in_net net a) [(v6 [], 96), (v6 [0, 0, 0, 0, 0, 0xFFFF], 96), (v6 [0, 0, 0, 0, 0xFFFF], 96),
                    (v6 [0x64, 0xFF9B], 96)] then V4 (ucast a) else V6 a)"

lemma mapped_prefix: "in_net (v6 [0, 0, 0, 0, 0, 0xFFFF], 96) a \<longleftrightarrow> drop_bit 32 a = 0xFFFF"
  by (simp add: in_net_def v6_def)

lemma ucast_low: "ucast ((a :: ipv6) AND 0xFFFFFFFF) = (ucast a :: ipv4)"
proof -
  have "(0xFFFFFFFF :: ipv6) = mask 32" by (simp add: mask_eq_exp_minus_1)
  show ?thesis unfolding \<open>_ = mask 32\<close> by (auto intro!: bit_word_eqI simp: bit_simps)
qed

lemma embedded_destination: "destination (V6 a) = (case embedded_ipv4 a of Some x \<Rightarrow> V4 x | None \<Rightarrow> V6 a)"
  unfolding destination_def embedded_ipv4_def ipv4_mapped_def Let_def ucast_low mapped_prefix [symmetric]
    ipv4_compatible_prefix_def ipv4_translated_prefix_def nat64_well_known_prefix_def
  by auto

lemma public_never4:
  assumes "is_global4 a" and "\<not> is_multicast4 a"
  shows "\<not> list_ex (\<lambda>net. in_net net a) never4"
proof
  assume "list_ex (\<lambda>net. in_net net a) never4"
  then obtain c m where net: "(c, m) \<in> set never4" "in_net (c, m) a" by (auto simp: list_ex_iff)
  have "(c, m) \<noteq> (v4 100 64 0 0, 10) \<and> (c, m) \<noteq> (v4 224 0 0 0, 4)"
    using assms net(2) by (auto simp: is_global4_def is_multicast4_def)
  then have priv: "(c, m) \<in> set private4" and other: "m \<noteq> 24" using net(1) by (auto simp: never4_def private4_def)
  with assms(1) net(2) have "list_ex (\<lambda>net. in_net net a) private4_exceptions"
    by (auto simp: is_global4_def is_private4_def list_ex_iff)
  then obtain b n where e: "(b, n) \<in> set private4_exceptions" "in_net (b, n) a" by (auto simp: list_ex_iff)
  with exceptions_outside(1) priv have "m \<le> n \<and> n \<le> 32 \<and> (in_net (c, m) b \<longrightarrow> (c, m) = (v4 192 0 0 0, 24))"
    unfolding list_all_iff by fastforce
  with in_net_nested [OF e(2), of m c] net(2) other show False by simp
qed

lemma public_never6:
  assumes "is_public_address (V6 a)" and "embedded_ipv4 a = None"
  shows "\<not> list_ex (\<lambda>net. in_net net a) never6"
proof
  assume "list_ex (\<lambda>net. in_net net a) never6"
  then obtain c m where net: "(c, m) \<in> set never6" "in_net (c, m) a" by (auto simp: list_ex_iff)
  have none: "ipv4_mapped a = None" using assms(2) by (auto simp: embedded_ipv4_def Let_def split: if_splits)
  have "\<not> in_net net a" if "net \<in> {(v6 [], 96), (v6 [0, 0, 0, 0, 0, 0xFFFF], 96), (v6 [0, 0, 0, 0, 0xFFFF], 96),
      (v6 [0x64, 0xFF9B], 96), (v6 [0xFEC0], 10), (v6 [0xFF00], 8)}" for net
    using that assms none unfolding mapped_prefix
    by (auto simp: embedded_ipv4_def is_public_address_def is_multicast_def is_multicast6_def is_site_local6_def
        ipv4_mapped_def ipv4_compatible_prefix_def ipv4_translated_prefix_def nat64_well_known_prefix_def mapped_prefix
        Let_def split: if_splits)
  with net have left: "(c, m) \<in> {(v6 [0xFC00], 7), (v6 [0xFE80], 10), (v6 [0x2002], 16)}" by (auto simp: never6_def)
  then have priv: "(c, m) \<in> set private6" and "m \<le> 16" by (auto simp: private6_def)
  have "list_ex (\<lambda>net. in_net net a) private6_exceptions"
    using assms priv net(2) none by (auto simp: is_public_address_def is_global_def is_private6_def list_ex_iff)
  then obtain b n where e: "(b, n) \<in> set private6_exceptions" "in_net (b, n) a" by (auto simp: list_ex_iff)
  then have n: "16 \<le> n" "n \<le> 128" by (auto simp: private6_exceptions_def)
  with \<open>m \<le> 16\<close> have "\<not> in_net (c, m) b" using exceptions_outside(2) e(1) net(1) unfolding list_all_iff by fastforce
  with in_net_nested [OF e(2), of m c] net(2) n \<open>m \<le> 16\<close> show False by simp
qed

lemma try_sockets_tried:
  assumes "try_sockets sock infos err = (tried, res)"
  shows "set tried \<subseteq> set infos" and "res = Inr a \<Longrightarrow> tried \<noteq> [] \<and> last tried = a \<and> sock a = Connected"
proof -
  have "set (fst (try_sockets sock infos err)) \<subseteq> set infos \<and> (snd (try_sockets sock infos err) = Inr a
      \<longrightarrow> fst (try_sockets sock infos err) \<noteq> [] \<and> last (fst (try_sockets sock infos err)) = a \<and> sock a = Connected)"
    by (induction infos arbitrary: err) (auto split: socket_outcome.splits)
  with assms show "set tried \<subseteq> set infos" and "res = Inr a \<Longrightarrow> tried \<noteq> [] \<and> last tried = a \<and> sock a = Connected"
    by simp_all
qed

text \<open>C13. The crawler reaches public addresses only. Whatever a host name resolves to, a connection without the
  private-network permission is attempted only to addresses of one resolution, all checked; none of them is,
  or embeds as IPv4-compatible, IPv4-mapped, IPv4-translated or NAT64 address, an address of this network, of a
  private, shared, loopback, link-local, unique-local, site-local, multicast or reserved network; and the
  connection obtained is to one of those.\<close>

theorem connections_are_public:
  assumes "connect_tcp False resolver sock host = (tried, res)" and "a \<in> set tried"
  shows "(\<exists>answers. resolver host = Some answers \<and> set tried \<subseteq> set answers)
    \<and> (\<exists>i. ip_address (fst (partition_at (CHR ''%'') a)) = Some i
        \<and> (case destination i of V4 x \<Rightarrow> \<not> list_ex (\<lambda>net. in_net net x) never4
                               | V6 x \<Rightarrow> \<not> list_ex (\<lambda>net. in_net net x) never6))
    \<and> (\<forall>b. res = Inr b \<longrightarrow> b \<in> set tried)"
proof -
  obtain infos where infos: "resolve False (resolver host) = Inr infos" "try_sockets sock infos Connect_error = (tried, res)"
    using assms by (cases "resolve False (resolver host)") (auto simp: connect_tcp_def)
  note tried = try_sockets_tried [OF infos(2)]
  have answers: "resolver host = Some infos" and all: "list_all (\<lambda>sock. case ip_address (fst (partition_at (CHR ''%'') sock)) of
      None \<Rightarrow> False | Some i \<Rightarrow> is_public_address i) infos"
    using infos(1) by (auto simp: resolve_def split: option.splits if_splits)
  obtain i where i: "ip_address (fst (partition_at (CHR ''%'') a)) = Some i" "is_public_address i"
    using all assms(2) tried(1) by (fastforce simp: list_all_iff split: option.splits)
  have "case destination i of V4 x \<Rightarrow> \<not> list_ex (\<lambda>net. in_net net x) never4 | V6 x \<Rightarrow> \<not> list_ex (\<lambda>net. in_net net x) never6"
  proof (cases i)
    case (V4 x)
    then show ?thesis using i(2) public_never4 [of x]
      by (auto simp: destination_def is_public_address_def is_global_def is_multicast_def)
  next
    case (V6 x)
    show ?thesis
    proof (cases "embedded_ipv4 x")
      case None
      then show ?thesis using public_never6 [of x] i(2) V6 by (simp add: embedded_destination)
    next
      case (Some y)
      then show ?thesis using public_never4 [of y] i(2) V6
        by (auto simp: embedded_destination is_public_address_def is_global_def is_multicast_def)
    qed
  qed
  with i(1) answers tried show ?thesis by (metis last_in_set)
qed


section \<open>Bounded reads\<close>

lemma read_chunks_spec:
  "case read_chunks started d m chunks body of
     Inr out \<Rightarrow> out = body @ concat (map snd chunks) \<and> (length body \<le> m \<longrightarrow> length out \<le> m)
       \<and> (\<forall>c\<in>set chunks. \<forall>t. started = Some t \<longrightarrow> fst c - t \<le> d)
   | Inl Too_large \<Rightarrow> m < length body + length (concat (map snd chunks))
   | Inl Deadline \<Rightarrow> (\<exists>c\<in>set chunks. \<exists>t. started = Some t \<and> d < fst c - t)
   | Inl Bad_status \<Rightarrow> False"
proof (induction chunks arbitrary: body)
  case (Cons c chunks)
  obtain now chunk where c: "c = (now, chunk)" by fastforce
  show ?case using Cons [where body = "body @ chunk"]
    by (auto simp: c split: sum.splits body_error.splits option.splits)
qed simp

text \<open>A response body is read whole or refused: what is returned is the complete decoded body, within the byte
  limit and every chunk of it in time; a refusal for size means that the declared or the actual size is over the
  limit, one for time that a chunk came after the deadline, and a failed status is refused before any read.\<close>

lemma body_is_bounded:
  "case read_limited_body d m check started ok declared chunks of
     Inr body \<Rightarrow> body = concat (map snd chunks) \<and> length body \<le> m \<and> \<not> (check \<and> \<not> ok)
       \<and> \<not> (\<exists>c\<in>set chunks. \<exists>t. started = Some t \<and> d < fst c - t)
   | Inl Too_large \<Rightarrow> (\<exists>text n. declared = Some text \<and> python_int text = Some n \<and> int m < n)
       \<or> m < length (concat (map snd chunks))
   | Inl Deadline \<Rightarrow> (\<exists>c\<in>set chunks. \<exists>t. started = Some t \<and> d < fst c - t)
   | Inl Bad_status \<Rightarrow> check \<and> \<not> ok"
proof -
  have spec: "case read_chunks started d m chunks [] of
     Inr out \<Rightarrow> out = concat (map snd chunks) \<and> length out \<le> m
       \<and> \<not> (\<exists>c\<in>set chunks. \<exists>t. started = Some t \<and> d < fst c - t)
   | Inl Too_large \<Rightarrow> m < length (concat (map snd chunks))
   | Inl Deadline \<Rightarrow> (\<exists>c\<in>set chunks. \<exists>t. started = Some t \<and> d < fst c - t)
   | Inl Bad_status \<Rightarrow> False"
    using read_chunks_spec [where body = "[]" and chunks = "chunks" and started = "started" and d = "d" and m = "m"] by (auto split: sum.splits body_error.splits)
  consider "check \<and> \<not> ok" | w n where "declared = Some w" "python_int w = Some n" "int m < n" "\<not> (check \<and> \<not> ok)"
    | "read_limited_body d m check started ok declared chunks = read_chunks started d m chunks []" "\<not> (check \<and> \<not> ok)"
    unfolding read_limited_body_def by (cases declared) (force split: option.splits)+
  then show ?thesis
  proof cases
    case 1
    then show ?thesis by (simp add: read_limited_body_def)
  next
    case 2
    then show ?thesis by (auto simp: read_limited_body_def)
  next
    case 3
    then show ?thesis using spec by (auto split: sum.splits body_error.splits)
  qed
qed

section \<open>Witness\<close>

text \<open>Reading an address off its text, and what the classifier makes of it.\<close>

lemma replicate_numeral: "replicate (numeral k) x = x # replicate (pred_numeral k) x"
  by (simp add: numeral_eq_Suc)

lemma read_examples:
  "ip_address ''8.8.8.8'' = Some (V4 (v4 8 8 8 8))" "ip_address ''127.0.0.01'' = None"
  "ip_address ''::ffff:127.0.0.1'' = Some (V6 (v6 [0, 0, 0, 0, 0, 0xFFFF, 0x7F00, 1]))"
  "ip_address ''2001:db8::1'' = Some (V6 (v6 [0x2001, 0xDB8, 0, 0, 0, 0, 0, 1]))"
  by (simp_all add: ip_address_def parse_ipv4_def parse_octet_def is_digit_char_def digits_value_def parse_ipv6_def
      partition_at_def ipv6_groups_def parse_hextet_def hex_digit_value_def v4_def v6_def Let_def replicate_numeral)

lemma classified_examples:
  "is_public_address (V4 (v4 8 8 8 8))" "\<not> is_public_address (V6 (v6 [0, 0, 0, 0, 0, 0xFFFF, 0x7F00, 1]))"
  by (simp_all add: is_public_address_def is_multicast_def is_multicast4_def is_global_def is_global4_def is_private4_def
      private4_def private4_exceptions_def in_net_def v4_def is_multicast6_def is_site_local6_def v6_def embedded_ipv4_def
      ipv4_mapped_def ipv4_compatible_prefix_def ipv4_translated_prefix_def nat64_well_known_prefix_def Let_def)

theorem connections_are_public_witness:
  "\<exists>resolver sock tried. connect_tcp False resolver sock ''example.org'' = (tried, Inr ''8.8.8.8'')
     \<and> (\<exists>i. ip_address ''8.8.8.8'' = Some i \<and> destination i = V4 (v4 8 8 8 8))
     \<and> \<not> list_ex (\<lambda>net. in_net net (v4 8 8 8 8)) never4"
proof -
  define resolver :: "string \<Rightarrow> string list option" where "resolver = (\<lambda>h. Some [''8.8.8.8''])"
  define sock :: "string \<Rightarrow> socket_outcome" where "sock = (\<lambda>a. Connected)"
  have whole: "fst (partition_at (CHR ''%'') ''8.8.8.8'') = ''8.8.8.8''" by (simp add: partition_at_def)
  have c: "connect_tcp False resolver sock ''example.org'' = ([''8.8.8.8''], Inr ''8.8.8.8'')"
    using read_examples(1) classified_examples(1)
    by (simp add: connect_tcp_def resolve_def resolver_def sock_def whole)
  have d: "destination (V4 (v4 8 8 8 8)) = V4 (v4 8 8 8 8)" by (simp add: destination_def)
  from connections_are_public [OF c, of "''8.8.8.8''"] have "\<not> list_ex (\<lambda>net. in_net net (v4 8 8 8 8)) never4"
    by (simp add: whole read_examples(1) d)
  with c d read_examples(1) show ?thesis by blast
qed

end
