(* ===== verification/Ingestion.thy ===== *)
theory Ingestion
  imports LinkGraph UrlGuard
begin

text \<open>
  Crawls: \<^verbatim>\<open>app/services/crawl_snapshot.py\<close> and \<^verbatim>\<open>app/services/ingestion_service.py\<close>. A run writes its articles and
  links in one transaction and promotes them at the end; \<open>run_ingestion_locked\<close> and \<open>import_articles\<close> map a
  corpus to the corpus they commit. A connector is what the run sees of it: the articles it yields or the error that
  ends them, its link resolver and the observations it kept. The clock is \<open>late\<close>, whether the \<open>k\<close>-th deadline
  check finds the time over. The external URL normalizer of pool sources and the text extractor of \<open>lxml\<close> are
  parameters.
\<close>

section \<open>Comparison keys\<close>

definition rstrip_slash :: "string \<Rightarrow> string" where
  "rstrip_slash s = rev (dropWhile (\<lambda>c. c = CHR ''/'') (rev s))"

text \<open>The path of a parsed URL: after the network location, up to the query or fragment, without the parameters of the
  last segment.\<close>

definition url_path :: "string \<Rightarrow> string" where
  "url_path url =
     (let url = filter (\<lambda>c. c \<notin> {CHR 0x09, CHR 0x0A, CHR 0x0D}) (dropWhile (\<lambda>c. (of_char c :: nat) \<le> 32) url);
          (before, found, after) = partition_at (CHR '':'') url;
          rest = (if found \<and> before \<noteq> [] \<and> is_alpha (hd before) \<and> list_all scheme_char before then after else url);
          rest = (if take 2 rest = ''//'' then dropWhile (\<lambda>c. c \<notin> {CHR ''/'', CHR ''?'', CHR ''#''}) (drop 2 rest) else rest);
          path = takeWhile (\<lambda>c. c \<notin> {CHR ''?'', CHR ''#''}) rest;
          segment = rev (takeWhile (\<lambda>c. c \<noteq> CHR ''/'') (rev path));
          base = take (length path - length segment) path
      in base @ takeWhile (\<lambda>c. c \<noteq> CHR '';'') segment)"

definition normalize_url :: "string \<Rightarrow> string" where
  "normalize_url url = lower (snd (urlsplit url)) @ rstrip_slash (url_path url)"

section \<open>What a connector yields\<close>

record outbound_link =
  ol_url :: string
  ol_anchor :: "string option"

record taxonomy_data =
  td_kind :: string
  td_name :: string
  td_external_id :: "string option"

record article_data =
  ad_url :: string
  ad_title :: string
  ad_text :: string
  ad_html :: "string option"
  ad_external_id :: "string option"
  ad_language :: "string option"
  ad_published :: "time option"
  ad_taxonomies :: "taxonomy_data list"
  ad_links :: "outbound_link list"
  ad_from :: "string option"
  ad_depth :: nat
  ad_canonical :: "string option"

datatype crawl_error = Runtime_error string | Value_error string | Pool_fetch_error string | Connector_error string

fun error_message :: "crawl_error \<Rightarrow> string" where
  "error_message (Runtime_error m) = m"
| "error_message (Value_error m) = m"
| "error_message (Pool_fetch_error m) = m"
| "error_message (Connector_error m) = m"

record crawl_config =
  cc_max_articles :: nat
  cc_max_chars :: nat
  cc_max_links :: nat
  cc_max_total :: nat
  cc_max_seconds :: nat
  cc_min_ratio :: rat
  cc_allow_unsafe :: bool

section \<open>The staged snapshot\<close>

record crawl_snapshot =
  cs_site :: nat
  cs_run :: nat
  cs_ids :: "nat list"
  cs_url_to_id :: "(string \<times> nat) list"
  cs_outbound :: "(nat \<times> outbound_link list) list"
  cs_accepted :: "observation list"
  cs_validated :: bool
  cs_resolved :: bool
  cs_promoted :: bool

definition new_snapshot :: "nat \<Rightarrow> nat \<Rightarrow> crawl_snapshot" where
  "new_snapshot site run = \<lparr>cs_site = site, cs_run = run, cs_ids = [], cs_url_to_id = [], cs_outbound = [],
     cs_accepted = [], cs_validated = False, cs_resolved = False, cs_promoted = False\<rparr>"

definition staged_count :: "crawl_snapshot \<Rightarrow> nat" where
  "staged_count s = length (cs_ids s)"

definition mark_dirty :: "crawl_snapshot \<Rightarrow> crawl_error + crawl_snapshot" where
  "mark_dirty s = (if cs_promoted s then Inl (Runtime_error ''a promoted snapshot cannot accept more articles'')
     else Inr (s\<lparr>cs_validated := False, cs_resolved := False\<rparr>))"

definition accepted_observation :: "article_data \<Rightarrow> observation" where
  "accepted_observation art = \<lparr>ob_url = ad_url art, ob_state = Obs_accepted, ob_reason = ''accepted'', ob_detail = None,
     ob_from = ad_from art, ob_depth = ad_depth art, ob_http_status = None, ob_content_type = None,
     ob_final_url = None, ob_canonical = ad_canonical art\<rparr>"

definition record_accepted_article :: "article_data \<Rightarrow> crawl_snapshot \<Rightarrow> crawl_error + crawl_snapshot" where
  "record_accepted_article art s =
     bind_ok (mark_dirty s) (\<lambda>s. Inr (s\<lparr>cs_accepted := cs_accepted s @ [accepted_observation art]\<rparr>))"

definition stage_article :: "article_data \<Rightarrow> nat \<Rightarrow> crawl_snapshot \<Rightarrow> crawl_error + crawl_snapshot" where
  "stage_article art i s =
     bind_ok (mark_dirty s) (\<lambda>s. Inr (s\<lparr>cs_ids := List.insert i (cs_ids s),
       cs_url_to_id := AList.update (normalize_url (ad_url art)) i (cs_url_to_id s),
       cs_outbound := cs_outbound s @ [(i, ad_links art)]\<rparr>))"

definition previous_articles :: "nat \<Rightarrow> nat \<Rightarrow> corpus \<Rightarrow> nat option" where
  "previous_articles site run co =
     (case rev (sort_key cr_id (filter (\<lambda>r. cr_site r = site \<and> cr_status r = Run_succeeded \<and> cr_id r \<noteq> run) (co_runs co))) of
        [] \<Rightarrow> None | r # _ \<Rightarrow> Some (cr_articles r))"

definition validate_snapshot_completeness :: "rat \<Rightarrow> nat \<Rightarrow> nat \<Rightarrow> nat \<Rightarrow> corpus \<Rightarrow> crawl_error option" where
  "validate_snapshot_completeness ratio site run found co =
     (if found = 0 then Some (Value_error (''crawl returned zero articles for site '' @ digits site @ ''; snapshot not reconciled''))
      else case previous_articles site run co of
             None \<Rightarrow> None
           | Some n \<Rightarrow>
               if n \<noteq> 0 \<and> of_nat found < fmul (of_nat n) ratio
               then Some (Value_error (''crawl returned '' @ digits found @ '' articles for site '' @ digits site @ '', below ''
                 @ percent_string ratio @ '' of the previous successful crawl ('' @ digits n @ ''); '' @ ''snapshot not reconciled''))
               else None)"

definition validate_completeness :: "rat \<Rightarrow> corpus \<Rightarrow> crawl_snapshot \<Rightarrow> crawl_error + crawl_snapshot" where
  "validate_completeness ratio co s =
     (if cs_promoted s then Inl (Runtime_error ''a promoted snapshot cannot be validated again'')
      else case validate_snapshot_completeness ratio (cs_site s) (cs_run s) (staged_count s) co of
             Some e \<Rightarrow> Inl e | None \<Rightarrow> Inr (s\<lparr>cs_validated := True\<rparr>))"

text \<open>\<open>INSERT ... ON CONFLICT DO UPDATE\<close> on the pair of articles.\<close>

definition upsert_link :: "nat \<Rightarrow> nat \<Rightarrow> nat \<Rightarrow> string option \<Rightarrow> corpus \<Rightarrow> corpus" where
  "upsert_link source target run anchor co =
     (let key = (\<lambda>l. lk_source l = source \<and> lk_target l = target)
      in if list_ex key (co_links co)
         then co\<lparr>co_links := update_where key
                (\<lambda>l. l\<lparr>lk_anchor := anchor, lk_active := True, lk_last_run := Some run\<rparr>) (co_links co)\<rparr>
         else co\<lparr>co_links := co_links co @ [\<lparr>lk_source = source, lk_target = target, lk_anchor = anchor,
                lk_active = True, lk_last_run = Some run\<rparr>]\<rparr>)"

text \<open>The target of a link: by its own URL, or by what the connector resolves it to. Id 0 is false in Python.\<close>

definition link_target :: "(string \<times> nat) list \<Rightarrow> (string \<Rightarrow> string) option \<Rightarrow> string \<Rightarrow> nat option" where
  "link_target url_to_id resolver url =
     (case (case map_of url_to_id (normalize_url url) of
              Some t \<Rightarrow> Some t
            | None \<Rightarrow> (case resolver of
                None \<Rightarrow> None
              | Some r \<Rightarrow> if r url = [] then None else map_of url_to_id (normalize_url (r url)))) of
        None \<Rightarrow> None | Some t \<Rightarrow> if t = 0 then None else Some t)"

definition deadline_error :: "nat \<Rightarrow> crawl_error" where
  "deadline_error seconds = Value_error (''crawl exceeded '' @ digits seconds @ '' seconds'')"

fun resolve_outbound ::
  "crawl_config \<Rightarrow> (nat \<Rightarrow> bool) \<Rightarrow> (string \<times> nat) list \<Rightarrow> (string \<Rightarrow> string) option \<Rightarrow> nat \<Rightarrow> nat \<Rightarrow> outbound_link list
     \<Rightarrow> nat \<times> (nat \<times> nat) list \<times> corpus \<Rightarrow> crawl_error + (nat \<times> (nat \<times> nat) list \<times> corpus)" where
  "resolve_outbound cfg late url_to_id resolver run source [] st = Inr st"
| "resolve_outbound cfg late url_to_id resolver run source (l # ls) (k, seen, co) =
     (if late k then Inl (deadline_error (cc_max_seconds cfg))
      else resolve_outbound cfg late url_to_id resolver run source ls
        (case link_target url_to_id resolver (ol_url l) of
           None \<Rightarrow> (Suc k, seen, co)
         | Some t \<Rightarrow> if t = source \<or> (source, t) \<in> set seen then (Suc k, seen, co)
                     else (Suc k, seen @ [(source, t)], upsert_link source t run (ol_anchor l) co)))"

fun resolve_sources ::
  "crawl_config \<Rightarrow> (nat \<Rightarrow> bool) \<Rightarrow> (string \<times> nat) list \<Rightarrow> (string \<Rightarrow> string) option \<Rightarrow> nat \<Rightarrow> (nat \<times> outbound_link list) list
     \<Rightarrow> nat \<times> (nat \<times> nat) list \<times> corpus \<Rightarrow> crawl_error + (nat \<times> (nat \<times> nat) list \<times> corpus)" where
  "resolve_sources cfg late url_to_id resolver run [] st = Inr st"
| "resolve_sources cfg late url_to_id resolver run ((source, ls) # rest) (k, seen, co) =
     (if late k then Inl (deadline_error (cc_max_seconds cfg))
      else bind_ok (resolve_outbound cfg late url_to_id resolver run source ls (Suc k, seen, co))
             (\<lambda>st. resolve_sources cfg late url_to_id resolver run rest st))"

text \<open>The number of links found, the snapshot and the corpus; \<open>k\<close> deadline checks were made before.\<close>

definition resolve_links ::
  "crawl_config \<Rightarrow> (nat \<Rightarrow> bool) \<Rightarrow> nat \<Rightarrow> (string \<Rightarrow> string) option \<Rightarrow> crawl_snapshot \<times> corpus
     \<Rightarrow> crawl_error + (nat \<times> crawl_snapshot \<times> corpus)" where
  "resolve_links cfg late k resolver st =
     (let (s, co) = st
      in if cs_promoted s then Inl (Runtime_error ''a promoted snapshot cannot resolve links again'')
         else bind_ok (resolve_sources cfg late (cs_url_to_id s) resolver (cs_run s) (cs_outbound s) (k, [], co))
                (\<lambda>(_, seen, co'). Inr (length seen, s\<lparr>cs_resolved := True\<rparr>, co')))"

section \<open>Promotion\<close>

definition inactive_ids :: "nat \<Rightarrow> nat \<Rightarrow> corpus \<Rightarrow> nat set" where
  "inactive_ids site run co = ar_id ` {a \<in> set (co_articles co). ar_site a = site \<and> ar_last_run a \<noteq> Some run}"

definition site_ids :: "nat \<Rightarrow> corpus \<Rightarrow> nat set" where
  "site_ids site co = ar_id ` {a \<in> set (co_articles co). ar_site a = site}"

definition reconcile_snapshot :: "nat \<Rightarrow> nat \<Rightarrow> corpus \<Rightarrow> corpus" where
  "reconcile_snapshot site run co =
     (let inactive = inactive_ids site run co; ids = site_ids site co;
          reporters = at_article ` {t \<in> set (co_article_taxonomies co). at_last_run t = Some run};
          seen = update_where (\<lambda>a. ar_site a = site \<and> ar_last_run a = Some run \<and> \<not> ar_active a) (\<lambda>a. a\<lparr>ar_active := True\<rparr>) (co_articles co);
          articles = update_where (\<lambda>a. ar_site a = site \<and> ar_last_run a \<noteq> Some run \<and> ar_active a) (\<lambda>a. a\<lparr>ar_active := False\<rparr>) seen;
          suggestions = update_where (\<lambda>s. sg_status s \<in> {Pending, Approved}
              \<and> (sg_source s \<in> inactive \<or> (case sg_target s of None \<Rightarrow> False | Some t \<Rightarrow> t \<in> inactive)))
            (\<lambda>s. s\<lparr>sg_status := Expired\<rparr>) (co_suggestions co);
          links = update_where (\<lambda>l. lk_source l \<in> ids \<and> lk_last_run l \<noteq> Some run \<and> lk_active l)
            (\<lambda>l. l\<lparr>lk_active := False\<rparr>) (co_links co);
          kept = filter (\<lambda>t. \<not> (at_article t \<in> ids \<and> at_last_run t \<noteq> Some run
              \<and> (at_article t \<in> inactive \<or> at_article t \<in> reporters))) (co_article_taxonomies co)
      in co\<lparr>co_articles := articles, co_suggestions := suggestions, co_links := links, co_article_taxonomies := kept\<rparr>)"

definition promote :: "crawl_snapshot \<times> corpus \<Rightarrow> crawl_error + (crawl_snapshot \<times> corpus)" where
  "promote st =
     (let (s, co) = st
      in if \<not> cs_validated s then Inl (Runtime_error ''snapshot completeness must be validated before promotion'')
         else if \<not> cs_resolved s then Inl (Runtime_error ''snapshot links must be resolved before promotion'')
         else if cs_promoted s then Inl (Runtime_error ''snapshot has already been promoted'')
         else Inr (s\<lparr>cs_promoted := True\<rparr>, reconcile_snapshot (cs_site s) (cs_run s) co))"

section \<open>Diagnostics\<close>

definition complete_observations :: "observation list \<Rightarrow> observation list \<Rightarrow> observation list" where
  "complete_observations observations accepted =
     (let key = (\<lambda>b. (normalize_url (ob_url b), ob_state b))
      in fst (foldl (\<lambda>(os, keys) b. if key b \<in> keys then (os, keys) else (os @ [b], insert (key b) keys))
           (observations, key ` set observations) accepted))"

definition count_reasons :: "observation list \<Rightarrow> (string \<times> nat) list" where
  "count_reasons os = foldl (\<lambda>d b. AList.update (ob_reason b) (or_else (map_of d (ob_reason b)) 0 + 1) d) [] os"

definition distinct_urls :: "observation list \<Rightarrow> nat" where
  "distinct_urls os = length (remdups (map (\<lambda>b. normalize_url (ob_url b)) os))"

text \<open>\<open>(detail or "")[:2000] or None\<close>.\<close>

definition short_detail :: "string option \<Rightarrow> string option" where
  "short_detail d = (let t = str_take 2000 (or_else d []) in if t = [] then None else Some t)"

definition persist_diagnostics :: "nat \<Rightarrow> observation list \<Rightarrow> corpus \<Rightarrow> corpus" where
  "persist_diagnostics run os co =
     (case get_row cr_id run (co_runs co) of
        None \<Rightarrow> co
      | Some r \<Rightarrow>
          co\<lparr>co_runs := update_where (\<lambda>r. cr_id r = run) (\<lambda>r. r\<lparr>cr_discovered := distinct_urls os,
               cr_accepted := distinct_urls (filter (\<lambda>b. ob_state b = Obs_accepted) os),
               cr_skipped := distinct_urls (filter (\<lambda>b. ob_state b \<in> {Obs_skipped, Obs_failed}) os),
               cr_summary := sort_key fst (count_reasons os)\<rparr>) (co_runs co),
             co_diagnostics := co_diagnostics co
               @ map (\<lambda>b. (cr_site r, run, b\<lparr>ob_detail := short_detail (ob_detail b)\<rparr>)) os\<rparr>)"

section \<open>Writing articles\<close>

definition find_article :: "nat \<Rightarrow> string \<Rightarrow> corpus \<Rightarrow> site_article option" where
  "find_article site url co = find (\<lambda>a. ar_site a = site \<and> ar_url a = url) (co_articles co)"

definition fill_article :: "article_data \<Rightarrow> nat option \<Rightarrow> site_article \<Rightarrow> site_article" where
  "fill_article art run a = a\<lparr>
     ar_external_id := (case ad_external_id art of None \<Rightarrow> ar_external_id a | Some x \<Rightarrow> Some x),
     ar_url := ad_url art, ar_title := ad_title art, ar_text := ad_text art, ar_html := ad_html art,
     ar_language := ad_language art, ar_published := ad_published art,
     ar_last_run := (case run of None \<Rightarrow> ar_last_run a | Some r \<Rightarrow> Some r)\<rparr>"

definition blank_article :: "nat \<Rightarrow> nat \<Rightarrow> string \<Rightarrow> bool \<Rightarrow> site_article" where
  "blank_article i site url active = \<lparr>ar_id = i, ar_site = site, ar_url = url, ar_title = [], ar_text = [],
     ar_external_id = None, ar_html = None, ar_language = None, ar_published = None, ar_active = active, ar_last_run = None\<rparr>"

text \<open>The article is found by its external id first, then by its URL; when the two are different rows they trade URLs.\<close>

definition upsert_article :: "nat \<Rightarrow> article_data \<Rightarrow> nat option \<Rightarrow> corpus \<Rightarrow> nat \<times> corpus" where
  "upsert_article site art run co =
     (let by_url = find_article site (ad_url art) co;
          by_external = (case ad_external_id art of None \<Rightarrow> None
            | Some x \<Rightarrow> find (\<lambda>a. ar_site a = site \<and> ar_external_id a = Some x) (co_articles co))
      in case (case by_external of Some a \<Rightarrow> Some a | None \<Rightarrow> by_url) of
           None \<Rightarrow>
             (let i = next_id ar_id (co_articles co)
              in (i, co\<lparr>co_articles := co_articles co @ [fill_article art run (blank_article i site (ad_url art) (run = None))]\<rparr>))
         | Some a \<Rightarrow>
             (let swapped = (case (by_external, by_url) of
                    (Some e, Some u) \<Rightarrow>
                      if ar_id e \<noteq> ar_id u then update_where (\<lambda>r. ar_id r = ar_id u) (\<lambda>r. r\<lparr>ar_url := ar_url e\<rparr>)
                        (update_where (\<lambda>r. ar_id r = ar_id e) (\<lambda>r. r\<lparr>ar_url := ad_url art\<rparr>) (co_articles co))
                      else co_articles co
                  | _ \<Rightarrow> co_articles co)
              in (ar_id a, co\<lparr>co_articles := update_where (\<lambda>r. ar_id r = ar_id a) (fill_article art run) swapped\<rparr>)))"

definition upsert_taxonomy :: "nat \<Rightarrow> nat \<Rightarrow> nat \<Rightarrow> taxonomy_data \<Rightarrow> corpus \<Rightarrow> corpus" where
  "upsert_taxonomy site article run t co =
     (let same = (\<lambda>x. tx_site x = site \<and> tx_kind x = td_kind t \<and> tx_name x = td_name t);
          (i, taxonomies) = (case find same (co_taxonomies co) of
            Some x \<Rightarrow> (tx_id x, update_where same (\<lambda>x. x\<lparr>tx_external_id := td_external_id t\<rparr>) (co_taxonomies co))
          | None \<Rightarrow> (let i = next_id tx_id (co_taxonomies co) in (i, co_taxonomies co @
              [\<lparr>tx_id = i, tx_site = site, tx_kind = td_kind t, tx_name = td_name t, tx_external_id = td_external_id t\<rparr>])));
          key = (\<lambda>x. at_article x = article \<and> at_taxonomy x = i)
      in co\<lparr>co_taxonomies := taxonomies,
           co_article_taxonomies :=
             (if list_ex key (co_article_taxonomies co)
              then update_where key (\<lambda>x. x\<lparr>at_last_run := Some run\<rparr>) (co_article_taxonomies co)
              else co_article_taxonomies co @ [\<lparr>at_article = article, at_taxonomy = i, at_last_run = Some run\<rparr>])\<rparr>)"

definition upsert_taxonomies :: "nat \<Rightarrow> nat \<Rightarrow> taxonomy_data list \<Rightarrow> nat \<Rightarrow> corpus \<Rightarrow> corpus" where
  "upsert_taxonomies site article ts run co = foldl (\<lambda>co t. upsert_taxonomy site article run t co) co ts"

section \<open>A crawl\<close>

datatype fetched = Fetched article_data | Fetch_raised string

record connector =
  cn_articles :: "string + fetched list"
  cn_resolver :: "(string \<Rightarrow> string) option"
  cn_observations :: "observation list"

text \<open>The state of the loop: staged snapshot, corpus, pool URLs seen, articles seen, outbound links, deadline checks.\<close>

record crawl_state =
  cw_snapshot :: crawl_snapshot
  cw_corpus :: corpus
  cw_seen :: "string list"
  cw_articles :: nat
  cw_links :: nat
  cw_checks :: nat

definition fetch_error :: "platform \<Rightarrow> string \<Rightarrow> crawl_error" where
  "fetch_error platform m = (if platform = Pool then Pool_fetch_error m else Connector_error m)"

text \<open>One article inside its limits: recorded, written, staged. The snapshot is recorded first, so that a failure keeps
  the evidence.\<close>

definition keep_article :: "crawl_config \<Rightarrow> nat \<Rightarrow> nat \<Rightarrow> article_data \<Rightarrow> crawl_state \<Rightarrow> crawl_error option \<times> crawl_state" where
  "keep_article cfg site run art w =
     (if cc_max_links cfg < length (ad_links art)
      then (Some (Value_error (''article link count exceeded '' @ digits (cc_max_links cfg))), w)
      else
        (let total = cw_links w + length (ad_links art); w = w\<lparr>cw_links := total\<rparr>
         in if cc_max_total cfg < total
            then (Some (Value_error (''crawl link count exceeded '' @ digits (cc_max_total cfg))), w)
            else case record_accepted_article art (cw_snapshot w) of
              Inl e \<Rightarrow> (Some e, w)
            | Inr s \<Rightarrow>
                (let (i, co) = upsert_article site art (Some run) (cw_corpus w);
                     co = upsert_taxonomies site i (ad_taxonomies art) run co
                 in case stage_article art i s of
                      Inl e \<Rightarrow> (Some e, w\<lparr>cw_snapshot := s, cw_corpus := co\<rparr>)
                    | Inr s \<Rightarrow> (None, w\<lparr>cw_snapshot := s, cw_corpus := co\<rparr>))))"

definition accept_article ::
  "crawl_config \<Rightarrow> (string \<Rightarrow> string + string) \<Rightarrow> platform \<Rightarrow> nat \<Rightarrow> nat \<Rightarrow> article_data \<Rightarrow> crawl_state
     \<Rightarrow> crawl_error option \<times> crawl_state" where
  "accept_article cfg canon platform site run art w =
     (let w = w\<lparr>cw_articles := cw_articles w + 1\<rparr>
      in if cc_max_articles cfg < cw_articles w
         then (Some (Value_error (''crawl article count exceeded '' @ digits (cc_max_articles cfg))), w)
         else if cc_max_chars cfg < str_len (ad_text art)
         then (Some (Value_error (''article content exceeded '' @ digits (cc_max_chars cfg) @ '' characters'')), w)
         else if platform = Pool
         then (case canon (ad_url art) of
                 Inl m \<Rightarrow> (Some (Pool_fetch_error m), w)
               | Inr url \<Rightarrow>
                   if url \<in> set (cw_seen w) then (None, w)
                   else keep_article cfg site run (art\<lparr>ad_url := url\<rparr>) (w\<lparr>cw_seen := url # cw_seen w\<rparr>))
         else keep_article cfg site run art w)"

fun crawl_articles ::
  "crawl_config \<Rightarrow> (string \<Rightarrow> string + string) \<Rightarrow> (nat \<Rightarrow> bool) \<Rightarrow> platform \<Rightarrow> nat \<Rightarrow> nat \<Rightarrow> fetched list \<Rightarrow> crawl_state
     \<Rightarrow> crawl_error option \<times> crawl_state" where
  "crawl_articles cfg canon late platform site run fs w =
     (if late (cw_checks w) then (Some (deadline_error (cc_max_seconds cfg)), w)
      else let w = w\<lparr>cw_checks := cw_checks w + 1\<rparr> in
        case fs of
          [] \<Rightarrow> (None, w)
        | Fetch_raised m # _ \<Rightarrow> (Some (fetch_error platform m), w)
        | Fetched art # rest \<Rightarrow>
            (case accept_article cfg canon platform site run art w of
               (Some e, w) \<Rightarrow> (Some e, w)
             | (None, w) \<Rightarrow> crawl_articles cfg canon late platform site run rest w))"

declare crawl_articles.simps [simp del]

definition new_run :: "nat \<Rightarrow> nat \<Rightarrow> nat option \<Rightarrow> time \<Rightarrow> crawl_run" where
  "new_run i site job now = \<lparr>cr_id = i, cr_site = site, cr_job = job, cr_status = Run_running, cr_articles = 0,
     cr_links = 0, cr_discovered = 0, cr_accepted = 0, cr_skipped = 0, cr_summary = [], cr_error = None,
     cr_started_at = now, cr_finished_at = None\<rparr>"

definition set_run :: "nat \<Rightarrow> (crawl_run \<Rightarrow> crawl_run) \<Rightarrow> corpus \<Rightarrow> corpus" where
  "set_run i f co = co\<lparr>co_runs := update_where (\<lambda>r. cr_id r = i) f (co_runs co)\<rparr>"

definition pool_value_error :: "platform \<Rightarrow> crawl_error \<Rightarrow> crawl_error" where
  "pool_value_error platform e = (case e of Value_error m \<Rightarrow> if platform = Pool then Pool_fetch_error m else e | _ \<Rightarrow> e)"

text \<open>The body of the transaction: what it staged, for the diagnostics of a failure, and the counts of a success.\<close>

definition crawl_body ::
  "crawl_config \<Rightarrow> (string \<Rightarrow> string + string) \<Rightarrow> (nat \<Rightarrow> bool) \<Rightarrow> platform \<Rightarrow> nat \<Rightarrow> nat \<Rightarrow> connector \<Rightarrow> corpus
     \<Rightarrow> crawl_snapshot \<times> (crawl_error + (nat \<times> nat \<times> corpus))" where
  "crawl_body cfg canon late platform site run cn co =
     (let start = new_snapshot site run
      in case cn_articles cn of
           Inl m \<Rightarrow> (start, Inl (fetch_error platform m))
         | Inr fs \<Rightarrow>
             (case crawl_articles cfg canon late platform site run fs
                 \<lparr>cw_snapshot = start, cw_corpus = co, cw_seen = [], cw_articles = 0, cw_links = 0, cw_checks = 0\<rparr> of
                (Some e, w) \<Rightarrow> (cw_snapshot w, Inl e)
              | (None, w) \<Rightarrow>
                  (cw_snapshot w,
                   bind_ok (map_sum (pool_value_error platform) id
                       (validate_completeness (cc_min_ratio cfg) (cw_corpus w) (cw_snapshot w))) (\<lambda>s.
                     bind_ok (resolve_links cfg late (cw_checks w) (cn_resolver cn) (s, cw_corpus w)) (\<lambda>(links, s, co).
                       bind_ok (promote (s, co)) (\<lambda>(s, co). Inr (staged_count s, links, co)))))))"

definition run_ingestion_locked ::
  "crawl_config \<Rightarrow> (string \<Rightarrow> string + string) \<Rightarrow> (nat \<Rightarrow> bool) \<Rightarrow> time \<Rightarrow> time \<Rightarrow> nat option \<Rightarrow> platform option \<Rightarrow> nat
     \<Rightarrow> crawl_error + connector \<Rightarrow> corpus \<Rightarrow> (crawl_error + (nat \<times> nat)) \<times> corpus" where
  "run_ingestion_locked cfg canon late started finished job platform site connect co =
     (let run = next_id cr_id (co_runs co);
          opened = co\<lparr>co_runs := co_runs co @ [new_run run site job started]\<rparr>;
          failed = (\<lambda>e os. (Inl e, set_run run (\<lambda>r. r\<lparr>cr_finished_at := Some finished\<rparr>)
            ((case os of None \<Rightarrow> id | Some os \<Rightarrow> persist_diagnostics run os)
              (set_run run (\<lambda>r. r\<lparr>cr_status := Run_failed, cr_error := Some (str_take 2000 (error_message e))\<rparr>) opened))))
      in case platform of
           None \<Rightarrow> failed (Value_error (''site '' @ digits site @ '' not found'')) None
         | Some pf \<Rightarrow>
             (case connect of
                Inl e \<Rightarrow> failed e None
              | Inr cn \<Rightarrow>
                  (case crawl_body cfg canon late pf site run cn opened of
                     (s, Inl e) \<Rightarrow> failed e (Some (complete_observations (cn_observations cn) (cs_accepted s)))
                   | (s, Inr (articles, links, done)) \<Rightarrow>
                       (Inr (articles, links), set_run run (\<lambda>r. r\<lparr>cr_finished_at := Some finished\<rparr>)
                         (persist_diagnostics run (complete_observations (cn_observations cn) (cs_accepted s))
                           (set_run run (\<lambda>r. r\<lparr>cr_status := Run_succeeded, cr_articles := articles, cr_links := links\<rparr>) done))))))"

text \<open>\<open>acquired\<close>: whether the site's advisory lock was free.\<close>

definition run_ingestion ::
  "crawl_config \<Rightarrow> (string \<Rightarrow> string + string) \<Rightarrow> (nat \<Rightarrow> bool) \<Rightarrow> time \<Rightarrow> time \<Rightarrow> nat option \<Rightarrow> platform option \<Rightarrow> nat
     \<Rightarrow> crawl_error + connector \<Rightarrow> bool \<Rightarrow> corpus \<Rightarrow> (crawl_error + (nat \<times> nat)) \<times> corpus" where
  "run_ingestion cfg canon late started finished job platform site connect acquired co =
     (if acquired then run_ingestion_locked cfg canon late started finished job platform site connect co
      else let m = ''ingestion already running for site '' @ digits site
           in (Inl (Runtime_error m), co\<lparr>co_runs := co_runs co @
                [(new_run (next_id cr_id (co_runs co)) site job started)\<lparr>cr_status := Run_failed,
                   cr_error := Some (str_take 2000 m), cr_finished_at := Some finished\<rparr>]\<rparr>))"

definition latest_run :: "nat \<Rightarrow> corpus \<Rightarrow> crawl_run option" where
  "latest_run site co =
     (case rev (sort_key cr_started_at (rev (filter (\<lambda>r. cr_site r = site) (co_runs co)))) of [] \<Rightarrow> None | r # _ \<Rightarrow> Some r)"

section \<open>Importing rows\<close>

record import_row =
  iw_url :: "string option"
  iw_title :: "string option"
  iw_text :: "string option"
  iw_html :: "string option"
  iw_canonical :: "string option"
  iw_status_code :: "int option"
  iw_indexability :: "string option"
  iw_from :: "string option"
  iw_depth :: nat
  iw_links :: "outbound_link list"

datatype import_problem = Url_required | Url_unsafe guard_error | Canonical_unsafe guard_error | Duplicate_in_import
  | Http_status_is int | Indexability_is string | Content_exceeds nat

text \<open>What the response and the diagnostics say of a row left out; the wording of the URL guard is a parameter.\<close>

fun problem_text :: "(guard_error \<Rightarrow> string) \<Rightarrow> import_problem \<Rightarrow> string" where
  "problem_text wording Url_required = ''url is required''"
| "problem_text wording (Url_unsafe e) = wording e"
| "problem_text wording (Canonical_unsafe e) = ''canonical URL is unsafe: '' @ wording e"
| "problem_text wording Duplicate_in_import = ''duplicate URL in this import''"
| "problem_text wording (Http_status_is n) = ''HTTP status is '' @ json_int n"
| "problem_text wording (Indexability_is t) = ''indexability is '' @ t"
| "problem_text wording (Content_exceeds n) = ''content exceeded '' @ digits n @ '' characters''"

fun problem_code :: "import_problem \<Rightarrow> string" where
  "problem_code Url_required = ''missing_url''"
| "problem_code (Url_unsafe e) = ''unsafe_url''"
| "problem_code (Canonical_unsafe e) = ''unsafe_canonical''"
| "problem_code Duplicate_in_import = ''duplicate_import_url''"
| "problem_code (Http_status_is n) = ''http_error''"
| "problem_code (Indexability_is t) = ''noindex''"
| "problem_code (Content_exceeds n) = ''article_too_large''"

text \<open>Rows that are wrong are rejected, rows that are merely not wanted are skipped.\<close>

fun problem_rejects :: "import_problem \<Rightarrow> bool" where
  "problem_rejects Duplicate_in_import = False"
| "problem_rejects (Http_status_is n) = False"
| "problem_rejects (Indexability_is t) = False"
| "problem_rejects _ = True"

definition import_canonical_url :: "string \<Rightarrow> string" where
  "import_canonical_url url =
     (let url = strip url; netloc = lower (snd (urlsplit url)); scheme = url_scheme url;
          path = (if url_path url = [] then ''/'' else url_path url);
          path = (if path = ''/'' then path else rstrip_slash path)
      in (if scheme = [] then [] else scheme @ '':'')
         @ (if netloc = [] then [] else ''//'' @ netloc @ (if path \<noteq> [] \<and> hd path \<noteq> CHR ''/'' then ''/'' else [])) @ path)"

definition text_from_import_html :: "(string \<Rightarrow> string option) \<Rightarrow> string option \<Rightarrow> string" where
  "text_from_import_html extract html =
     (case html of None \<Rightarrow> [] | Some h \<Rightarrow> if h = [] then []
        else (case extract h of None \<Rightarrow> [] | Some t \<Rightarrow> normalize_ws t))"

text \<open>The last checks of a row: the status it reports, whether it may be indexed, its length.\<close>

definition row_article ::
  "crawl_config \<Rightarrow> import_row \<Rightarrow> string \<Rightarrow> string \<Rightarrow> string \<Rightarrow> (import_problem \<times> string) + article_data" where
  "row_article cfg row url title content =
     (let indexability = lower (strip (or_else (iw_indexability row) []))
      in if (case iw_status_code row of None \<Rightarrow> False | Some n \<Rightarrow> n \<noteq> 200)
         then Inl (Http_status_is (the (iw_status_code row)), url)
         else if indexability \<noteq> [] \<and> indexability \<notin> {''indexable'', ''index''}
         then Inl (Indexability_is (or_else (iw_indexability row) []), url)
         else if cc_max_chars cfg < str_len content then Inl (Content_exceeds (cc_max_chars cfg), url)
         else Inr \<lparr>ad_url = url, ad_title = title, ad_text = content, ad_html = iw_html row, ad_external_id = None,
           ad_language = None, ad_published = None, ad_taxonomies = [], ad_links = iw_links row,
           ad_from = iw_from row, ad_depth = iw_depth row, ad_canonical = iw_canonical row\<rparr>)"

text \<open>A row after the checks: what is wrong with it and under which URL it is reported, or the article it becomes. The
  second component is the keys seen so far.\<close>

definition check_row ::
  "crawl_config \<Rightarrow> (string \<Rightarrow> string option) \<Rightarrow> string \<Rightarrow> string set \<Rightarrow> nat \<Rightarrow> import_row
     \<Rightarrow> ((import_problem \<times> string) + article_data) \<times> string set" where
  "check_row cfg extract base seen number row =
     (let guard = validate_url (\<lambda>_. None) (cc_allow_unsafe cfg) False (Some base) False;
          raw = strip (or_else (iw_url row) [])
      in if raw = [] then (Inl (Url_required, ''import-row:'' @ digits number), seen)
         else case guard raw of
           Inl e \<Rightarrow> (Inl (Url_unsafe e, raw), seen)
         | Inr _ \<Rightarrow>
             (let url = import_canonical_url (case iw_canonical row of Some c \<Rightarrow> if c = [] then raw else c | None \<Rightarrow> raw)
              in case guard url of
                   Inl e \<Rightarrow> (Inl (Canonical_unsafe e, raw), seen)
                 | Inr _ \<Rightarrow>
                     if normalize_url url \<in> seen then (Inl (Duplicate_in_import, url), seen)
                     else
                       (let title = (let t = strip (or_else (iw_title row) []) in if t = [] then url else t);
                            given = strip (or_else (iw_text row) []);
                            found = text_from_import_html extract (iw_html row);
                            content = (if given \<noteq> [] then given else if found \<noteq> [] then found else title)
                        in (row_article cfg row url title content, insert (normalize_url url) seen))))"

definition problem_observation :: "(guard_error \<Rightarrow> string) \<Rightarrow> import_problem \<Rightarrow> string \<Rightarrow> observation" where
  "problem_observation wording p url = \<lparr>ob_url = url, ob_state = Obs_skipped, ob_reason = problem_code p,
     ob_detail = Some (problem_text wording p), ob_from = None, ob_depth = 0,
     ob_http_status = (case p of Http_status_is n \<Rightarrow> Some n | _ \<Rightarrow> None), ob_content_type = None,
     ob_final_url = None, ob_canonical = None\<rparr>"

text \<open>A refused row of the response: its number, its URL as given, the reason.\<close>

type_synonym refused_row = "nat \<times> string option \<times> string"

record import_state =
  im_corpus :: corpus
  im_snapshot :: crawl_snapshot
  im_seen :: "string set"
  im_observations :: "observation list"
  im_skipped :: "refused_row list"
  im_rejected :: "refused_row list"
  im_imported :: nat
  im_updated :: nat

definition import_row_step ::
  "crawl_config \<Rightarrow> (string \<Rightarrow> string option) \<Rightarrow> (guard_error \<Rightarrow> string) \<Rightarrow> bool \<Rightarrow> string \<Rightarrow> nat \<Rightarrow> nat \<Rightarrow> nat \<times> import_row
     \<Rightarrow> import_state \<Rightarrow> crawl_error + import_state" where
  "import_row_step cfg extract wording replace_snapshot base site run numbered w =
     (let (number, row) = numbered
      in case check_row cfg extract base (im_seen w) number row of
           (Inl (p, url), seen) \<Rightarrow>
             (let entry = (number, if p = Url_required then None else Some (strip (or_else (iw_url row) [])), problem_text wording p);
                  w = w\<lparr>im_seen := seen, im_observations := im_observations w @ [problem_observation wording p url]\<rparr>
              in Inr (if problem_rejects p then w\<lparr>im_rejected := im_rejected w @ [entry]\<rparr>
                      else w\<lparr>im_skipped := im_skipped w @ [entry]\<rparr>))
         | (Inr art, seen) \<Rightarrow>
             (let existing = find_article site (ad_url art) (im_corpus w)
              in bind_ok (record_accepted_article art (im_snapshot w)) (\<lambda>s.
                   let (i, co) = upsert_article site art (Some run) (im_corpus w);
                       co = (if replace_snapshot then co
                             else co\<lparr>co_articles := update_where (\<lambda>a. ar_id a = i) (\<lambda>a. a\<lparr>ar_active := True\<rparr>) (co_articles co)\<rparr>)
                   in bind_ok (stage_article art i s) (\<lambda>s.
                     Inr (w\<lparr>im_corpus := co, im_snapshot := s, im_seen := seen,
                       im_imported := im_imported w + (if existing = None then 1 else 0),
                       im_updated := im_updated w + (if existing = None then 0 else 1)\<rparr>)))))"

fun import_rows ::
  "crawl_config \<Rightarrow> (string \<Rightarrow> string option) \<Rightarrow> (guard_error \<Rightarrow> string) \<Rightarrow> bool \<Rightarrow> string \<Rightarrow> nat \<Rightarrow> nat \<Rightarrow> (nat \<times> import_row) list
     \<Rightarrow> import_state \<Rightarrow> crawl_error + import_state" where
  "import_rows cfg extract wording replace_snapshot base site run [] w = Inr w"
| "import_rows cfg extract wording replace_snapshot base site run (r # rs) w =
     bind_ok (import_row_step cfg extract wording replace_snapshot base site run r w)
       (import_rows cfg extract wording replace_snapshot base site run rs)"

record import_result =
  is_run :: nat
  is_imported :: nat
  is_updated :: nat
  is_links :: nat
  is_skipped :: "refused_row list"
  is_rejected :: "refused_row list"
  is_summary :: "(string \<times> nat) list"

text \<open>What happens between the rows and the commit: the snapshot checks of a replacement, the links.\<close>

definition finish_import ::
  "crawl_config \<Rightarrow> bool \<Rightarrow> import_state \<Rightarrow> crawl_error + (nat \<times> crawl_snapshot \<times> corpus)" where
  "finish_import cfg replace_snapshot w =
     bind_ok (if replace_snapshot then validate_completeness (cc_min_ratio cfg) (im_corpus w) (im_snapshot w)
              else Inr (im_snapshot w)) (\<lambda>s.
       bind_ok (resolve_links cfg (\<lambda>_. False) 0 None (s, im_corpus w)) (\<lambda>(links, s, co).
         bind_ok (if replace_snapshot then promote (s, co) else Inr (s, co)) (\<lambda>(s, co). Inr (links, s, co))))"

text \<open>The error of a failed import is raised on; both outcomes leave a closed run and its diagnostics. The loop over the rows
  itself never raises (\<open>import_rows_keep\<close>), so what a failure inside it would record is immaterial.\<close>

definition import_articles ::
  "crawl_config \<Rightarrow> (string \<Rightarrow> string option) \<Rightarrow> (guard_error \<Rightarrow> string) \<Rightarrow> time \<Rightarrow> time \<Rightarrow> bool \<Rightarrow> bool \<Rightarrow> nat \<Rightarrow> string
     \<Rightarrow> import_row list \<Rightarrow> corpus \<Rightarrow> (crawl_error + import_result) \<times> corpus" where
  "import_articles cfg extract wording started finished acquired replace_snapshot site base rows co =
     (if \<not> acquired then (Inl (Runtime_error (''ingestion already running for site '' @ digits site)), co)
      else
        (let run = next_id cr_id (co_runs co);
             opened = co\<lparr>co_runs := co_runs co @ [new_run run site None started]\<rparr>;
             closed = set_run run (\<lambda>r. r\<lparr>cr_finished_at := Some finished\<rparr>);
             failed = (\<lambda>e os. (Inl e, closed (persist_diagnostics run os
               (set_run run (\<lambda>r. r\<lparr>cr_status := Run_failed, cr_error := Some (str_take 2000 (error_message e))\<rparr>) opened))))
         in case import_rows cfg extract wording replace_snapshot base site run (List.enumerate 1 rows)
              \<lparr>im_corpus = opened, im_snapshot = new_snapshot site run, im_seen = {}, im_observations = [],
               im_skipped = [], im_rejected = [], im_imported = 0, im_updated = 0\<rparr> of
              Inl e \<Rightarrow> failed e []
            | Inr w \<Rightarrow>
                (let os = complete_observations (im_observations w) (cs_accepted (im_snapshot w))
                 in case finish_import cfg replace_snapshot w of
                      Inl e \<Rightarrow> failed e os
                    | Inr (links, s, co) \<Rightarrow>
                        (let done = closed (persist_diagnostics run os (set_run run
                               (\<lambda>r. r\<lparr>cr_status := Run_succeeded, cr_articles := staged_count s, cr_links := links\<rparr>) co))
                         in (Inr \<lparr>is_run = run, is_imported = im_imported w, is_updated = im_updated w, is_links = links,
                               is_skipped = im_skipped w, is_rejected = im_rejected w,
                               is_summary = sort_key fst (count_reasons os)\<rparr>, done)))))"

section \<open>The routes\<close>

text \<open>Only the lock's message becomes a conflict; any other error is the server's.\<close>

definition import_article_rows ::
  "crawl_config \<Rightarrow> (string \<Rightarrow> string option) \<Rightarrow> (guard_error \<Rightarrow> string) \<Rightarrow> time \<Rightarrow> time \<Rightarrow> bool \<Rightarrow> site
     \<Rightarrow> import_row list \<Rightarrow> bool \<Rightarrow> corpus \<Rightarrow> (http_error + import_result) \<times> corpus" where
  "import_article_rows cfg extract wording started finished acquired site rows replace_snapshot co =
     (if site_platform site = Pool then (Inl (Http 409), co)
      else case import_articles cfg extract wording started finished acquired replace_snapshot (site_id site) (site_base_url site) rows co of
             (Inr r, co') \<Rightarrow> (Inr r, co')
           | (Inl (Runtime_error m), co') \<Rightarrow>
               (Inl (Http (if sublist ''ingestion already running'' m then 409 else 500)), co')
           | (Inl _, co') \<Rightarrow> (Inl (Http 500), co'))"

definition runs_newest_first :: "nat \<Rightarrow> corpus \<Rightarrow> crawl_run list" where
  "runs_newest_first site co = rev (sort_key cr_started_at (rev (filter (\<lambda>r. cr_site r = site) (co_runs co))))"

definition latest_ingestion_run :: "nat \<Rightarrow> corpus \<Rightarrow> http_error + crawl_run" where
  "latest_ingestion_run site co = (case latest_run site co of None \<Rightarrow> Inl (Http 404) | Some r \<Rightarrow> Inr r)"

definition list_ingestion_runs :: "nat \<Rightarrow> nat \<Rightarrow> nat \<Rightarrow> corpus \<Rightarrow> crawl_run list" where
  "list_ingestion_runs site limit offset co = take limit (drop offset (runs_newest_first site co))"

definition ingestion_diagnostics :: "nat \<Rightarrow> nat \<Rightarrow> nat \<Rightarrow> nat \<Rightarrow> corpus \<Rightarrow> http_error + observation list" where
  "ingestion_diagnostics site run limit offset co =
     (if \<not> list_ex (\<lambda>r. cr_id r = run \<and> cr_site r = site) (co_runs co) then Inl (Http 404)
      else Inr (take limit (drop offset (map (snd \<circ> snd) (filter (\<lambda>d. fst (snd d) = run) (co_diagnostics co))))))"

text \<open>The newest run is the first of the list.\<close>

lemma latest_is_first: "latest_run site co = (case list_ingestion_runs site 1 0 co of [] \<Rightarrow> None | r # _ \<Rightarrow> Some r)"
  by (cases "runs_newest_first site co") (simp_all add: latest_run_def list_ingestion_runs_def runs_newest_first_def)

section \<open>Well-formed tables\<close>

text \<open>Primary keys, the unique constraints of the article table, and the references to runs.\<close>

definition unique_urls :: "site_article list \<Rightarrow> bool" where
  "unique_urls as \<longleftrightarrow> (\<forall>a\<in>set as. \<forall>b\<in>set as. ar_site a = ar_site b \<and> ar_url a = ar_url b \<longrightarrow> ar_id a = ar_id b)"

definition unique_externals :: "site_article list \<Rightarrow> bool" where
  "unique_externals as \<longleftrightarrow> (\<forall>a\<in>set as. \<forall>b\<in>set as. ar_site a = ar_site b \<and> ar_external_id a = ar_external_id b
     \<and> ar_external_id a \<noteq> None \<longrightarrow> ar_id a = ar_id b)"

definition known_runs :: "corpus \<Rightarrow> bool" where
  "known_runs co \<longleftrightarrow> (\<forall>a\<in>set (co_articles co). \<forall>r. ar_last_run a = Some r \<longrightarrow> r \<in> cr_id ` set (co_runs co))
     \<and> (\<forall>l\<in>set (co_links co). \<forall>r. lk_last_run l = Some r \<longrightarrow> r \<in> cr_id ` set (co_runs co))"

definition corpus_wf :: "corpus \<Rightarrow> bool" where
  "corpus_wf co \<longleftrightarrow> primary ar_id (co_articles co) \<and> 0 \<notin> ar_id ` set (co_articles co)
     \<and> unique_urls (co_articles co) \<and> unique_externals (co_articles co)
     \<and> links_wellformed (co_links co) \<and> primary cr_id (co_runs co) \<and> known_runs co"

text \<open>What the loop of a crawl leaves alone.\<close>

definition same_but_articles :: "nat \<Rightarrow> corpus \<Rightarrow> corpus \<Rightarrow> bool" where
  "same_but_articles site co co' \<longleftrightarrow> co_links co' = co_links co \<and> co_runs co' = co_runs co
     \<and> co_suggestions co' = co_suggestions co \<and> co_diagnostics co' = co_diagnostics co
     \<and> filter (\<lambda>a. ar_site a \<noteq> site) (co_articles co') = filter (\<lambda>a. ar_site a \<noteq> site) (co_articles co)"

lemma same_but_articles_trans:
  "same_but_articles site a b \<Longrightarrow> same_but_articles site b c \<Longrightarrow> same_but_articles site a c"
  by (simp add: same_but_articles_def)

lemma same_but_articles_refl [simp]: "same_but_articles site co co"
  by (simp add: same_but_articles_def)

definition run_ids :: "nat \<Rightarrow> nat \<Rightarrow> corpus \<Rightarrow> nat set" where
  "run_ids site run co = ar_id ` {a \<in> set (co_articles co). ar_site a = site \<and> ar_last_run a = Some run}"

lemma find_article_Some: "find_article site url co = Some a \<Longrightarrow> a \<in> set (co_articles co) \<and> ar_site a = site \<and> ar_url a = url"
  by (auto simp: find_article_def find_Some_iff)

lemma find_article_None: "find_article site url co = None \<Longrightarrow> a \<in> set (co_articles co) \<Longrightarrow> ar_site a = site \<Longrightarrow> ar_url a \<noteq> url"
  by (auto simp: find_article_def find_None_iff)

lemma fill_article_simps [simp]:
  "ar_id (fill_article art run a) = ar_id a" "ar_site (fill_article art run a) = ar_site a"
  "ar_url (fill_article art run a) = ad_url art" "ar_active (fill_article art run a) = ar_active a"
  "ar_last_run (fill_article art (Some r) a) = Some r"
  "ar_external_id (fill_article art run a) = (case ad_external_id art of None \<Rightarrow> ar_external_id a | Some x \<Rightarrow> Some x)"
  by (simp_all add: fill_article_def)

lemma blank_article_simps [simp]:
  "ar_id (blank_article i site url b) = i" "ar_site (blank_article i site url b) = site"
  "ar_external_id (blank_article i site url b) = None"
  by (simp_all add: blank_article_def)

text \<open>Writing one article, on the rows: a new row, or an update of the found one after the URLs were traded.\<close>

definition find_external :: "nat \<Rightarrow> article_data \<Rightarrow> corpus \<Rightarrow> site_article option" where
  "find_external site art co = (case ad_external_id art of None \<Rightarrow> None
     | Some x \<Rightarrow> find (\<lambda>a. ar_site a = site \<and> ar_external_id a = Some x) (co_articles co))"

lemma find_external_Some: "find_external site art co = Some a \<Longrightarrow>
    a \<in> set (co_articles co) \<and> ar_site a = site \<and> ad_external_id art \<noteq> None \<and> ar_external_id a = ad_external_id art"
  by (auto simp: find_external_def find_Some_iff split: option.splits)

lemma find_external_None: "find_external site art co = None \<Longrightarrow> a \<in> set (co_articles co) \<Longrightarrow> ar_site a = site
    \<Longrightarrow> ad_external_id art \<noteq> None \<Longrightarrow> ar_external_id a \<noteq> ad_external_id art"
  by (auto simp: find_external_def find_None_iff split: option.splits)

definition traded :: "site_article \<Rightarrow> site_article option \<Rightarrow> site_article \<Rightarrow> site_article" where
  "traded a holder r = (case holder of None \<Rightarrow> r
     | Some u \<Rightarrow> if ar_id u \<noteq> ar_id a \<and> ar_id r = ar_id u then r\<lparr>ar_url := ar_url a\<rparr> else r)"

lemma traded_simps [simp]:
  "ar_id (traded a h r) = ar_id r" "ar_site (traded a h r) = ar_site r" "ar_external_id (traded a h r) = ar_external_id r"
  "ar_active (traded a h r) = ar_active r" "ar_last_run (traded a h r) = ar_last_run r"
  by (simp_all add: traded_def split: option.split)

lemma upsert_article_cases:
  assumes "upsert_article site art run co = (i, co')"
  obtains
    (new) "find_article site (ad_url art) co = None" "find_external site art co = None"
      "i = next_id ar_id (co_articles co)"
      "co' = co\<lparr>co_articles := co_articles co @ [fill_article art run (blank_article i site (ad_url art) (run = None))]\<rparr>"
  | (by_url) a where "find_article site (ad_url art) co = Some a" "find_external site art co = None" "i = ar_id a"
      "co' = co\<lparr>co_articles := map (\<lambda>r. if ar_id r = ar_id a then fill_article art run r else r) (co_articles co)\<rparr>"
  | (by_external) a where "find_external site art co = Some a" "i = ar_id a"
      "co' = co\<lparr>co_articles := map (\<lambda>r. if ar_id r = ar_id a then fill_article art run r
         else traded a (find_article site (ad_url art) co) r) (co_articles co)\<rparr>"
proof (cases "find_external site art co")
  case None
  show thesis
  proof (cases "find_article site (ad_url art) co")
    case url: None
    show thesis
      by (rule new) (use assms None url in \<open>auto simp: upsert_article_def find_external_def [symmetric] Let_def\<close>)
  next
    case (Some a)
    show thesis
      by (rule by_url [OF Some None]) (use assms None Some in
        \<open>auto simp: upsert_article_def find_external_def [symmetric] update_where_def Let_def\<close>)
  qed
next
  case (Some e)
  have fill: "fill_article art run (r\<lparr>ar_url := ad_url art\<rparr>) = fill_article art run r" for r
    by (cases r) (simp add: fill_article_def split: option.split)
  show thesis
  proof (rule by_external [OF Some])
    show "i = ar_id e"
      using assms Some by (auto simp: upsert_article_def find_external_def [symmetric] Let_def)
    show "co' = co\<lparr>co_articles := map (\<lambda>r. if ar_id r = ar_id e then fill_article art run r
         else traded e (find_article site (ad_url art) co) r) (co_articles co)\<rparr>"
      using assms Some
      by (auto simp: upsert_article_def find_external_def [symmetric] update_where_def traded_def fill Let_def split: option.splits)
  qed
qed

lemma unique_urls_update:
  assumes "unique_urls as" and "\<And>r. ar_id (F r) = ar_id r \<and> ar_site (F r) = ar_site r"
    and "\<And>r s. r \<in> set as \<Longrightarrow> s \<in> set as \<Longrightarrow> ar_site r = ar_site s \<Longrightarrow> ar_url (F r) = ar_url (F s)
      \<Longrightarrow> ar_id r \<noteq> ar_id s \<Longrightarrow> False"
  shows "unique_urls (map F as)"
  unfolding unique_urls_def set_map
proof (intro ballI impI)
  fix a b
  assume "a \<in> F ` set as" "b \<in> F ` set as" and eq: "ar_site a = ar_site b \<and> ar_url a = ar_url b"
  then obtain r s where rs: "r \<in> set as" "s \<in> set as" "a = F r" "b = F s" by blast
  show "ar_id a = ar_id b"
    using assms(3) [OF rs(1,2)] eq rs(3,4) assms(2) [of r] assms(2) [of s] by auto
qed

lemma unique_externals_update:
  assumes "unique_externals as" and "\<And>r. ar_id (F r) = ar_id r \<and> ar_site (F r) = ar_site r"
    and "\<And>r s. r \<in> set as \<Longrightarrow> s \<in> set as \<Longrightarrow> ar_site r = ar_site s \<Longrightarrow> ar_external_id (F r) = ar_external_id (F s)
      \<Longrightarrow> ar_external_id (F r) \<noteq> None \<Longrightarrow> ar_id r \<noteq> ar_id s \<Longrightarrow> False"
  shows "unique_externals (map F as)"
  unfolding unique_externals_def set_map
proof (intro ballI impI)
  fix a b
  assume "a \<in> F ` set as" "b \<in> F ` set as" and eq: "ar_site a = ar_site b \<and> ar_external_id a = ar_external_id b \<and> ar_external_id a \<noteq> None"
  then obtain r s where rs: "r \<in> set as" "s \<in> set as" "a = F r" "b = F s" by blast
  show "ar_id a = ar_id b"
    using assms(3) [OF rs(1,2)] eq rs(3,4) assms(2) [of r] assms(2) [of s] by metis
qed

text \<open>Rewriting rows of one site keeps ids, and so everything that is stated over them.\<close>

lemma article_update_frame:
  assumes "co' = co\<lparr>co_articles := map F (co_articles co)\<rparr>" and ids: "\<And>r. ar_id (F r) = ar_id r \<and> ar_site (F r) = ar_site r"
    and other: "\<And>r. r \<in> set (co_articles co) \<Longrightarrow> ar_site r \<noteq> site \<Longrightarrow> F r = r"
  shows "same_but_articles site co co'" and "map ar_id (co_articles co') = map ar_id (co_articles co)"
proof -
  have "filter (\<lambda>a. ar_site a \<noteq> site) (map F as) = filter (\<lambda>a. ar_site a \<noteq> site) as" if "set as \<subseteq> set (co_articles co)" for as
    using that other ids by (induction as) auto
  from this [of "co_articles co"] show "same_but_articles site co co'"
    by (simp add: same_but_articles_def assms(1))
  show "map ar_id (co_articles co') = map ar_id (co_articles co)" using ids by (simp add: assms(1))
qed

lemma corpus_wf_articles:
  assumes "corpus_wf co" and "co' = co\<lparr>co_articles := as\<rparr>" and "primary ar_id as" and "0 \<notin> ar_id ` set as"
    and "unique_urls as" and "unique_externals as"
    and "\<And>a r. a \<in> set as \<Longrightarrow> ar_last_run a = Some r \<Longrightarrow> r \<in> cr_id ` set (co_runs co)"
  shows "corpus_wf co'"
  using assms by (auto simp: corpus_wf_def known_runs_def)

lemma same_id: "corpus_wf co \<Longrightarrow> a \<in> set (co_articles co) \<Longrightarrow> b \<in> set (co_articles co) \<Longrightarrow> ar_id a = ar_id b \<Longrightarrow> a = b"
  by (auto simp: corpus_wf_def primary_def distinct_map inj_on_def)

lemma upsert_article_found:
  fixes co :: corpus and holder :: "site_article option"
  assumes wf: "corpus_wf co" and run: "run \<in> cr_id ` set (co_runs co)"
    and a: "a \<in> set (co_articles co)" "ar_site a = site"
    and holder: "holder = find_article site (ad_url art) co"
    and external: "find_external site art co \<noteq> None \<longrightarrow> ar_external_id a = ad_external_id art"
    and url: "find_external site art co = None \<longrightarrow> holder = Some a"
    and co': "co' = co\<lparr>co_articles := map (\<lambda>r. if ar_id r = ar_id a then fill_article art (Some run) r else traded a holder r) (co_articles co)\<rparr>"
  shows "corpus_wf co' \<and> same_but_articles site co co' \<and> run_ids site run co' = insert (ar_id a) (run_ids site run co)"
proof -
  define F where "F = (\<lambda>r. if ar_id r = ar_id a then fill_article art (Some run) r else traded a holder r)"
  note co' = co' [folded F_def]
  note one = same_id [OF wf]
  have F: "ar_id (F r) = ar_id r \<and> ar_site (F r) = ar_site r" for r by (simp add: F_def)
  have uu: "unique_urls (co_articles co)" and ue: "unique_externals (co_articles co)"
    and known: "known_runs co" using wf by (auto simp: corpus_wf_def)
  have uuD: "ar_id x = ar_id y" if "x \<in> set (co_articles co)" "y \<in> set (co_articles co)" "ar_site x = ar_site y" "ar_url x = ar_url y" for x y
    using uu that unfolding unique_urls_def by blast
  have hold: "u \<in> set (co_articles co) \<and> ar_site u = site \<and> ar_url u = ad_url art" if "holder = Some u" for u
    using find_article_Some that holder by metis
  have no_hold: "ar_url r \<noteq> ad_url art" if "holder = None" "r \<in> set (co_articles co)" "ar_site r = site" for r
    using find_article_None that holder by metis
  have frame: "same_but_articles site co co'" "map ar_id (co_articles co') = map ar_id (co_articles co)"
  proof -
    have other: "F r = r" if "r \<in> set (co_articles co)" "ar_site r \<noteq> site" for r
    proof -
      have "ar_id r \<noteq> ar_id a" using that a one by metis
      moreover have "ar_id r \<noteq> ar_id u" if "holder = Some u" for u
        using hold [OF that] one \<open>r \<in> _\<close> \<open>ar_site r \<noteq> site\<close> by metis
      ultimately show ?thesis by (auto simp: F_def traded_def split: option.split)
    qed
    show "same_but_articles site co co'" "map ar_id (co_articles co') = map ar_id (co_articles co)"
      using article_update_frame [OF co' F other] by blast+
  qed
  have url_a: "ar_url (F r) = ad_url art" if "ar_id r = ar_id a" for r using that by (simp add: F_def)
  have url_h: "ar_url (F r) = ar_url a" if "ar_id r \<noteq> ar_id a" "holder = Some u" "ar_id r = ar_id u" for r u
    using that by (simp add: F_def traded_def)
  have url_o: "ar_url (F r) = ar_url r" if "ar_id r \<noteq> ar_id a" "\<not> (\<exists>u. holder = Some u \<and> ar_id r = ar_id u)" for r
    using that by (auto simp: F_def traded_def split: option.split)
  have urls: "unique_urls (map F (co_articles co))"
  proof (rule unique_urls_update [OF uu F])
    fix r s
    assume rs: "r \<in> set (co_articles co)" "s \<in> set (co_articles co)" "ar_site r = ar_site s"
      "ar_url (F r) = ar_url (F s)" "ar_id r \<noteq> ar_id s"
    have key: False if x: "x \<in> set (co_articles co)" "y \<in> set (co_articles co)" "ar_site x = ar_site y"
      "ar_url (F x) = ar_url (F y)" "ar_id x \<noteq> ar_id y"
      "ar_id x = ar_id a \<or> ar_id y \<noteq> ar_id a \<and> (\<exists>u. holder = Some u \<and> ar_id x = ar_id u)" for x y
    proof (cases "ar_id x = ar_id a")
      case True
      then have xa: "x = a" using one x(1) a(1) by metis
      have y: "ar_id y \<noteq> ar_id a" using True x(5) by simp
      show False
      proof (cases "\<exists>u. holder = Some u \<and> ar_id y = ar_id u")
        case True
        then obtain u where u: "holder = Some u" "ar_id y = ar_id u" by blast
        have "ar_url a = ad_url art" using x(4) url_a [of x] url_h [OF y u] xa by simp
        then have "ar_id a = ar_id u" using uuD [of a u] hold [OF u(1)] a by simp
        with u(2) y show False by simp
      next
        case False
        then have eq: "ar_url y = ad_url art" using x(4) url_a [of x] url_o [OF y] xa by simp
        show False
        proof (cases holder)
          case None
          with eq no_hold x(2,3) a(2) xa show False by metis
        next
          case (Some u)
          then have "ar_id y = ar_id u" using uuD [of y u] hold [OF Some] x(2,3) eq a(2) xa by simp
          with False Some show False by blast
        qed
      qed
    next
      case False
      with x(6) obtain u where u: "holder = Some u" "ar_id x = ar_id u" "ar_id y \<noteq> ar_id a" by blast
      have "ar_url (F x) = ar_url a" using url_h [OF False u(1,2)] .
      moreover have "ar_url (F y) = ar_url y" using url_o [OF u(3)] u(1,2) x(5) by auto
      ultimately have "ar_url y = ar_url a" using x(4) by simp
      moreover have "x = u" using one hold [OF u(1)] x(1) u(2) by metis
      then have "ar_site y = ar_site a" using hold [OF u(1)] a(2) x(3) by simp
      ultimately have "ar_id y = ar_id a" using uuD [of y a] x(2) a(1) by simp
      with u(3) show False by simp
    qed
    consider "ar_id r = ar_id a" | "ar_id s = ar_id a" | "ar_id r \<noteq> ar_id a" "ar_id s \<noteq> ar_id a" by blast
    then show False
    proof cases
      case 1 with key [of r s] rs show False by blast
    next
      case 2 with key [of s r] rs show False by metis
    next
      case 3
      show False
      proof (cases "\<exists>u. holder = Some u \<and> (ar_id r = ar_id u \<or> ar_id s = ar_id u)")
        case True
        with key [of r s] key [of s r] rs 3 show False by metis
      next
        case False
        then have "ar_url r = ar_url s" using url_o [OF 3(1)] url_o [OF 3(2)] rs(4) by auto
        with uuD [of r s] rs show False by simp
      qed
    qed
  qed
  have externals: "unique_externals (map F (co_articles co))"
  proof (rule unique_externals_update [OF ue F])
    fix r s
    assume rs: "r \<in> set (co_articles co)" "s \<in> set (co_articles co)" "ar_site r = ar_site s"
      "ar_external_id (F r) = ar_external_id (F s)" "ar_external_id (F r) \<noteq> None" "ar_id r \<noteq> ar_id s"
    have ext_set: "ar_external_id (F r) = ad_external_id art" if "ar_id r = ar_id a" "ad_external_id art \<noteq> None" for r
      using that by (auto simp: F_def)
    have ext_keep: "ar_external_id (F r) = ar_external_id r" if "\<not> (ar_id r = ar_id a \<and> ad_external_id art \<noteq> None)" for r
      using that by (cases "ad_external_id art") (auto simp: F_def)
    have key: False if x: "y \<in> set (co_articles co)" "ar_site y = site"
      "ad_external_id art \<noteq> None" "ar_external_id y = ad_external_id art" "ar_id y \<noteq> ar_id a" for y
    proof (cases "find_external site art co")
      case None
      with find_external_None x show False by metis
    next
      case (Some e)
      with external have "ar_external_id a = ad_external_id art" by simp
      then show False using ue a x unfolding unique_externals_def by metis
    qed
    show False
    proof (cases "ad_external_id art \<noteq> None \<and> (ar_id r = ar_id a \<or> ar_id s = ar_id a)")
      case True
      then consider "r = a" "ar_id s \<noteq> ar_id a" | "s = a" "ar_id r \<noteq> ar_id a"
        using one [OF rs(1) a(1)] one [OF rs(2) a(1)] rs(6) by metis
      then show False
      proof cases
        case 1
        then have "ar_external_id s = ad_external_id art" using ext_set [of r] ext_keep [of s] True rs(4) by simp
        with key [OF rs(2)] 1 True rs(3) a(2) show False by simp
      next
        case 2
        then have "ar_external_id r = ad_external_id art" using ext_set [of s] ext_keep [of r] True rs(4) by simp
        with key [OF rs(1)] 2 True rs(3) a(2) show False by simp
      qed
    next
      case False
      then have "ar_external_id (F r) = ar_external_id r" "ar_external_id (F s) = ar_external_id s"
        using ext_keep [of r] ext_keep [of s] by blast+
      then have "ar_external_id r = ar_external_id s" "ar_external_id r \<noteq> None" using rs(4,5) by metis+
      with ue rs(1-3,6) show False unfolding unique_externals_def by blast
    qed
  qed
  have "corpus_wf co'"
  proof (rule corpus_wf_articles [OF wf co'])
    show "primary ar_id (map F (co_articles co))" "0 \<notin> ar_id ` set (map F (co_articles co))"
      using wf by (auto simp: corpus_wf_def primary_def comp_def F)
    show "r \<in> cr_id ` set (co_runs co)" if "x \<in> set (map F (co_articles co))" "ar_last_run x = Some r" for x r
      using that known run by (auto simp: known_runs_def F_def split: if_splits)
  qed (rule urls, rule externals)
  moreover have "run_ids site run co' = insert (ar_id a) (run_ids site run co)"
  proof -
    have F_run: "ar_last_run (F r) = (if ar_id r = ar_id a then Some run else ar_last_run r)" for r by (simp add: F_def)
    have "run_ids site run co' = ar_id ` {r \<in> set (co_articles co). ar_site r = site \<and> ar_last_run (F r) = Some run}"
      unfolding run_ids_def co' using F by (auto simp: image_iff) (metis F)+
    also have "\<dots> = insert (ar_id a) (run_ids site run co)"
      using a one by (auto simp: run_ids_def F_run image_iff split: if_splits)
    finally show ?thesis .
  qed
  ultimately show ?thesis using frame(1) by blast
qed

lemma unique_urls_snoc:
  "unique_urls as \<Longrightarrow> (\<And>a. a \<in> set as \<Longrightarrow> ar_site a = ar_site n \<Longrightarrow> ar_url a \<noteq> ar_url n) \<Longrightarrow> unique_urls (as @ [n])"
  unfolding unique_urls_def
proof (intro ballI impI)
  fix a b
  assume old: "\<forall>a\<in>set as. \<forall>b\<in>set as. ar_site a = ar_site b \<and> ar_url a = ar_url b \<longrightarrow> ar_id a = ar_id b"
    and new: "\<And>a. a \<in> set as \<Longrightarrow> ar_site a = ar_site n \<Longrightarrow> ar_url a \<noteq> ar_url n"
    and ab: "a \<in> set (as @ [n])" "b \<in> set (as @ [n])" and eq: "ar_site a = ar_site b \<and> ar_url a = ar_url b"
  consider "a \<in> set as" "b \<in> set as" | "a \<in> set as" "b = n" | "a = n" "b \<in> set as" | "a = n" "b = n" using ab by auto
  then show "ar_id a = ar_id b"
  proof cases
    case 1 with old eq show ?thesis by blast
  next
    case 2 with new [of a] eq show ?thesis by metis
  next
    case 3 with new [of b] eq show ?thesis by metis
  qed simp
qed

lemma unique_externals_snoc:
  "unique_externals as \<Longrightarrow> (\<And>a. a \<in> set as \<Longrightarrow> ar_site a = ar_site n \<Longrightarrow> ar_external_id n \<noteq> None
     \<Longrightarrow> ar_external_id a \<noteq> ar_external_id n) \<Longrightarrow> unique_externals (as @ [n])"
  unfolding unique_externals_def
proof (intro ballI impI)
  fix a b
  assume old: "\<forall>a\<in>set as. \<forall>b\<in>set as. ar_site a = ar_site b \<and> ar_external_id a = ar_external_id b \<and> ar_external_id a \<noteq> None \<longrightarrow> ar_id a = ar_id b"
    and new: "\<And>a. a \<in> set as \<Longrightarrow> ar_site a = ar_site n \<Longrightarrow> ar_external_id n \<noteq> None \<Longrightarrow> ar_external_id a \<noteq> ar_external_id n"
    and ab: "a \<in> set (as @ [n])" "b \<in> set (as @ [n])" and eq: "ar_site a = ar_site b \<and> ar_external_id a = ar_external_id b \<and> ar_external_id a \<noteq> None"
  consider "a \<in> set as" "b \<in> set as" | "a \<in> set as" "b = n" | "a = n" "b \<in> set as" | "a = n" "b = n" using ab by auto
  then show "ar_id a = ar_id b"
  proof cases
    case 1 with old eq show ?thesis by blast
  next
    case 2 with new [of a] eq show ?thesis by metis
  next
    case 3 with new [of b] eq show ?thesis by metis
  qed simp
qed

lemma upsert_article_spec:
  assumes up: "upsert_article site art (Some run) co = (i, co')" and wf: "corpus_wf co" and run: "run \<in> cr_id ` set (co_runs co)"
  shows "corpus_wf co' \<and> same_but_articles site co co' \<and> run_ids site run co' = insert i (run_ids site run co)"
  using up
proof (cases rule: upsert_article_cases)
  case new
  let ?n = "fill_article art (Some run) (blank_article i site (ad_url art) False)"
  have co': "co' = co\<lparr>co_articles := co_articles co @ [?n]\<rparr>" using new(3,4) by simp
  have fresh: "i \<notin> ar_id ` set (co_articles co)" "i \<noteq> 0" by (simp_all add: new(3) next_id_fresh) (simp add: next_id_def)
  have ext: "ar_external_id ?n = ad_external_id art" by (simp split: option.split)
  have "corpus_wf co'"
  proof (rule corpus_wf_articles [OF wf co'])
    show "primary ar_id (co_articles co @ [?n])" "0 \<notin> ar_id ` set (co_articles co @ [?n])"
      using wf fresh by (auto simp: corpus_wf_def primary_def)
    have "unique_urls (co_articles co)" "unique_externals (co_articles co)" using wf by (auto simp: corpus_wf_def)
    then show "unique_urls (co_articles co @ [?n])" "unique_externals (co_articles co @ [?n])"
      using find_article_None [OF new(1)] find_external_None [OF new(2)] ext
      by (intro unique_urls_snoc unique_externals_snoc; simp del: fill_article_simps(6))+
    show "r \<in> cr_id ` set (co_runs co)" if "x \<in> set (co_articles co @ [?n])" "ar_last_run x = Some r" for x r
      using that wf run by (auto simp: corpus_wf_def known_runs_def)
  qed
  moreover have "same_but_articles site co co'" by (simp add: same_but_articles_def co')
  moreover have "run_ids site run co' = insert i (run_ids site run co)"
  proof -
    have "{a \<in> set (co_articles co @ [?n]). ar_site a = site \<and> ar_last_run a = Some run} =
        insert ?n {a \<in> set (co_articles co). ar_site a = site \<and> ar_last_run a = Some run}" by auto
    then show ?thesis by (simp add: run_ids_def co')
  qed
  ultimately show ?thesis by blast
next
  case (by_url a)
  have a: "a \<in> set (co_articles co)" "ar_site a = site" using find_article_Some [OF by_url(1)] by auto
  have "(\<lambda>r. if ar_id r = ar_id a then fill_article art (Some run) r else r) =
      (\<lambda>r. if ar_id r = ar_id a then fill_article art (Some run) r else traded a (Some a) r)"
    by (auto simp: traded_def)
  with by_url upsert_article_found [OF wf run a by_url(1) [symmetric]] show ?thesis by auto
next
  case (by_external a)
  have a: "a \<in> set (co_articles co)" "ar_site a = site" and e: "ar_external_id a = ad_external_id art"
    using find_external_Some [OF by_external(1)] by auto
  with by_external upsert_article_found [OF wf run a refl] show ?thesis by auto
qed

lemma upsert_taxonomy_frame: "co_articles (upsert_taxonomy site i run t co) = co_articles co"
    "co_links (upsert_taxonomy site i run t co) = co_links co" "co_runs (upsert_taxonomy site i run t co) = co_runs co"
    "co_suggestions (upsert_taxonomy site i run t co) = co_suggestions co"
    "co_diagnostics (upsert_taxonomy site i run t co) = co_diagnostics co"
  by (simp_all add: upsert_taxonomy_def Let_def split: prod.split)

lemma upsert_taxonomies_frame:
  "co_articles (upsert_taxonomies site i ts run co) = co_articles co \<and> co_links (upsert_taxonomies site i ts run co) = co_links co
   \<and> co_runs (upsert_taxonomies site i ts run co) = co_runs co \<and> co_suggestions (upsert_taxonomies site i ts run co) = co_suggestions co
   \<and> co_diagnostics (upsert_taxonomies site i ts run co) = co_diagnostics co"
  by (induction ts arbitrary: co) (simp_all add: upsert_taxonomies_def upsert_taxonomy_frame)

lemma corpus_wf_cong:
  "co_articles a = co_articles b \<Longrightarrow> co_links a = co_links b \<Longrightarrow> co_runs a = co_runs b \<Longrightarrow> corpus_wf a = corpus_wf b"
  by (simp add: corpus_wf_def known_runs_def)

section \<open>What the loop of a crawl keeps\<close>

text \<open>The staged snapshot against the tables: its ids are the rows of the site this run has seen, every link source and
  every resolvable URL is one of them, nothing is promoted.\<close>

definition staged_ok :: "nat \<Rightarrow> nat \<Rightarrow> crawl_snapshot \<Rightarrow> corpus \<Rightarrow> bool" where
  "staged_ok site run s co \<longleftrightarrow> cs_site s = site \<and> cs_run s = run \<and> \<not> cs_promoted s \<and> distinct (cs_ids s)
     \<and> set (cs_ids s) = run_ids site run co \<and> snd ` set (cs_url_to_id s) \<subseteq> set (cs_ids s)
     \<and> fst ` set (cs_outbound s) \<subseteq> set (cs_ids s) \<and> corpus_wf co \<and> run \<in> cr_id ` set (co_runs co)"

definition crawling :: "nat \<Rightarrow> nat \<Rightarrow> corpus \<Rightarrow> crawl_snapshot \<Rightarrow> corpus \<Rightarrow> bool" where
  "crawling site run start s co \<longleftrightarrow> staged_ok site run s co \<and> same_but_articles site start co"

lemma snd_update_subset: "snd ` set (AList.update k v d) \<subseteq> insert v (snd ` set d)"
  by (induction d) auto

lemma stage_keeps:
  assumes inv: "crawling site run start s co" and rec: "record_accepted_article art s = Inr s1"
    and up: "upsert_article site art' (Some run) co = (i, co1)"
    and frame: "co_articles co2 = co_articles co1" "co_links co2 = co_links co1" "co_runs co2 = co_runs co1"
      "co_suggestions co2 = co_suggestions co1" "co_diagnostics co2 = co_diagnostics co1"
  obtains s2 where "stage_article art2 i s1 = Inr s2" "crawling site run start s2 co2"
proof -
  note inv' = inv [unfolded crawling_def staged_ok_def]
  have s1: "s1 = s\<lparr>cs_validated := False, cs_resolved := False, cs_accepted := cs_accepted s @ [accepted_observation art]\<rparr>"
    using rec inv' by (auto simp: record_accepted_article_def mark_dirty_def)
  define s2 where "s2 = s1\<lparr>cs_ids := List.insert i (cs_ids s1),
     cs_url_to_id := AList.update (normalize_url (ad_url art2)) i (cs_url_to_id s1),
     cs_outbound := cs_outbound s1 @ [(i, ad_links art2)]\<rparr>"
  have stage: "stage_article art2 i s1 = Inr s2"
    using inv' by (simp add: stage_article_def mark_dirty_def s2_def s1)
  note up' = upsert_article_spec [OF up]
  have wf: "corpus_wf co2" "same_but_articles site co co2" "run_ids site run co2 = insert i (run_ids site run co)"
    using up' inv' frame corpus_wf_cong [of co2 co1] by (auto simp: same_but_articles_def run_ids_def)
  have "co_runs co2 = co_runs co" using wf(2) by (simp add: same_but_articles_def)
  then have "run \<in> cr_id ` set (co_runs co2)" using inv' by auto
  moreover have "snd ` set (cs_url_to_id s2) \<subseteq> set (cs_ids s2)"
    using snd_update_subset [of "normalize_url (ad_url art2)" i "cs_url_to_id s"] inv' by (auto simp: s2_def s1)
  ultimately have "crawling site run start s2 co2"
    using inv' wf same_but_articles_trans [of site start co co2]
    by (auto simp: crawling_def staged_ok_def s2_def s1)
  with stage show thesis by (rule that)
qed

lemma accept_keeps:
  assumes "crawling site run start (cw_snapshot w) (cw_corpus w)"
    and "accept_article cfg canon platform site run art w = (e, w')"
  shows "crawling site run start (cw_snapshot w') (cw_corpus w') \<or> e \<noteq> None"
proof -
  have keep: "crawling site run start (cw_snapshot w') (cw_corpus w') \<or> e \<noteq> None"
    if k: "keep_article cfg site run a v = (e, w')" and v: "cw_snapshot v = cw_snapshot w" "cw_corpus v = cw_corpus w" for a v
  proof (cases e)
    case None
    obtain s1 where s1: "record_accepted_article a (cw_snapshot w) = Inr s1"
      using k None v by (auto simp: keep_article_def Let_def split: if_splits sum.splits)
    obtain i co1 where up: "upsert_article site a (Some run) (cw_corpus w) = (i, co1)" by fastforce
    define co2 where "co2 = upsert_taxonomies site i (ad_taxonomies a) run co1"
    obtain s2 where s2: "stage_article a i s1 = Inr s2" "crawling site run start s2 co2"
      using stage_keeps [OF assms(1) s1 up, of co2 a] upsert_taxonomies_frame unfolding co2_def by metis
    have "cw_snapshot w' = s2 \<and> cw_corpus w' = co2"
      using k None v by (auto simp: keep_article_def s1 up s2 co2_def [symmetric] Let_def split: if_splits)
    with s2(2) show ?thesis by simp
  qed simp
  show ?thesis
    using assms keep by (auto simp: accept_article_def Let_def split: if_splits sum.splits)
qed

lemma crawl_keeps:
  assumes "crawling site run start (cw_snapshot w) (cw_corpus w)"
    and "crawl_articles cfg canon late platform site run fs w = (None, w')"
  shows "crawling site run start (cw_snapshot w') (cw_corpus w')"
  using assms
proof (induction fs arbitrary: w)
  case Nil
  then show ?case by (auto simp: crawl_articles.simps [of _ _ _ _ _ _ "[]"] Let_def split: if_splits)
next
  case (Cons f fs)
  then show ?case
    by (auto simp: crawl_articles.simps [of _ _ _ _ _ _ "f # fs"] Let_def split: if_splits fetched.splits prod.splits option.splits
        dest!: accept_keeps [rotated])
qed

section \<open>Links and promotion\<close>

definition pair :: "internal_link \<Rightarrow> nat \<times> nat" where
  "pair l = (lk_source l, lk_target l)"

definition linked_ok :: "nat \<Rightarrow> nat set \<Rightarrow> (nat \<times> nat) list \<Rightarrow> internal_link list \<Rightarrow> bool" where
  "linked_ok run ids seen ls \<longleftrightarrow> links_wellformed ls \<and> distinct seen \<and> set seen \<subseteq> ids \<times> ids
     \<and> pair ` {l \<in> set ls. lk_last_run l = Some run} = set seen
     \<and> (\<forall>l\<in>set ls. lk_last_run l = Some run \<longrightarrow> lk_active l)"

lemma links_wellformed_pair: "links_wellformed ls \<longleftrightarrow> distinct (map pair ls) \<and> (\<forall>l\<in>set ls. lk_source l \<noteq> lk_target l)"
proof -
  have "pair = (\<lambda>l. (lk_source l, lk_target l))" by (rule ext) (simp add: pair_def)
  then show ?thesis by (simp add: links_wellformed_def)
qed

text \<open>What the link pass leaves alone.\<close>

definition same_but_links :: "nat \<Rightarrow> corpus \<Rightarrow> corpus \<Rightarrow> bool" where
  "same_but_links run co co' \<longleftrightarrow> lk_last_run ` set (co_links co') \<subseteq> insert (Some run) (lk_last_run ` set (co_links co))
     \<and> co_articles co' = co_articles co \<and> co_runs co' = co_runs co
     \<and> co_suggestions co' = co_suggestions co \<and> co_diagnostics co' = co_diagnostics co
     \<and> co_article_taxonomies co' = co_article_taxonomies co"

lemma upsert_link_keeps:
  assumes ok: "linked_ok run ids seen (co_links co)" and new: "(source, t) \<notin> set seen" "source \<noteq> t" "source \<in> ids" "t \<in> ids"
  shows "linked_ok run ids (seen @ [(source, t)]) (co_links (upsert_link source t run anchor co))
    \<and> same_but_links run co (upsert_link source t run anchor co)"
proof -
  let ?key = "\<lambda>l. lk_source l = source \<and> lk_target l = t"
  let ?upd = "\<lambda>l. l\<lparr>lk_anchor := anchor, lk_active := True, lk_last_run := Some run\<rparr>"
  have key: "?key l \<longleftrightarrow> pair l = (source, t)" for l by (simp add: pair_def)
  note ok' = ok [unfolded linked_ok_def links_wellformed_pair]
  have frame: "same_but_links run co (upsert_link source t run anchor co)"
    by (auto simp: same_but_links_def upsert_link_def set_update_where Let_def)
  show ?thesis
  proof (cases "list_ex ?key (co_links co)")
    case True
    define ls where "ls = update_where ?key ?upd (co_links co)"
    have ls: "co_links (upsert_link source t run anchor co) = ls"
      using True by (simp add: upsert_link_def ls_def Let_def)
    have pairs: "map pair ls = map pair (co_links co)"
      by (simp add: ls_def update_where_def pair_def)
    have mem: "set ls = (\<lambda>l. if ?key l then ?upd l else l) ` set (co_links co)"
      by (simp add: ls_def set_update_where)
    obtain l0 where l0: "l0 \<in> set (co_links co)" "?key l0" using True by (auto simp: list_ex_iff)
    have seen_eq: "pair ` {l \<in> set ls. lk_last_run l = Some run} = insert (source, t) (set seen)"
    proof -
      have "pair ` {l \<in> set ls. lk_last_run l = Some run} =
          pair ` {l \<in> set (co_links co). ?key l \<or> lk_last_run l = Some run}"
      proof -
        let ?F = "\<lambda>l. if ?key l then ?upd l else l"
        have 1: "{l \<in> ?F ` set (co_links co). lk_last_run l = Some run} =
            ?F ` {l \<in> set (co_links co). lk_last_run (?F l) = Some run}" by auto
        have 2: "lk_last_run (?F l) = Some run \<longleftrightarrow> ?key l \<or> lk_last_run l = Some run" for l by auto
        have 3: "pair (?F l) = pair l" for l by (simp add: pair_def)
        show ?thesis unfolding mem 1 image_image 2 3 ..
      qed
      also have "\<dots> = insert (source, t) (pair ` {l \<in> set (co_links co). lk_last_run l = Some run})"
        using l0 by (auto simp: pair_def image_iff)
      finally show ?thesis using ok' by simp
    qed
    have "linked_ok run ids (seen @ [(source, t)]) ls"
      unfolding linked_ok_def links_wellformed_pair
    proof (intro conjI)
      show "distinct (map pair ls)" using ok' pairs by simp
      show "\<forall>l\<in>set ls. lk_source l \<noteq> lk_target l" using ok' new(2) unfolding mem by auto
      show "\<forall>l\<in>set ls. lk_last_run l = Some run \<longrightarrow> lk_active l" using ok' unfolding mem by auto
    qed (use ok' new seen_eq in auto)
    with ls frame show ?thesis by simp
  next
    case False
    define n where "n = \<lparr>lk_source = source, lk_target = t, lk_anchor = anchor, lk_active = True, lk_last_run = Some run\<rparr>"
    have ls: "co_links (upsert_link source t run anchor co) = co_links co @ [n]"
      using False by (simp add: upsert_link_def n_def Let_def)
    have n: "pair n = (source, t)" "lk_last_run n = Some run" "lk_active n" "lk_source n = source" "lk_target n = t"
      by (simp_all add: n_def pair_def)
    have fresh: "(source, t) \<notin> pair ` set (co_links co)" using False by (auto simp: list_ex_iff pair_def)
    have "{l \<in> set (co_links co @ [n]). lk_last_run l = Some run} = insert n {l \<in> set (co_links co). lk_last_run l = Some run}"
      using n by auto
    then have "pair ` {l \<in> set (co_links co @ [n]). lk_last_run l = Some run} = insert (source, t) (set seen)"
      using ok' n by simp
    then have "linked_ok run ids (seen @ [(source, t)]) (co_links co @ [n])"
      using ok' new n fresh by (auto simp: linked_ok_def links_wellformed_pair)
    with ls frame show ?thesis by simp
  qed
qed

lemma same_but_links_trans: "same_but_links run a b \<Longrightarrow> same_but_links run b c \<Longrightarrow> same_but_links run a c"
proof -
  assume ab: "same_but_links run a b" and bc: "same_but_links run b c"
  have "lk_last_run ` set (co_links c) \<subseteq> insert (Some run) (lk_last_run ` set (co_links b))"
    using bc by (simp add: same_but_links_def)
  also have "\<dots> \<subseteq> insert (Some run) (lk_last_run ` set (co_links a))" using ab by (simp add: same_but_links_def)
  finally show ?thesis using ab bc by (simp add: same_but_links_def)
qed

lemma same_but_links_refl: "same_but_links run a a"
  by (auto simp: same_but_links_def)

lemma link_target_in: "link_target d r url = Some t \<Longrightarrow> t \<in> snd ` set d"
  by (auto simp: link_target_def dest!: map_of_SomeD split: option.splits if_splits intro: rev_image_eqI)

lemma resolve_outbound_keeps:
  assumes "resolve_outbound cfg late d r run source ls (k, seen, co) = Inr (k', seen', co')"
    and "linked_ok run ids seen (co_links co)" and "snd ` set d \<subseteq> ids" and "source \<in> ids"
  shows "linked_ok run ids seen' (co_links co') \<and> same_but_links run co co'"
  using assms(1,2)
proof (induction ls arbitrary: k seen co)
  case Nil
  then show ?case by (simp add: same_but_links_refl)
next
  case (Cons l ls)
  show ?case
  proof (cases "link_target d r (ol_url l)")
    case None
    with Cons show ?thesis by (auto split: if_splits)
  next
    case (Some t)
    show ?thesis
    proof (cases "t = source \<or> (source, t) \<in> set seen")
      case True
      with Cons Some show ?thesis by (auto split: if_splits)
    next
      case False
      have "t \<in> ids" using link_target_in [OF Some] assms(3) by blast
      note up = upsert_link_keeps [OF Cons.prems(2), of source t "ol_anchor l"]
      with False \<open>t \<in> ids\<close> assms(4) have up: "linked_ok run ids (seen @ [(source, t)]) (co_links (upsert_link source t run (ol_anchor l) co))"
        "same_but_links run co (upsert_link source t run (ol_anchor l) co)" by auto
      have "resolve_outbound cfg late d r run source ls (Suc k, seen @ [(source, t)], upsert_link source t run (ol_anchor l) co)
          = Inr (k', seen', co')"
        using Cons.prems(1) Some False by (auto split: if_splits)
      from Cons.IH [OF this up(1)] up(2) show ?thesis by (blast intro: same_but_links_trans)
    qed
  qed
qed

lemma resolve_sources_keeps:
  assumes "resolve_sources cfg late d r run outs (k, seen, co) = Inr (k', seen', co')"
    and "linked_ok run ids seen (co_links co)" and "snd ` set d \<subseteq> ids" and "fst ` set outs \<subseteq> ids"
  shows "linked_ok run ids seen' (co_links co') \<and> same_but_links run co co'"
  using assms(1,2,4)
proof (induction outs arbitrary: k seen co)
  case Nil
  then show ?case by (simp add: same_but_links_refl)
next
  case (Cons o' outs)
  obtain source ls where o': "o' = (source, ls)" by fastforce
  from Cons.prems(1) obtain k1 seen1 co1 where
    "resolve_outbound cfg late d r run source ls (Suc k, seen, co) = Inr (k1, seen1, co1)"
    and rest: "resolve_sources cfg late d r run outs (k1, seen1, co1) = Inr (k', seen', co')"
    by (auto simp: o' bind_ok_eq_Inr split: if_splits)
  from resolve_outbound_keeps [OF this(1) Cons.prems(2) assms(3)] Cons.prems(3) o'
  have one: "linked_ok run ids seen1 (co_links co1)" "same_but_links run co co1" by auto
  from Cons.IH [OF rest one(1)] Cons.prems(3) one(2) show ?case by (auto intro: same_but_links_trans)
qed

text \<open>What promotion leaves: the rows of the site are active exactly where the run has seen them.\<close>

definition active_rows :: "nat \<Rightarrow> corpus \<Rightarrow> site_article list" where
  "active_rows site co = filter (\<lambda>a. ar_site a = site \<and> ar_active a) (co_articles co)"

definition active_links :: "nat \<Rightarrow> corpus \<Rightarrow> internal_link list" where
  "active_links site co = filter (\<lambda>l. lk_active l \<and> lk_source l \<in> site_ids site co) (co_links co)"

definition touches_inactive :: "nat \<Rightarrow> corpus \<Rightarrow> suggestion \<Rightarrow> bool" where
  "touches_inactive site co s \<longleftrightarrow> (let gone = site_ids site co - ar_id ` set (active_rows site co)
     in sg_source s \<in> gone \<or> (\<exists>t. sg_target s = Some t \<and> t \<in> gone))"

lemma unique_urls_same:
  "(\<And>r. ar_id (F r) = ar_id r) \<Longrightarrow> (\<And>r. ar_site (F r) = ar_site r) \<Longrightarrow> (\<And>r. ar_url (F r) = ar_url r)
    \<Longrightarrow> unique_urls (map F as) = unique_urls as"
  by (simp add: unique_urls_def)

lemma unique_externals_same:
  "(\<And>r. ar_id (F r) = ar_id r) \<Longrightarrow> (\<And>r. ar_site (F r) = ar_site r) \<Longrightarrow> (\<And>r. ar_external_id (F r) = ar_external_id r)
    \<Longrightarrow> unique_externals (map F as) = unique_externals as"
  by (simp add: unique_externals_def)

lemma Collect_image: "{y \<in> f ` S. P y} = f ` {x \<in> S. P (f x)}"
  by auto

lemma reconcile_articles:
  "co_articles (reconcile_snapshot site run co) =
     map (\<lambda>a. if ar_site a = site then a\<lparr>ar_active := (ar_last_run a = Some run)\<rparr> else a) (co_articles co)"
  by (auto simp: reconcile_snapshot_def update_where_def Let_def)

lemma reconcile_spec:
  assumes wf: "corpus_wf co" and ok: "linked_ok run (run_ids site run co) seen (co_links co)"
  defines "co' \<equiv> reconcile_snapshot site run co"
  shows "corpus_wf co'" and "ar_id ` set (active_rows site co') = run_ids site run co"
    and "pair ` set (active_links site co') = set seen" and "distinct (map pair (active_links site co'))"
    and "\<forall>s\<in>set (co_suggestions co'). \<not> (sg_status s \<in> {Pending, Approved} \<and> touches_inactive site co' s)"
    and "filter (\<lambda>a. ar_site a \<noteq> site) (co_articles co') = filter (\<lambda>a. ar_site a \<noteq> site) (co_articles co)"
proof -
  let ?F = "\<lambda>a. if ar_site a = site then a\<lparr>ar_active := (ar_last_run a = Some run)\<rparr> else a"
  have arts: "co_articles co' = map ?F (co_articles co)" by (simp add: co'_def reconcile_articles)
  have F: "ar_id (?F a) = ar_id a" "ar_site (?F a) = ar_site a" "ar_url (?F a) = ar_url a"
    "ar_external_id (?F a) = ar_external_id a" "ar_last_run (?F a) = ar_last_run a" for a by simp_all
  let ?G = "\<lambda>l. if lk_source l \<in> site_ids site co \<and> lk_last_run l \<noteq> Some run \<and> lk_active l then l\<lparr>lk_active := False\<rparr> else l"
  have links: "co_links co' = map ?G (co_links co)" and runs: "co_runs co' = co_runs co"
    by (simp_all add: co'_def reconcile_snapshot_def update_where_def Let_def)
  have G: "pair (?G l) = pair l" "lk_source (?G l) = lk_source l" "lk_target (?G l) = lk_target l"
    "lk_last_run (?G l) = lk_last_run l" for l by (simp_all add: pair_def)
  have ids: "site_ids site co' = site_ids site co"
    unfolding site_ids_def arts set_map Collect_image image_image F ..
  have same_pairs: "map pair (co_links co') = map pair (co_links co)" unfolding links by (simp add: G)
  have lwf: "links_wellformed (co_links co')"
    unfolding links_wellformed_pair same_pairs using wf by (auto simp: corpus_wf_def links_wellformed_pair links)
  show wf': "corpus_wf co'"
    unfolding corpus_wf_def
  proof (intro conjI)
    show "primary ar_id (co_articles co')" "0 \<notin> ar_id ` set (co_articles co')"
      using wf by (auto simp: corpus_wf_def primary_def arts comp_def F)
    show "unique_urls (co_articles co')"
      unfolding arts by (subst unique_urls_same) (use wf in \<open>simp_all add: corpus_wf_def\<close>)
    show "unique_externals (co_articles co')"
      unfolding arts by (subst unique_externals_same) (use wf in \<open>simp_all add: corpus_wf_def\<close>)
    show "known_runs co'" using wf by (auto simp: corpus_wf_def known_runs_def arts links runs split: if_splits)
  qed (use wf lwf runs in \<open>auto simp: corpus_wf_def\<close>)
  show act: "ar_id ` set (active_rows site co') = run_ids site run co"
  proof -
    have on: "ar_site a = site \<and> ar_active (?F a) \<longleftrightarrow> ar_site a = site \<and> ar_last_run a = Some run" for a by auto
    show ?thesis unfolding active_rows_def run_ids_def arts set_filter set_map Collect_image image_image F on ..
  qed
  have "set (active_links site co') = {l \<in> set (co_links co'). lk_active l \<and> lk_source l \<in> site_ids site co}"
    by (simp add: active_links_def ids)
  also have "\<dots> = ?G ` {l \<in> set (co_links co). lk_last_run l = Some run}"
  proof -
    have "run_ids site run co \<subseteq> site_ids site co" by (auto simp: run_ids_def site_ids_def)
    then have "lk_source l \<in> site_ids site co" if "l \<in> set (co_links co)" "lk_last_run l = Some run" for l
      using that ok by (fastforce simp: linked_ok_def pair_def)
    moreover have "lk_active l" if "l \<in> set (co_links co)" "lk_last_run l = Some run" for l
      using that ok by (simp add: linked_ok_def)
    ultimately show ?thesis unfolding links by auto
  qed
  finally show "pair ` set (active_links site co') = set seen"
    using ok by (simp only: image_image G linked_ok_def)
  show "distinct (map pair (active_links site co'))"
    using lwf unfolding links_wellformed_pair active_links_def by (simp add: distinct_map_filter)
  show "\<forall>s\<in>set (co_suggestions co'). \<not> (sg_status s \<in> {Pending, Approved} \<and> touches_inactive site co' s)"
  proof
    fix s
    assume s: "s \<in> set (co_suggestions co')"
    have gone: "site_ids site co' - ar_id ` set (active_rows site co') \<subseteq> inactive_ids site run co"
      unfolding act ids by (auto simp: site_ids_def run_ids_def inactive_ids_def)
    obtain s0 where s0: "s0 \<in> set (co_suggestions co)"
      "s = (if sg_status s0 \<in> {Pending, Approved} \<and> (sg_source s0 \<in> inactive_ids site run co
           \<or> (case sg_target s0 of None \<Rightarrow> False | Some t \<Rightarrow> t \<in> inactive_ids site run co))
         then s0\<lparr>sg_status := Expired\<rparr> else s0)"
      using s by (auto simp: co'_def reconcile_snapshot_def update_where_def Let_def)
    then show "\<not> (sg_status s \<in> {Pending, Approved} \<and> touches_inactive site co' s)"
      using gone by (auto simp: touches_inactive_def Let_def split: if_splits)
  qed
  have "filter (\<lambda>a. ar_site a \<noteq> site) (map ?F as) = filter (\<lambda>a. ar_site a \<noteq> site) as" for as
    by (induction as) auto
  then show "filter (\<lambda>a. ar_site a \<noteq> site) (co_articles co') = filter (\<lambda>a. ar_site a \<noteq> site) (co_articles co)"
    unfolding arts .
qed

section \<open>A crawl is all or nothing\<close>

lemma set_run_frame [simp]:
  "co_articles (set_run i f co) = co_articles co" "co_links (set_run i f co) = co_links co"
  "co_suggestions (set_run i f co) = co_suggestions co" "co_article_taxonomies (set_run i f co) = co_article_taxonomies co"
  "co_taxonomies (set_run i f co) = co_taxonomies co"
  by (simp_all add: set_run_def)

lemma persist_frame [simp]:
  "co_articles (persist_diagnostics i os co) = co_articles co" "co_links (persist_diagnostics i os co) = co_links co"
  "co_suggestions (persist_diagnostics i os co) = co_suggestions co"
  "co_article_taxonomies (persist_diagnostics i os co) = co_article_taxonomies co"
  "co_taxonomies (persist_diagnostics i os co) = co_taxonomies co"
  by (simp_all add: persist_diagnostics_def split: option.split)

lemma set_run_ids: "(\<And>r. cr_id (f r) = cr_id r) \<Longrightarrow> map cr_id (co_runs (set_run i f co)) = map cr_id (co_runs co)"
  by (simp add: set_run_def update_where_def comp_def)

lemma persist_ids: "map cr_id (co_runs (persist_diagnostics i os co)) = map cr_id (co_runs co)"
  by (simp add: persist_diagnostics_def update_where_def comp_def split: option.split)

text \<open>The rows of the run table only matter through their ids.\<close>

lemma corpus_wf_runs:
  assumes "corpus_wf a" and "co_articles b = co_articles a" and "co_links b = co_links a"
    and "map cr_id (co_runs b) = map cr_id (co_runs a)"
  shows "corpus_wf b"
proof -
  have "set (map cr_id (co_runs b)) = set (map cr_id (co_runs a))" using assms(4) by simp
  then have "cr_id ` set (co_runs b) = cr_id ` set (co_runs a)" by simp
  then show ?thesis using assms by (simp add: corpus_wf_def known_runs_def primary_def)
qed

lemma opened_wf:
  fixes co :: corpus and r :: crawl_run
  assumes "corpus_wf co" and "run = next_id cr_id (co_runs co)"
  defines "opened \<equiv> co\<lparr>co_runs := co_runs co @ [r]\<rparr>"
  assumes "cr_id r = run"
  shows "corpus_wf opened \<and> run_ids site run opened = {} \<and> linked_ok run {} [] (co_links opened)
    \<and> run \<in> cr_id ` set (co_runs opened)"
proof -
  have fresh: "run \<notin> cr_id ` set (co_runs co)" by (simp add: assms(2) next_id_fresh)
  then have "corpus_wf opened"
    using assms by (auto simp: corpus_wf_def known_runs_def primary_def opened_def)
  moreover have "run_ids site run opened = {}" "linked_ok run {} [] (co_links opened)"
    using fresh assms(1) by (auto simp: run_ids_def opened_def corpus_wf_def known_runs_def linked_ok_def)
  ultimately show ?thesis using assms(4) by (auto simp: opened_def)
qed

lemma linked_ok_ids: "linked_ok run ids seen ls \<Longrightarrow> ids \<subseteq> ids' \<Longrightarrow> linked_ok run ids' seen ls"
  by (auto simp: linked_ok_def)

text \<open>What a successful run leaves: the counts it reports, and the view of the site.\<close>

definition view_is_crawl :: "nat \<Rightarrow> nat \<Rightarrow> corpus \<Rightarrow> nat \<Rightarrow> nat \<Rightarrow> bool" where
  "view_is_crawl site run co articles links \<longleftrightarrow>
     ar_id ` set (active_rows site co) = run_ids site run co
     \<and> length (active_rows site co) = articles \<and> 0 < articles
     \<and> length (active_links site co) = links
     \<and> pair ` set (active_links site co) \<subseteq> run_ids site run co \<times> run_ids site run co
     \<and> \<not> (\<exists>s\<in>set (co_suggestions co). sg_status s \<in> {Pending, Approved} \<and> touches_inactive site co s)"

lemma resolved_view:
  assumes st: "staged_ok site run s co" and s1: "\<not> cs_promoted s1" "cs_url_to_id s1 = cs_url_to_id s" "cs_run s1 = cs_run s"
      "cs_outbound s1 = cs_outbound s"
    and res: "resolve_links cfg late k r (s1, co) = Inr (links, s2, co2)" and none: "linked_ok run {} [] (co_links co)"
  obtains seen where "corpus_wf co2" "linked_ok run (set (cs_ids s)) seen (co_links co2)" "same_but_links run co co2"
    "s2 = s1\<lparr>cs_resolved := True\<rparr>" "links = length seen"
proof -
  note st' = st [unfolded staged_ok_def]
  obtain k' seen where sources: "resolve_sources cfg late (cs_url_to_id s) r run (cs_outbound s) (k, [], co) = Inr (k', seen, co2)"
    and s2: "s2 = s1\<lparr>cs_resolved := True\<rparr>" "links = length seen"
    using res st' s1 by (auto simp: resolve_links_def bind_ok_eq_Inr split: if_splits prod.splits)
  have "linked_ok run (set (cs_ids s)) [] (co_links co)" using none by (rule linked_ok_ids) simp
  from resolve_sources_keeps [OF sources this] st'
  have lk: "linked_ok run (set (cs_ids s)) seen (co_links co2)" and same: "same_but_links run co co2" by auto
  have runs: "co_runs co2 = co_runs co" and arts: "co_articles co2 = co_articles co" using same by (simp_all add: same_but_links_def)
  have "r \<in> cr_id ` set (co_runs co2)" if "l \<in> set (co_links co2)" "lk_last_run l = Some r" for l r
  proof (cases "r = run")
    case False
    have "Some r \<in> insert (Some run) (lk_last_run ` set (co_links co))"
      using same that unfolding same_but_links_def by (metis (no_types, lifting) imageI subsetD)
    then show ?thesis using False st' by (auto simp: corpus_wf_def known_runs_def runs)
  qed (use st' runs in simp)
  then have "corpus_wf co2" using st' lk by (auto simp: corpus_wf_def known_runs_def runs arts linked_ok_def)
  from that [OF this lk same s2] show thesis .
qed

lemma promoted_view:
  assumes st: "staged_ok site run s co" and val: "validate_completeness ratio co s = Inr s1"
    and res: "resolve_links cfg late k r (s1, co) = Inr (links, s2, co2)" and pro: "promote (s2, co2) = Inr (s3, co3)"
    and none: "linked_ok run {} [] (co_links co)"
  shows "corpus_wf co3 \<and> view_is_crawl site run co3 (staged_count s3) links \<and> co_runs co3 = co_runs co
    \<and> filter (\<lambda>a. ar_site a \<noteq> site) (co_articles co3) = filter (\<lambda>a. ar_site a \<noteq> site) (co_articles co)"
proof -
  note st' = st [unfolded staged_ok_def]
  have s1: "s1 = s\<lparr>cs_validated := True\<rparr>" and nonempty: "staged_count s \<noteq> 0"
    using val st' by (auto simp: validate_completeness_def validate_snapshot_completeness_def split: option.splits if_splits)
  from resolved_view [OF st _ _ _ _ res none] obtain seen where wf2: "corpus_wf co2"
    and lk: "linked_ok run (set (cs_ids s)) seen (co_links co2)" and same: "same_but_links run co co2"
    and s2: "s2 = s1\<lparr>cs_resolved := True\<rparr>" "links = length seen"
    using st' by (auto simp: s1)
  have s3: "s3 = s2\<lparr>cs_promoted := True\<rparr>" and co3: "co3 = reconcile_snapshot site run co2"
    using pro st' by (auto simp: promote_def s1 s2(1) split: if_splits)
  have ids: "run_ids site run co2 = set (cs_ids s)" using same st' by (simp add: run_ids_def same_but_links_def)
  have runs: "co_runs co2 = co_runs co" and arts: "co_articles co2 = co_articles co" using same by (simp_all add: same_but_links_def)
  note rec = reconcile_spec [OF wf2, of run site seen, unfolded ids, OF lk, folded co3]
  have "length (active_rows site co3) = length (cs_ids s)"
  proof -
    have "distinct (map ar_id (active_rows site co3))"
      using rec(1) by (simp add: active_rows_def corpus_wf_def primary_def distinct_map_filter)
    then have "length (active_rows site co3) = card (set (cs_ids s))"
      using rec(2) by (metis distinct_card length_map set_map)
    moreover have "card (set (cs_ids s)) = length (cs_ids s)" using st' by (intro distinct_card) blast
    ultimately show ?thesis by simp
  qed
  moreover have "length (active_links site co3) = length seen"
  proof -
    have "length (active_links site co3) = card (set seen)"
      using rec(3,4) by (metis distinct_card length_map set_map)
    then show ?thesis using lk by (simp add: linked_ok_def distinct_card)
  qed
  moreover have "run_ids site run co3 = set (cs_ids s)"
  proof -
    have "run_ids site run co3 = run_ids site run co2"
      unfolding run_ids_def co3 reconcile_articles set_map Collect_image image_image by (auto simp: image_iff)
    then show ?thesis by (simp add: ids)
  qed
  moreover have "co_runs co3 = co_runs co" by (simp add: co3 reconcile_snapshot_def runs Let_def)
  ultimately show ?thesis
    using rec nonempty lk s2(2) arts by (simp add: view_is_crawl_def staged_count_def s3 s2(1) s1 linked_ok_def)
qed

definition same_view :: "corpus \<Rightarrow> corpus \<Rightarrow> bool" where
  "same_view co co' \<longleftrightarrow> co_articles co' = co_articles co \<and> co_links co' = co_links co \<and> co_suggestions co' = co_suggestions co
     \<and> co_taxonomies co' = co_taxonomies co \<and> co_article_taxonomies co' = co_article_taxonomies co"

definition run_closed :: "nat \<Rightarrow> crawl_status \<Rightarrow> corpus \<Rightarrow> bool" where
  "run_closed run status co \<longleftrightarrow> (\<exists>r. get_row cr_id run (co_runs co) = Some r \<and> cr_status r = status \<and> cr_finished_at r \<noteq> None)"

lemma get_run_set_run: "(\<And>r. cr_id (f r) = cr_id r) \<Longrightarrow>
    get_row cr_id i (co_runs (set_run i f co)) = map_option f (get_row cr_id i (co_runs co))"
proof -
  assume f: "\<And>r. cr_id (f r) = cr_id r"
  then have u: "row_update cr_id f" by unfold_locales
  show ?thesis
    by (auto simp: set_run_def row_update.get_update [OF u] intro!: map_option_cong dest: get_row_Some)
qed

lemma get_run_persist: "\<exists>f. (\<forall>r. cr_status (f r) = cr_status r \<and> cr_finished_at (f r) = cr_finished_at r)
    \<and> get_row cr_id i (co_runs (persist_diagnostics i os co)) = map_option f (get_row cr_id i (co_runs co))"
proof (cases "get_row cr_id i (co_runs co)")
  case (Some r)
  define f where "f = (\<lambda>r :: crawl_run. r\<lparr>cr_discovered := distinct_urls os,
    cr_accepted := distinct_urls (filter (\<lambda>b. ob_state b = Obs_accepted) os),
    cr_skipped := distinct_urls (filter (\<lambda>b. ob_state b \<in> {Obs_skipped, Obs_failed}) os), cr_summary := sort_key fst (count_reasons os)\<rparr>)"
  have "co_runs (persist_diagnostics i os co) = co_runs (set_run i f co)"
    by (simp add: persist_diagnostics_def Some set_run_def f_def)
  moreover have "cr_id (f r) = cr_id r" for r by (simp add: f_def)
  ultimately have "get_row cr_id i (co_runs (persist_diagnostics i os co)) = map_option f (get_row cr_id i (co_runs co))"
    using get_run_set_run [of f i co] by simp
  then show ?thesis by (intro exI [of _ f]) (simp add: f_def)
qed (auto simp: persist_diagnostics_def)

text \<open>Both ends of a run: the row is closed with its status, and the rest of the tables is what the caller made it.\<close>

lemma closing:
  fixes finished :: time
  assumes "get_row cr_id run (co_runs co) \<noteq> None" and "\<And>r. cr_id (g r) = cr_id r" and "\<And>r. cr_status (g r) = status"
    and "p = persist_diagnostics run os \<or> p = id"
  defines "final \<equiv> set_run run (\<lambda>r. r\<lparr>cr_finished_at := Some finished\<rparr>) (p (set_run run g co))"
  shows "run_closed run status final \<and> same_view co final \<and> map cr_id (co_runs final) = map cr_id (co_runs co)"
proof -
  obtain r where r: "get_row cr_id run (co_runs co) = Some r" using assms(1) by blast
  have "get_row cr_id run (co_runs (set_run run g co)) = Some (g r)"
    using get_run_set_run [of g run co] assms(2) r by simp
  then have "\<exists>r'. get_row cr_id run (co_runs (p (set_run run g co))) = Some r' \<and> cr_status r' = status"
    using assms(3,4) get_run_persist [of run os "set_run run g co"] by auto
  then have "run_closed run status final"
    unfolding final_def run_closed_def using get_run_set_run [of "\<lambda>r. r\<lparr>cr_finished_at := Some finished\<rparr>" run "p (set_run run g co)"]
    by auto
  moreover have "same_view co final" using assms(4) by (auto simp: final_def same_view_def)
  moreover have "map cr_id (co_runs final) = map cr_id (co_runs co)"
    using assms(2,4) by (auto simp: final_def set_run_ids persist_ids)
  ultimately show ?thesis by blast
qed

lemma view_cong:
  assumes "same_view co co'"
  shows "view_is_crawl site run co' n m = view_is_crawl site run co n m"
proof -
  have "active_rows site co' = active_rows site co" "active_links site co' = active_links site co"
    "run_ids site run co' = run_ids site run co" "site_ids site co' = site_ids site co"
    using assms by (simp_all add: same_view_def active_rows_def active_links_def run_ids_def site_ids_def)
  then show ?thesis using assms by (simp add: view_is_crawl_def touches_inactive_def same_view_def)
qed

lemma new_run_id [simp]: "cr_id (new_run i site job now) = i"
  by (simp add: new_run_def)

lemma get_new_run: "run = next_id cr_id rs \<Longrightarrow> get_row cr_id run (rs @ [new_run run site job now]) \<noteq> None"
  by (simp add: get_row_None_iff)

lemma crawl_body_spec:
  assumes body: "crawl_body cfg canon late platform site run cn co = (s, Inr (articles, links, final))"
    and start: "corpus_wf co" "run_ids site run co = {}" "linked_ok run {} [] (co_links co)" "run \<in> cr_id ` set (co_runs co)"
  shows "corpus_wf final \<and> view_is_crawl site run final articles links \<and> co_runs final = co_runs co
    \<and> filter (\<lambda>a. ar_site a \<noteq> site) (co_articles final) = filter (\<lambda>a. ar_site a \<noteq> site) (co_articles co)"
proof -
  obtain fs where fs: "cn_articles cn = Inr fs" using body by (auto simp: crawl_body_def Let_def split: sum.splits)
  define w0 where "w0 = \<lparr>cw_snapshot = new_snapshot site run, cw_corpus = co, cw_seen = [], cw_articles = 0, cw_links = 0, cw_checks = 0\<rparr>"
  obtain w where w: "crawl_articles cfg canon late platform site run fs w0 = (None, w)"
    using body by (auto simp: crawl_body_def fs w0_def Let_def split: prod.splits option.splits)
  have "crawling site run co (cw_snapshot w0) (cw_corpus w0)"
    using start by (simp add: crawling_def staged_ok_def w0_def new_snapshot_def)
  from crawl_keeps [OF this w] have st: "staged_ok site run (cw_snapshot w) (cw_corpus w)"
    and same: "same_but_articles site co (cw_corpus w)" by (simp_all add: crawling_def)
  obtain s1 s2 co2 s3 where val: "validate_completeness (cc_min_ratio cfg) (cw_corpus w) (cw_snapshot w) = Inr s1"
    and res: "resolve_links cfg late (cw_checks w) (cn_resolver cn) (s1, cw_corpus w) = Inr (links, s2, co2)"
    and pro: "promote (s2, co2) = Inr (s3, final)" and "articles = staged_count s3"
    using body w by (auto simp: crawl_body_def fs w0_def bind_ok_eq_Inr Let_def split: prod.splits option.splits)
  moreover have "linked_ok run {} [] (co_links (cw_corpus w))" using start(3) same by (simp add: same_but_articles_def)
  ultimately show ?thesis using promoted_view [OF st val res pro] same by (simp add: same_but_articles_def)
qed

text \<open>A run of the crawler, whatever its outcome.\<close>

lemma crawl_outcome:
  assumes "corpus_wf co"
    and "run_ingestion_locked cfg canon late started finished job platform site connect co = (res, co')"
  shows "corpus_wf co'
    \<and> filter (\<lambda>a. ar_site a \<noteq> site) (co_articles co') = filter (\<lambda>a. ar_site a \<noteq> site) (co_articles co)
    \<and> (case res of
        Inl e \<Rightarrow> same_view co co' \<and> run_closed (next_id cr_id (co_runs co)) Run_failed co'
      | Inr (articles, links) \<Rightarrow> view_is_crawl site (next_id cr_id (co_runs co)) co' articles links
          \<and> run_closed (next_id cr_id (co_runs co)) Run_succeeded co')"
proof -
  define run where "run = next_id cr_id (co_runs co)"
  define opened where "opened = co\<lparr>co_runs := co_runs co @ [new_run run site job started]\<rparr>"
  have open_ok: "corpus_wf opened" "run_ids site run opened = {}" "linked_ok run {} [] (co_links opened)"
    "run \<in> cr_id ` set (co_runs opened)"
    using opened_wf [OF assms(1) run_def, of "new_run run site job started" site] by (simp_all add: opened_def)
  have row: "get_row cr_id run (co_runs opened) \<noteq> None"
    unfolding opened_def using get_new_run [OF run_def] by simp
  have failing: ?thesis if "res = Inl e"
    "co' = set_run run (\<lambda>r. r\<lparr>cr_finished_at := Some finished\<rparr>) (p (set_run run
       (\<lambda>r. r\<lparr>cr_status := Run_failed, cr_error := Some (str_take 2000 (error_message e))\<rparr>) opened))"
    "p = persist_diagnostics run os \<or> p = id" for e p os
  proof -
    from closing [OF row _ _ that(3), where g = "\<lambda>r. r\<lparr>cr_status := Run_failed, cr_error := Some (str_take 2000 (error_message e))\<rparr>"
        and status = Run_failed and finished = finished]
    have c: "run_closed run Run_failed co'" "same_view opened co'" "map cr_id (co_runs co') = map cr_id (co_runs opened)"
      by (simp_all add: that(2))
    moreover have "same_view co co'" using c(2) by (simp add: same_view_def opened_def)
    moreover have "corpus_wf co'" by (rule corpus_wf_runs [OF open_ok(1)]) (use c in \<open>simp_all add: same_view_def\<close>)
    ultimately show ?thesis by (simp add: that(1) run_def same_view_def)
  qed
  show ?thesis
  proof (cases platform)
    case None
    have "res = Inl (Value_error (''site '' @ digits site @ '' not found''))"
      "co' = set_run run (\<lambda>r. r\<lparr>cr_finished_at := Some finished\<rparr>) (id (set_run run (\<lambda>r. r\<lparr>cr_status := Run_failed,
         cr_error := Some (str_take 2000 (error_message (Value_error (''site '' @ digits site @ '' not found''))))\<rparr>) opened))"
      using assms(2) None by (simp_all add: run_ingestion_locked_def run_def [symmetric] opened_def [symmetric] Let_def)
    then show ?thesis by (rule failing) (simp add: fun_eq_iff)
  next
    case (Some pf)
    show ?thesis
    proof (cases connect)
      case (Inl e)
      have "res = Inl e" "co' = set_run run (\<lambda>r. r\<lparr>cr_finished_at := Some finished\<rparr>) (id (set_run run
         (\<lambda>r. r\<lparr>cr_status := Run_failed, cr_error := Some (str_take 2000 (error_message e))\<rparr>) opened))"
        using assms(2) Some Inl by (simp_all add: run_ingestion_locked_def run_def [symmetric] opened_def [symmetric] Let_def)
      then show ?thesis by (rule failing) (simp add: fun_eq_iff)
    next
      case (Inr cn)
      obtain s out where body: "crawl_body cfg canon late pf site run cn opened = (s, out)" by fastforce
      define os where "os = complete_observations (cn_observations cn) (cs_accepted s)"
      show ?thesis
      proof (cases out)
        case e: (Inl e)
        have "res = Inl e" "co' = set_run run (\<lambda>r. r\<lparr>cr_finished_at := Some finished\<rparr>) (persist_diagnostics run os (set_run run
           (\<lambda>r. r\<lparr>cr_status := Run_failed, cr_error := Some (str_take 2000 (error_message e))\<rparr>) opened))"
          using assms(2) Some Inr body e
          by (simp_all add: run_ingestion_locked_def run_def [symmetric] opened_def [symmetric] os_def [symmetric] Let_def)
        then show ?thesis by (rule failing [where os = os]) simp
      next
        case ok: (Inr r)
        obtain articles links final where r: "r = (articles, links, final)" by (metis prod_cases3)
        note spec = crawl_body_spec [OF body [unfolded ok r] open_ok]
        define g where "g = (\<lambda>r :: crawl_run. r\<lparr>cr_status := Run_succeeded, cr_articles := articles, cr_links := links\<rparr>)"
        have out: "res = Inr (articles, links)"
          "co' = set_run run (\<lambda>r. r\<lparr>cr_finished_at := Some finished\<rparr>) (persist_diagnostics run os (set_run run g final))"
          using assms(2) Some Inr body ok r
          by (simp_all add: run_ingestion_locked_def run_def [symmetric] opened_def [symmetric] os_def [symmetric] g_def Let_def)
        have "get_row cr_id run (co_runs final) \<noteq> None" using row spec by simp
        from closing [OF this, where g = g and status = Run_succeeded and p = "persist_diagnostics run os" and os = os and finished = finished]
        have c: "run_closed run Run_succeeded co'" "same_view final co'" "map cr_id (co_runs co') = map cr_id (co_runs final)"
          by (simp_all add: out(2) g_def)
        have "corpus_wf co'" by (rule corpus_wf_runs [of final]) (use c spec in \<open>simp_all add: same_view_def\<close>)
        moreover have "co_articles co' = co_articles final" using c(2) by (simp add: same_view_def)
        ultimately show ?thesis using spec c view_cong [OF c(2)] by (simp add: out(1) run_def opened_def)
      qed
    qed
  qed
qed

text \<open>C2. A crawl replaces the view of its site or leaves it alone. When it succeeds, the active articles of the site are
  exactly those the run has seen, at least one and as many as it reports, the active links that start on the site are
  the resolved links of the run, all between pages of the crawl and as many as it reports, and no open suggestion
  touches a page that has left; the articles of other sites are untouched. When it fails, no article, link, taxonomy
  or suggestion has changed. Either way the run is closed, and every constraint of the tables still holds.\<close>

theorem crawl_is_all_or_nothing:
  assumes "corpus_wf co"
    and "run_ingestion_locked cfg canon late started finished job platform site connect co = (res, co')"
  shows "corpus_wf co'
    \<and> filter (\<lambda>a. ar_site a \<noteq> site) (co_articles co') = filter (\<lambda>a. ar_site a \<noteq> site) (co_articles co)
    \<and> (case res of
        Inl e \<Rightarrow> same_view co co' \<and> run_closed (next_id cr_id (co_runs co)) Run_failed co'
      | Inr (articles, links) \<Rightarrow> view_is_crawl site (next_id cr_id (co_runs co)) co' articles links
          \<and> run_closed (next_id cr_id (co_runs co)) Run_succeeded co')"
  by (rule crawl_outcome [OF assms])

section \<open>Imports\<close>

lemma activate_keeps:
  assumes inv: "crawling site run start s co" and i: "i \<in> set (cs_ids s)"
  shows "crawling site run start s (co\<lparr>co_articles := update_where (\<lambda>a. ar_id a = i) (\<lambda>a. a\<lparr>ar_active := True\<rparr>) (co_articles co)\<rparr>)"
    (is "crawling site run start s ?co")
proof -
  define F where "F = (\<lambda>a :: site_article. if ar_id a = i then a\<lparr>ar_active := True\<rparr> else a)"
  have co': "?co = co\<lparr>co_articles := map F (co_articles co)\<rparr>" by (simp add: update_where_def F_def)
  have F: "ar_id (F a) = ar_id a" "ar_site (F a) = ar_site a" "ar_url (F a) = ar_url a"
    "ar_external_id (F a) = ar_external_id a" "ar_last_run (F a) = ar_last_run a" for a by (simp_all add: F_def)
  note inv' = inv [unfolded crawling_def staged_ok_def]
  have wf: "corpus_wf co" using inv' by blast
  obtain b where b: "b \<in> set (co_articles co)" "ar_id b = i" "ar_site b = site" using i inv' by (auto simp: run_ids_def)
  have other: "F a = a" if "a \<in> set (co_articles co)" "ar_site a \<noteq> site" for a
    using that b same_id [OF wf that(1) b(1)] by (auto simp: F_def)
  have frame: "same_but_articles site co ?co" "map ar_id (co_articles ?co) = map ar_id (co_articles co)"
    using article_update_frame [OF co' _ other] F by auto
  have "corpus_wf ?co"
  proof (rule corpus_wf_articles [OF wf co'])
    show "primary ar_id (map F (co_articles co))" "0 \<notin> ar_id ` set (map F (co_articles co))"
      using wf by (auto simp: corpus_wf_def primary_def comp_def F)
    show "unique_urls (map F (co_articles co))" "unique_externals (map F (co_articles co))"
      using wf unique_urls_same [of F, OF F(1-3)] unique_externals_same [of F, OF F(1,2,4)] by (auto simp: corpus_wf_def)
    show "r \<in> cr_id ` set (co_runs co)" if "x \<in> set (map F (co_articles co))" "ar_last_run x = Some r" for x r
      using that wf by (auto simp: corpus_wf_def known_runs_def F)
  qed
  moreover have "run_ids site run ?co = run_ids site run co"
    unfolding run_ids_def co' by (simp add: Collect_image image_image F)
  ultimately show ?thesis using inv' frame(1) same_but_articles_trans
    by (auto simp: crawling_def staged_ok_def same_but_articles_def)
qed

text \<open>The rows so far against the state of the import.\<close>

definition importing :: "nat \<Rightarrow> nat \<Rightarrow> corpus \<Rightarrow> bool \<Rightarrow> nat \<Rightarrow> import_state \<Rightarrow> bool" where
  "importing site run start replace_snapshot n w \<longleftrightarrow> crawling site run start (im_snapshot w) (im_corpus w)
     \<and> im_imported w + im_updated w + length (im_skipped w) + length (im_rejected w) = n
     \<and> (replace_snapshot \<or> (\<forall>a\<in>set (co_articles start). ar_active a \<longrightarrow> (\<exists>b\<in>set (co_articles (im_corpus w)). ar_id b = ar_id a \<and> ar_active b)))"

lemma active_image:
  assumes "co_articles co' = map G (co_articles co)" and "\<And>r. ar_id (G r) = ar_id r \<and> ar_active (G r) = ar_active r"
    and "b \<in> set (co_articles co)" and "ar_active b"
  shows "\<exists>c\<in>set (co_articles co'). ar_id c = ar_id b \<and> ar_active c"
  using assms by (intro bexI [of _ "G b"]) auto

lemma upsert_article_active:
  assumes "upsert_article site art (Some run) co = (i, co')" and "b \<in> set (co_articles co)" and "ar_active b"
  shows "\<exists>c\<in>set (co_articles co'). ar_id c = ar_id b \<and> ar_active c"
  using assms(1)
proof (cases rule: upsert_article_cases)
  case new
  with assms(2,3) show ?thesis by auto
next
  case (by_url a)
  show ?thesis by (rule active_image [OF _ _ assms(2,3), where G = "\<lambda>r. if ar_id r = ar_id a then fill_article art (Some run) r else r"])
      (simp_all add: by_url(4))
next
  case (by_external a)
  show ?thesis by (rule active_image [OF _ _ assms(2,3), where G = "\<lambda>r. if ar_id r = ar_id a then fill_article art (Some run) r
      else traded a (find_article site (ad_url art) co) r"]) (simp_all add: by_external(3))
qed

lemma import_step_keeps:
  assumes "importing site run start replace_snapshot n w"
  shows "\<exists>w'. import_row_step cfg extract wording replace_snapshot base site run row w = Inr w'
    \<and> importing site run start replace_snapshot (Suc n) w'"
proof -
  obtain number r where row: "row = (number, r)" by fastforce
  obtain out seen where check: "check_row cfg extract base (im_seen w) number r = (out, seen)" by fastforce
  note inv = assms [unfolded importing_def]
  show ?thesis
  proof (cases out)
    case (Inl p)
    then show ?thesis using inv
      by (cases p) (auto simp: import_row_step_def row check importing_def Let_def)
  next
    case (Inr art)
    have dirty: "\<not> cs_promoted (im_snapshot w)" using inv by (simp add: crawling_def staged_ok_def)
    then obtain s1 where s1: "record_accepted_article art (im_snapshot w) = Inr s1"
      by (simp add: record_accepted_article_def mark_dirty_def)
    obtain i co1 where up: "upsert_article site art (Some run) (im_corpus w) = (i, co1)" by fastforce
    obtain s2 where s2: "stage_article art i s1 = Inr s2" "crawling site run start s2 co1"
      using stage_keeps [OF conjunct1 [OF inv] s1 up, of co1 art] by auto
    have i: "i \<in> set (cs_ids s2)" using s2(1) by (auto simp: stage_article_def mark_dirty_def split: if_splits)
    define co2 where "co2 = (if replace_snapshot then co1
      else co1\<lparr>co_articles := update_where (\<lambda>a. ar_id a = i) (\<lambda>a. a\<lparr>ar_active := True\<rparr>) (co_articles co1)\<rparr>)"
    have two: "crawling site run start s2 co2"
      using s2(2) activate_keeps [OF s2(2) i] by (simp add: co2_def)
    have active: "\<exists>c\<in>set (co_articles co2). ar_id c = ar_id a \<and> ar_active c"
      if not: "\<not> replace_snapshot" and a: "a \<in> set (co_articles start)" "ar_active a" for a
    proof -
      obtain b where "b \<in> set (co_articles (im_corpus w))" "ar_id b = ar_id a" "ar_active b" using inv not a by blast
      with upsert_article_active [OF up] obtain c where "c \<in> set (co_articles co1)" "ar_id c = ar_id a" "ar_active c"
        by metis
      then have c: "c \<in> set (co_articles co1)" "ar_id c = ar_id a" "ar_active c" by blast+
      define G where "G = (\<lambda>r :: site_article. if ar_id r = i then r\<lparr>ar_active := True\<rparr> else r)"
      have "co_articles co2 = map G (co_articles co1)" using not by (simp add: co2_def update_where_def G_def)
      then have "G c \<in> set (co_articles co2)" using c(1) by simp
      moreover have "ar_id (G c) = ar_id a" "ar_active (G c)" using c(2,3) by (simp_all add: G_def)
      ultimately show ?thesis by blast
    qed
    show ?thesis
      using inv two active
      by (auto simp: import_row_step_def row check Inr s1 up s2(1) importing_def co2_def [symmetric] Let_def)
  qed
qed

lemma import_rows_keep:
  assumes "importing site run start replace_snapshot n w"
  shows "\<exists>w'. import_rows cfg extract wording replace_snapshot base site run rows w = Inr w'
    \<and> importing site run start replace_snapshot (n + length rows) w'"
  using assms
proof (induction rows arbitrary: n w)
  case (Cons r rows)
  obtain w1 where w1: "import_row_step cfg extract wording replace_snapshot base site run r w = Inr w1"
    "importing site run start replace_snapshot (Suc n) w1" using import_step_keeps [OF Cons.prems] by blast
  from Cons.IH [OF w1(2)] w1(1) show ?case by simp
qed simp

lemma resolve_outbound_total: "\<exists>st'. resolve_outbound cfg (\<lambda>_. False) d r run source ls st = Inr st'"
proof (induction ls arbitrary: st)
  case Nil
  then show ?case by (cases st) simp
next
  case (Cons l ls)
  then show ?case by (cases st) (auto split: option.splits)
qed

lemma resolve_sources_total: "\<exists>st'. resolve_sources cfg (\<lambda>_. False) d r run outs st = Inr st'"
proof (induction outs arbitrary: st)
  case Nil
  then show ?case by (cases st) simp
next
  case (Cons out outs)
  obtain source ls where out: "out = (source, ls)" by fastforce
  obtain k seen co where st: "st = (k, seen, co)" by (metis prod_cases3)
  obtain st' where "resolve_outbound cfg (\<lambda>_. False) d r run source ls (Suc k, seen, co) = Inr st'"
    using resolve_outbound_total by blast
  then show ?case using Cons.IH [of st'] by (simp add: out st)
qed

lemma finish_import_spec:
  assumes inv: "importing site run start replace_snapshot n w" and none: "linked_ok run {} [] (co_links start)"
  shows "case finish_import cfg replace_snapshot w of
      Inl e \<Rightarrow> replace_snapshot
    | Inr (links, s, co) \<Rightarrow> corpus_wf co \<and> co_runs co = co_runs start
        \<and> filter (\<lambda>a. ar_site a \<noteq> site) (co_articles co) = filter (\<lambda>a. ar_site a \<noteq> site) (co_articles start)
        \<and> (if replace_snapshot then view_is_crawl site run co (staged_count s) links
           else \<forall>a\<in>set (co_articles start). ar_active a \<longrightarrow> (\<exists>b\<in>set (co_articles co). ar_id b = ar_id a \<and> ar_active b))"
proof -
  have st: "staged_ok site run (im_snapshot w) (im_corpus w)" and same: "same_but_articles site start (im_corpus w)"
    using inv by (simp_all add: importing_def crawling_def)
  have none': "linked_ok run {} [] (co_links (im_corpus w))" using none same by (simp add: same_but_articles_def)
  show ?thesis
  proof (cases replace_snapshot)
    case True
    show ?thesis
    proof (cases "finish_import cfg replace_snapshot w")
      case (Inr out)
      obtain links s co where out: "out = (links, s, co)" by (metis prod_cases3)
      obtain s1 s2 co2 where val: "validate_completeness (cc_min_ratio cfg) (im_corpus w) (im_snapshot w) = Inr s1"
        and res: "resolve_links cfg (\<lambda>_. False) 0 None (s1, im_corpus w) = Inr (links, s2, co2)"
        and pro: "promote (s2, co2) = Inr (s, co)"
        using Inr True by (auto simp: finish_import_def out bind_ok_eq_Inr split: prod.splits)
      show ?thesis using promoted_view [OF st val res pro none'] same Inr True
        by (simp add: out same_but_articles_def)
    qed (use True in simp)
  next
    case False
    have s: "\<not> cs_promoted (im_snapshot w)" using st by (simp add: staged_ok_def)
    obtain k seen co where sources: "resolve_sources cfg (\<lambda>_. False) (cs_url_to_id (im_snapshot w)) None
        (cs_run (im_snapshot w)) (cs_outbound (im_snapshot w)) (0, [], im_corpus w) = Inr (k, seen, co)"
      using resolve_sources_total by (metis prod_cases3)
    then have res: "resolve_links cfg (\<lambda>_. False) 0 None (im_snapshot w, im_corpus w)
        = Inr (length seen, im_snapshot w\<lparr>cs_resolved := True\<rparr>, co)"
      using s by (simp add: resolve_links_def)
    from resolved_view [OF st s refl refl refl res none']
    have "corpus_wf co" "same_but_links run (im_corpus w) co" by blast+
    moreover have "finish_import cfg replace_snapshot w = Inr (length seen, im_snapshot w\<lparr>cs_resolved := True\<rparr>, co)"
      using res False by (simp add: finish_import_def)
    ultimately show ?thesis using False same inv by (simp add: same_but_links_def same_but_articles_def importing_def)
  qed
qed

text \<open>An import, whatever its outcome.\<close>

lemma import_outcome:
  assumes "corpus_wf co"
    and "import_articles cfg extract wording started finished True replace_snapshot site base rows co = (res, co')"
  shows "corpus_wf co'
    \<and> filter (\<lambda>a. ar_site a \<noteq> site) (co_articles co') = filter (\<lambda>a. ar_site a \<noteq> site) (co_articles co)
    \<and> (case res of
        Inl e \<Rightarrow> replace_snapshot \<and> same_view co co' \<and> run_closed (next_id cr_id (co_runs co)) Run_failed co'
      | Inr r \<Rightarrow> is_imported r + is_updated r + length (is_skipped r) + length (is_rejected r) = length rows
          \<and> is_run r = next_id cr_id (co_runs co) \<and> run_closed (is_run r) Run_succeeded co'
          \<and> (if replace_snapshot then \<exists>n. view_is_crawl site (is_run r) co' n (is_links r)
             else \<forall>a\<in>set (co_articles co). ar_active a \<longrightarrow> (\<exists>b\<in>set (co_articles co'). ar_id b = ar_id a \<and> ar_active b)))"
proof -
  define run where "run = next_id cr_id (co_runs co)"
  define opened where "opened = co\<lparr>co_runs := co_runs co @ [new_run run site None started]\<rparr>"
  define w0 where "w0 = \<lparr>im_corpus = opened, im_snapshot = new_snapshot site run, im_seen = {}, im_observations = [],
               im_skipped = [], im_rejected = [], im_imported = 0, im_updated = 0\<rparr>"
  have open_ok: "corpus_wf opened" "run_ids site run opened = {}" "linked_ok run {} [] (co_links opened)"
    "run \<in> cr_id ` set (co_runs opened)"
    using opened_wf [OF assms(1) run_def, of "new_run run site None started" site] by (simp_all add: opened_def)
  have row: "get_row cr_id run (co_runs opened) \<noteq> None"
    unfolding opened_def using get_new_run [OF run_def] by simp
  have "importing site run opened replace_snapshot 0 w0"
    using open_ok by (auto simp: importing_def crawling_def staged_ok_def w0_def new_snapshot_def same_but_articles_def)
  from import_rows_keep [OF this] obtain w where
    rows: "import_rows cfg extract wording replace_snapshot base site run (List.enumerate 1 rows) w0 = Inr w"
    and inv: "importing site run opened replace_snapshot (length rows) w" by (metis add_0 length_enumerate)
  note spec = finish_import_spec [OF inv open_ok(3), of cfg]
  define os where "os = complete_observations (im_observations w) (cs_accepted (im_snapshot w))"
  show ?thesis
  proof (cases "finish_import cfg replace_snapshot w")
    case (Inl e)
    define g where "g = (\<lambda>r :: crawl_run. r\<lparr>cr_status := Run_failed, cr_error := Some (str_take 2000 (error_message e))\<rparr>)"
    have out: "res = Inl e" "co' = set_run run (\<lambda>r. r\<lparr>cr_finished_at := Some finished\<rparr>) (persist_diagnostics run os (set_run run g opened))"
      using assms(2) Inl rows by (simp_all add: import_articles_def run_def [symmetric] opened_def [symmetric] w0_def [symmetric]
          os_def [symmetric] g_def Let_def)
    from closing [OF row, where g = g and status = Run_failed and p = "persist_diagnostics run os" and os = os and finished = finished]
    have c: "run_closed run Run_failed co'" "same_view opened co'" "map cr_id (co_runs co') = map cr_id (co_runs opened)"
      by (simp_all add: out(2) g_def)
    have "corpus_wf co'" by (rule corpus_wf_runs [OF open_ok(1)]) (use c in \<open>simp_all add: same_view_def\<close>)
    then show ?thesis using c Inl spec by (simp add: out(1) run_def same_view_def opened_def)
  next
    case (Inr t)
    obtain links s final where t: "t = (links, s, final)" by (metis prod_cases3)
    note spec' = spec [unfolded Inr t, simplified]
    define g where "g = (\<lambda>r :: crawl_run. r\<lparr>cr_status := Run_succeeded, cr_articles := staged_count s, cr_links := links\<rparr>)"
    have out: "res = Inr \<lparr>is_run = run, is_imported = im_imported w, is_updated = im_updated w, is_links = links,
        is_skipped = im_skipped w, is_rejected = im_rejected w, is_summary = sort_key fst (count_reasons os)\<rparr>"
      "co' = set_run run (\<lambda>r. r\<lparr>cr_finished_at := Some finished\<rparr>) (persist_diagnostics run os (set_run run g final))"
      using assms(2) Inr rows by (simp_all add: import_articles_def run_def [symmetric] opened_def [symmetric] w0_def [symmetric]
          os_def [symmetric] g_def t Let_def)
    have "get_row cr_id run (co_runs final) \<noteq> None" using row spec' by simp
    from closing [OF this, where g = g and status = Run_succeeded and p = "persist_diagnostics run os" and os = os and finished = finished]
    have c: "run_closed run Run_succeeded co'" "same_view final co'" "map cr_id (co_runs co') = map cr_id (co_runs final)"
      by (simp_all add: out(2) g_def)
    have "corpus_wf co'" by (rule corpus_wf_runs [of final]) (use c spec' in \<open>simp_all add: same_view_def\<close>)
    moreover have "co_articles co' = co_articles final" using c(2) by (simp add: same_view_def)
    moreover have "im_imported w + im_updated w + length (im_skipped w) + length (im_rejected w) = length rows"
      using inv by (simp add: importing_def)
    ultimately show ?thesis using spec' c(1) view_cong [OF c(2)]
      by (cases replace_snapshot) (auto simp: out(1) run_def opened_def)
  qed
qed


section \<open>Concrete runs\<close>

definition empty_corpus :: corpus where
  "empty_corpus = \<lparr>co_articles = [], co_taxonomies = [], co_article_taxonomies = [], co_links = [], co_runs = [],
     co_diagnostics = [], co_suggestions = []\<rparr>"

definition sample_limits :: crawl_config where
  "sample_limits = \<lparr>cc_max_articles = 10, cc_max_chars = 100, cc_max_links = 5, cc_max_total = 20, cc_max_seconds = 60,
     cc_min_ratio = 1 / 2, cc_allow_unsafe = False\<rparr>"

definition found_page :: article_data where
  "found_page = \<lparr>ad_url = ''/a'', ad_title = ''A'', ad_text = ''a'', ad_html = None, ad_external_id = None,
     ad_language = None, ad_published = None, ad_taxonomies = [], ad_links = [], ad_from = None, ad_depth = 0,
     ad_canonical = None\<rparr>"

lemma empty_corpus_wf: "corpus_wf empty_corpus"
  by (simp add: corpus_wf_def empty_corpus_def primary_def unique_urls_def unique_externals_def links_wellformed_def known_runs_def)

lemma sample_crawl:
  "fst (run_ingestion_locked sample_limits Inr (\<lambda>_. False) 0 1 None (Some WordPress) 7
     (Inr \<lparr>cn_articles = Inr [Fetched found_page], cn_resolver = None, cn_observations = []\<rparr>) empty_corpus) = Inr (1, 0)"
  by (simp add: run_ingestion_locked_def crawl_body_def crawl_articles.simps accept_article_def keep_article_def found_page_def
      sample_limits_def empty_corpus_def Let_def new_snapshot_def record_accepted_article_def mark_dirty_def upsert_article_def
      find_article_def upsert_taxonomies_def stage_article_def validate_completeness_def validate_snapshot_completeness_def
      previous_articles_def new_run_def resolve_links_def promote_def staged_count_def next_id_def str_len_def)

lemma crawl_is_all_or_nothing_witness:
  "\<exists>co'. run_ingestion_locked sample_limits Inr (\<lambda>_. False) 0 1 None (Some WordPress) 7
     (Inr \<lparr>cn_articles = Inr [Fetched found_page], cn_resolver = None, cn_observations = []\<rparr>) empty_corpus = (Inr (1, 0), co')
   \<and> view_is_crawl 7 1 co' 1 0 \<and> run_closed 1 Run_succeeded co'"
proof -
  obtain co' where r: "run_ingestion_locked sample_limits Inr (\<lambda>_. False) 0 1 None (Some WordPress) 7
     (Inr \<lparr>cn_articles = Inr [Fetched found_page], cn_resolver = None, cn_observations = []\<rparr>) empty_corpus = (Inr (1, 0), co')"
    using sample_crawl by (metis prod.collapse)
  from crawl_is_all_or_nothing [OF empty_corpus_wf r] show ?thesis
    using r by (simp add: empty_corpus_def next_id_def)
qed


end
