(* ===== verification/ContentGraph.thy ===== *)
theory ContentGraph
  imports Ingestion
begin

text \<open>
  Crawls, imports and graph analyses over one set of tables: \<open>run_ingestion\<close>, \<open>import_articles\<close>
  (app/services/ingestion_service.py) write the articles and links that \<open>ensure_graph_snapshot\<close>
  (app/services/graph_service.py) reads. The steps are whole transactions, in any order.
\<close>

section \<open>Runs and imports keep the tables well-formed\<close>

lemma run_ingestion_wf:
  assumes wf: "corpus_wf co"
  shows "corpus_wf (snd (run_ingestion cfg canon late started finished job platform site connect acquired co))"
proof (cases acquired)
  case True
  obtain res co' where r: "run_ingestion_locked cfg canon late started finished job platform site connect co = (res, co')"
    by fastforce
  with True crawl_outcome [OF wf r] show ?thesis by (simp add: run_ingestion_def)
next
  case False
  then show ?thesis
    using opened_wf [OF wf refl] by (simp add: run_ingestion_def Let_def)
qed

lemma import_articles_wf:
  assumes wf: "corpus_wf co"
  shows "corpus_wf (snd (import_articles cfg extract wording started finished acquired replace_snapshot site base rows co))"
proof (cases acquired)
  case True
  obtain res co' where r: "import_articles cfg extract wording started finished True replace_snapshot site base rows co = (res, co')"
    by fastforce
  with True import_outcome [OF wf r] show ?thesis by simp
qed (use wf in \<open>simp add: import_articles_def\<close>)

section \<open>The composed system\<close>

datatype content_event =
    Crawl "nat \<Rightarrow> bool" time time "nat option" "platform option" nat "crawl_error + connector" bool
  | Import time time bool bool nat string "import_row list"
  | Observe time nat

fun content_step ::
  "crawl_config \<Rightarrow> (string \<Rightarrow> string + string) \<Rightarrow> (string \<Rightarrow> string option) \<Rightarrow> (guard_error \<Rightarrow> string) \<Rightarrow> (string \<Rightarrow> string)
     \<Rightarrow> graph_config \<Rightarrow> content_event \<Rightarrow> graph_db \<Rightarrow> graph_db" where
  "content_step cfg canon extract wording sha graph (Crawl late started finished job platform site connect acquired) db =
     db\<lparr>gd_corpus := snd (run_ingestion cfg canon late started finished job platform site connect acquired (gd_corpus db))\<rparr>"
| "content_step cfg canon extract wording sha graph (Import started finished acquired replace_snapshot site base rows) db =
     db\<lparr>gd_corpus := snd (import_articles cfg extract wording started finished acquired replace_snapshot site base rows (gd_corpus db))\<rparr>"
| "content_step cfg canon extract wording sha graph (Observe now site) db = graph_step sha graph (Observed now site) db"

lemma observe_keeps_corpus: "gd_corpus (graph_step sha graph (Observed now site) db) = gd_corpus db"
proof -
  obtain nodes edges run where "graph_inputs site (gd_corpus db) = (nodes, edges, run)" by (metis prod_cases3)
  then show ?thesis
    by (cases rule: ensure_cases [where sha = sha and cfg = graph and now = now]) simp_all
qed

interpretation content: driven_system "content_step cfg canon html wording sha graph" "\<lambda>db :: graph_db. corpus_wf (gd_corpus db)"
  for cfg canon html wording sha graph
proof
  fix db :: graph_db and e
  assume "corpus_wf (gd_corpus db)"
  then show "corpus_wf (gd_corpus (content_step cfg canon html wording sha graph e db))"
  proof (cases e)
    case (Observe now site)
    with \<open>corpus_wf (gd_corpus db)\<close> show ?thesis using observe_keeps_corpus by simp
  qed (simp_all add: run_ingestion_wf import_articles_wf)
qed

text \<open>Seen from the graph tables, a crawl or an import is a change of the corpus.\<close>

lemma content_step_graph: "\<exists>g. content_step cfg canon extract wording sha graph e db = graph_step sha graph g db"
proof (cases e)
  case (Crawl late started finished job platform site connect acquired)
  then show ?thesis by (metis content_step.simps(1) graph_step.simps(1))
next
  case (Import started finished acquired replace_snapshot site base rows)
  then show ?thesis by (metis content_step.simps(2) graph_step.simps(1))
next
  case (Observe now site)
  then show ?thesis by (metis content_step.simps(3))
qed

lemma content_run_graph:
  "\<exists>gs. fold (content_step cfg canon extract wording sha graph) es db = fold (graph_step sha graph) gs db"
proof (induction es arbitrary: db)
  case (Cons e es)
  obtain g where g: "content_step cfg canon extract wording sha graph e db = graph_step sha graph g db"
    using content_step_graph by blast
  obtain gs where "fold (content_step cfg canon extract wording sha graph) es (graph_step sha graph g db)
      = fold (graph_step sha graph) gs (graph_step sha graph g db)" using Cons.IH by blast
  then show ?case using g by (intro exI [of _ "g # gs"]) simp
qed (auto intro: exI [of _ "[]"])

text \<open>C9. Analyses and reviews see the graph of the present. From well-formed tables, after any sequence of crawls and imports,
  failed ones included, and of snapshot requests, asking for the snapshot of a site returns one whose features, counts
  and edges are those computed from the articles and links as they are now, whether it was found or made, unless SHA-256
  collides; asking again finds the same one, and no earlier snapshot loses or changes a row.\<close>

theorem snapshot_describes_current_graph:
  assumes "corpus_wf co"
    and "db = fold (content_step cfg canon extract wording sha graph) events \<lparr>gd_corpus = co, gd_snapshots = [], gd_features = []\<rparr>"
    and "graph_inputs site (gd_corpus db) = (nodes, edges, run)"
    and "\<And>p. sha p = sha (graph_payload (gcf_algorithm graph) run nodes edges) \<Longrightarrow> p = graph_payload (gcf_algorithm graph) run nodes edges"
  shows "\<exists>s new db'. ensure_graph_snapshot sha graph now site db = Inr (s, new, db')
    \<and> compute_graph (gcf_thresholds graph) nodes edges = Inr (graph_computation_from_snapshot s db')
    \<and> s = snapshot_row graph (gs_id s) (gs_computed_at s) site run (gs_version s) (graph_computation_from_snapshot s db')
    \<and> (\<forall>later. ensure_graph_snapshot sha graph later site db' = Inr (s, False, db'))
    \<and> (\<forall>t\<in>set (gd_snapshots db). t \<in> set (gd_snapshots db') \<and> feature_rows (gs_id t) db' = feature_rows (gs_id t) db)"
proof -
  obtain gs where gs: "db = fold (graph_step sha graph) gs \<lparr>gd_corpus = co, gd_snapshots = [], gd_features = []\<rparr>"
    using content_run_graph assms(2) by metis
  have "corpus_wf (gd_corpus db)"
    unfolding assms(2) by (rule content.run_inv) (simp add: assms(1))
  then have "primary ar_id (co_articles (gd_corpus db))" "links_wellformed (co_links (gd_corpus db))"
    by (simp_all add: corpus_wf_def)
  from snapshot_is_current [OF gs assms(3) this assms(4)] show ?thesis by blast
qed

lemma snapshot_describes_current_graph_witness:
  "\<exists>s new db'. ensure_graph_snapshot (\<lambda>x. x) sample_config 5 7
      (fold (content_step sample_limits Inr Some (\<lambda>_. []) (\<lambda>x. x) sample_config)
        [Crawl (\<lambda>_. False) 0 1 None (Some WordPress) 7
          (Inr \<lparr>cn_articles = Inr [Fetched found_page], cn_resolver = None, cn_observations = []\<rparr>) True]
        \<lparr>gd_corpus = empty_corpus, gd_snapshots = [], gd_features = []\<rparr>) = Inr (s, new, db')
     \<and> gs_site s = 7"
proof -
  define db where "db = fold (content_step sample_limits Inr Some (\<lambda>_. []) (\<lambda>x. x) sample_config)
        [Crawl (\<lambda>_. False) 0 1 None (Some WordPress) 7
          (Inr \<lparr>cn_articles = Inr [Fetched found_page], cn_resolver = None, cn_observations = []\<rparr>) True]
        \<lparr>gd_corpus = empty_corpus, gd_snapshots = [], gd_features = []\<rparr>"
  obtain nodes edges run where "graph_inputs 7 (gd_corpus db) = (nodes, edges, run)" by (metis prod_cases3)
  from snapshot_describes_current_graph [OF empty_corpus_wf db_def this, of 5] obtain s new db' where
    "ensure_graph_snapshot (\<lambda>x. x) sample_config 5 7 db = Inr (s, new, db')"
    "s = snapshot_row sample_config (gs_id s) (gs_computed_at s) 7 run (gs_version s) (graph_computation_from_snapshot s db')"
    by auto
  then show ?thesis unfolding db_def [symmetric] by (metis snapshot_row_simps(2))
qed

end
