(* ===== verification/Ranking.thy ===== *)
theory Ranking
  imports LinkGraph ExternalPolicy
begin

text \<open>
  How candidates are scored and ordered: the BM25 index of \<^verbatim>\<open>app/ml/lexical.py\<close>, rank fusion and the final pick
  of \<^verbatim>\<open>app/ml/hybrid.py\<close>, the editorial feedback of \<^verbatim>\<open>app/services/editorial_feedback.py\<close> and the final order
  with its evidence, \<^verbatim>\<open>app/ml/candidate_ordering.py\<close>. Scores are doubles, every operation rounded as
  \<open>FloatOrder\<close> says; \<open>logarithm\<close> stands for \<open>math.log\<close>. Dictionaries are association lists in insertion order.
  \<open>lower\<close> maps ASCII letters only.
\<close>

datatype ranking_error = Limit_not_positive | Remaining_negative | Bad_index string | No_articles | Article_too_long
  | Corpus_too_large | Missing_semantic_scores "nat list"

section \<open>Terms\<close>

definition term_char :: "char \<Rightarrow> bool" where
  "term_char c = (let n = (of_char c :: nat) in (97 \<le> n \<and> n \<le> 122) \<or> (48 \<le> n \<and> n \<le> 57))"

text \<open>\<open>[a-z0-9]+\<close>, all matches from left to right; \<open>run\<close> is the match in progress.\<close>

fun term_runs :: "string \<Rightarrow> string \<Rightarrow> string list" where
  "term_runs run [] = (if run = [] then [] else [run])"
| "term_runs run (c # s) =
     (if term_char c then term_runs (run @ [c]) s
      else (if run = [] then [] else [run]) @ term_runs [] s)"

definition stopwords :: "string list" where
  "stopwords = [''a'', ''an'', ''and'', ''are'', ''as'', ''at'', ''be'', ''by'', ''for'', ''from'', ''has'', ''have'', ''how'',
     ''in'', ''is'', ''it'', ''of'', ''on'', ''or'', ''that'', ''the'', ''this'', ''to'', ''was'', ''were'', ''what'',
     ''when'', ''where'', ''which'', ''who'', ''why'', ''with'', ''you'', ''your'']"

definition tokenize :: "string \<Rightarrow> string list" where
  "tokenize s = filter (\<lambda>t. t \<notin> set stopwords) (term_runs [] (lower s))"

section \<open>BM25\<close>

text \<open>\<open>Counter(xs)\<close>.\<close>

definition counter :: "'a list \<Rightarrow> ('a \<times> nat) list" where
  "counter xs = foldl (\<lambda>d x. AList.update x (or_else (map_of d x) 0 + 1) d) [] xs"

record bm25_index =
  bx_k1 :: rat
  bx_b :: rat
  bx_count :: nat
  bx_lengths :: "(nat \<times> nat) list"
  bx_average :: rat
  bx_postings :: "(string \<times> (nat \<times> nat) list) list"

definition add_postings :: "(string \<times> (nat \<times> nat) list) list \<Rightarrow> nat \<times> string list \<Rightarrow> (string \<times> (nat \<times> nat) list) list" where
  "add_postings p document =
     foldl (\<lambda>p (t, frequency). AList.update t (or_else (map_of p t) [] @ [(fst document, frequency)]) p) p
       (counter (snd document))"

definition bm25_new :: "rat \<Rightarrow> rat \<Rightarrow> (nat \<times> string list) list \<Rightarrow> ranking_error + bm25_index" where
  "bm25_new k1 b documents =
     (if k1 \<le> 0 then Inl (Bad_index ''k1 must be positive'')
      else if \<not> (0 \<le> b \<and> b \<le> 1) then Inl (Bad_index ''b must be between 0 and 1'')
      else if documents = [] then Inl (Bad_index ''documents must not be empty'')
      else Inr \<lparr>bx_k1 = k1, bx_b = b, bx_count = length documents,
        bx_lengths = map (map_prod id length) documents,
        bx_average = fdiv (of_nat (sum_list (map (length \<circ> snd) documents))) (of_nat (length documents)),
        bx_postings = foldl add_postings [] documents\<rparr>)"

definition inverse_document_frequency :: "(rat \<Rightarrow> rat) \<Rightarrow> nat \<Rightarrow> nat \<Rightarrow> rat" where
  "inverse_document_frequency logarithm documents frequency =
     logarithm (fadd 1 (fdiv (fadd (of_int (int documents - int frequency)) (1 / 2)) (fadd (of_nat frequency) (1 / 2))))"

definition term_score :: "bm25_index \<Rightarrow> rat \<Rightarrow> nat \<Rightarrow> nat \<Rightarrow> nat \<Rightarrow> rat" where
  "term_score ix idf query_frequency document frequency =
     (let average = (if bx_average ix = 0 then 1 else bx_average ix);
          normalizer = fmul (bx_k1 ix) (fadd (fsub 1 (bx_b ix))
            (fdiv (fmul (bx_b ix) (of_nat (or_else (map_of (bx_lengths ix) document) 0))) average))
      in fdiv (fmul (fmul (fmul (of_nat (min query_frequency 3)) idf) (of_nat frequency)) (fadd (bx_k1 ix) 1))
           (fadd (of_nat frequency) normalizer))"

definition score_documents :: "(rat \<Rightarrow> rat) \<Rightarrow> bm25_index \<Rightarrow> string list \<Rightarrow> nat set \<Rightarrow> (nat \<times> rat) list" where
  "score_documents logarithm ix query_terms excluded =
     foldl (\<lambda>scores (t, query_frequency).
         let postings = or_else (map_of (bx_postings ix) t) [];
             idf = inverse_document_frequency logarithm (bx_count ix) (length postings)
         in foldl (\<lambda>scores (document, frequency).
              if document \<in> excluded then scores
              else AList.update document (fadd (or_else (map_of scores document) 0)
                     (term_score ix idf query_frequency document frequency)) scores) scores postings)
       [] (counter query_terms)"

definition rank_scores :: "(nat \<times> rat) list \<Rightarrow> (nat \<times> rat) list" where
  "rank_scores scores = sort_key (\<lambda>(i, score). (- score, i)) scores"

definition bm25_rank :: "(rat \<Rightarrow> rat) \<Rightarrow> bm25_index \<Rightarrow> string list \<Rightarrow> nat \<Rightarrow> nat set \<Rightarrow> ranking_error + (nat \<times> rat) list" where
  "bm25_rank logarithm ix query_terms limit excluded =
     (if limit = 0 then Inl Limit_not_positive
      else Inr (take limit (rank_scores (score_documents logarithm ix query_terms excluded))))"

section \<open>Fusion\<close>

definition pool_size :: nat where "pool_size = 100"

definition content_token_limit :: nat where "content_token_limit = 512"

definition dense_rrf_weight :: rat where "dense_rrf_weight = 1 / 4"

definition lexical_rrf_weight :: rat where "lexical_rrf_weight = 1"

definition rrf_rank_constant :: nat where "rrf_rank_constant = 10"

record corpus_article =
  ca_id :: nat
  ca_title :: string
  ca_text :: string
  ca_fingerprint :: "string option"
  ca_taxonomies :: "string list"

definition structured_terms :: "nat \<Rightarrow> corpus_article \<Rightarrow> ranking_error + string list" where
  "structured_terms max_chars a =
     (if max_chars < str_len (ca_text a) then Inl Article_too_long
      else
        (let title = tokenize (ca_title a); taxonomy = concat (map tokenize (ca_taxonomies a))
         in Inr (title @ title @ title @ taxonomy @ taxonomy @ take content_token_limit (tokenize (ca_text a)))))"

record ranked_candidate =
  rc_target :: nat
  rc_semantic :: rat
  rc_bm25 :: rat
  rc_fusion_rank :: "nat option"
  rc_fusion_score :: rat
  rc_dense_rank :: "nat option"
  rc_lexical_rank :: "nat option"

text \<open>A candidate of the cosine path carries no other number.\<close>

definition cosine_candidate :: "nat \<Rightarrow> rat \<Rightarrow> ranked_candidate" where
  "cosine_candidate t score = \<lparr>rc_target = t, rc_semantic = score, rc_bm25 = 0, rc_fusion_rank = None,
     rc_fusion_score = 0, rc_dense_rank = None, rc_lexical_rank = None\<rparr>"

definition rank_json :: "nat option \<Rightarrow> json" where
  "rank_json r = (case r of None \<Rightarrow> JNull | Some n \<Rightarrow> JInt (int n))"

definition score_components :: "ranked_candidate \<Rightarrow> (string \<times> json) list" where
  "score_components c = [
     (''version'', JStr ''hybrid_bm25_v1''), (''final_order'', JStr ''bm25_512''),
     (''score_is'', JStr ''cosine_semantic_similarity''), (''recipe'', JStr ''structured_t3_tax2_c512''),
     (''bm25_score'', JFloat (rc_bm25 c)),
     (''fusion'', JObj [(''name'', JStr ''wrrf_d025_l100_k10''), (''dense_weight'', JFloat dense_rrf_weight),
        (''lexical_weight'', JFloat lexical_rrf_weight), (''rank_constant'', JInt (int rrf_rank_constant))]),
     (''fusion_rank'', rank_json (rc_fusion_rank c)), (''fusion_score'', JFloat (rc_fusion_score c)),
     (''dense_rank'', rank_json (rc_dense_rank c)), (''lexical_rank'', rank_json (rc_lexical_rank c)),
     (''semantic'', JFloat (rc_semantic c))]"

text \<open>The scores and best ranks after one list.\<close>

definition rrf_pass :: "rat \<Rightarrow> nat list \<Rightarrow> (nat \<times> rat) list \<times> (nat \<times> nat) list \<Rightarrow> (nat \<times> rat) list \<times> (nat \<times> nat) list" where
  "rrf_pass weight ranking st =
     foldl (\<lambda>(scores, best) (rank, i).
         (AList.update i (fadd (or_else (map_of scores i) 0) (fdiv weight (of_nat (rrf_rank_constant + rank)))) scores,
          AList.update i (min (or_else (map_of best i) rank) rank) best))
       st (List.enumerate 1 ranking)"

definition weighted_rrf_scores :: "nat list \<Rightarrow> nat list \<Rightarrow> nat \<Rightarrow> ranking_error + (nat \<times> rat) list" where
  "weighted_rrf_scores dense lexical limit =
     (if limit = 0 then Inl Limit_not_positive
      else
        (let (scores, best) = rrf_pass lexical_rrf_weight lexical (rrf_pass dense_rrf_weight dense ([], []));
             ordered = take limit (sort_key (\<lambda>i. (- or_else (map_of scores i) 0, or_else (map_of best i) 0, i)) (map fst scores))
         in Inr (map (\<lambda>i. (i, or_else (map_of scores i) 0)) ordered)))"

definition weighted_reciprocal_rank_fusion :: "nat list \<Rightarrow> nat list \<Rightarrow> nat \<Rightarrow> ranking_error + nat list" where
  "weighted_reciprocal_rank_fusion dense lexical limit = map_sum id (map fst) (weighted_rrf_scores dense lexical limit)"

text \<open>\<open>{x: rank for rank, x in enumerate(xs, start=1)}\<close>.\<close>

definition positions :: "nat list \<Rightarrow> (nat \<times> nat) list" where
  "positions xs = foldl (\<lambda>d (rank, i). AList.update i rank d) [] (List.enumerate 1 xs)"

definition clamp_unit :: "rat \<Rightarrow> rat" where
  "clamp_unit x = min 1 (max 0 x)"

definition rank_hybrid_candidates ::
  "nat list \<Rightarrow> nat list \<Rightarrow> (nat \<times> rat) list \<Rightarrow> (nat \<times> rat) list \<Rightarrow> nat \<Rightarrow> ranking_error + ranked_candidate list" where
  "rank_hybrid_candidates dense_ids lexical_ids bm25_scores semantic_scores limit =
     (if limit = 0 then Inl Limit_not_positive
      else
        (let dense_pool = take pool_size dense_ids; lexical_pool = take pool_size lexical_ids
         in bind_ok (weighted_rrf_scores dense_pool lexical_pool (pool_size + pool_size)) (\<lambda>fused.
              let fusion_ranks = positions (map fst fused);
                  missing = filter (\<lambda>t. map_of semantic_scores t = None) (map fst fusion_ranks);
                  final_ids = take limit (sort_key (\<lambda>t. (- or_else (map_of bm25_scores t) 0, or_else (map_of fusion_ranks t) 0, t))
                    (map fst fusion_ranks))
              in if missing \<noteq> [] then Inl (Missing_semantic_scores (take 5 missing))
                 else Inr (map (\<lambda>t. \<lparr>rc_target = t, rc_semantic = clamp_unit (or_else (map_of semantic_scores t) 0),
                        rc_bm25 = or_else (map_of bm25_scores t) 0, rc_fusion_rank = map_of fusion_ranks t,
                        rc_fusion_score = or_else (map_of fused t) 0, rc_dense_rank = map_of (positions dense_pool) t,
                        rc_lexical_rank = map_of (positions lexical_pool) t\<rparr>) final_ids))))"

section \<open>Editorial feedback\<close>

definition accepted_statuses :: "suggestion_status set" where
  "accepted_statuses = {Approved, Applying, Applied, Failed}"

definition decided_statuses :: "suggestion_status set" where
  "decided_statuses = insert Rejected accepted_statuses"

definition feedback_candidate_pool :: nat where "feedback_candidate_pool = 20"

definition score_percent :: "rat \<Rightarrow> nat" where
  "score_percent score = nat (max 0 (min 100 \<lfloor>fadd (fmul score 100) (1 / 2)\<rfloor>))"

definition score_bucket :: "nat \<Rightarrow> nat \<times> nat" where
  "score_bucket percent =
     (if percent < 60 then (0, 59) else if percent < 70 then (60, 69) else if percent < 80 then (70, 79)
      else if percent < 90 then (80, 89) else (90, 100))"

text \<open>A bucket is the accepted and rejected decisions it holds.\<close>

record feedback_profile =
  fp_site :: nat
  fp_accepted :: nat
  fp_rejected :: nat
  fp_buckets :: "((nat \<times> nat) \<times> nat \<times> nat) list"

definition fp_samples :: "feedback_profile \<Rightarrow> nat" where
  "fp_samples p = fp_accepted p + fp_rejected p"

definition acceptance_rate :: "feedback_profile \<Rightarrow> rat" where
  "acceptance_rate p = (if fp_samples p \<noteq> 0 then fdiv (of_nat (fp_accepted p)) (of_nat (fp_samples p)) else 1 / 2)"

text \<open>The columns of a site that steer its ranking.\<close>

record editorial_settings =
  es_enabled :: bool
  es_weight :: rat
  es_min_samples :: nat
  es_min_score_percent :: nat

definition count_decision :: "feedback_profile \<Rightarrow> rat \<times> suggestion_status \<Rightarrow> feedback_profile" where
  "count_decision p row =
     (let bucket = score_bucket (score_percent (fst row)); (a, r) = or_else (map_of (fp_buckets p) bucket) (0, 0)
      in if snd row \<in> accepted_statuses
         then p\<lparr>fp_accepted := fp_accepted p + 1, fp_buckets := AList.update bucket (a + 1, r) (fp_buckets p)\<rparr>
         else p\<lparr>fp_rejected := fp_rejected p + 1, fp_buckets := AList.update bucket (a, r + 1) (fp_buckets p)\<rparr>)"

definition load_editorial_feedback :: "editorial_settings \<Rightarrow> nat \<Rightarrow> suggestion list \<Rightarrow> feedback_profile option" where
  "load_editorial_feedback es site suggestions =
     (if \<not> es_enabled es \<or> es_weight es \<le> 0 then None
      else
        (let rows = map (\<lambda>s. (sg_score s, sg_status s)) (filter (\<lambda>s. sg_site s = site \<and> sg_status s \<in> decided_statuses) suggestions)
         in if length rows < es_min_samples es then None
            else Some (foldl count_decision \<lparr>fp_site = site, fp_accepted = 0, fp_rejected = 0, fp_buckets = []\<rparr> rows)))"

definition candidate_bucket :: "ranked_candidate \<Rightarrow> nat \<times> nat" where
  "candidate_bucket c = score_bucket (score_percent (rc_semantic c))"

definition smoothed_acceptance :: "feedback_profile \<Rightarrow> ranked_candidate \<Rightarrow> rat \<times> (nat \<times> nat) option" where
  "smoothed_acceptance p c =
     (let bucket = map_of (fp_buckets p) (candidate_bucket c); (a, r) = or_else bucket (0, 0)
      in (fdiv (fadd (of_nat a) (fmul (acceptance_rate p) 5)) (of_nat (a + r + 5)), bucket))"

definition combined_score :: "feedback_profile \<Rightarrow> rat \<Rightarrow> nat \<Rightarrow> nat \<Rightarrow> ranked_candidate \<Rightarrow> rat" where
  "combined_score p weight denominator index c =
     (let utility = fsub 1 (fdiv (of_nat index) (of_nat denominator))
      in fadd (fmul (fsub 1 weight) utility) (fmul weight (fst (smoothed_acceptance p c))))"

definition feedback_component :: "feedback_profile \<Rightarrow> rat \<Rightarrow> nat \<Rightarrow> nat \<Rightarrow> nat \<Rightarrow> ranked_candidate \<Rightarrow> json" where
  "feedback_component p weight denominator original_index feedback_index c =
     (let (acceptance, bucket) = smoothed_acceptance p c; (lo, hi) = candidate_bucket c
      in JObj [(''version'', JStr ''editorial_feedback_v1''), (''site_samples'', JInt (int (fp_samples p))),
           (''site_acceptance_rate'', JFloat (fround 6 (acceptance_rate p))),
           (''score_bucket'', JStr (digits lo @ ''-'' @ digits hi)),
           (''bucket_samples'', JInt (case bucket of None \<Rightarrow> 0 | Some (a, r) \<Rightarrow> int (a + r))),
           (''smoothed_acceptance_rate'', JFloat (fround 6 acceptance)), (''weight'', JFloat weight),
           (''original_rank'', JInt (int original_index + 1)), (''feedback_rank'', JInt (int feedback_index + 1)),
           (''combined_score'', JFloat (fround 6 (combined_score p weight denominator original_index c)))])"

definition rerank_with_editorial_feedback ::
  "ranked_candidate list \<Rightarrow> feedback_profile \<Rightarrow> rat \<Rightarrow> ranked_candidate list \<times> (nat \<times> json) list" where
  "rerank_with_editorial_feedback candidates p weight =
     (let denominator = max 1 (length candidates - 1);
          scored = sort_key (\<lambda>(i, c). (- combined_score p weight denominator i c, i, rc_target c)) (List.enumerate 0 candidates)
      in (map snd scored,
          foldl (\<lambda>d (j, i, c). AList.update (rc_target c) (feedback_component p weight denominator i j c) d) []
            (List.enumerate 0 scored)))"

section \<open>The final order\<close>

record ordered_candidate =
  oc_candidate :: ranked_candidate
  oc_rank :: nat
  oc_components :: "(string \<times> json) list option"
  oc_retrieval :: string
  oc_ranking :: string

fun method_name :: "suggestion_method \<Rightarrow> string" where
  "method_name Baseline_cosine = ''baseline_cosine''"
| "method_name Hybrid_bm25 = ''hybrid_bm25''"
| "method_name Gnn_graphsage = ''gnn_graphsage''"
| "method_name External_search = ''external_search''"

fun graph_mode_name :: "graph_mode \<Rightarrow> string" where
  "graph_mode_name Graph_off = ''off''"
| "graph_mode_name Graph_shadow = ''shadow''"
| "graph_mode_name Graph_active = ''active''"

definition ranking_versions :: "suggestion_method \<Rightarrow> (string \<times> json) list \<Rightarrow> graph_mode \<Rightarrow> bool \<Rightarrow> string \<times> string" where
  "ranking_versions method components mode feedback_enabled =
     (let version = (case map_of components ''version'' of Some (JStr v) \<Rightarrow> v | _ \<Rightarrow> [])
      in (if version \<noteq> [] then version
          else case method of Baseline_cosine \<Rightarrow> ''cosine_v1'' | External_search \<Rightarrow> ''external_search_v1''
            | _ \<Rightarrow> method_name method @ ''_v1'',
          method_name method @ '':graph='' @ graph_mode_name mode @ '':feedback='' @ (if feedback_enabled then ''on'' else ''off'')))"

definition graph_component ::
  "ranked_candidate \<Rightarrow> (nat \<times> graph_rank) list \<Rightarrow> (nat \<times> graph_feature) list \<Rightarrow> graph_snapshot \<Rightarrow> graph_mode \<Rightarrow> json option" where
  "graph_component c metadata features snapshot mode =
     (case (map_of metadata (rc_target c), map_of features (rc_target c)) of
        (Some m, Some f) \<Rightarrow> Some (JObj [
          (''algorithm_version'', JStr (gs_algorithm snapshot)), (''snapshot_id'', JInt (int (gs_id snapshot))),
          (''graph_version'', JStr (gs_version snapshot)), (''source_out_degree'', rank_json (rk_source_out m)),
          (''source_hub'', JBool (rk_source_hub m)), (''source_saturated'', JBool (rk_source_saturated m)),
          (''target_in_degree'', rank_json (rk_target_in m)), (''target_orphan'', JBool (rk_orphan m)),
          (''target_underlinked'', JBool (rk_underlinked m)), (''target_hub'', JBool (gf_hub f)),
          (''target_saturated'', JBool (gf_saturated f)), (''target_hub_score'', JFloat (gf_hub_score f)),
          (''target_saturation_score'', JFloat (gf_saturation_score f)), (''opportunity'', JFloat (rk_opportunity m)),
          (''adjustment'', JFloat (rk_adjustment m)), (''baseline_rank'', JInt (int (rk_baseline m))),
          (''final_rank'', JInt (int (rk_final m))), (''applied'', JBool (rk_applied m)), (''mode'', JStr (graph_mode_name mode))])
      | _ \<Rightarrow> None)"

text \<open>What the order depends on, beside the candidates.\<close>

record ordering_context =
  ox_method :: suggestion_method
  ox_min_percent :: nat
  ox_features :: "(nat \<times> graph_feature) list"
  ox_snapshot :: graph_snapshot
  ox_source :: nat
  ox_mode :: graph_mode
  ox_boost :: rat
  ox_min_relevance :: rat
  ox_profile :: "feedback_profile option"
  ox_weight :: rat
  ox_trust :: "(nat \<times> json) list"

definition graph_ordered :: "ordering_context \<Rightarrow> ranked_candidate list \<Rightarrow> ranked_candidate list \<times> (nat \<times> graph_rank) list" where
  "graph_ordered ox candidates =
     (let eligible = filter (\<lambda>c. ox_min_percent ox \<le> score_percent (rc_semantic c)) candidates
      in if ox_method ox = Hybrid_bm25 \<and> ox_features ox \<noteq> []
         then deterministic_rerank rc_target rc_semantic eligible (ox_features ox) (ox_source ox) (ox_mode ox) (ox_boost ox)
                (ox_min_relevance ox)
         else (eligible, []))"

definition feedback_ordered :: "ordering_context \<Rightarrow> ranked_candidate list \<Rightarrow> ranked_candidate list \<times> (nat \<times> json) list" where
  "feedback_ordered ox candidates =
     (case ox_profile ox of None \<Rightarrow> (candidates, []) | Some p \<Rightarrow> rerank_with_editorial_feedback candidates p (ox_weight ox))"

definition with_evidence ::
  "ordering_context \<Rightarrow> (nat \<times> graph_rank) list \<Rightarrow> (nat \<times> json) list \<Rightarrow> nat \<times> ranked_candidate \<Rightarrow> ordered_candidate" where
  "with_evidence ox metadata feedback ranked =
     (let (final_rank, c) = ranked;
          components = (if ox_method ox = Hybrid_bm25 then score_components c else [])
            @ (case map_of (ox_trust ox) (rc_target c) of None \<Rightarrow> [] | Some t \<Rightarrow> [(''external_trust'', t)])
            @ (case graph_component c metadata (ox_features ox) (ox_snapshot ox) (ox_mode ox) of None \<Rightarrow> [] | Some g \<Rightarrow> [(''graph'', g)])
            @ (case map_of feedback (rc_target c) of None \<Rightarrow> [] | Some f \<Rightarrow> [(''editorial_feedback'', f)]);
          versions = ranking_versions (ox_method ox) components (ox_mode ox) (ox_profile ox \<noteq> None)
      in \<lparr>oc_candidate = c, oc_rank = final_rank, oc_components = (if components = [] then None else Some components),
          oc_retrieval = fst versions, oc_ranking = snd versions\<rparr>)"

definition order_candidates ::
  "ordering_context \<Rightarrow> int \<Rightarrow> ranked_candidate list \<Rightarrow> ranking_error + (ordered_candidate list \<times> bool)" where
  "order_candidates ox remaining candidates =
     (if remaining < 0 then Inl Remaining_negative
      else if candidates = [] \<or> remaining = 0 then Inr ([], False)
      else
        (let (by_graph, metadata) = graph_ordered ox candidates;
             reordered = list_ex (\<lambda>m. rk_final (snd m) \<noteq> rk_baseline (snd m)) metadata;
             (ordered, feedback) = feedback_ordered ox by_graph
         in Inr (map (with_evidence ox metadata feedback) (List.enumerate 1 (take (nat remaining) ordered)), reordered)))"

section \<open>Terms are words\<close>

lemma term_runs_words:
  assumes "list_all term_char run" and "w \<in> set (term_runs run s)"
  shows "w \<noteq> [] \<and> list_all term_char w"
  using assms
proof (induction s arbitrary: run)
  case (Cons c s)
  show ?case
  proof (cases "term_char c")
    case True
    then show ?thesis using Cons.IH [of "run @ [c]"] Cons.prems by simp
  next
    case False
    then show ?thesis using Cons.IH [of "[]"] Cons.prems by (cases "run = []") auto
  qed
qed (auto split: if_splits)

lemma tokenize_words: "t \<in> set (tokenize s) \<Longrightarrow> t \<noteq> [] \<and> list_all term_char t \<and> t \<notin> set stopwords"
  using term_runs_words [of "[]" t "lower s"] by (simp add: tokenize_def)

section \<open>Dictionaries built by updates\<close>

lemma foldl_update_keys:
  "fst ` set (foldl (\<lambda>d x. AList.update (k x) (v d x) d) d xs) = fst ` set d \<union> k ` set xs"
  by (induction xs arbitrary: d) (auto simp: dom_update)

lemma foldl_update_distinct_keys:
  "distinct (map fst d) \<Longrightarrow> distinct (map fst (foldl (\<lambda>d x. AList.update (k x) (v d x) d) d xs))"
  by (induction xs arbitrary: d) (auto intro: distinct_update)

lemma counter_keys: "fst ` set (counter xs) = set xs"
  unfolding counter_def foldl_update_keys [of "\<lambda>x. x"] by simp

lemma distinct_counter: "distinct (map fst (counter xs))"
  unfolding counter_def by (rule foldl_update_distinct_keys) simp

lemma map_of_keys: "map_of d k \<noteq> None \<longleftrightarrow> k \<in> fst ` set d"
  by (simp add: map_of_eq_None_iff)

subsection \<open>What BM25 scores\<close>

lemma add_postings_term:
  "d \<in> fst ` set (or_else (map_of (add_postings p document) t) [])
    \<longleftrightarrow> d \<in> fst ` set (or_else (map_of p t) []) \<or> (d = fst document \<and> t \<in> set (snd document))"
proof -
  have "d \<in> fst ` set (or_else (map_of (foldl (\<lambda>p (t, frequency). AList.update t (or_else (map_of p t) [] @ [(fst document, frequency)]) p) p ts) t) [])
    \<longleftrightarrow> d \<in> fst ` set (or_else (map_of p t) []) \<or> (d = fst document \<and> t \<in> fst ` set ts)" for ts
  proof (induction ts arbitrary: p)
    case (Cons x ts)
    obtain u n where "x = (u, n)" by fastforce
    then show ?case by (auto simp: Cons.IH update_conv')
  qed simp
  from this [of "counter (snd document)"] show ?thesis by (simp add: add_postings_def counter_keys)
qed

lemma postings_term:
  "d \<in> fst ` set (or_else (map_of (foldl add_postings p documents) t) [])
    \<longleftrightarrow> d \<in> fst ` set (or_else (map_of p t) []) \<or> (\<exists>x\<in>set documents. d = fst x \<and> t \<in> set (snd x))"
  by (induction documents arbitrary: p) (auto simp: add_postings_term)

lemma score_postings_keys:
  "fst ` set (foldl (\<lambda>scores (document, frequency).
       if document \<in> excluded then scores else AList.update document (f scores document frequency) scores) scores ps)
   = fst ` set scores \<union> (fst ` set ps - excluded)"
proof (induction ps arbitrary: scores)
  case (Cons p ps)
  obtain d n where "p = (d, n)" by fastforce
  then show ?case by (auto simp: Cons.IH dom_update)
qed simp

lemma score_postings_distinct:
  "distinct (map fst scores) \<Longrightarrow> distinct (map fst (foldl (\<lambda>scores (document, frequency).
       if document \<in> excluded then scores else AList.update document (f scores document frequency) scores) scores ps))"
proof (induction ps arbitrary: scores)
  case (Cons p ps)
  obtain d n where "p = (d, n)" by fastforce
  then show ?case using Cons by (auto intro: distinct_update)
qed simp

text \<open>A document is scored when it shares a term with the query and is not excluded.\<close>

lemma scored_documents:
  assumes "bm25_new k1 b documents = Inr ix"
  shows "fst ` set (score_documents logarithm ix query excluded)
    = {d. d \<notin> excluded \<and> (\<exists>x\<in>set documents. d = fst x \<and> set (snd x) \<inter> set query \<noteq> {})}"
    and "distinct (map fst (score_documents logarithm ix query excluded))"
proof -
  have postings: "bx_postings ix = foldl add_postings [] documents"
    using assms by (auto simp: bm25_new_def split: if_splits)
  define body where "body = (\<lambda>(scores :: (nat \<times> rat) list) (t, query_frequency).
         let postings = or_else (map_of (bx_postings ix) t) [];
             idf = inverse_document_frequency logarithm (bx_count ix) (length postings)
         in foldl (\<lambda>scores (document, frequency).
              if document \<in> excluded then scores
              else AList.update document (fadd (or_else (map_of scores document) 0)
                     (term_score ix idf query_frequency document frequency)) scores) scores postings)"
  have score: "score_documents logarithm ix query excluded = foldl body [] (counter query)"
    by (simp only: score_documents_def body_def)
  have keys: "fst ` set (body scores x) = fst ` set scores \<union> (fst ` set (or_else (map_of (bx_postings ix) (fst x)) []) - excluded)" for scores x
    by (cases x) (simp add: body_def Let_def score_postings_keys)
  have dist: "distinct (map fst scores) \<Longrightarrow> distinct (map fst (body scores x))" for scores x
    by (cases x) (simp add: body_def Let_def score_postings_distinct)
  have all: "fst ` set (foldl body scores qs) = fst ` set scores
      \<union> (\<Union>t\<in>fst ` set qs. fst ` set (or_else (map_of (bx_postings ix) t) []) - excluded)" for scores qs
    by (induction qs arbitrary: scores) (simp_all add: keys Un_assoc)
  have "distinct (map fst (foldl body scores qs))" if "distinct (map fst scores)" for scores qs
    using that by (induction qs arbitrary: scores) (simp_all add: dist)
  then show "distinct (map fst (score_documents logarithm ix query excluded))"
    by (simp add: score)
  have "fst ` set (score_documents logarithm ix query excluded)
      = (\<Union>t\<in>set query. fst ` set (or_else (map_of (bx_postings ix) t) []) - excluded)"
    using all [of "[]" "counter query"] by (simp add: score counter_keys)
  also have "\<dots> = {d. d \<notin> excluded \<and> (\<exists>x\<in>set documents. d = fst x \<and> set (snd x) \<inter> set query \<noteq> {})}"
  proof (rule set_eqI)
    fix d
    have "d \<in> fst ` set (or_else (map_of (bx_postings ix) t) []) \<longleftrightarrow> (\<exists>x\<in>set documents. d = fst x \<and> t \<in> set (snd x))" for t
      unfolding postings using postings_term [of d "[]" documents t] by simp
    then show "d \<in> (\<Union>t\<in>set query. fst ` set (or_else (map_of (bx_postings ix) t) []) - excluded)
      \<longleftrightarrow> d \<in> {d. d \<notin> excluded \<and> (\<exists>x\<in>set documents. d = fst x \<and> set (snd x) \<inter> set query \<noteq> {})}"
      by blast
  qed
  finally show "fst ` set (score_documents logarithm ix query excluded)
    = {d. d \<notin> excluded \<and> (\<exists>x\<in>set documents. d = fst x \<and> set (snd x) \<inter> set query \<noteq> {})}" .
qed

section \<open>Fusion\<close>

lemma rrf_pass_keys:
  fixes scores :: "(nat \<times> rat) list" and best :: "(nat \<times> nat) list"
  shows "fst ` set (fst (rrf_pass weight xs (scores, best))) = fst ` set scores \<union> set xs"
    and "distinct (map fst scores) \<Longrightarrow> distinct (map fst (fst (rrf_pass weight xs (scores, best))))"
proof -
  define step where "step = (\<lambda>(scores :: (nat \<times> rat) list, best :: (nat \<times> nat) list) (rank, i).
         (AList.update i (fadd (or_else (map_of scores i) 0) (fdiv weight (of_nat (rrf_rank_constant + rank)))) scores,
          AList.update i (min (or_else (map_of best i) rank) rank) best))"
  have pass: "rrf_pass weight xs st = foldl step st (List.enumerate 1 xs)" for xs st by (simp only: rrf_pass_def step_def)
  have keys: "fst ` set (fst (foldl step st rs)) = fst ` set (fst st) \<union> snd ` set rs" for st rs
  proof (induction rs arbitrary: st)
    case (Cons r rs)
    have "fst ` set (fst (step st r)) = insert (snd r) (fst ` set (fst st))"
      by (cases st; cases r) (simp add: step_def dom_update)
    then show ?case by (simp add: Cons.IH)
  qed simp
  have "distinct (map fst (fst (foldl step st rs)))" if "distinct (map fst (fst st))" for st rs
    using that
  proof (induction rs arbitrary: st)
    case (Cons r rs)
    have "distinct (map fst (fst (step st r)))"
      using Cons.prems by (cases st; cases r) (simp add: step_def distinct_update)
    then show ?case using Cons.IH by simp
  qed simp
  then show "distinct (map fst scores) \<Longrightarrow> distinct (map fst (fst (rrf_pass weight xs (scores, best))))"
    by (simp add: pass)
  have "snd ` set (List.enumerate 1 xs) = set xs"
    by (metis list.set_map map_snd_enumerate)
  then show "fst ` set (fst (rrf_pass weight xs (scores, best))) = fst ` set scores \<union> set xs"
    by (simp add: pass keys)
qed

text \<open>With room for both lists, fusion keeps every proposal once.\<close>

lemma fused_union:
  assumes "weighted_rrf_scores dense lexical limit = Inr fused" and "card (set dense \<union> set lexical) \<le> limit"
  shows "distinct (map fst fused)" and "fst ` set fused = set dense \<union> set lexical"
proof -
  define st where "st = rrf_pass lexical_rrf_weight lexical (rrf_pass dense_rrf_weight dense ([], []))"
  obtain s b where p: "rrf_pass dense_rrf_weight dense ([], []) = (s, b)" by fastforce
  have s: "fst ` set s = set dense" "distinct (map fst s)"
    using rrf_pass_keys [where weight = dense_rrf_weight and xs = dense and scores = "[]" and best = "[]"] by (simp_all add: p)
  have st: "fst ` set (fst st) = set dense \<union> set lexical" "distinct (map fst (fst st))"
    using rrf_pass_keys [where weight = lexical_rrf_weight and xs = lexical and scores = s and best = b] s by (simp_all add: st_def p)
  have "length (map fst (fst st)) = card (set dense \<union> set lexical)"
    using st by (metis distinct_card list.set_map)
  then have short: "length (map fst (fst st)) \<le> limit" using assms(2) by simp
  define key where "key = (\<lambda>i. (- or_else (map_of (fst st) i) 0, or_else (map_of (snd st) i) 0, i))"
  have "fused = map (\<lambda>i. (i, or_else (map_of (fst st) i) 0)) (take limit (sort_key key (map fst (fst st))))"
    using assms(1) by (auto simp: weighted_rrf_scores_def st_def [symmetric] key_def split: if_splits prod.splits)
  moreover have "take limit (sort_key key (map fst (fst st))) = sort_key key (map fst (fst st))"
    using short by simp
  ultimately have "map fst fused = sort_key key (map fst (fst st))" by (simp add: comp_def)
  then have "distinct (map fst fused)" "set (map fst fused) = set (map fst (fst st))"
    using st(2) by (metis distinct_sort, metis set_sort)
  then show "distinct (map fst fused)" "fst ` set fused = set dense \<union> set lexical" using st(1) by simp_all
qed

lemma positions_distinct:
  assumes "distinct xs"
  shows "positions xs = map (\<lambda>(r, i). (i, r)) (List.enumerate 1 xs)"
proof -
  have "foldl (\<lambda>d (rank, i). AList.update i rank d) d rs = d @ map (\<lambda>(r, i). (i, r)) rs"
    if "distinct (map snd rs)" "fst ` set d \<inter> snd ` set rs = {}" for d :: "(nat \<times> nat) list" and rs :: "(nat \<times> nat) list"
    using that
  proof (induction rs arbitrary: d)
    case (Cons r rs)
    obtain rank i where r: "r = (rank, i)" by fastforce
    then have "AList.update i rank d = d @ [(i, rank)]" using Cons.prems(2) by (auto simp: update_new)
    then show ?case using Cons.IH [of "d @ [(i, rank)]"] Cons.prems by (auto simp: r)
  qed simp
  from this [of "List.enumerate 1 xs" "[]"] assms show ?thesis by (simp add: positions_def)
qed

lemma map_of_positions:
  assumes "distinct xs"
  shows "map_of (positions xs) t = Some r \<longleftrightarrow> 0 < r \<and> r \<le> length xs \<and> xs ! (r - 1) = t"
proof -
  have dist: "distinct (map fst (positions xs))"
    using assms by (simp add: positions_distinct comp_def case_prod_unfold)
  have "map_of (positions xs) t = Some r \<longleftrightarrow> (t, r) \<in> set (positions xs)" using dist by simp
  also have "\<dots> \<longleftrightarrow> (r, t) \<in> set (List.enumerate 1 xs)" using assms by (force simp: positions_distinct)
  also have "\<dots> \<longleftrightarrow> 0 < r \<and> r \<le> length xs \<and> xs ! (r - 1) = t"
    by (cases r) (auto simp: in_set_enumerate_eq less_Suc_eq_le Suc_le_eq)
  finally show ?thesis .
qed

lemma positions_keys: "distinct xs \<Longrightarrow> map fst (positions xs) = xs"
  by (simp add: positions_distinct comp_def case_prod_unfold)

text \<open>The first \<open>n\<close> of a list sorted by a key are smallest.\<close>

lemma taken_are_least:
  assumes "c \<in> set (take n (sort_key f xs))" and "d \<in> set xs" and "d \<notin> set (take n (sort_key f xs))"
  shows "f c \<le> f d"
proof -
  have "d \<in> set (drop n (sort_key f xs))"
    using assms(2,3) by (metis Un_iff append_take_drop_id set_append set_sort)
  moreover have "sorted (map f (take n (sort_key f xs)) @ map f (drop n (sort_key f xs)))"
    by (simp flip: map_append)
  ultimately show ?thesis using assms(1) by (auto simp: sorted_append)
qed


text \<open>The pick, spelled out.\<close>

lemma hybrid_pick:
  assumes "distinct dense" and "distinct lexical" and "rank_hybrid_candidates dense lexical bm25 semantic limit = Inr cs"
  defines "proposed \<equiv> set (take pool_size dense) \<union> set (take pool_size lexical)"
  shows "distinct (map rc_target cs) \<and> rc_target ` set cs \<subseteq> proposed \<and> length cs = min limit (card proposed)
    \<and> sorted_wrt (\<lambda>c d. rc_bm25 d \<le> rc_bm25 c) cs
    \<and> (\<forall>c\<in>set cs. (\<forall>t\<in>proposed - rc_target ` set cs. or_else (map_of bm25 t) 0 \<le> rc_bm25 c)
        \<and> rc_bm25 c = or_else (map_of bm25 (rc_target c)) 0
        \<and> map_of semantic (rc_target c) \<noteq> None \<and> rc_semantic c = max 0 (min 1 (the (map_of semantic (rc_target c))))
        \<and> (\<forall>r. rc_dense_rank c = Some r \<longleftrightarrow> 0 < r \<and> r \<le> min pool_size (length dense) \<and> dense ! (r - 1) = rc_target c)
        \<and> (\<forall>r. rc_lexical_rank c = Some r \<longleftrightarrow> 0 < r \<and> r \<le> min pool_size (length lexical) \<and> lexical ! (r - 1) = rc_target c))"
proof -
  define dp lp where "dp = take pool_size dense" and "lp = take pool_size lexical"
  have dist: "distinct dp" "distinct lp" using assms(1,2) by (simp_all add: dp_def lp_def)
  obtain fused where fused: "weighted_rrf_scores dp lp (pool_size + pool_size) = Inr fused"
    using assms(3) by (auto simp: rank_hybrid_candidates_def bind_ok_eq_Inr dp_def lp_def Let_def split: if_splits)
  have "card proposed \<le> length dp + length lp"
    unfolding proposed_def dp_def [symmetric] lp_def [symmetric]
    by (metis card_Un_le card_length add_mono le_trans)
  also have "\<dots> \<le> pool_size + pool_size" by (simp add: dp_def lp_def)
  finally have "card (set dp \<union> set lp) \<le> pool_size + pool_size" by (simp add: proposed_def dp_def lp_def)
  from fused_union [OF fused this] have ids: "distinct (map fst fused)" "fst ` set fused = proposed"
    by (simp_all add: proposed_def dp_def lp_def)
  define key where "key = (\<lambda>t. (- or_else (map_of bm25 t) 0, or_else (map_of (positions (map fst fused)) t) 0, t))"
  define final where "final = take limit (sort_key key (map fst fused))"
  define row where "row = (\<lambda>t. \<lparr>rc_target = t, rc_semantic = clamp_unit (or_else (map_of semantic t) 0),
     rc_bm25 = or_else (map_of bm25 t) 0, rc_fusion_rank = map_of (positions (map fst fused)) t,
     rc_fusion_score = or_else (map_of fused t) 0, rc_dense_rank = map_of (positions dp) t,
     rc_lexical_rank = map_of (positions lp) t\<rparr>)"
  have pos: "map fst (positions (map fst fused)) = map fst fused" by (rule positions_keys [OF ids(1)])
  have cs: "cs = map row final" and "filter (\<lambda>t. map_of semantic t = None) (map fst fused) = []"
    using assms(3) unfolding rank_hybrid_candidates_def dp_def [symmetric] lp_def [symmetric] Let_def fused bind_ok_simps pos
    by (auto simp: row_def final_def key_def split: if_splits)
  then have sem: "\<forall>t\<in>set (map fst fused). map_of semantic t \<noteq> None" by (metis (mono_tags) filter_empty_conv)
  have targets: "map rc_target cs = final" by (simp add: cs row_def comp_def)
  have set_final: "set final \<subseteq> proposed" using ids(2) by (auto simp: final_def dest!: in_set_takeD)
  have len: "length final = min limit (card proposed)"
    using ids by (metis final_def distinct_card length_map length_sort length_take list.set_map min.commute)
  have dfinal: "distinct final" using ids(1) by (simp add: final_def distinct_take)
  have order: "sorted_wrt (\<lambda>c d. rc_bm25 d \<le> rc_bm25 c) cs"
  proof -
    have "sorted (map key final)" by (simp add: final_def sorted_wrt_take flip: take_map)
    then have "sorted_wrt (\<lambda>t u. key t \<le> key u) final" by (simp add: sorted_wrt_map)
    then have "sorted_wrt (\<lambda>t u. or_else (map_of bm25 u) 0 \<le> or_else (map_of bm25 t) 0) final"
      by (rule sorted_wrt_mono_rel [rotated]) (auto simp: key_def)
    then show ?thesis by (simp add: cs sorted_wrt_map row_def)
  qed
  have best: "or_else (map_of bm25 t) 0 \<le> or_else (map_of bm25 u) 0"
    if "u \<in> set final" "t \<in> proposed - set final" for t u
  proof -
    have "t \<in> set (map fst fused)" "t \<notin> set final" using that(2) ids(2) by auto
    from taken_are_least [OF that(1) [unfolded final_def] this(1) this(2) [unfolded final_def]]
    show ?thesis by (auto simp: key_def)
  qed
  have found: "map_of semantic t \<noteq> None" if "t \<in> set final" for t
    using sem set_final that ids(2) by auto
  have ranks: "map_of (positions dp) t = Some r \<longleftrightarrow> 0 < r \<and> r \<le> min pool_size (length dense) \<and> dense ! (r - 1) = t"
    "map_of (positions lp) t = Some r \<longleftrightarrow> 0 < r \<and> r \<le> min pool_size (length lexical) \<and> lexical ! (r - 1) = t" for t r
    using map_of_positions [OF dist(1), of t r] map_of_positions [OF dist(2), of t r]
    by (auto simp: dp_def lp_def min.commute)
  have lcs: "length cs = length final" by (simp add: cs)
  have picked: "rc_target ` set cs = set final" by (metis list.set_map targets)
  have evidence: "(\<forall>t\<in>proposed - set final. or_else (map_of bm25 t) 0 \<le> rc_bm25 c)
        \<and> rc_bm25 c = or_else (map_of bm25 (rc_target c)) 0
        \<and> map_of semantic (rc_target c) \<noteq> None \<and> rc_semantic c = max 0 (min 1 (the (map_of semantic (rc_target c))))
        \<and> (\<forall>r. rc_dense_rank c = Some r \<longleftrightarrow> 0 < r \<and> r \<le> min pool_size (length dense) \<and> dense ! (r - 1) = rc_target c)
        \<and> (\<forall>r. rc_lexical_rank c = Some r \<longleftrightarrow> 0 < r \<and> r \<le> min pool_size (length lexical) \<and> lexical ! (r - 1) = rc_target c)"
    if "c \<in> set cs" for c
  proof -
    obtain t where c: "c = row t" and t: "t \<in> set final" using \<open>c \<in> set cs\<close> by (auto simp: cs)
    obtain x where x: "map_of semantic t = Some x" using found [OF t] by auto
    have "clamp_unit x = max 0 (min 1 x)" by (simp add: clamp_unit_def min_def max_def)
    then show ?thesis using best [OF t] ranks [of t] by (simp add: c row_def x)
  qed
  show ?thesis
    unfolding picked targets lcs using len dfinal order set_final evidence by blast
qed

text \<open>C22. BM25 alone decides: of everything the two retrievers propose in their first hundred, the hybrid pick delivers
  each target at most once, as many as asked for and available, highest BM25 score first, and leaves out nothing that
  scores higher than a target it delivers. The evidence is true: the ranks are the positions in the two pools, the score
  is the cosine similarity clipped to the unit interval.\<close>

theorem hybrid_pick_is_best_by_bm25:
  assumes "distinct dense" and "distinct lexical" and "rank_hybrid_candidates dense lexical bm25 semantic limit = Inr cs"
  defines "proposed \<equiv> set (take pool_size dense) \<union> set (take pool_size lexical)"
  shows "distinct (map rc_target cs) \<and> rc_target ` set cs \<subseteq> proposed \<and> length cs = min limit (card proposed)
    \<and> sorted_wrt (\<lambda>c d. rc_bm25 d \<le> rc_bm25 c) cs
    \<and> (\<forall>c\<in>set cs. (\<forall>t\<in>proposed - rc_target ` set cs. or_else (map_of bm25 t) 0 \<le> rc_bm25 c)
        \<and> rc_bm25 c = or_else (map_of bm25 (rc_target c)) 0
        \<and> map_of semantic (rc_target c) \<noteq> None \<and> rc_semantic c = max 0 (min 1 (the (map_of semantic (rc_target c))))
        \<and> (\<forall>r. rc_dense_rank c = Some r \<longleftrightarrow> 0 < r \<and> r \<le> min pool_size (length dense) \<and> dense ! (r - 1) = rc_target c)
        \<and> (\<forall>r. rc_lexical_rank c = Some r \<longleftrightarrow> 0 < r \<and> r \<le> min pool_size (length lexical) \<and> lexical ! (r - 1) = rc_target c))"
  unfolding proposed_def by (rule hybrid_pick [OF assms(1-3)])

text \<open>The pick succeeds once every proposal has a cosine score.\<close>

lemma weighted_rrf_shape:
  assumes "weighted_rrf_scores dense lexical limit = Inr fused"
  shows "distinct (map fst fused)" and "fst ` set fused \<subseteq> set dense \<union> set lexical"
proof -
  define st where "st = rrf_pass lexical_rrf_weight lexical (rrf_pass dense_rrf_weight dense ([], []))"
  obtain s b where p: "rrf_pass dense_rrf_weight dense ([], []) = (s, b)" by fastforce
  have s: "fst ` set s = set dense" "distinct (map fst s)"
    using rrf_pass_keys [where weight = dense_rrf_weight and xs = dense and scores = "[]" and best = "[]"] by (simp_all add: p)
  have st: "fst ` set (fst st) = set dense \<union> set lexical" "distinct (map fst (fst st))"
    using rrf_pass_keys [where weight = lexical_rrf_weight and xs = lexical and scores = s and best = b] s by (simp_all add: st_def p)
  define ids where "ids = take limit (sort_key (\<lambda>i. (- or_else (map_of (fst st) i) 0, or_else (map_of (snd st) i) 0, i)) (map fst (fst st)))"
  have "fused = map (\<lambda>i. (i, or_else (map_of (fst st) i) 0)) ids"
    using assms by (auto simp: weighted_rrf_scores_def st_def [symmetric] ids_def split: if_splits prod.splits)
  then have keys: "map fst fused = ids" by (simp add: comp_def)
  show "distinct (map fst fused)" using st(2) by (simp add: keys ids_def distinct_take)
  have "set (map fst fused) \<subseteq> set (map fst (fst st))" unfolding keys ids_def by (auto dest!: in_set_takeD)
  then show "fst ` set fused \<subseteq> set dense \<union> set lexical" using st(1) by simp
qed

lemma hybrid_shape:
  assumes "rank_hybrid_candidates dense lexical bm25 semantic limit = Inr cs"
  shows "distinct (map rc_target cs)" and "rc_target ` set cs \<subseteq> set dense \<union> set lexical" and "length cs \<le> limit"
proof -
  define dp lp where "dp = take pool_size dense" and "lp = take pool_size lexical"
  obtain fused where fused: "weighted_rrf_scores dp lp (pool_size + pool_size) = Inr fused"
    using assms by (auto simp: rank_hybrid_candidates_def bind_ok_eq_Inr dp_def lp_def Let_def split: if_splits)
  note shape = weighted_rrf_shape [OF fused]
  define key where "key = (\<lambda>t. (- or_else (map_of bm25 t) 0, or_else (map_of (positions (map fst fused)) t) 0, t))"
  define final where "final = take limit (sort_key key (map fst fused))"
  have "map rc_target cs = final"
    using assms unfolding rank_hybrid_candidates_def dp_def [symmetric] lp_def [symmetric] Let_def fused bind_ok_simps
      positions_keys [OF shape(1)]
    by (auto simp: final_def key_def comp_def split: if_splits)
  moreover have "distinct final" using shape(1) by (simp add: final_def distinct_take)
  moreover have "set final \<subseteq> set dense \<union> set lexical"
  proof -
    have "set final \<subseteq> fst ` set fused" by (force simp: final_def dest!: in_set_takeD)
    also have "\<dots> \<subseteq> set (take pool_size dense) \<union> set (take pool_size lexical)" using shape(2) by (simp only: dp_def lp_def)
    also have "\<dots> \<subseteq> set dense \<union> set lexical" by (intro Un_mono set_take_subset)
    finally show ?thesis .
  qed
  moreover have "length final \<le> limit" by (simp add: final_def)
  ultimately show "distinct (map rc_target cs)" "rc_target ` set cs \<subseteq> set dense \<union> set lexical" "length cs \<le> limit"
    by (metis, metis list.set_map, metis length_map)
qed

lemma rank_hybrid_total:
  assumes "limit \<noteq> 0"
    and "\<And>t. t \<in> set (take pool_size dense) \<union> set (take pool_size lexical) \<Longrightarrow> map_of semantic t \<noteq> None"
  shows "\<exists>cs. rank_hybrid_candidates dense lexical scores semantic limit = Inr cs"
proof -
  define dp lp where "dp = take pool_size dense" and "lp = take pool_size lexical"
  obtain fused where f: "weighted_rrf_scores dp lp (pool_size + pool_size) = Inr fused"
    by (simp add: weighted_rrf_scores_def pool_size_def case_prod_unfold Let_def)
  have "card (set dp \<union> set lp) \<le> length dp + length lp" by (metis card_Un_le card_length add_mono le_trans)
  also have "\<dots> \<le> pool_size + pool_size" by (simp add: dp_def lp_def)
  finally have "card (set dp \<union> set lp) \<le> pool_size + pool_size" .
  from fused_union [OF f this] have ids: "distinct (map fst fused)" "fst ` set fused = set dp \<union> set lp" .
  then have "filter (\<lambda>t. map_of semantic t = None) (map fst fused) = []"
    using assms(2) unfolding filter_empty_conv dp_def lp_def by auto
  then show ?thesis
    using assms(1) by (simp add: rank_hybrid_candidates_def dp_def [symmetric] lp_def [symmetric] f positions_keys [OF ids(1)] Let_def)
qed

section \<open>Feedback and the final order\<close>

lemma feedback_permutes: "mset (fst (rerank_with_editorial_feedback cs p weight)) = mset cs"
proof -
  have "image_mset snd (mset (List.enumerate 0 cs)) = mset cs" by (metis map_snd_enumerate mset_map)
  then show ?thesis by (simp add: rerank_with_editorial_feedback_def Let_def)
qed

lemma rerank_permutes: "mset (fst (deterministic_rerank tid sem cs features source mode boost minimum)) = mset cs"
  by (cases "mode = Graph_active") (simp_all add: rerank_active rerank_inactive)

lemma graph_ordered_mset:
  "mset (fst (graph_ordered ox cs)) = mset (filter (\<lambda>c. ox_min_percent ox \<le> score_percent (rc_semantic c)) cs)"
  by (simp add: graph_ordered_def Let_def rerank_permutes)

lemma feedback_ordered_mset: "mset (fst (feedback_ordered ox cs)) = mset cs"
  by (simp add: feedback_ordered_def feedback_permutes split: option.splits)

lemma with_evidence_simps [simp]:
  "oc_candidate (with_evidence ox m f (r, c)) = c" "oc_rank (with_evidence ox m f (r, c)) = r"
  by (simp_all add: with_evidence_def Let_def)

text \<open>What is delivered is a prefix of a reordering of the candidates above the floor, numbered from 1.\<close>

lemma order_candidates_cases:
  assumes "order_candidates ox remaining cs = Inr (items, reordered)"
  obtains ordered where "map oc_candidate items = take (nat remaining) ordered"
    and "mset ordered = mset (filter (\<lambda>c. ox_min_percent ox \<le> score_percent (rc_semantic c)) cs)"
    and "map oc_rank items = [1..<length items + 1]"
proof (cases "cs = [] \<or> remaining = 0")
  case True
  then have "items = []" using assms by (auto simp: order_candidates_def split: if_splits)
  then show thesis using True that [of "filter (\<lambda>c. ox_min_percent ox \<le> score_percent (rc_semantic c)) cs"] by auto
next
  case False
  obtain g m where g: "graph_ordered ox cs = (g, m)" by fastforce
  obtain ordered f where o': "feedback_ordered ox g = (ordered, f)" by fastforce
  have items: "items = map (with_evidence ox m f) (List.enumerate 1 (take (nat remaining) ordered))"
    using assms False by (auto simp: order_candidates_def g o' split: if_splits)
  have "oc_candidate \<circ> with_evidence ox m f = snd" "oc_rank \<circ> with_evidence ox m f = fst" by (auto simp: fun_eq_iff)
  then have "map oc_candidate items = take (nat remaining) ordered" and ranks: "map oc_rank items = [1..<length items + 1]"
    by (simp_all add: items)
  moreover have "mset ordered = mset (filter (\<lambda>c. ox_min_percent ox \<le> score_percent (rc_semantic c)) cs)"
    using feedback_ordered_mset [of ox g] graph_ordered_mset [of ox cs] by (simp add: g o')
  ultimately show thesis using that ranks by blast
qed

text \<open>The last stage only reorders and cuts: whatever the graph mode and the feedback history, what it delivers are as
  many of the given candidates as there is room for and as reach the site's minimum percentage, each as often as it was
  given, ranked 1, 2, 3, ... in the order delivered; without a boost in force and without feedback the given order is
  kept.\<close>

lemma ordering_only_reorders:
  assumes "order_candidates ox remaining cs = Inr (items, reordered)"
  defines "eligible \<equiv> filter (\<lambda>c. ox_min_percent ox \<le> score_percent (rc_semantic c)) cs"
  shows "mset (map oc_candidate items) \<subseteq># mset eligible
    \<and> length items = min (nat remaining) (length eligible)
    \<and> map oc_rank items = [1..<length items + 1]
    \<and> (ox_mode ox \<noteq> Graph_active \<and> ox_profile ox = None \<longrightarrow> map oc_candidate items = take (nat remaining) eligible)"
proof -
  obtain ordered where o': "map oc_candidate items = take (nat remaining) ordered" "mset ordered = mset eligible"
    "map oc_rank items = [1..<length items + 1]"
    using order_candidates_cases [OF assms(1)] unfolding eligible_def by metis
  have "mset (take (nat remaining) ordered) \<subseteq># mset eligible"
    using o'(2) by (metis append_take_drop_id mset_append mset_subset_eq_add_left)
  moreover have "length items = min (nat remaining) (length eligible)"
    using o'(1,2) by (metis length_map length_take min.commute size_mset)
  moreover have "map oc_candidate items = take (nat remaining) eligible" if "ox_mode ox \<noteq> Graph_active" "ox_profile ox = None"
  proof (cases "cs = [] \<or> remaining = 0")
    case True
    then have "items = []" using assms(1) by (auto simp: order_candidates_def split: if_splits)
    then show ?thesis using True by (auto simp: eligible_def)
  next
    case False
    have "fst (graph_ordered ox cs) = eligible"
      using that by (simp add: graph_ordered_def eligible_def Let_def rerank_inactive)
    moreover have "oc_candidate \<circ> with_evidence ox m f = snd" for m f by (auto simp: fun_eq_iff)
    ultimately show ?thesis
      using assms(1) False that by (auto simp: order_candidates_def feedback_ordered_def split: if_splits prod.splits)
  qed
  ultimately show ?thesis using o' by simp
qed

section \<open>Concrete rankings\<close>

lemma hybrid_pick_is_best_by_bm25_witness:
  "\<exists>cs. rank_hybrid_candidates [1, 2] [3, 2] [(2, 5), (3, 7)] [(1, 1 / 2), (2, 3 / 4), (3, 5 / 8)] 2 = Inr cs
     \<and> length cs = 2 \<and> (\<forall>c\<in>set cs. rc_target c \<noteq> 1 \<longrightarrow> 0 < rc_bm25 c)"
proof -
  have "map_of [(1, 1 / 2), (2, 3 / 4), (3, 5 / 8 :: rat)] t \<noteq> None"
    if "t \<in> set (take pool_size [1, 2]) \<union> set (take pool_size [3, 2])" for t :: nat
    unfolding map_of_keys using that by (auto simp: pool_size_def)
  from rank_hybrid_total [OF _ this, where limit = 2 and scores = "[(2, 5), (3, 7)]"] obtain cs where
    r: "rank_hybrid_candidates [1, 2] [3, 2] [(2, 5), (3, 7)] [(1, 1 / 2), (2, 3 / 4), (3, 5 / 8)] 2 = Inr cs"
    by auto
  have "length cs = 2 \<and> (\<forall>c\<in>set cs. rc_bm25 c = or_else (map_of [(2, 5), (3, 7)] (rc_target c)) 0 \<and> rc_target c \<in> {1, 2, 3})"
    using hybrid_pick_is_best_by_bm25 [OF _ _ r] by (auto simp: pool_size_def card_insert_if)
  with r show ?thesis by auto
qed

definition sample_ordering :: ordering_context where
  "sample_ordering = \<lparr>ox_method = Baseline_cosine, ox_min_percent = 0, ox_features = [],
     ox_snapshot = snapshot_row sample_config 1 0 7 None [] \<lparr>gc_features = [], gc_edges = []\<rparr>,
     ox_source = 1, ox_mode = Graph_off, ox_boost = 0, ox_min_relevance = 0, ox_profile = None, ox_weight = 0, ox_trust = []\<rparr>"

lemma ordering_only_reorders_witness:
  "\<exists>items reordered. order_candidates sample_ordering 1 [cosine_candidate 4 (3 / 4), cosine_candidate 5 (1 / 2)] = Inr (items, reordered)
     \<and> map oc_candidate items = [cosine_candidate 4 (3 / 4)]"
proof -
  obtain items reordered where r: "order_candidates sample_ordering 1 [cosine_candidate 4 (3 / 4), cosine_candidate 5 (1 / 2)]
      = Inr (items, reordered)"
    by (simp add: order_candidates_def case_prod_unfold Let_def)
  from ordering_only_reorders [OF r] r show ?thesis by (simp add: sample_ordering_def)
qed

end
