(* ===== verification/Cleaning.thy ===== *)
theory Cleaning
  imports UrlGuard "HOL-Library.List_Lexorder" "HOL-Library.Product_Lexorder" "HOL-Library.Char_ord"
begin

text \<open>
  The stored identity of an external URL: \<^verbatim>\<open>app/ml/external/cleaning.py\<close>, over the parts of \<open>urllib.parse\<close> it
  uses. A string is its UTF-8 bytes, so percent-escapes are bytes and \<open>quote_plus\<close> works byte by byte; decoding
  with \<open>errors="replace"\<close> puts U+FFFD for every maximal broken piece. White space and letter case are ASCII.
\<close>

section \<open>Decoding\<close>

definition byte_in :: "nat \<Rightarrow> nat \<Rightarrow> char \<Rightarrow> bool" where
  "byte_in lo hi c \<longleftrightarrow> lo \<le> of_char c \<and> of_char c \<le> hi"

text \<open>How many more bytes a lead byte announces, and what the next one may be.\<close>

definition utf8_lead :: "char \<Rightarrow> (nat \<times> nat \<times> nat) option" where
  "utf8_lead c =
     (let n = (of_char c :: nat)
      in if n < 128 then Some (0, 0, 0)
         else if 194 \<le> n \<and> n \<le> 223 then Some (1, 128, 191)
         else if n = 224 then Some (2, 160, 191)
         else if n = 237 then Some (2, 128, 159)
         else if 225 \<le> n \<and> n \<le> 239 then Some (2, 128, 191)
         else if n = 240 then Some (3, 144, 191)
         else if 241 \<le> n \<and> n \<le> 243 then Some (3, 128, 191)
         else if n = 244 then Some (3, 128, 143)
         else None)"

text \<open>The continuation bytes that are there, at most \<open>n\<close>, the first of them within its own bounds.\<close>

fun utf8_tail :: "nat \<Rightarrow> nat \<Rightarrow> nat \<Rightarrow> string \<Rightarrow> string" where
  "utf8_tail 0 lo hi s = []"
| "utf8_tail (Suc n) lo hi [] = []"
| "utf8_tail (Suc n) lo hi (c # s) = (if byte_in lo hi c then c # utf8_tail n 128 191 s else [])"

definition replacement :: string where
  "replacement = [CHR 0xEF, CHR 0xBF, CHR 0xBD]"

lemma length_utf8_tail: "length (utf8_tail n lo hi s) \<le> length s"
  by (induction n lo hi s rule: utf8_tail.induct) simp_all

function utf8_replace :: "string \<Rightarrow> string" where
  "utf8_replace [] = []"
| "utf8_replace (c # s) =
     (case utf8_lead c of
        None \<Rightarrow> replacement @ utf8_replace s
      | Some (n, lo, hi) \<Rightarrow>
          (let t = utf8_tail n lo hi s
           in (if length t = n then c # t else replacement) @ utf8_replace (drop (length t) s)))"
  by pat_completeness auto

termination by (relation "measure length") auto

definition hex_value :: "char \<Rightarrow> nat option" where
  "hex_value c =
     (let n = (of_char c :: nat)
      in if 48 \<le> n \<and> n \<le> 57 then Some (n - 48) else if 65 \<le> n \<and> n \<le> 70 then Some (n - 55)
         else if 97 \<le> n \<and> n \<le> 102 then Some (n - 87) else None)"

text \<open>\<open>unquote_to_bytes\<close>: a percent sign without two hex digits stays.\<close>

fun unquote_bytes :: "string \<Rightarrow> string" where
  "unquote_bytes (p # x # y # s) =
     (if p = CHR ''%'' then
        (case (hex_value x, hex_value y) of
           (Some m, Some n) \<Rightarrow> char_of (16 * m + n) # unquote_bytes s
         | _ \<Rightarrow> p # unquote_bytes (x # y # s))
      else p # unquote_bytes (x # y # s))"
| "unquote_bytes s = s"

definition ascii_char :: "char \<Rightarrow> bool" where
  "ascii_char c \<longleftrightarrow> (of_char c :: nat) < 128"

lemma unquote_shrinks:
  assumes "s \<noteq> []"
  shows "length (dropWhile (\<lambda>c. \<not> ascii_char c) (dropWhile ascii_char s)) < length s"
proof -
  have "length (dropWhile (\<lambda>c. \<not> ascii_char c) (dropWhile ascii_char s)) \<le> length (dropWhile ascii_char s)"
    by (rule length_dropWhile_le)
  moreover have "length (dropWhile ascii_char s) < length s" if "ascii_char (hd s)"
    using assms that length_dropWhile_le [of ascii_char "tl s"] by (cases s) auto
  moreover have "length (dropWhile (\<lambda>c. \<not> ascii_char c) (dropWhile ascii_char s)) < length s" if "\<not> ascii_char (hd s)"
    using assms that length_dropWhile_le [of "\<lambda>c. \<not> ascii_char c" "tl s"] by (cases s) auto
  ultimately show ?thesis by (cases "ascii_char (hd s)") auto
qed

text \<open>\<open>unquote\<close> decodes the runs of ASCII characters and leaves the rest as it is.\<close>

function unquote :: "string \<Rightarrow> string" where
  "unquote s =
     (if s = [] then []
      else (let run = takeWhile ascii_char s; rest = dropWhile ascii_char s;
                other = takeWhile (\<lambda>c. \<not> ascii_char c) rest
            in utf8_replace (unquote_bytes run) @ other @ unquote (dropWhile (\<lambda>c. \<not> ascii_char c) rest)))"
  by pat_completeness auto

termination by (relation "measure length") (auto intro: unquote_shrinks)

declare unquote.simps [simp del]

section \<open>Query strings\<close>

text \<open>\<open>s.split(c)\<close>.\<close>

fun split_on :: "char \<Rightarrow> string \<Rightarrow> string list" where
  "split_on x [] = [[]]"
| "split_on x (c # s) =
     (if c = x then [] # split_on x s
      else case split_on x s of [] \<Rightarrow> [[c]] | w # ws \<Rightarrow> (c # w) # ws)"

definition plus_to_blank :: "string \<Rightarrow> string" where
  "plus_to_blank s = map (\<lambda>c. if c = CHR ''+'' then CHR '' '' else c) s"

text \<open>\<open>parse_qsl(query, keep_blank_values=True)\<close>.\<close>

definition parse_qsl :: "string \<Rightarrow> (string \<times> string) list" where
  "parse_qsl query =
     map (\<lambda>field. let (name, _, item) = partition_at (CHR ''='') field
                  in (unquote (plus_to_blank name), unquote (plus_to_blank item)))
       (filter (\<lambda>field. field \<noteq> []) (split_on (CHR ''&'') query))"

definition unreserved :: "char \<Rightarrow> bool" where
  "unreserved c \<longleftrightarrow> is_alpha c \<or> is_digit_char c \<or> c \<in> {CHR ''_'', CHR ''.'', CHR ''-'', CHR ''~''}"

definition hex_upper :: "nat \<Rightarrow> char" where
  "hex_upper n = char_of (if n < 10 then 48 + n else 55 + n)"

definition quote_char :: "char \<Rightarrow> string" where
  "quote_char c =
     (if unreserved c then [c] else if c = CHR '' '' then ''+''
      else [CHR ''%'', hex_upper (of_char c div 16), hex_upper (of_char c mod 16)])"

definition quote_plus :: "string \<Rightarrow> string" where
  "quote_plus s = concat (map quote_char s)"

fun join_with :: "char \<Rightarrow> string list \<Rightarrow> string" where
  "join_with x [] = []"
| "join_with x [w] = w"
| "join_with x (w # ws) = w @ x # join_with x ws"

definition urlencode :: "(string \<times> string) list \<Rightarrow> string" where
  "urlencode pairs = join_with (CHR ''&'') (map (\<lambda>(name, item). quote_plus name @ CHR ''='' # quote_plus item) pairs)"

section \<open>The canonical form\<close>

definition tracking_keys :: "string list" where
  "tracking_keys = [''dclid'', ''fbclid'', ''gclid'', ''gbraid'', ''mc_cid'', ''mc_eid'', ''msclkid'', ''ref'', ''ref_src'', ''wbraid'']"

definition is_tracking :: "string \<Rightarrow> bool" where
  "is_tracking key \<longleftrightarrow> lower key \<in> set tracking_keys \<or> take 4 (lower key) = ''utm_''"

text \<open>The path and the query of \<open>urlsplit\<close>; the fragment is dropped.\<close>

definition url_tail :: "string \<Rightarrow> string \<times> string" where
  "url_tail url =
     (let url = filter (\<lambda>c. c \<notin> {CHR 0x09, CHR 0x0A, CHR 0x0D}) (dropWhile (\<lambda>c. (of_char c :: nat) \<le> 32) url);
          (before, found, after) = partition_at (CHR '':'') url;
          rest = (if found \<and> before \<noteq> [] \<and> is_alpha (hd before) \<and> list_all scheme_char before then after else url);
          rest = (if take 2 rest = ''//'' then dropWhile (\<lambda>c. c \<notin> {CHR ''/'', CHR ''?'', CHR ''#''}) (drop 2 rest) else rest);
          rest = takeWhile (\<lambda>c. c \<noteq> CHR ''#'') rest;
          (path, _, query) = partition_at (CHR ''?'') rest
      in (path, query))"

text \<open>\<open>parts.port\<close>: \<open>Inl ()\<close> where it raises \<open>ValueError\<close>.\<close>

definition url_port :: "string \<Rightarrow> unit + nat option" where
  "url_port url =
     (let netloc = snd (urlsplit url);
          hostinfo = (if CHR ''@'' \<in> set netloc then rev (takeWhile (\<lambda>c. c \<noteq> CHR ''@'') (rev netloc)) else netloc);
          (_, bracket, bracketed) = partition_at (CHR ''['') hostinfo;
          port = (if bracket then snd (snd (partition_at (CHR '':'') (snd (snd (partition_at (CHR '']'') bracketed)))))
                  else snd (snd (partition_at (CHR '':'') hostinfo)))
      in if port = [] then Inr None
         else if \<not> list_all is_digit_char port \<or> 65535 < digits_value port then Inl ()
         else Inr (Some (digits_value port)))"

datatype cleaning_error = Empty_or_blank | Not_http | Has_credentials | Invalid_hostname | Invalid_port

fun cleaning_message :: "cleaning_error \<Rightarrow> string" where
  "cleaning_message Empty_or_blank = ''external URL must not be empty or contain whitespace''"
| "cleaning_message Not_http = ''external URL must use HTTP(S) and include a hostname''"
| "cleaning_message Has_credentials = ''external URL must not contain credentials''"
| "cleaning_message Invalid_hostname = ''external URL contains an invalid hostname''"
| "cleaning_message Invalid_port = ''external URL contains an invalid port''"

definition canonical_host :: "idna \<Rightarrow> string \<Rightarrow> cleaning_error + string" where
  "canonical_host idna hostname =
     (case idna (lower (rstrip_dots hostname)) of
        None \<Rightarrow> Inl Invalid_hostname
      | Some host \<Rightarrow> Inr (if CHR '':'' \<in> set host then ''['' @ host @ '']'' else host))"

definition with_port :: "string \<Rightarrow> string \<Rightarrow> nat option \<Rightarrow> string" where
  "with_port scheme host port =
     (case port of None \<Rightarrow> host
      | Some p \<Rightarrow> if scheme = ''http'' \<and> p = 80 \<or> scheme = ''https'' \<and> p = 443 then host else host @ '':'' @ digits p)"

definition clean_query :: "string \<Rightarrow> (string \<times> string) list" where
  "clean_query query = sort (filter (\<lambda>(name, _). \<not> is_tracking name) (parse_qsl query))"

definition url_text :: "string \<Rightarrow> string \<Rightarrow> string \<Rightarrow> string \<Rightarrow> string" where
  "url_text scheme host path query =
     scheme @ ''://'' @ host @ (if hd path = CHR ''/'' then path else ''/'' @ path) @ (if query = [] then [] else ''?'' @ query)"

definition normalize_external_url :: "idna \<Rightarrow> string \<Rightarrow> cleaning_error + string" where
  "normalize_external_url idna given =
     (let candidate = strip given
      in if candidate = [] \<or> list_ex is_space candidate then Inl Empty_or_blank
         else
           (let scheme = url_scheme candidate; hostname = or_else (url_hostname candidate) []
            in if scheme \<notin> {''http'', ''https''} \<or> hostname = [] then Inl Not_http
               else if has_credentials candidate then Inl Has_credentials
               else bind_ok (canonical_host idna hostname) (\<lambda>host.
                 case url_port candidate of
                   Inl _ \<Rightarrow> Inl Invalid_port
                 | Inr port \<Rightarrow>
                     (let (path, query) = url_tail candidate
                      in Inr (url_text scheme (with_port scheme host port) (if path = [] then ''/'' else path)
                           (urlencode (clean_query query)))))))"

fun deduplicate_from :: "idna \<Rightarrow> string list \<Rightarrow> string list \<Rightarrow> cleaning_error + string list" where
  "deduplicate_from idna kept [] = Inr kept"
| "deduplicate_from idna kept (v # vs) =
     bind_ok (normalize_external_url idna v) (\<lambda>u.
       deduplicate_from idna (if u \<in> set kept then kept else kept @ [u]) vs)"

definition deduplicate_external_urls :: "idna \<Rightarrow> string list \<Rightarrow> cleaning_error + string list" where
  "deduplicate_external_urls idna values = deduplicate_from idna [] values"


section \<open>Valid text\<close>

lemma utf8_tail_prefix: "utf8_tail n lo hi s = take (length (utf8_tail n lo hi s)) s"
  by (induction n lo hi s rule: utf8_tail.induct) simp_all

lemma length_utf8_tail_le: "length (utf8_tail n lo hi s) \<le> n"
  by (induction n lo hi s rule: utf8_tail.induct) simp_all

lemma utf8_tail_append: "length (utf8_tail n lo hi s) = n \<Longrightarrow> utf8_tail n lo hi (s @ b) = utf8_tail n lo hi s"
  by (induction n lo hi s rule: utf8_tail.induct) (auto split: if_splits)

lemma utf8_tail_self: "utf8_tail n lo hi (utf8_tail n lo hi s) = utf8_tail n lo hi s"
  by (induction n lo hi s rule: utf8_tail.induct) simp_all

lemma utf8_step_valid:
  assumes "utf8_replace (c # s) = c # s"
  obtains n lo hi where "utf8_lead c = Some (n, lo, hi)" and "length (utf8_tail n lo hi s) = n"
    and "utf8_replace (drop n s) = drop n s" and "s = utf8_tail n lo hi s @ drop n s"
proof (cases "utf8_lead c")
  case None
  then have "c = CHR 0xEF" using assms by (simp add: replacement_def)
  then show thesis using None by (simp add: utf8_lead_def)
next
  case (Some p)
  obtain n lo hi where p: "p = (n, lo, hi)" by (cases p)
  define t where "t = utf8_tail n lo hi s"
  have s: "s = t @ drop (length t) s" unfolding t_def by (metis append_take_drop_id utf8_tail_prefix)
  show thesis
  proof (cases "length t = n")
    case True
    then have "t @ utf8_replace (drop (length t) s) = s" using assms by (simp add: Some p t_def [symmetric] Let_def)
    then have "t @ utf8_replace (drop (length t) s) = t @ drop (length t) s" using s by simp
    then have "utf8_replace (drop n s) = drop n s" using True by simp
    then show thesis using s True that [OF Some [unfolded p]] by (simp add: t_def)
  next
    case False
    then have r: "replacement @ utf8_replace (drop (length t) s) = c # s" using assms by (simp add: Some p t_def [symmetric] Let_def)
    then have "c = CHR 0xEF" "s = [CHR 0xBF, CHR 0xBD] @ utf8_replace (drop (length t) s)" by (simp_all add: replacement_def)
    moreover from this have "utf8_lead c = Some (2, 128, 191)" by (simp add: utf8_lead_def)
    ultimately have "n = 2" "lo = 128" "hi = 191" "t = utf8_tail 2 128 191 ([CHR 0xBF, CHR 0xBD] @ utf8_replace (drop (length t) s))"
      using Some p by (simp_all add: t_def)
    moreover have "utf8_tail 2 128 191 ([CHR 0xBF, CHR 0xBD] @ x) = [CHR 0xBF, CHR 0xBD]" for x
      by (simp add: numeral_2_eq_2 byte_in_def)
    ultimately have "length t = n" by simp
    with False show thesis by simp
  qed
qed

definition valid_text :: "string \<Rightarrow> bool" where
  "valid_text s \<longleftrightarrow> utf8_replace s = s"

lemma utf8_replace_append: "valid_text a \<Longrightarrow> utf8_replace (a @ b) = a @ utf8_replace b"
proof (induction a rule: length_induct)
  case (1 a)
  show ?case
  proof (cases a)
    case (Cons c s)
    obtain n lo hi where n: "utf8_lead c = Some (n, lo, hi)" "length (utf8_tail n lo hi s) = n"
      "utf8_replace (drop n s) = drop n s" "s = utf8_tail n lo hi s @ drop n s"
      using utf8_step_valid 1(2) unfolding valid_text_def Cons by metis
    have le: "n \<le> length s" using n(2) length_utf8_tail [of n lo hi s] by simp
    have "utf8_replace (drop n s @ b) = drop n s @ utf8_replace b"
      using 1(1) n(3) le by (simp add: Cons valid_text_def)
    then have "utf8_replace (a @ b) = (c # utf8_tail n lo hi s) @ drop n s @ utf8_replace b"
      using n(1,2) le by (simp add: Cons utf8_tail_append [OF n(2)] Let_def)
    then show ?thesis using n(4) Cons by (metis append_Cons append_assoc)
  qed simp
qed

lemma valid_text_append: "valid_text a \<Longrightarrow> valid_text b \<Longrightarrow> valid_text (a @ b)"
  using utf8_replace_append by (simp add: valid_text_def)

lemma valid_text_Nil [simp]: "valid_text []"
  by (simp add: valid_text_def)

lemma valid_replacement: "valid_text replacement"
  by (simp add: valid_text_def replacement_def utf8_lead_def numeral_2_eq_2 byte_in_def Let_def)

lemma valid_utf8_replace: "valid_text (utf8_replace s)"
proof (induction s rule: utf8_replace.induct)
  case (2 c s)
  show ?case
  proof (cases "utf8_lead c")
    case None
    then show ?thesis using 2(1) valid_text_append [OF valid_replacement] by simp
  next
    case (Some p)
    obtain n lo hi where p: "p = (n, lo, hi)" by (cases p)
    define t where "t = utf8_tail n lo hi s"
    have rest: "valid_text (utf8_replace (drop (length t) s))" using 2(2) Some p by (simp add: t_def)
    have "valid_text (c # t)" if "length t = n"
      using that by (simp add: valid_text_def Some p t_def utf8_tail_self Let_def)
    then have "valid_text (if length t = n then c # t else replacement)" using valid_replacement by simp
    from valid_text_append [OF this rest] show ?thesis
      by (cases "length t = n") (simp_all add: Some p t_def [symmetric] Let_def)
  qed
qed simp

lemma ascii_lead: "ascii_char c \<Longrightarrow> utf8_lead c = Some (0, 0, 0)"
  by (simp add: ascii_char_def utf8_lead_def)

lemma lead_ascii: "utf8_lead c = Some (n, lo, hi) \<Longrightarrow> n \<noteq> 0 \<Longrightarrow> 128 \<le> lo"
  by (auto simp: utf8_lead_def Let_def split: if_splits)

lemma lead_zero: "utf8_lead c = Some (0, lo, hi) \<Longrightarrow> ascii_char c"
  by (auto simp: utf8_lead_def ascii_char_def Let_def split: if_splits)

lemma valid_ascii_prefix: "list_all ascii_char a \<Longrightarrow> valid_text (a @ b) \<longleftrightarrow> valid_text b"
  by (induction a) (simp_all add: valid_text_def ascii_lead)

lemma utf8_tail_border:
  assumes "b = [] \<or> ascii_char (hd b)" and "128 \<le> lo"
  shows "utf8_tail n lo hi (a @ b) = utf8_tail n lo hi a"
  using assms(2)
proof (induction n lo hi a rule: utf8_tail.induct)
  case (2 n lo hi)
  then show ?case using assms(1) by (cases b) (auto simp: byte_in_def ascii_char_def)
qed simp_all

lemma valid_split:
  assumes border: "b = [] \<or> ascii_char (hd b)" and "valid_text (a @ b)"
  shows "valid_text a \<and> valid_text b"
  using assms(2)
proof (induction a rule: length_induct)
  case (1 a)
  show ?case
  proof (cases a)
    case Nil
    then show ?thesis using 1(2) by simp
  next
    case (Cons c s)
    obtain n lo hi where n: "utf8_lead c = Some (n, lo, hi)" "length (utf8_tail n lo hi (s @ b)) = n"
      "utf8_replace (drop n (s @ b)) = drop n (s @ b)" "s @ b = utf8_tail n lo hi (s @ b) @ drop n (s @ b)"
      using utf8_step_valid 1(2) unfolding valid_text_def Cons by (metis append_Cons)
    have tail: "utf8_tail n lo hi (s @ b) = utf8_tail n lo hi s"
      using utf8_tail_border [OF border lead_ascii [OF n(1)]] by (cases "n = 0") simp_all
    have len: "length (utf8_tail n lo hi s) = n" using n(2) tail by simp
    have le: "n \<le> length s" using len length_utf8_tail [of n lo hi s] by simp
    have "valid_text (drop n s @ b)" using n(3) le by (simp add: valid_text_def)
    moreover have "length (drop n s) < length a" by (simp add: Cons)
    ultimately have ih: "valid_text (drop n s) \<and> valid_text b" using 1(1) by blast
    have "utf8_replace (c # s) = (c # utf8_tail n lo hi s) @ utf8_replace (drop n s)" using n(1) len by (simp add: Let_def)
    also have "\<dots> = c # s" using ih len utf8_tail_prefix [of n lo hi s] by (simp add: valid_text_def)
    finally have "valid_text (c # s)" by (simp add: valid_text_def)
    then show ?thesis using ih Cons by simp
  qed
qed

lemma valid_unquote: "valid_text s \<Longrightarrow> valid_text (unquote s)"
proof (induction s rule: unquote.induct)
  case (1 s)
  show ?case
  proof (cases "s = []")
    case False
    define run rest where "run = takeWhile ascii_char s" and "rest = dropWhile ascii_char s"
    define other tail where "other = takeWhile (\<lambda>c. \<not> ascii_char c) rest" and "tail = dropWhile (\<lambda>c. \<not> ascii_char c) rest"
    have "valid_text (run @ rest)" using 1(2) by (simp add: run_def rest_def)
    then have "valid_text rest" using valid_ascii_prefix [of run rest] by (simp add: run_def list_all_iff) (meson set_takeWhileD)
    then have "valid_text (other @ tail)" by (simp add: other_def tail_def)
    moreover have "tail = [] \<or> ascii_char (hd tail)"
      using hd_dropWhile [of "\<lambda>c. \<not> ascii_char c" rest] by (auto simp: tail_def)
    ultimately have parts: "valid_text other" "valid_text tail" using valid_split by blast+
    have "valid_text (unquote tail)"
      using 1(1) False parts(2) by (simp add: tail_def rest_def)
    then have "valid_text (utf8_replace (unquote_bytes run) @ other @ unquote tail)"
      using valid_text_append valid_utf8_replace parts(1) by blast
    then show ?thesis using False by (subst unquote.simps) (simp add: Let_def run_def rest_def other_def tail_def)
  qed (simp add: unquote.simps)
qed


section \<open>Queries survive a round trip\<close>

lemma of_hex_upper: "n < 16 \<Longrightarrow> (of_char (hex_upper n) :: nat) = (if n < 10 then 48 + n else 55 + n)"
  by (simp add: hex_upper_def take_bit_eq_mod)

lemma hex_value_upper: "n < 16 \<Longrightarrow> hex_value (hex_upper n) = Some n"
  by (simp add: hex_value_def of_hex_upper)

lemma char_code: "c = d \<longleftrightarrow> (of_char c :: nat) = of_char d"
  by simp

lemma hex_upper_plain:
  assumes "n < 16"
  shows "ascii_char (hex_upper n)" and "hex_upper n \<noteq> CHR ''&''" and "hex_upper n \<noteq> CHR ''=''" and "hex_upper n \<noteq> CHR ''+''"
  unfolding char_code ascii_char_def of_hex_upper [OF assms] using assms by simp_all

lemma nibbles: "(of_char c :: nat) div 16 < 16" "(of_char c :: nat) mod 16 < 16"
proof -
  have "(of_char c :: nat) < 256" by (rule nat_of_char_less_256)
  then show "(of_char c :: nat) div 16 < 16" by (simp only: div_less_iff_less_mult)
qed simp

lemma unquote_plain: "p \<noteq> CHR ''%'' \<Longrightarrow> unquote_bytes (p # s) = p # unquote_bytes s"
  by (cases s; cases "tl s") auto

lemma unquote_hex:
  "unquote_bytes (CHR ''%'' # hex_upper (of_char c div 16) # hex_upper (of_char c mod 16) # s) = c # unquote_bytes s"
  by (simp add: hex_value_upper nibbles)

lemma quote_char_plain:
  "d \<in> set (quote_char c) \<Longrightarrow> ascii_char d \<and> d \<noteq> CHR ''&'' \<and> d \<noteq> CHR ''=''"
  by (auto simp: quote_char_def hex_upper_plain nibbles split: if_splits)
    (auto simp: unreserved_def is_alpha_def is_digit_char_def ascii_char_def Let_def)

lemma unquote_quoted: "unquote_bytes (plus_to_blank (quote_plus s)) = s"
proof (induction s)
  case (Cons c s)
  have "plus_to_blank (quote_plus (c # s)) = plus_to_blank (quote_char c) @ plus_to_blank (quote_plus s)"
    by (simp add: plus_to_blank_def quote_plus_def)
  moreover have "unquote_bytes (plus_to_blank (quote_char c) @ x) = c # unquote_bytes x" for x
  proof (cases "unreserved c")
    case True
    then have "c \<noteq> CHR ''%''" "c \<noteq> CHR ''+''" by (auto simp: unreserved_def is_alpha_def is_digit_char_def)
    then show ?thesis using True by (simp add: quote_char_def plus_to_blank_def unquote_plain)
  next
    case False
    then show ?thesis
      using unquote_plain [of "CHR '' ''" x] unquote_hex [of c x]
      by (auto simp: quote_char_def plus_to_blank_def hex_upper_plain nibbles)
  qed
  ultimately show ?case using Cons.IH by simp
qed (simp add: quote_plus_def plus_to_blank_def)

lemma quote_plus_plain: "d \<in> set (quote_plus s) \<Longrightarrow> ascii_char d \<and> d \<noteq> CHR ''&'' \<and> d \<noteq> CHR ''=''"
  using quote_char_plain by (auto simp: quote_plus_def)

lemma unquote_ascii:
  assumes "list_all ascii_char s"
  shows "unquote s = utf8_replace (unquote_bytes s)"
proof (cases "s = []")
  case False
  have run: "takeWhile ascii_char s = s" "dropWhile ascii_char s = []" using assms unfolding list_all_iff by simp_all
  show ?thesis using False unfolding unquote.simps [of s] run by (simp add: unquote.simps [of "[]"])
qed (simp add: unquote.simps)

lemma unquote_quote:
  assumes "valid_text s"
  shows "unquote (plus_to_blank (quote_plus s)) = s"
proof -
  have "list_all ascii_char (plus_to_blank (quote_plus s))"
    using quote_plus_plain by (auto simp: list_all_iff plus_to_blank_def ascii_char_def)
  then show ?thesis using assms by (simp add: unquote_ascii unquote_quoted valid_text_def)
qed

lemma split_on_plain: "x \<notin> set w \<Longrightarrow> split_on x w = [w]"
  by (induction w) auto

lemma split_on_append: "x \<notin> set w \<Longrightarrow> split_on x (w @ x # s) = w # split_on x s"
  by (induction w) auto

lemma split_join: "ws \<noteq> [] \<Longrightarrow> list_all (\<lambda>w. x \<notin> set w) ws \<Longrightarrow> split_on x (join_with x ws) = ws"
  by (induction x ws rule: join_with.induct) (simp_all add: split_on_plain split_on_append)

text \<open>What \<open>urlencode\<close> writes, \<open>parse_qsl\<close> reads back.\<close>

lemma parse_urlencode:
  assumes "list_all (\<lambda>(name, item). valid_text name \<and> valid_text item) pairs"
  shows "parse_qsl (urlencode pairs) = pairs"
proof (cases "pairs = []")
  case False
  define fields where "fields = map (\<lambda>(name, item). quote_plus name @ CHR ''='' # quote_plus item) pairs"
  have "list_all (\<lambda>w. CHR ''&'' \<notin> set w) fields"
    using quote_plus_plain by (fastforce simp: fields_def list_all_iff)
  then have split: "split_on (CHR ''&'') (urlencode pairs) = fields"
    using split_join [of fields] False by (simp add: urlencode_def fields_def)
  have "filter (\<lambda>field. field \<noteq> []) fields = fields" by (auto simp: fields_def filter_id_conv)
  moreover have "partition_at (CHR ''='') (quote_plus name @ CHR ''='' # quote_plus item) = (quote_plus name, True, quote_plus item)" for name item
  proof -
    have "\<forall>d\<in>set (quote_plus name). d \<noteq> CHR ''=''" using quote_plus_plain by blast
    then show ?thesis by (simp add: partition_at_def takeWhile_append dropWhile_append)
  qed
  ultimately show ?thesis
    using assms unfolding parse_qsl_def split
    by (auto simp: fields_def comp_def case_prod_unfold list_all_iff unquote_quote intro!: map_idI)
qed (simp add: parse_qsl_def urlencode_def)


section \<open>The identity of a query\<close>

lemma ascii_not_tail: "ascii_char x \<Longrightarrow> 128 \<le> lo \<Longrightarrow> x \<notin> set (utf8_tail n lo hi s)"
  by (induction n lo hi s rule: utf8_tail.induct) (auto simp: byte_in_def ascii_char_def)

lemma valid_plus_to_blank: "valid_text s \<Longrightarrow> valid_text (plus_to_blank s)"
proof (induction s rule: length_induct)
  case (1 s)
  show ?case
  proof (cases s)
    case (Cons c r)
    obtain n lo hi where n: "utf8_lead c = Some (n, lo, hi)" "length (utf8_tail n lo hi r) = n"
      "utf8_replace (drop n r) = drop n r" "r = utf8_tail n lo hi r @ drop n r"
      using utf8_step_valid 1(2) unfolding valid_text_def Cons by metis
    have rest: "valid_text (plus_to_blank (drop n r))" using 1(1) n(3) by (simp add: Cons valid_text_def)
    show ?thesis
    proof (cases "n = 0")
      case True
      then have "ascii_char c" using lead_zero n(1) by simp
      then have "list_all ascii_char [if c = CHR ''+'' then CHR '' '' else c]" by (simp add: ascii_char_def)
      then have "valid_text ([if c = CHR ''+'' then CHR '' '' else c] @ plus_to_blank r) \<longleftrightarrow> valid_text (plus_to_blank r)"
        by (rule valid_ascii_prefix)
      then have "valid_text ([if c = CHR ''+'' then CHR '' '' else c] @ plus_to_blank r)"
        using rest True by (simp only: drop_0)
      then show ?thesis by (simp add: Cons plus_to_blank_def)
    next
      case False
      have plus: "ascii_char (CHR ''+'')" by (simp add: ascii_char_def)
      have "c \<noteq> CHR ''+''" using ascii_lead [OF plus] n(1) False by auto
      moreover have "plus_to_blank (utf8_tail n lo hi r) = utf8_tail n lo hi r"
        using ascii_not_tail [OF plus lead_ascii [OF n(1) False]] unfolding plus_to_blank_def by (intro map_idI) auto
      moreover have "plus_to_blank r = plus_to_blank (utf8_tail n lo hi r) @ plus_to_blank (drop n r)"
        unfolding plus_to_blank_def map_append [symmetric] by (rule arg_cong [OF n(4)])
      ultimately have "plus_to_blank s = (c # utf8_tail n lo hi r) @ plus_to_blank (drop n r)"
        by (simp add: Cons plus_to_blank_def)
      moreover have "valid_text (c # utf8_tail n lo hi r)"
        using n(1,2) by (simp add: valid_text_def utf8_tail_self Let_def)
      ultimately show ?thesis using valid_text_append [OF _ rest, of "c # utf8_tail n lo hi r"] by simp
    qed
  qed (simp add: plus_to_blank_def)
qed

lemma valid_cut:
  assumes "valid_text s" and "ascii_char x"
  shows "valid_text (takeWhile (\<lambda>c. c \<noteq> x) s) \<and> valid_text (tl (dropWhile (\<lambda>c. c \<noteq> x) s))"
proof -
  have "dropWhile (\<lambda>c. c \<noteq> x) s = [] \<or> ascii_char (hd (dropWhile (\<lambda>c. c \<noteq> x) s))"
    using hd_dropWhile [of "\<lambda>c. c \<noteq> x" s] assms(2) by auto
  moreover have "valid_text (takeWhile (\<lambda>c. c \<noteq> x) s @ dropWhile (\<lambda>c. c \<noteq> x) s)" using assms(1) by simp
  ultimately have parts: "valid_text (takeWhile (\<lambda>c. c \<noteq> x) s)" "valid_text (dropWhile (\<lambda>c. c \<noteq> x) s)"
    using valid_split by blast+
  have "valid_text (tl (dropWhile (\<lambda>c. c \<noteq> x) s))"
  proof (cases "dropWhile (\<lambda>c. c \<noteq> x) s")
    case (Cons d r)
    then have "d = x" using hd_dropWhile [of "\<lambda>c. c \<noteq> x" s] by auto
    then show ?thesis using parts(2) Cons assms(2) valid_ascii_prefix [of "[x]" r] by simp
  next
    case Nil
    then show ?thesis by (simp only: list.sel valid_text_Nil)
  qed
  with parts(1) show ?thesis by simp
qed

lemma split_on_cut:
  "split_on x s = takeWhile (\<lambda>c. c \<noteq> x) s # (if x \<in> set s then split_on x (tl (dropWhile (\<lambda>c. c \<noteq> x) s)) else [])"
  by (induction s) auto

lemma valid_split_on: "valid_text s \<Longrightarrow> ascii_char x \<Longrightarrow> list_all valid_text (split_on x s)"
proof (induction s rule: length_induct)
  case (1 s)
  note cut = valid_cut [OF 1(2,3)]
  have "list_all valid_text (split_on x (tl (dropWhile (\<lambda>c. c \<noteq> x) s)))" if "x \<in> set s"
  proof -
    have "length (tl (dropWhile (\<lambda>c. c \<noteq> x) s)) < length s"
      using that length_dropWhile_le [of "\<lambda>c. c \<noteq> x" s] by (cases s) auto
    then show ?thesis using 1(1,3) cut by blast
  qed
  then show ?case using cut by (subst split_on_cut) simp
qed

lemma valid_parse:
  assumes "valid_text query"
  shows "list_all (\<lambda>(name, item). valid_text name \<and> valid_text item) (parse_qsl query)"
proof -
  have fields: "list_all valid_text (split_on (CHR ''&'') query)" using valid_split_on [OF assms] by (simp add: ascii_char_def)
  have one: "valid_text (unquote (plus_to_blank (takeWhile (\<lambda>c. c \<noteq> CHR ''='') w)))
      \<and> valid_text (unquote (plus_to_blank (tl (dropWhile (\<lambda>c. c \<noteq> CHR ''='') w))))" if "w \<in> set (split_on (CHR ''&'') query)" for w
  proof -
    have "valid_text w" using fields that by (auto simp: list_all_iff)
    moreover have "ascii_char (CHR ''='')" by (simp add: ascii_char_def)
    ultimately show ?thesis using valid_cut valid_plus_to_blank valid_unquote by blast
  qed
  show ?thesis
    unfolding list_all_iff
  proof
    fix p
    assume "p \<in> set (parse_qsl query)"
    then obtain w where "w \<in> set (split_on (CHR ''&'') query)"
      "p = (unquote (plus_to_blank (takeWhile (\<lambda>c. c \<noteq> CHR ''='') w)), unquote (plus_to_blank (tl (dropWhile (\<lambda>c. c \<noteq> CHR ''='') w))))"
      by (auto simp: parse_qsl_def partition_at_def)
    then show "case p of (name, item) \<Rightarrow> valid_text name \<and> valid_text item" using one by simp
  qed
qed

lemma clean_query_valid:
  "valid_text query \<Longrightarrow> list_all (\<lambda>(name, item). valid_text name \<and> valid_text item) (clean_query query)"
  using valid_parse [of query] by (auto simp: clean_query_def list_all_iff)

text \<open>The parameters that identify a resource.\<close>

definition kept_parameters :: "string \<Rightarrow> (string \<times> string) list" where
  "kept_parameters query = filter (\<lambda>(name, _). \<not> is_tracking name) (parse_qsl query)"

text \<open>C21. The canonical query of a stored URL is a faithful name for what it asks: reading it back gives exactly the
  sorted parameters it was made from, normalising it again changes nothing, and two queries get the same canonical
  text exactly when they hold the same parameters, however ordered, once tracking parameters are set aside. This
  holds for every byte a parameter may contain; the text only has to be well-formed UTF-8, as any Python string is.\<close>

theorem canonical_query_is_identity:
  assumes "valid_text q" and "valid_text r"
  shows "parse_qsl (urlencode (clean_query q)) = clean_query q
    \<and> clean_query (urlencode (clean_query q)) = clean_query q
    \<and> (urlencode (clean_query q) = urlencode (clean_query r) \<longleftrightarrow> mset (kept_parameters q) = mset (kept_parameters r))"
proof -
  have again: "parse_qsl (urlencode (clean_query q)) = clean_query q" if "valid_text q" for q
    by (rule parse_urlencode [OF clean_query_valid [OF that]])
  have clean: "clean_query q = sort (kept_parameters q)" for q by (simp add: clean_query_def kept_parameters_def)
  have "filter (\<lambda>(name, _). \<not> is_tracking name) (clean_query q) = clean_query q"
    by (auto simp: filter_id_conv clean_query_def)
  then have "clean_query (urlencode (clean_query q)) = clean_query q"
    unfolding clean_query_def [of "urlencode (clean_query q)"] again [OF assms(1)] by (simp add: clean sorted_sort_id [OF sorted_sort])
  moreover have "urlencode (clean_query q) = urlencode (clean_query r) \<longleftrightarrow> clean_query q = clean_query r"
    using again [OF assms(1)] again [OF assms(2)] by metis
  moreover have "clean_query q = clean_query r \<longleftrightarrow> mset (kept_parameters q) = mset (kept_parameters r)"
    unfolding clean
  proof
    assume "sort (kept_parameters q) = sort (kept_parameters r)"
    then show "mset (kept_parameters q) = mset (kept_parameters r)" by (metis mset_sort)
  next
    assume "mset (kept_parameters q) = mset (kept_parameters r)"
    then show "sort (kept_parameters q) = sort (kept_parameters r)" by (intro properties_for_sort) simp_all
  qed
  ultimately show ?thesis using again [OF assms(1)] by blast
qed

lemma canonical_query_is_identity_witness:
  "urlencode (clean_query ''b=2&utm_id=9&a=1'') = urlencode (clean_query ''a=1&b=2'')"
proof -
  have valid: "valid_text ''b=2&utm_id=9&a=1''" "valid_text ''a=1&b=2''"
    using valid_ascii_prefix [of "''b=2&utm_id=9&a=1''" "[]"] valid_ascii_prefix [of "''a=1&b=2''" "[]"]
    by (simp_all add: ascii_char_def)
  have "mset (kept_parameters ''b=2&utm_id=9&a=1'') = mset (kept_parameters ''a=1&b=2'')"
    by code_simp
  then show ?thesis using canonical_query_is_identity [OF valid] by blast
qed

end
