(* ===== verification/ExternalSearch.thy ===== *)
theory ExternalSearch
  imports Ranking Cleaning
begin

text \<open>
  Filling open slots from a web search: the Tavily client of \<^verbatim>\<open>app/ml/external/tavily.py\<close> over the types of
  \<^verbatim>\<open>app/ml/external/base.py\<close>, and \<^verbatim>\<open>app/services/external_suggestion_service.py\<close>, which screens, scores and
  stores what a provider returns. The HTTP exchange, the embedding model and Python's \<open>float(text)\<close> are parameters.
\<close>

section \<open>The search contract\<close>

record search_result =
  sx_title :: string
  sx_url :: string
  sx_snippet :: string
  sx_score :: "rat option"
  sx_id :: "string option"

record search_response =
  sr_provider :: string
  sr_query :: string
  sr_results :: "search_result list"
  sr_request :: "string option"
  sr_time :: "rat option"
  sr_credits :: "nat option"
  sr_attempts :: nat

datatype search_error = Not_configured | Rate_limited | Transient string | Quota_exceeded nat | Bad_response string
  | Refused_request nat string

datatype search_outcome = Answered search_response | Search_raised search_error | Bad_call string

section \<open>Tavily\<close>

definition tavily_max_query_chars :: nat where "tavily_max_query_chars = 1500"

definition optional_string :: "json option \<Rightarrow> string option" where
  "optional_string v = (case v of Some (JStr s) \<Rightarrow> if strip s = [] then None else Some (strip s) | _ \<Rightarrow> None)"

text \<open>Numbers are finite here: a JSON number read as infinite or not a number has no value in the model.\<close>

definition provider_score :: "json option \<Rightarrow> rat option" where
  "provider_score v =
     (case v of Some (JInt i) \<Rightarrow> Some (clamp_unit (of_int i)) | Some (JFloat x) \<Rightarrow> Some (clamp_unit x) | _ \<Rightarrow> None)"

definition response_time :: "(string \<Rightarrow> rat option) \<Rightarrow> json option \<Rightarrow> rat option" where
  "response_time read_float v =
     (case (case v of Some (JInt i) \<Rightarrow> Some (double_of (of_int i)) | Some (JFloat x) \<Rightarrow> Some x
              | Some (JStr s) \<Rightarrow> read_float s | _ \<Rightarrow> None) of
        None \<Rightarrow> None | Some x \<Rightarrow> if x < 0 then None else Some x)"

definition credits_used :: "json option \<Rightarrow> nat option" where
  "credits_used v = (case jget v ''credits'' of Some (JInt i) \<Rightarrow> if i < 0 then None else Some (nat i) | _ \<Rightarrow> None)"

definition excluded_domains :: "string list \<Rightarrow> string list" where
  "excluded_domains domains =
     take 150 (sort (remdups (map (\<lambda>d. lower (strip d)) (filter (\<lambda>d. strip d \<noteq> []) domains))))"

fun parse_results :: "nat \<Rightarrow> json list \<Rightarrow> search_result list \<Rightarrow> search_result list" where
  "parse_results limit [] found = found"
| "parse_results limit (item # items) found =
     (if limit \<le> length found then found
      else case (case item of JObj _ \<Rightarrow> optional_string (jget (Some item) ''url'') | _ \<Rightarrow> None) of
        None \<Rightarrow> parse_results limit items found
      | Some url \<Rightarrow> parse_results limit items (found @
          [\<lparr>sx_title = or_else (optional_string (jget (Some item) ''title'')) url, sx_url = url,
            sx_snippet = or_else (optional_string (jget (Some item) ''content'')) [],
            sx_score = provider_score (jget (Some item) ''score''), sx_id = optional_string (jget (Some item) ''id'')\<rparr>]))"

text \<open>\<open>body\<close> is the parsed JSON, \<open>None\<close> where it does not parse.\<close>

definition parse_response :: "(string \<Rightarrow> rat option) \<Rightarrow> json option \<Rightarrow> string \<Rightarrow> nat \<Rightarrow> nat \<Rightarrow> search_outcome" where
  "parse_response read_float body query limit attempt =
     (case body of
        None \<Rightarrow> Search_raised (Bad_response ''Tavily did not return JSON'')
      | Some (JObj members) \<Rightarrow>
          (case or_else (map_of members ''results'') (JArr []) of
             JArr items \<Rightarrow> Answered \<lparr>sr_provider = ''tavily'', sr_query = query, sr_results = parse_results limit items [],
               sr_request = optional_string (map_of members ''request_id''),
               sr_time = response_time read_float (map_of members ''response_time''),
               sr_credits = credits_used (map_of members ''usage''), sr_attempts = attempt\<rparr>
           | _ \<Rightarrow> Search_raised (Bad_response ''Tavily response 'results' is not a list''))
      | _ \<Rightarrow> Search_raised (Bad_response ''Tavily response is not a JSON object''))"

datatype http_exchange = Http_answer nat "json option" string | Transport_failed string

definition raise_for_status :: "nat \<Rightarrow> string \<Rightarrow> search_error option" where
  "raise_for_status status body =
     (if status = 429 then Some Rate_limited
      else if status \<in> {432, 433} then Some (Quota_exceeded status)
      else if 500 \<le> status then Some (Transient (''Tavily returned temporary error '' @ digits status))
      else if 400 \<le> status then Some (Refused_request status (str_take 500 body))
      else None)"

text \<open>The attempts left are the retries left plus one; \<open>http\<close> is the exchange of the n-th attempt.\<close>

fun tavily_attempts ::
  "(string \<Rightarrow> rat option) \<Rightarrow> (nat \<Rightarrow> http_exchange) \<Rightarrow> string \<Rightarrow> nat \<Rightarrow> nat \<Rightarrow> nat \<Rightarrow> search_outcome" where
  "tavily_attempts read_float http query limit attempt retries =
     (let next_attempt = (\<lambda>e. case retries of 0 \<Rightarrow> Search_raised e
            | Suc r \<Rightarrow> tavily_attempts read_float http query limit (attempt + 1) r)
      in case http attempt of
           Transport_failed m \<Rightarrow> next_attempt (Transient (''Tavily transport failed: '' @ m))
         | Http_answer status body raw \<Rightarrow>
             (case raise_for_status status raw of
                None \<Rightarrow> parse_response read_float body query limit attempt
              | Some Rate_limited \<Rightarrow> next_attempt Rate_limited
              | Some (Transient m) \<Rightarrow> next_attempt (Transient m)
              | Some e \<Rightarrow> Search_raised e))"

declare tavily_attempts.simps [simp del]

record tavily_config =
  tv_api_key :: string
  tv_max_results :: nat
  tv_retries :: nat

text \<open>\<open>http\<close> gets the query, the limit and the excluded domains it sends.\<close>

definition tavily_search ::
  "tavily_config \<Rightarrow> (string \<Rightarrow> rat option) \<Rightarrow> (string \<Rightarrow> nat \<Rightarrow> string list \<Rightarrow> nat \<Rightarrow> http_exchange) \<Rightarrow> string \<Rightarrow> nat \<Rightarrow> string list
     \<Rightarrow> search_outcome" where
  "tavily_search tv read_float http query max_results domains =
     (let query = str_take tavily_max_query_chars (strip query); limit = min max_results (tv_max_results tv)
      in if query = [] then Bad_call ''query must not be empty''
         else if \<not> (1 \<le> max_results \<and> max_results \<le> 20) then Bad_call ''max_results must be between 1 and 20''
         else if strip (tv_api_key tv) = [] then Search_raised Not_configured
         else tavily_attempts read_float (http query limit (excluded_domains domains)) query limit 1 (tv_retries tv))"

section \<open>Why a target was judged as it was\<close>

text \<open>The wording of the reasons, for a web-search target or for a pool target.\<close>

fun reason_text :: "bool \<Rightarrow> link_policy \<Rightarrow> reason \<Rightarrow> string" where
  "reason_text web p Invalid_domain = ''target URL has an invalid domain''"
| "reason_text web p Links_disabled = ''external links are disabled for this site''"
| "reason_text web p Https_required = (if web then ''HTTPS is required for web-search targets'' else ''HTTPS is required'')"
| "reason_text web p Source_inactive = ''content-pool source is not approved and active''"
| "reason_text web p Blocklisted = ''domain is blocklisted''"
| "reason_text web p Competitor = ''domain is marked as a competitor''"
| "reason_text web p Owned_domain = ''domain belongs to a managed site''"
| "reason_text web p Age_unknown = ''domain age is unknown''"
| "reason_text web p Age_too_low = ''domain age is below '' @ json_int (lp_min_age p) @ '' days''"
| "reason_text web p Trust_too_low = ''trust score is below '' @ json_int (lp_min_trust p)"

definition flag :: "string \<Rightarrow> bool option \<Rightarrow> string \<times> json" where
  "flag name value = (name, JBool (value = Some True))"

definition search_checks :: "idna \<Rightarrow> string \<Rightarrow> link_policy \<Rightarrow> string list \<Rightarrow> json" where
  "search_checks idna url policy owned =
     (case domain_from_url idna url of
        None \<Rightarrow> JObj (map (\<lambda>n. flag n None) [''https'', ''blocklisted'', ''competitor'', ''owned_domain''])
      | Some domain \<Rightarrow> JObj [flag ''https'' (Some (url_scheme url = ''https'')),
          flag ''blocklisted'' (matches_any idna domain (lp_block policy)),
          flag ''competitor'' (matches_any idna domain (lp_competitors policy)),
          flag ''owned_domain'' (matches_any idna domain owned)])"

definition safety_component :: "idna \<Rightarrow> string \<Rightarrow> link_policy \<Rightarrow> string list \<Rightarrow> evaluation \<Rightarrow> json" where
  "safety_component idna url policy owned e =
     JObj [(''domain'', JStr (te_domain e)), (''eligible'', JBool (te_eligible e)),
       (''reasons'', JArr (map (JStr \<circ> reason_text True policy) (te_reasons e))), (''checks'', search_checks idna url policy owned)]"

definition trust_checks :: "idna \<Rightarrow> int \<Rightarrow> site \<Rightarrow> string \<Rightarrow> link_policy \<Rightarrow> string list \<Rightarrow> json" where
  "trust_checks idna today target_site url policy owned =
     (case domain_from_url idna url of
        None \<Rightarrow> JObj [flag ''https'' None, flag ''trusted_tld'' None, (''domain_age_days'', JNull), flag ''allowlisted'' None,
          flag ''blocklisted'' None, flag ''competitor'' None, flag ''owned_domain'' None, flag ''approved_source'' None]
      | Some domain \<Rightarrow> JObj [flag ''https'' (Some (url_scheme url = ''https'')),
          flag ''trusted_tld'' (Some (lp_trusted_tlds policy = [] \<or> top_level domain \<in> set (lp_trusted_tlds policy))),
          (''domain_age_days'', (case domain_age_days idna today url target_site of Some (Some d) \<Rightarrow> JInt d | _ \<Rightarrow> JNull)),
          flag ''allowlisted'' (matches_any idna domain (lp_allow policy)),
          flag ''blocklisted'' (matches_any idna domain (lp_block policy)),
          flag ''competitor'' (matches_any idna domain (lp_competitors policy)),
          flag ''owned_domain'' (matches_any idna domain owned),
          flag ''approved_source'' (Some (approved_source target_site))])"

definition trust_component :: "idna \<Rightarrow> int \<Rightarrow> site \<Rightarrow> string \<Rightarrow> link_policy \<Rightarrow> string list \<Rightarrow> evaluation \<Rightarrow> json" where
  "trust_component idna today target_site url policy owned e =
     JObj [(''domain'', JStr (te_domain e)), (''score'', JInt (te_score e)), (''eligible'', JBool (te_eligible e)),
       (''reasons'', JArr (map (JStr \<circ> reason_text False policy) (te_reasons e))),
       (''checks'', trust_checks idna today target_site url policy owned)]"

section \<open>The tables\<close>

record embedding =
  em_article :: nat
  em_model :: string
  em_vector :: "rat list"
  em_fingerprint :: "string option"
  em_recipe :: "nat option"
  em_size :: "nat option"

text \<open>The columns of a generated suggestion that review never reads.\<close>

record generation_trace =
  gt_suggestion :: nat
  gt_job :: "nat option"
  gt_retrieval :: string
  gt_ranking :: string
  gt_rank :: nat
  gt_features :: "json option"
  gt_snippet :: "string option"
  gt_provider :: "string option"
  gt_request :: "string option"
  gt_provider_score :: "rat option"
  gt_query :: "string option"

record search_audit =
  sa_site :: nat
  sa_source :: nat
  sa_suggestion :: "nat option"
  sa_job :: "nat option"
  sa_provider :: string
  sa_request :: "string option"
  sa_query :: string
  sa_url :: "string option"
  sa_score :: "rat option"
  sa_decision :: string
  sa_details :: "(string \<times> json) list"

record analysis_db =
  an_graph :: graph_db
  an_sites :: "site list"
  an_policies :: "link_policy list"
  an_embeddings :: "embedding list"
  an_traces :: "generation_trace list"
  an_events :: "suggestion_event list"
  an_audit :: "search_audit list"

abbreviation an_corpus :: "analysis_db \<Rightarrow> corpus" where
  "an_corpus db \<equiv> gd_corpus (an_graph db)"

abbreviation an_suggestions :: "analysis_db \<Rightarrow> suggestion list" where
  "an_suggestions db \<equiv> co_suggestions (an_corpus db)"

definition add_suggestion :: "suggestion \<Rightarrow> generation_trace \<Rightarrow> analysis_db \<Rightarrow> analysis_db" where
  "add_suggestion s t db =
     db\<lparr>an_graph := (an_graph db)\<lparr>gd_corpus := (an_corpus db)\<lparr>co_suggestions := an_suggestions db @ [s]\<rparr>\<rparr>,
        an_traces := an_traces db @ [t]\<rparr>"

definition audit_event ::
  "nat \<Rightarrow> nat \<Rightarrow> nat option \<Rightarrow> string \<Rightarrow> string option \<Rightarrow> string \<Rightarrow> string \<Rightarrow> string option \<Rightarrow> rat option \<Rightarrow> nat option
     \<Rightarrow> (string \<times> json) list \<Rightarrow> analysis_db \<Rightarrow> analysis_db" where
  "audit_event site source job provider request query decision url score suggestion details db =
     db\<lparr>an_audit := an_audit db @ [\<lparr>sa_site = site, sa_source = source, sa_suggestion = suggestion, sa_job = job,
        sa_provider = str_take 50 provider,
        sa_request = (case request of None \<Rightarrow> None | Some r \<Rightarrow> if r = [] then None else Some (str_take 255 r)),
        sa_query = query, sa_url = (case url of None \<Rightarrow> None | Some u \<Rightarrow> if u = [] then None else Some (str_take 2048 u)),
        sa_score = score, sa_decision = str_take 30 decision, sa_details = details\<rparr>]\<rparr>"

section \<open>Filling the gap\<close>

datatype analysis_error = Bad_rule | Bad_embedding string | Missing_embedding | Search_bug string | Site_missing
  | Pool_site | Too_many_articles | Text_too_long | Bad_mode string | Comparison_needs_shadow | Source_disappeared
  | Graph_failed | Ranking_failed ranking_error

record fallback_result =
  fr_searched :: nat
  fr_created :: nat
  fr_credits :: nat
  fr_filtered :: "(string \<times> nat) list"

definition bump :: "string \<Rightarrow> (string \<times> nat) list \<Rightarrow> (string \<times> nat) list" where
  "bump k d = AList.update k (or_else (map_of d k) 0 + 1) d"

record scorable_candidate =
  sc_result :: search_result
  sc_url :: string
  sc_title :: string
  sc_snippet :: string
  sc_safety :: json
  sc_rank :: nat

text \<open>One provider result: refused with its decision, the URL on record and the details, or ready to be scored.\<close>

definition screen_result ::
  "idna \<Rightarrow> link_policy \<Rightarrow> string list \<Rightarrow> string set \<Rightarrow> string set \<Rightarrow> nat \<Rightarrow> search_result
     \<Rightarrow> analysis_error + ((string \<times> string \<times> (string \<times> json) list) + scorable_candidate)" where
  "screen_result idna policy owned existing seen rank r =
     (let ranked = (''provider_rank'', JInt (int rank))
      in case normalize_external_url idna (sx_url r) of
           Inl e \<Rightarrow> Inr (Inl (''invalid_url'', sx_url r, [ranked, (''reason'', JStr (cleaning_message e))]))
         | Inr url \<Rightarrow>
             if 2048 < str_len url then Inr (Inl (''url_too_long'', url, [ranked]))
             else case evaluate_web_search_url idna url policy owned of
               None \<Rightarrow> Inl Bad_rule
             | Some e \<Rightarrow>
                 if \<not> te_eligible e
                 then Inr (Inl (''safety_blocked'', url, [ranked, (''safety'', safety_component idna url policy owned e)]))
                 else if url \<in> existing \<or> url \<in> seen then Inr (Inl (''duplicate'', url, [ranked]))
                 else Inr (Inr \<lparr>sc_result = r, sc_url = url,
                        sc_title = str_take 500 (if strip (sx_title r) = [] then te_domain e else strip (sx_title r)),
                        sc_snippet = str_take 4000 (strip (sx_snippet r)),
                        sc_safety = safety_component idna url policy owned e, sc_rank = rank\<rparr>))"

text \<open>What the rows of one search have in common.\<close>

record search_context =
  sq_site :: nat
  sq_source :: nat
  sq_job :: "nat option"
  sq_provider :: string
  sq_request :: "string option"
  sq_query :: string
  sq_model :: string

definition audit :: "search_context \<Rightarrow> string \<Rightarrow> string option \<Rightarrow> rat option \<Rightarrow> nat option \<Rightarrow> (string \<times> json) list \<Rightarrow> analysis_db \<Rightarrow> analysis_db" where
  "audit sq decision url score suggestion details =
     audit_event (sq_site sq) (sq_source sq) (sq_job sq) (sq_provider sq) (sq_request sq) (sq_query sq) decision url score suggestion details"

fun screen_results ::
  "idna \<Rightarrow> link_policy \<Rightarrow> string list \<Rightarrow> string set \<Rightarrow> search_context \<Rightarrow> (nat \<times> search_result) list
     \<Rightarrow> (string set \<times> scorable_candidate list \<times> (string \<times> nat) list \<times> analysis_db)
     \<Rightarrow> analysis_error + (scorable_candidate list \<times> (string \<times> nat) list \<times> analysis_db)" where
  "screen_results idna policy owned existing sq [] (seen, scorable, filtered, db) = Inr (scorable, filtered, db)"
| "screen_results idna policy owned existing sq ((rank, r) # rs) (seen, scorable, filtered, db) =
     bind_ok (screen_result idna policy owned existing seen rank r) (\<lambda>verdict.
       screen_results idna policy owned existing sq rs
         (case verdict of
            Inl (decision, url, details) \<Rightarrow>
              (seen, scorable, bump decision filtered, audit sq decision (Some url) (sx_score r) None details db)
          | Inr c \<Rightarrow> (insert (sc_url c) seen, scorable @ [c], filtered, db)))"

text \<open>\<open>math.fsum\<close> rounds the exact sum once; each product has been rounded.\<close>

definition dot_product :: "rat list \<Rightarrow> rat list \<Rightarrow> rat" where
  "dot_product xs ys = double_of (sum_list (map2 fmul xs ys))"

definition semantic_scores ::
  "(string list \<Rightarrow> rat list list) \<Rightarrow> nat \<Rightarrow> string \<Rightarrow> embedding list \<Rightarrow> scorable_candidate list \<Rightarrow> analysis_error + rat list" where
  "semantic_scores embedder source model embeddings candidates =
     (case find (\<lambda>e. em_article e = source \<and> em_model e = model) embeddings of
        None \<Rightarrow> Inl Missing_embedding
      | Some e \<Rightarrow>
          (let vectors = embedder (map (\<lambda>c. strip (sc_title c @ [CHR 0x0A] @ sc_snippet c)) candidates)
           in if length vectors \<noteq> length candidates then Inl (Bad_embedding ''wrong number of vectors'')
              else if \<not> list_all (\<lambda>v. length v = length (em_vector e)) vectors then Inl (Bad_embedding ''wrong dimension'')
              else Inr (map (\<lambda>v. max (- 1) (min 1 (dot_product (em_vector e) v))) vectors)))"

definition candidate_details :: "search_context \<Rightarrow> scorable_candidate \<Rightarrow> rat \<Rightarrow> (string \<times> json) list" where
  "candidate_details sq c score =
     [(''provider_rank'', JInt (int (sc_rank c))),
      (''provider_result_id'', (case sx_id (sc_result c) of None \<Rightarrow> JNull | Some i \<Rightarrow> JStr i)),
      (''semantic_model'', JStr (sq_model sq)), (''semantic_score'', JFloat score), (''safety'', sc_safety c)]"

definition optional_json :: "('a \<Rightarrow> json) \<Rightarrow> 'a option \<Rightarrow> json" where
  "optional_json f v = (case v of None \<Rightarrow> JNull | Some x \<Rightarrow> f x)"

definition stored_request :: "search_context \<Rightarrow> string option" where
  "stored_request sq = (case sq_request sq of None \<Rightarrow> None | Some r \<Rightarrow> if r = [] then None else Some (str_take 255 r))"

text \<open>The row of an accepted result, its trace event and its audit row.\<close>

definition accept_external :: "search_context \<Rightarrow> scorable_candidate \<Rightarrow> rat \<Rightarrow> analysis_db \<Rightarrow> analysis_db" where
  "accept_external sq c score db =
     (let i = next_id sg_id (an_suggestions db);
          features = [(''semantic'', JFloat score), (''semantic_model'', JStr (sq_model sq)),
            (''provider_rank'', JInt (int (sc_rank c))), (''external_safety'', sc_safety c)];
          s = (new_suggestion i (sq_site sq) (sq_source sq) None (Some (sc_url c)) External_search score)
            \<lparr>sg_external_title := Some (sc_title c), sg_components := Some (JObj features)\<rparr>;
          t = \<lparr>gt_suggestion = i, gt_job = sq_job sq, gt_retrieval = ''external_search_v1'',
            gt_ranking = ''external_search_provider_v1'', gt_rank = sc_rank c, gt_features = Some (JObj features),
            gt_snippet = Some (sc_snippet c), gt_provider = Some (str_take 50 (sq_provider sq)),
            gt_request = stored_request sq, gt_provider_score = sx_score (sc_result c), gt_query = Some (sq_query sq)\<rparr>;
          trace = candidate_details sq c score @ [(''provider'', JStr (str_take 50 (sq_provider sq))),
            (''provider_request_id'', optional_json JStr (stored_request sq)),
            (''provider_score'', optional_json JFloat (sx_score (sc_result c))), (''search_query'', JStr (sq_query sq)),
            (''normalized_url'', JStr (sc_url c))];
          db = add_suggestion s t db;
          db = db\<lparr>an_events := an_events db @ [\<lparr>ev_suggestion = i, ev_type = ''external_discovered'', ev_actor = ''external-search'',
            ev_details = trace\<rparr>]\<rparr>
      in audit sq ''accepted'' (Some (sc_url c)) (sx_score (sc_result c)) (Some i) trace db)"

fun select_external ::
  "rat \<Rightarrow> nat \<Rightarrow> nat \<Rightarrow> search_context \<Rightarrow> (scorable_candidate \<times> rat) list \<Rightarrow> nat \<times> (string \<times> nat) list \<times> analysis_db
     \<Rightarrow> nat \<times> (string \<times> nat) list \<times> analysis_db" where
  "select_external min_score min_percent missing sq [] st = st"
| "select_external min_score min_percent missing sq ((c, score) # cs) (selected, filtered, db) =
     (let refuse = (\<lambda>decision. (selected, bump decision filtered,
            audit sq decision (Some (sc_url c)) (sx_score (sc_result c)) None (candidate_details sq c score) db))
      in select_external min_score min_percent missing sq cs
           (if score < min_score \<or> score_percent score < min_percent then refuse ''below_threshold''
            else if missing \<le> selected then refuse ''capacity_not_selected''
            else (selected + 1, filtered, accept_external sq c score db)))"

record search_settings =
  ss_model :: string
  ss_min_score :: rat
  ss_max_results :: nat
  ss_provider :: string

definition error_name :: "search_error \<Rightarrow> string" where
  "error_name e = (case e of Not_configured \<Rightarrow> ''ExternalSearchNotConfigured'' | Rate_limited \<Rightarrow> ''ExternalSearchRateLimited''
     | Transient _ \<Rightarrow> ''ExternalSearchTransientError'' | Quota_exceeded _ \<Rightarrow> ''ExternalSearchQuotaExceeded''
     | Bad_response _ \<Rightarrow> ''ExternalSearchResponseError'' | Refused_request _ _ \<Rightarrow> ''ExternalSearchError'')"

definition search_error_text :: "search_error \<Rightarrow> string" where
  "search_error_text e = (case e of Not_configured \<Rightarrow> ''TAVILY_API_KEY is not set'' | Rate_limited \<Rightarrow> ''Tavily rate limit reached''
     | Transient m \<Rightarrow> m | Quota_exceeded n \<Rightarrow> ''Tavily quota or plan limit reached ('' @ digits n @ '')''
     | Bad_response m \<Rightarrow> m | Refused_request n m \<Rightarrow> ''Tavily returned '' @ digits n @ '': '' @ m)"

definition fill_external_suggestion_gap ::
  "idna \<Rightarrow> (string list \<Rightarrow> rat list list) \<Rightarrow> (string \<Rightarrow> nat \<Rightarrow> string list \<Rightarrow> search_outcome) \<Rightarrow> search_settings \<Rightarrow> nat \<Rightarrow> nat
     \<Rightarrow> site_article \<Rightarrow> int \<Rightarrow> nat option \<Rightarrow> analysis_db \<Rightarrow> analysis_error + (fallback_result \<times> analysis_db)" where
  "fill_external_suggestion_gap idna embedder search cfg site min_percent article missing job db =
     (let nothing = \<lparr>fr_searched = 0, fr_created = 0, fr_credits = 0, fr_filtered = []\<rparr>;
          query = str_take tavily_max_query_chars (strip (ar_title article));
          policy = policy_state (an_policies db) site;
          ask = \<lparr>sq_site = site, sq_source = ar_id article, sq_job = job, sq_provider = ss_provider cfg, sq_request = None,
            sq_query = query, sq_model = ss_model cfg\<rparr>
      in if missing \<le> 0 then Inr (nothing, db)
         else if query = [] then Inr (nothing\<lparr>fr_filtered := bump ''empty_title'' []\<rparr>, db)
         else if \<not> lp_enabled policy then
           Inr (nothing\<lparr>fr_filtered := bump ''external_links_disabled'' []\<rparr>,
             audit ask ''external_links_disabled'' None None None [(''missing_slots'', JInt missing)] db)
         else case managed_domains idna (an_sites db) of
           None \<Rightarrow> Inl Bad_rule
         | Some owned \<Rightarrow>
             (let exclude = sort (remdups (owned @ lp_block policy @ lp_competitors policy))
              in case search query (ss_max_results cfg) exclude of
                   Bad_call m \<Rightarrow> Inl (Search_bug m)
                 | Search_raised Not_configured \<Rightarrow> Inr (nothing\<lparr>fr_filtered := bump ''not_configured'' []\<rparr>, db)
                 | Search_raised e \<Rightarrow>
                     Inr (nothing\<lparr>fr_searched := 1, fr_filtered := bump ''request_failed'' []\<rparr>,
                       audit ask ''request_failed'' None None None
                         [(''error_type'', JStr (error_name e)), (''message'', JStr (str_take 500 (search_error_text e)))] db)
                 | Answered response \<Rightarrow>
                     (let asked = nothing\<lparr>fr_searched := 1, fr_credits := or_else (sr_credits response) 0\<rparr>;
                          sq = ask\<lparr>sq_provider := (if sr_provider response = [] then ss_provider cfg else sr_provider response),
                            sq_request := sr_request response, sq_query := sr_query response\<rparr>;
                          db = audit sq ''request_completed'' None None None
                            [(''attempt_count'', JInt (int (sr_attempts response))),
                             (''credits_used'', optional_json (JInt \<circ> int) (sr_credits response)),
                             (''exclude_domains'', JArr (map JStr (take 150 exclude))),
                             (''response_time_seconds'', optional_json JFloat (sr_time response)),
                             (''result_count'', JInt (int (length (sr_results response))))] db;
                          existing = (\<lambda>s. or_else (sg_external_url s) []) ` set (filter (\<lambda>s. sg_source s = ar_id article
                            \<and> sg_external_url s \<noteq> None \<and> sg_status s \<noteq> Expired) (an_suggestions db))
                      in if sr_results response = [] then Inr (asked\<lparr>fr_filtered := bump ''no_results'' []\<rparr>, db)
                         else
                           bind_ok (screen_results idna policy owned existing sq (List.enumerate 1 (sr_results response)) ({}, [], [], db))
                             (\<lambda>(scorable, filtered, db).
                             bind_ok (if scorable = [] then Inr []
                                      else semantic_scores embedder (ar_id article) (ss_model cfg) (an_embeddings db) scorable) (\<lambda>scores.
                               let ranked = sort_key (\<lambda>(c, score). (- score, sc_rank c)) (zip scorable scores);
                                   (selected, filtered, db) =
                                     select_external (ss_min_score cfg) min_percent (nat missing) sq ranked (0, filtered, db)
                               in Inr (asked\<lparr>fr_created := selected, fr_filtered := filtered\<rparr>, db))))))"

section \<open>What a search leaves behind\<close>

text \<open>\<open>db'\<close> is \<open>db\<close> with \<open>rows\<close> at the end of the suggestions; articles, links and embeddings are untouched.\<close>

definition extends :: "suggestion list \<Rightarrow> analysis_db \<Rightarrow> analysis_db \<Rightarrow> bool" where
  "extends rows db db' \<longleftrightarrow> an_suggestions db' = an_suggestions db @ rows \<and> co_articles (an_corpus db') = co_articles (an_corpus db)
     \<and> co_links (an_corpus db') = co_links (an_corpus db) \<and> an_embeddings db' = an_embeddings db"

definition fresh_row :: "nat \<Rightarrow> nat \<Rightarrow> suggestion \<Rightarrow> bool" where
  "fresh_row site source s \<longleftrightarrow> sg_site s = site \<and> sg_source s = source \<and> sg_status s = Pending"

lemma extends_refl [simp]: "extends [] db db"
  by (simp add: extends_def)

lemma extends_trans: "extends rows db db' \<Longrightarrow> extends more' db' db'' \<Longrightarrow> extends (rows @ more') db db''"
  by (simp add: extends_def)

lemma extends_audit [simp]: "extends [] db (audit sq decision url score suggestion details db)"
  by (simp add: extends_def audit_def audit_event_def)

lemma audit_suggestions [simp]: "an_suggestions (audit sq decision url score suggestion details db) = an_suggestions db"
  by (simp add: audit_def audit_event_def)

lemma extends_audits: "extends rows (audit sq decision url score suggestion details db) db' \<Longrightarrow> extends rows db db'"
  using extends_trans [OF extends_audit] by fastforce

lemma accept_external_extends:
  "\<exists>r. extends [r] db (accept_external sq c score db) \<and> fresh_row (sq_site sq) (sq_source sq) r \<and> sg_target r = None
     \<and> sg_external_url r = Some (sc_url c) \<and> sg_score r = score"
  by (simp add: accept_external_def extends_def add_suggestion_def Let_def fresh_row_def new_suggestion_def audit_def audit_event_def)

definition row_of_pick :: "scorable_candidate \<times> rat \<Rightarrow> suggestion \<Rightarrow> bool" where
  "row_of_pick x r \<longleftrightarrow> sg_target r = None \<and> sg_external_url r = Some (sc_url (fst x)) \<and> sg_score r = snd x"

lemma select_external_extends:
  assumes "select_external min_score min_percent missing sq cs (selected, filtered, db) = (n, f, db')"
  shows "\<exists>rows picked. extends rows db db' \<and> list_all (fresh_row (sq_site sq) (sq_source sq)) rows
    \<and> subseq picked cs \<and> list_all2 row_of_pick picked rows \<and> list_all (\<lambda>x. min_score \<le> snd x) picked
    \<and> n = selected + length rows \<and> n \<le> max selected missing"
  using assms
proof (induction cs arbitrary: selected filtered db)
  case Nil
  then show ?case by (intro exI [of _ "[]"]) simp
next
  case (Cons x cs)
  obtain c score where x: "x = (c, score)" by (cases x)
  show ?case
  proof (cases "score < min_score \<or> score_percent score < min_percent \<or> missing \<le> selected")
    case True
    then obtain f' d where "select_external min_score min_percent missing sq cs
        (selected, f', audit sq d (Some (sc_url c)) (sx_score (sc_result c)) None (candidate_details sq c score) db) = (n, f, db')"
      using Cons.prems by (auto simp: x Let_def split: if_splits)
    from Cons.IH [OF this] obtain rows picked where
      "extends rows (audit sq d (Some (sc_url c)) (sx_score (sc_result c)) None (candidate_details sq c score) db) db'"
      "list_all (fresh_row (sq_site sq) (sq_source sq)) rows" "subseq picked cs" "list_all2 row_of_pick picked rows"
      "list_all (\<lambda>x. min_score \<le> snd x) picked" "n = selected + length rows" "n \<le> max selected missing" by blast
    then show ?thesis
      using extends_audits list_emb_Cons by blast
  next
    case False
    then have "select_external min_score min_percent missing sq cs (selected + 1, filtered, accept_external sq c score db) = (n, f, db')"
      using Cons.prems by (simp add: x Let_def)
    from Cons.IH [OF this] obtain rows picked where rows: "extends rows (accept_external sq c score db) db'"
      "list_all (fresh_row (sq_site sq) (sq_source sq)) rows" "subseq picked cs" "list_all2 row_of_pick picked rows"
      "list_all (\<lambda>x. min_score \<le> snd x) picked" "n = selected + 1 + length rows" "n \<le> max (selected + 1) missing" by blast
    obtain r where r: "extends [r] db (accept_external sq c score db)" "fresh_row (sq_site sq) (sq_source sq) r"
      "row_of_pick (c, score) r"
      using accept_external_extends unfolding row_of_pick_def by fastforce
    show ?thesis
      using extends_trans [OF r(1) rows(1)] r(2,3) rows(2-7) False
      by (intro exI [of _ "r # rows"] exI [of _ "(c, score) # picked"]) (auto simp: x)
  qed
qed

definition screened :: "idna \<Rightarrow> link_policy \<Rightarrow> string list \<Rightarrow> string set \<Rightarrow> string \<Rightarrow> bool" where
  "screened idna policy owned existing url \<longleftrightarrow> (\<exists>raw. normalize_external_url idna raw = Inr url) \<and> url \<notin> existing
     \<and> (case evaluate_web_search_url idna url policy owned of None \<Rightarrow> False | Some e \<Rightarrow> te_eligible e)"

lemma screen_result_screened:
  assumes "screen_result idna policy owned existing seen rank r = Inr (Inr c)"
  shows "screened idna policy owned existing (sc_url c)" and "sc_url c \<notin> seen"
  using assms by (auto simp: screen_result_def Let_def screened_def split: sum.splits if_splits option.splits)

lemma screen_results_extends:
  assumes "screen_results idna policy owned existing sq rs (seen, scorable, filtered, db) = Inr (scorable', filtered', db')"
    and "distinct (map sc_url scorable)" and "sc_url ` set scorable \<subseteq> seen"
    and "list_all (\<lambda>c. screened idna policy owned existing (sc_url c)) scorable"
  shows "extends [] db db' \<and> distinct (map sc_url scorable') \<and> list_all (\<lambda>c. screened idna policy owned existing (sc_url c)) scorable'"
  using assms
proof (induction rs arbitrary: seen scorable filtered db)
  case (Cons x rs)
  obtain rank r where x: "x = (rank, r)" by (cases x)
  obtain v where verdict: "screen_result idna policy owned existing seen rank r = Inr v"
    and v: "screen_results idna policy owned existing sq rs
         (case v of
            Inl (decision, url, details) \<Rightarrow>
              (seen, scorable, bump decision filtered, audit sq decision (Some url) (sx_score r) None details db)
          | Inr c \<Rightarrow> (insert (sc_url c) seen, scorable @ [c], filtered, db)) = Inr (scorable', filtered', db')"
    using Cons.prems(1) by (auto simp: x bind_ok_eq_Inr)
  show ?case
  proof (cases v)
    case (Inl t)
    obtain d u e where "t = (d, u, e)" by (cases t)
    with v Inl have "screen_results idna policy owned existing sq rs
        (seen, scorable, bump d filtered, audit sq d (Some u) (sx_score r) None e db) = Inr (scorable', filtered', db')" by simp
    from Cons.IH [OF this Cons.prems(2-4)] show ?thesis using extends_audits by blast
  next
    case (Inr c)
    note c = screen_result_screened [OF verdict [unfolded Inr]]
    from v Inr have "screen_results idna policy owned existing sq rs (insert (sc_url c) seen, scorable @ [c], filtered, db)
        = Inr (scorable', filtered', db')" by simp
    from Cons.IH [OF this] show ?thesis using Cons.prems(2-4) c by auto
  qed
qed simp

lemma distinct_subseq: "subseq xs ys \<Longrightarrow> distinct ys \<Longrightarrow> distinct xs"
  by (induction rule: list_emb.induct) (auto dest: list_emb_set)

lemma ranked_results:
  assumes "distinct (map sc_url scorable)" and "subseq picked (sort_key f (zip scorable scores))"
  shows "distinct (map (\<lambda>x. sc_url (fst x)) picked)" and "set (map fst picked) \<subseteq> set scorable"
proof -
  have "map (\<lambda>x. sc_url (fst x)) (zip scorable scores) = map sc_url (map fst (zip scorable scores))" by (simp add: comp_def)
  also have "\<dots> = take (length scores) (map sc_url scorable)" by (cases "length scores \<le> length scorable") (simp_all add: map_fst_zip_take take_map)
  finally have "distinct (map (\<lambda>x. sc_url (fst x)) (zip scorable scores))" using assms(1) by (simp add: distinct_take)
  then have "distinct (map (\<lambda>x. sc_url (fst x)) (sort_key f (zip scorable scores)))" by (simp add: distinct_map)
  then show "distinct (map (\<lambda>x. sc_url (fst x)) picked)"
    by (rule distinct_subseq [OF subseq_map [OF assms(2)]])
  have "set picked \<subseteq> set (zip scorable scores)" using list_emb_set [OF assms(2)] by auto
  then show "set (map fst picked) \<subseteq> set scorable" using set_zip_leftD by fastforce
qed

text \<open>What a search may add: the rows \<open>rows\<close>, for one source, within the room there was.\<close>

definition searched_rows ::
  "idna \<Rightarrow> link_policy \<Rightarrow> string list \<Rightarrow> string set \<Rightarrow> rat \<Rightarrow> nat \<Rightarrow> nat \<Rightarrow> suggestion list \<Rightarrow> bool" where
  "searched_rows idna policy owned existing min_score site source rows \<longleftrightarrow>
     list_all (fresh_row site source) rows \<and> list_all (\<lambda>r. sg_target r = None \<and> min_score \<le> sg_score r
       \<and> (case sg_external_url r of None \<Rightarrow> False | Some u \<Rightarrow> screened idna policy owned existing u)) rows
     \<and> distinct (map sg_external_url rows)"

lemma searched_rows_Nil [simp]: "searched_rows idna policy owned existing min_score site source []"
  by (simp add: searched_rows_def)

lemma picked_rows:
  assumes rows: "list_all2 row_of_pick picked rows" and "list_all (fresh_row site source) rows"
    and score: "list_all (\<lambda>x. min_score \<le> snd x) picked" and dist: "distinct (map (\<lambda>x. sc_url (fst x)) picked)"
    and ok: "list_all (\<lambda>c. screened idna policy owned existing (sc_url c)) (map fst picked)"
  shows "searched_rows idna policy owned existing min_score site source rows"
proof -
  have "map sg_external_url rows = map (\<lambda>x. Some (sc_url (fst x))) picked"
    using rows by (induction rule: list_all2_induct) (simp_all add: row_of_pick_def)
  then have "map sg_external_url rows = map Some (map (\<lambda>x. sc_url (fst x)) picked)" by (simp add: comp_def)
  then have "distinct (map sg_external_url rows)" using dist by (simp only: distinct_map inj_Some)
  moreover have "list_all (\<lambda>r. sg_target r = None \<and> min_score \<le> sg_score r
       \<and> (case sg_external_url r of None \<Rightarrow> False | Some u \<Rightarrow> screened idna policy owned existing u)) rows"
    using rows score ok by (induction rule: list_all2_induct) (auto simp: row_of_pick_def)
  ultimately show ?thesis using assms(2) by (simp add: searched_rows_def)
qed

lemma scored_results_extend:
  assumes "bind_ok (screen_results idna policy owned ex sq rs ({}, [], [], db)) (\<lambda>(scorable, filtered, db).
      bind_ok (vectors scorable db) (\<lambda>scores.
        case select_external min_score min_percent missing sq (sort_key (key scorable scores) (zip scorable scores)) (0, filtered, db) of
          (selected, filtered, db) \<Rightarrow> Inr (asked\<lparr>fr_created := selected, fr_filtered := filtered\<rparr>, db))) = Inr (r, db')"
  shows "\<exists>rows. extends rows db db' \<and> searched_rows idna policy owned ex min_score (sq_site sq) (sq_source sq) rows
    \<and> fr_created r = length rows \<and> length rows \<le> missing"
proof -
  obtain x where x: "screen_results idna policy owned ex sq rs ({}, [], [], db) = Inr x"
    and found: "(case x of (scorable, filtered, db) \<Rightarrow> bind_ok (vectors scorable db) (\<lambda>scores.
        case select_external min_score min_percent missing sq (sort_key (key scorable scores) (zip scorable scores)) (0, filtered, db) of
          (selected, filtered, db) \<Rightarrow> Inr (asked\<lparr>fr_created := selected, fr_filtered := filtered\<rparr>, db))) = Inr (r, db')"
    using assms unfolding bind_ok_eq_Inr by blast
  obtain scorable filtered d where "x = (scorable, filtered, d)" by (cases x)
  note clean = screen_results_extends [OF x [unfolded this], simplified] and found = found [unfolded this prod.case]
  obtain scores where scores: "(case select_external min_score min_percent missing sq
          (sort_key (key scorable scores) (zip scorable scores)) (0, filtered, d) of
        (selected, filtered, db) \<Rightarrow> (asked\<lparr>fr_created := selected, fr_filtered := filtered\<rparr>, db)) = (r, db')"
    using found by (auto simp: bind_ok_eq_Inr case_prod_unfold)
  obtain n f d' where sel: "select_external min_score min_percent missing sq
      (sort_key (key scorable scores) (zip scorable scores)) (0, filtered, d) = (n, f, d')"
    by (cases "select_external min_score min_percent missing sq (sort_key (key scorable scores) (zip scorable scores)) (0, filtered, d)")
  have out: "fr_created r = n" "db' = d'" using scores by (auto simp: sel)
  obtain rows picked where rows: "extends rows d d'" "list_all (fresh_row (sq_site sq) (sq_source sq)) rows"
    "subseq picked (sort_key (key scorable scores) (zip scorable scores))" "list_all2 row_of_pick picked rows"
    "list_all (\<lambda>x. min_score \<le> snd x) picked" "n = length rows" "n \<le> missing"
    using select_external_extends [OF sel] by auto
  have "list_all (\<lambda>c. screened idna policy owned ex (sc_url c)) (map fst picked)"
    using clean ranked_results(2) [OF _ rows(3)] unfolding list_all_iff by blast
  then have "searched_rows idna policy owned ex min_score (sq_site sq) (sq_source sq) rows"
    using picked_rows [OF rows(4,2,5)] ranked_results(1) [OF _ rows(3)] clean by blast
  then show ?thesis
    using extends_trans [OF _ rows(1)] clean rows(6,7) out by (intro exI [of _ rows]) force
qed

definition stored_urls :: "nat \<Rightarrow> suggestion list \<Rightarrow> string set" where
  "stored_urls source ss = (\<lambda>s. or_else (sg_external_url s) []) ` set (filter (\<lambda>s. sg_source s = source
     \<and> sg_external_url s \<noteq> None \<and> sg_status s \<noteq> Expired) ss)"

lemma fill_external_extends:
  assumes "fill_external_suggestion_gap idna embedder search cfg site min_percent article missing job db = Inr (r, db')"
  shows "\<exists>rows owned. extends rows db db'
    \<and> searched_rows idna (policy_state (an_policies db) site) owned (stored_urls (ar_id article) (an_suggestions db)) (ss_min_score cfg)
        site (ar_id article) rows
    \<and> fr_created r = length rows \<and> length rows \<le> nat missing
    \<and> (rows = [] \<or> lp_enabled (policy_state (an_policies db) site) \<and> managed_domains idna (an_sites db) = Some owned)"
proof -
  define query where "query = str_take tavily_max_query_chars (strip (ar_title article))"
  define policy where "policy = policy_state (an_policies db) site"
  have idle: ?thesis if "extends [] db db' \<and> fr_created r = 0"
  proof (intro exI conjI)
    show "extends [] db db'" using that by simp
  qed (use that in simp_all)
  show ?thesis
  proof (cases "missing \<le> 0 \<or> query = [] \<or> \<not> lp_enabled policy")
    case True
    then have "extends [] db db' \<and> fr_created r = 0"
      using assms by (auto simp: fill_external_suggestion_gap_def Let_def query_def [symmetric] policy_def [symmetric] split: if_splits)
    then show ?thesis by (rule idle)
  next
    case False
    then obtain owned where owned: "managed_domains idna (an_sites db) = Some owned"
      using assms by (auto simp: fill_external_suggestion_gap_def Let_def query_def [symmetric] policy_def [symmetric] split: option.splits)
    define asked where "asked = search query (ss_max_results cfg) (sort (remdups (owned @ lp_block policy @ lp_competitors policy)))"
    have room: "(missing \<le> 0) = False" "(query = []) = False" "(\<not> lp_enabled policy) = False" using False by simp_all
    note out = assms [unfolded fill_external_suggestion_gap_def Let_def, folded query_def policy_def,
        unfolded owned option.case, folded asked_def stored_urls_def, unfolded room if_False]
    show ?thesis
    proof (cases "\<exists>response. asked = Answered response \<and> sr_results response \<noteq> []")
      case True
      then obtain response where response: "asked = Answered response" "(sr_results response = []) = False" by auto
      have "\<exists>rows. extends rows db db'
          \<and> searched_rows idna policy owned (stored_urls (ar_id article) (an_suggestions db)) (ss_min_score cfg) site (ar_id article) rows
          \<and> fr_created r = length rows \<and> length rows \<le> nat missing"
        by (rule ex_forward [OF scored_results_extend [OF out [unfolded response search_outcome.case if_False]]])
          (elim conjE, intro conjI, erule extends_audits, simp_all)
      then show ?thesis using owned room unfolding policy_def [symmetric] by blast
    next
      case False
      have "extends [] db db' \<and> fr_created r = 0"
      proof (cases asked)
        case (Answered response)
        then have "sr_results response = []" using False by simp
        then show ?thesis using out by (auto simp: Answered)
      next
        case (Search_raised e)
        then show ?thesis using out by (cases e) auto
      next
        case (Bad_call m)
        then show ?thesis using out by simp
      qed
      then show ?thesis by (rule idle)
    qed
  qed
qed


lemma disabled_site_makes_no_request:
  assumes "\<not> lp_enabled (policy_state (an_policies db) site)"
  shows "fill_external_suggestion_gap idna embedder search cfg site min_percent article missing job db
    = fill_external_suggestion_gap idna embedder (\<lambda>_ _ _. Search_raised Not_configured) cfg site min_percent article missing job db"
  using assms by (simp add: fill_external_suggestion_gap_def Let_def)

text \<open>C14. Whatever the search provider answers, filling the gap of a page only appends pending rows for that page, at most
  as many as were missing and as many as it reports. Every row holds the canonical form of an URL that passed the
  domain and HTTPS guards under the policy of the site and the managed domains, that no unexpired row of the page
  holds and no other new row holds, with a similarity of at least the minimum; and there is none where the site has
  external links switched off.\<close>

theorem only_screened_results_are_stored:
  assumes "fill_external_suggestion_gap idna embedder search cfg site min_percent article missing job db = Inr (r, db')"
  shows "\<exists>rows owned. an_suggestions db' = an_suggestions db @ rows
    \<and> searched_rows idna (policy_state (an_policies db) site) owned (stored_urls (ar_id article) (an_suggestions db)) (ss_min_score cfg)
        site (ar_id article) rows
    \<and> fr_created r = length rows \<and> length rows \<le> nat missing
    \<and> (rows = [] \<or> lp_enabled (policy_state (an_policies db) site) \<and> managed_domains idna (an_sites db) = Some owned)"
  using fill_external_extends [OF assms] unfolding extends_def by blast

definition search_sample_db :: analysis_db where
  "search_sample_db = \<lparr>an_graph = \<lparr>gd_corpus = \<lparr>co_articles = [], co_taxonomies = [], co_article_taxonomies = [], co_links = [],
       co_runs = [], co_diagnostics = [], co_suggestions = []\<rparr>, gd_snapshots = [], gd_features = []\<rparr>,
     an_sites = [], an_policies = [\<lparr>lp_site = 1, lp_enabled = True, lp_require_https = True, lp_min_trust = 0, lp_min_age = 0,
       lp_trusted_tlds = [], lp_allow = [], lp_block = [], lp_competitors = []\<rparr>],
     an_embeddings = [\<lparr>em_article = 7, em_model = ''m'', em_vector = [1], em_fingerprint = None, em_recipe = None, em_size = None\<rparr>],
     an_traces = [], an_events = [], an_audit = []\<rparr>"

definition search_sample_page :: site_article where
  "search_sample_page = \<lparr>ar_id = 7, ar_site = 1, ar_url = ''https://a.com/7'', ar_title = ''Bread'', ar_text = [],
     ar_external_id = None, ar_html = None, ar_language = None, ar_published = None, ar_active = True, ar_last_run = None\<rparr>"

definition search_sample_answer :: search_response where
  "search_sample_answer = \<lparr>sr_provider = ''tavily'', sr_query = ''Bread'', sr_results = [\<lparr>sx_title = ''B'', sx_url = ''https://b.com/x'',
     sx_snippet = [], sx_score = None, sx_id = None\<rparr>], sr_request = None, sr_time = None, sr_credits = None, sr_attempts = 1\<rparr>"

definition search_sample_policy :: link_policy where
  "search_sample_policy = \<lparr>lp_site = 1, lp_enabled = True, lp_require_https = True, lp_min_trust = 0, lp_min_age = 0,
     lp_trusted_tlds = [], lp_allow = [], lp_block = [], lp_competitors = []\<rparr>"

definition search_sample_settings :: search_settings where
  "search_sample_settings = \<lparr>ss_model = ''m'', ss_min_score = 1 / 2, ss_max_results = 5, ss_provider = ''tavily''\<rparr>"

lemma sample_url_clean: "normalize_external_url Some ''https://b.com/x'' = Inr ''https://b.com/x''"
  by code_simp

lemma sample_url_judged:
  "evaluate_web_search_url Some ''https://b.com/x'' search_sample_policy []
    = Some \<lparr>te_domain = ''b.com'', te_score = 0, te_eligible = True, te_reasons = []\<rparr>"
  by code_simp

lemma sample_policy: "policy_state (an_policies search_sample_db) 1 = search_sample_policy"
  by (simp add: search_sample_db_def search_sample_policy_def policy_state_def get_row_def)

lemma sample_query: "str_take tavily_max_query_chars (strip ''Bread'') = ''Bread''"
  by code_simp

lemma sample_screen:
  "\<exists>c. screen_result Some search_sample_policy [] {} {} 1 \<lparr>sx_title = ''B'', sx_url = ''https://b.com/x'', sx_snippet = [], sx_score = None, sx_id = None\<rparr>
     = Inr (Inr c)"
proof -
  have "str_len ''https://b.com/x'' = 15" by code_simp
  then show ?thesis by (simp add: screen_result_def sample_url_clean sample_url_judged Let_def)
qed

lemma search_sample_runs:
  "\<exists>r db'. fill_external_suggestion_gap Some (map (\<lambda>_. [1])) (\<lambda>_ _ _. Answered search_sample_answer)
     search_sample_settings 1 50 search_sample_page 2 None search_sample_db = Inr (r, db') \<and> fr_created r = 1"
proof -
  obtain c where c: "screen_result Some search_sample_policy [] {} {} 1
      \<lparr>sx_title = ''B'', sx_url = ''https://b.com/x'', sx_snippet = [], sx_score = None, sx_id = None\<rparr> = Inr (Inr c)"
    using sample_screen by blast
  have owned: "managed_domains Some (an_sites search_sample_db) = Some []"
    by (simp add: managed_domains_def search_sample_db_def)
  have page: "strip (ar_title search_sample_page) = strip ''Bread''" "ar_id search_sample_page = 7" by (simp_all add: search_sample_page_def)
  have on: "lp_enabled search_sample_policy" by (simp add: search_sample_policy_def)
  have score: "score_percent 1 = 100" by code_simp
  have dot: "dot_product [1] [1] = 1" by code_simp
  have emb: "an_embeddings (audit sq d u sc sg det search_sample_db)
      = [\<lparr>em_article = 7, em_model = ''m'', em_vector = [1], em_fingerprint = None, em_recipe = None, em_size = None\<rparr>]" for sq d u sc sg det
    by (simp add: audit_def audit_event_def search_sample_db_def)
  have empty: "an_suggestions search_sample_db = []" by (simp add: search_sample_db_def)
  show ?thesis
    using c
    by (simp add: fill_external_suggestion_gap_def Let_def sample_policy [unfolded One_nat_def] on page sample_query owned
        search_sample_answer_def search_sample_settings_def emb empty semantic_scores_def score dot)
qed

lemma only_screened_results_are_stored_witness:
  "\<exists>r db' s owned. fill_external_suggestion_gap Some (map (\<lambda>_. [1])) (\<lambda>_ _ _. Answered search_sample_answer)
     search_sample_settings 1 50 search_sample_page 2 None search_sample_db = Inr (r, db') \<and> an_suggestions db' = [s]
     \<and> searched_rows Some search_sample_policy owned {} (1 / 2) 1 7 [s]"
proof -
  obtain r db' where run: "fill_external_suggestion_gap Some (map (\<lambda>_. [1])) (\<lambda>_ _ _. Answered search_sample_answer)
     search_sample_settings 1 50 search_sample_page 2 None search_sample_db = Inr (r, db')" and "fr_created r = 1"
    using search_sample_runs by blast
  moreover have "an_suggestions search_sample_db = []" by (simp add: search_sample_db_def)
  ultimately obtain rows owned where "an_suggestions db' = rows" "length rows = 1"
    "searched_rows Some search_sample_policy owned {} (1 / 2) 1 7 rows"
    using only_screened_results_are_stored [OF run] unfolding sample_policy
    by (auto simp: stored_urls_def search_sample_settings_def search_sample_page_def)
  then show ?thesis using run by (auto simp: length_Suc_conv)
qed

end
