(* ===== verification/Generation.thy ===== *)
theory Generation
  imports ExternalSearch
begin

text \<open>
  A run of the suggestion pipeline: the eligibility queries of \<^verbatim>\<open>app/ml/baseline.py\<close>, the ranker of
  \<^verbatim>\<open>app/ml/hybrid.py\<close> over them, and \<open>generate_suggestions\<close> of \<^verbatim>\<open>app/services/suggestion_service.py\<close>.
  Each commit is a new \<open>analysis_db\<close>; a run that raises leaves the last one. The embedding model, the distance of
  pgvector, \<open>math.log\<close>, SHA-256 and the search provider are the fields of \<open>analysis_world\<close>. Progress
  records and log lines are left out, and the advisory locks serialise whole runs.
\<close>

record analysis_world =
  aw_idna :: idna
  aw_embed :: "string list \<Rightarrow> rat list list"
  aw_distance :: "rat list \<Rightarrow> rat list \<Rightarrow> rat"
  aw_log :: "rat \<Rightarrow> rat"
  aw_sha :: "string \<Rightarrow> string"
  aw_search :: "string \<Rightarrow> nat \<Rightarrow> string list \<Rightarrow> search_outcome"

record analysis_config =
  ax_search :: search_settings
  ax_graph :: graph_config
  ax_max_articles :: nat
  ax_max_corpus :: nat
  ax_max_chars :: nat
  ax_duplicate :: rat
  ax_titles :: "string list"
  ax_slugs :: "string list"
  ax_cap :: nat
  ax_lifetime :: nat
  ax_sources :: nat
  ax_site_cap :: nat

definition ax_model :: "analysis_config \<Rightarrow> string" where
  "ax_model cfg = ss_model (ax_search cfg)"

section \<open>Which pairs may be suggested\<close>

definition btrim :: "string \<Rightarrow> string" where
  "btrim s = rev (dropWhile (\<lambda>c. c = CHR '' '') (rev (dropWhile (\<lambda>c. c = CHR '' '') s)))"

definition low_value_titles :: "analysis_config \<Rightarrow> string list" where
  "low_value_titles cfg = map (\<lambda>t. lower (strip t)) (ax_titles cfg)"

definition low_value_slugs :: "analysis_config \<Rightarrow> string list" where
  "low_value_slugs cfg = map (\<lambda>s. lower (strip s)) (filter (\<lambda>s. strip s \<noteq> []) (ax_slugs cfg))"

text \<open>\<open>(^|/)(slugs)(/|[?#]|$)\<close> matches somewhere: \<open>before\<close> is the character in front, if any.\<close>

fun slug_match :: "string list \<Rightarrow> char option \<Rightarrow> string \<Rightarrow> bool" where
  "slug_match slugs before s =
     ((before = None \<or> before = Some (CHR ''/''))
        \<and> list_ex (\<lambda>w. take (length w) s = w \<and> (drop (length w) s = [] \<or> hd (drop (length w) s) \<in> {CHR ''/'', CHR ''?'', CHR ''#''})) slugs
      \<or> (case s of [] \<Rightarrow> False | c # s' \<Rightarrow> slug_match slugs (Some c) s'))"

declare slug_match.simps [simp del]

definition low_value_target :: "analysis_config \<Rightarrow> site_article \<Rightarrow> bool" where
  "low_value_target cfg a \<longleftrightarrow> lower (btrim (ar_title a)) \<in> set (low_value_titles cfg)
     \<or> slug_match (low_value_slugs cfg) None (lower (ar_url a))"

definition open_source :: "site_article \<Rightarrow> site_article \<Rightarrow> site \<Rightarrow> bool" where
  "open_source a1 a2 st \<longleftrightarrow> ar_site a2 = ar_site a1 \<or> approved_source st"

definition linked :: "nat \<Rightarrow> nat \<Rightarrow> corpus \<Rightarrow> bool" where
  "linked s t co \<longleftrightarrow> list_ex (\<lambda>l. lk_source l = s \<and> lk_target l = t \<and> lk_active l) (co_links co)"

definition decided :: "nat \<Rightarrow> nat \<Rightarrow> suggestion list \<Rightarrow> bool" where
  "decided s t ss \<longleftrightarrow> list_ex (\<lambda>x. sg_source x = s \<and> sg_target x = Some t \<and> sg_status x \<noteq> Expired) ss"

definition standing :: "suggestion_status set" where
  "standing = {Pending, Approved, Applying, Applied}"

definition mirrored :: "nat \<Rightarrow> nat \<Rightarrow> suggestion list \<Rightarrow> bool" where
  "mirrored s t ss \<longleftrightarrow> list_ex (\<lambda>x. sg_source x = t \<and> sg_target x = Some s \<and> sg_status x \<in> standing) ss"

text \<open>A row of the join: the target, its site, its embedding and the distance to the source.\<close>

type_synonym pair_row = "site_article \<times> site \<times> embedding \<times> rat"

definition embedding_of :: "string \<Rightarrow> nat \<Rightarrow> analysis_db \<Rightarrow> embedding option" where
  "embedding_of model i db = find (\<lambda>e. em_article e = i \<and> em_model e = model) (an_embeddings db)"

definition pair_row_of :: "analysis_world \<Rightarrow> string \<Rightarrow> nat \<Rightarrow> embedding \<Rightarrow> analysis_db \<Rightarrow> embedding \<Rightarrow> pair_row option" where
  "pair_row_of aw model source e1 db e2 =
     (if em_model e2 \<noteq> model \<or> em_article e2 = source then None
      else case get_row ar_id (em_article e2) (co_articles (an_corpus db)) of
        None \<Rightarrow> None
      | Some a2 \<Rightarrow> map_option (\<lambda>st. (a2, st, e2, aw_distance aw (em_vector e1) (em_vector e2)))
                     (get_row site_id (ar_site a2) (an_sites db)))"

definition pair_rows :: "analysis_world \<Rightarrow> string \<Rightarrow> nat \<Rightarrow> analysis_db \<Rightarrow> (site_article \<times> embedding \<times> pair_row list) option" where
  "pair_rows aw model source db =
     (case (get_row ar_id source (co_articles (an_corpus db)), embedding_of model source db) of
        (Some a1, Some e1) \<Rightarrow> Some (a1, e1, List.map_filter (pair_row_of aw model source e1 db) (an_embeddings db))
      | _ \<Rightarrow> None)"

definition row_score :: "pair_row \<Rightarrow> rat" where
  "row_score r = fsub 1 (snd (snd (snd r)))"

definition row_target :: "pair_row \<Rightarrow> nat" where
  "row_target r = ar_id (fst r)"

text \<open>The clauses both queries share.\<close>

definition baseline_eligible :: "analysis_config \<Rightarrow> nat list option \<Rightarrow> analysis_db \<Rightarrow> site_article \<Rightarrow> pair_row \<Rightarrow> bool" where
  "baseline_eligible cfg allowed db a1 r =
     (let (a2, st, e2, d) = r
      in open_source a1 a2 st \<and> ar_active a2
         \<and> (case allowed of None \<Rightarrow> True | Some ids \<Rightarrow> ar_id a2 \<in> set ids)
         \<and> ss_min_score (ax_search cfg) \<le> row_score r
         \<and> \<not> low_value_target cfg a2
         \<and> \<not> linked (ar_id a1) (ar_id a2) (an_corpus db)
         \<and> \<not> decided (ar_id a1) (ar_id a2) (an_suggestions db)
         \<and> \<not> mirrored (ar_id a1) (ar_id a2) (an_suggestions db))"

definition pilot_eligible :: "analysis_config \<Rightarrow> nat list option \<Rightarrow> analysis_db \<Rightarrow> site_article \<Rightarrow> embedding \<Rightarrow> pair_row \<Rightarrow> bool" where
  "pilot_eligible cfg allowed db a1 e1 r =
     (let (a2, st, e2, d) = r
      in baseline_eligible cfg allowed db a1 r
         \<and> (em_fingerprint e1 = None \<or> em_fingerprint e2 = None \<or> em_fingerprint e2 \<noteq> em_fingerprint e1)
         \<and> lower (btrim (ar_title a2)) \<noteq> lower (btrim (ar_title a1))
         \<and> fsub 1 (ax_duplicate cfg) < d)"

definition nearest :: "nat \<Rightarrow> pair_row list \<Rightarrow> (nat \<times> rat) list" where
  "nearest k rows = map (\<lambda>r. (row_target r, row_score r)) (take k (sort_key (\<lambda>r. (snd (snd (snd r)), row_target r)) rows))"

definition top_candidates ::
  "analysis_world \<Rightarrow> analysis_config \<Rightarrow> nat list option \<Rightarrow> nat \<Rightarrow> nat \<Rightarrow> analysis_db \<Rightarrow> (nat \<times> rat) list" where
  "top_candidates aw cfg allowed source k db =
     (case pair_rows aw (ax_model cfg) source db of None \<Rightarrow> []
      | Some (a1, e1, rows) \<Rightarrow> nearest k (filter (baseline_eligible cfg allowed db a1) rows))"

definition eligible_top_candidates ::
  "analysis_world \<Rightarrow> analysis_config \<Rightarrow> nat list option \<Rightarrow> nat \<Rightarrow> nat \<Rightarrow> analysis_db \<Rightarrow> (nat \<times> rat) list" where
  "eligible_top_candidates aw cfg allowed source k db =
     (case pair_rows aw (ax_model cfg) source db of None \<Rightarrow> []
      | Some (a1, e1, rows) \<Rightarrow> nearest k (filter (pilot_eligible cfg allowed db a1 e1) rows))"

definition eligible_candidate_scores ::
  "analysis_world \<Rightarrow> analysis_config \<Rightarrow> nat list option \<Rightarrow> nat \<Rightarrow> nat list \<Rightarrow> analysis_db \<Rightarrow> (nat \<times> rat) list" where
  "eligible_candidate_scores aw cfg allowed source targets db =
     (if targets = [] then []
      else case pair_rows aw (ax_model cfg) source db of None \<Rightarrow> []
        | Some (a1, e1, rows) \<Rightarrow> map (\<lambda>r. (row_target r, row_score r))
            (filter (\<lambda>r. pilot_eligible cfg allowed db a1 e1 r \<and> row_target r \<in> set targets) rows))"

definition semantic_scores_for_targets ::
  "analysis_world \<Rightarrow> string \<Rightarrow> nat \<Rightarrow> nat list \<Rightarrow> analysis_db \<Rightarrow> nat set + (nat \<times> rat) list" where
  "semantic_scores_for_targets aw model source targets db =
     (let scores = (case embedding_of model source db of None \<Rightarrow> []
            | Some e1 \<Rightarrow> map (\<lambda>e2. (em_article e2, fsub 1 (aw_distance aw (em_vector e1) (em_vector e2))))
                (filter (\<lambda>e2. em_model e2 = model \<and> em_article e2 \<in> set targets) (an_embeddings db)));
          missing = set targets - fst ` set scores
      in if targets = [] then Inr [] else if missing \<noteq> {} then Inl missing else Inr scores)"

section \<open>The hybrid ranker\<close>

definition normalized_title :: "string \<Rightarrow> string" where
  "normalized_title title = strip (lower title)"

record hybrid_ranker =
  hr_articles :: "corpus_article list"
  hr_blocked :: "(nat \<times> nat option) list"
  hr_allowed :: "nat list option"
  hr_terms :: "(nat \<times> string list) list"
  hr_index :: bm25_index

fun terms_by_article :: "nat \<Rightarrow> corpus_article list \<Rightarrow> ranking_error + (nat \<times> string list) list" where
  "terms_by_article max_chars [] = Inr []"
| "terms_by_article max_chars (a # as) =
     bind_ok (structured_terms max_chars a) (\<lambda>ts. map_sum id (Cons (ca_id a, ts)) (terms_by_article max_chars as))"

definition new_ranker :: "nat \<Rightarrow> corpus_article list \<Rightarrow> (nat \<times> nat option) list \<Rightarrow> nat list option \<Rightarrow> ranking_error + hybrid_ranker" where
  "new_ranker max_chars articles blocked allowed =
     (if articles = [] then Inl No_articles
      else bind_ok (terms_by_article max_chars articles) (\<lambda>terms.
        bind_ok (bm25_new (3 / 2) (3 / 4) terms) (\<lambda>index.
          Inr \<lparr>hr_articles = articles, hr_blocked = blocked, hr_allowed = map_option sort allowed, hr_terms = terms, hr_index = index\<rparr>)))"

definition taxonomy_names :: "nat \<Rightarrow> corpus \<Rightarrow> string list" where
  "taxonomy_names i co =
     sort (List.map_filter (\<lambda>x. if at_article x = i then map_option tx_name (get_row tx_id (at_taxonomy x) (co_taxonomies co)) else None)
       (co_article_taxonomies co))"

definition corpus_row :: "string \<Rightarrow> nat \<Rightarrow> nat list option \<Rightarrow> analysis_db \<Rightarrow> site_article \<Rightarrow> corpus_article option" where
  "corpus_row model site allowed db a =
     (case (embedding_of model (ar_id a) db, get_row site_id (ar_site a) (an_sites db)) of
        (Some e, Some st) \<Rightarrow>
          (if (ar_site a = site \<or> approved_source st) \<and> ar_active a
              \<and> (case allowed of None \<Rightarrow> True | Some ids \<Rightarrow> ar_id a \<in> set ids)
           then Some \<lparr>ca_id = ar_id a, ca_title = ar_title a, ca_text = ar_text a, ca_fingerprint = em_fingerprint e,
                  ca_taxonomies = taxonomy_names (ar_id a) (an_corpus db)\<rparr>
           else None)
      | _ \<Rightarrow> None)"

definition load_ranker :: "analysis_config \<Rightarrow> nat \<Rightarrow> nat list option \<Rightarrow> analysis_db \<Rightarrow> ranking_error + hybrid_ranker" where
  "load_ranker cfg site allowed db =
     (let rows = List.map_filter (corpus_row (ax_model cfg) site allowed db) (sort_key ar_id (co_articles (an_corpus db)));
          on_site = (\<lambda>i. case get_row ar_id i (co_articles (an_corpus db)) of None \<Rightarrow> False | Some a \<Rightarrow> ar_site a = site);
          blocked = map (\<lambda>l. (lk_source l, Some (lk_target l))) (filter (\<lambda>l. on_site (lk_source l) \<and> lk_active l) (co_links (an_corpus db)))
            @ map (\<lambda>s. (sg_source s, sg_target s)) (filter (\<lambda>s. sg_site s = site \<and> sg_status s \<noteq> Expired) (an_suggestions db))
      in if ax_max_corpus cfg < length rows then Inl Corpus_too_large
         else new_ranker (ax_max_chars cfg) rows blocked allowed)"

definition duplicate_ids :: "hybrid_ranker \<Rightarrow> corpus_article \<Rightarrow> nat set" where
  "duplicate_ids hr a =
     ca_id ` set (filter (\<lambda>b. normalized_title (ca_title b) = normalized_title (ca_title a)
         \<or> (ca_fingerprint a \<notin> {None, Some []} \<and> ca_fingerprint b = ca_fingerprint a)) (hr_articles hr)) - {ca_id a}"

record hybrid_ranking =
  hx_candidates :: "ranked_candidate list"
  hx_baseline :: "ranked_candidate list"
  hx_dense :: nat
  hx_lexical :: nat
  hx_union :: nat

text \<open>The walk over the BM25 ranking in pages of one pool; \<open>check\<close> is the authoritative query.\<close>

function lexical_walk ::
  "(nat list \<Rightarrow> (nat \<times> rat) list) \<Rightarrow> nat list \<Rightarrow> nat list \<Rightarrow> (nat \<times> rat) list \<Rightarrow> nat list \<times> (nat \<times> rat) list" where
  "lexical_walk check ranked found semantic =
     (if ranked = [] \<or> pool_size \<le> length found then (found, semantic)
      else
        (let page = take pool_size ranked;
             unknown = filter (\<lambda>t. map_of semantic t = None) page;
             semantic = foldl (\<lambda>d (t, score). AList.update t score d) semantic (check unknown)
         in lexical_walk check (drop pool_size ranked) (found @ filter (\<lambda>t. map_of semantic t \<noteq> None) page) semantic))"
  by pat_completeness auto

termination by (relation "measure (\<lambda>(_, ranked, _). length ranked)") (auto simp: pool_size_def)

declare lexical_walk.simps [simp del]

definition rank ::
  "analysis_world \<Rightarrow> analysis_config \<Rightarrow> hybrid_ranker \<Rightarrow> nat \<Rightarrow> nat \<Rightarrow> bool \<Rightarrow> analysis_db \<Rightarrow> ranking_error + hybrid_ranking" where
  "rank aw cfg hr source limit include_baseline db =
     (if limit = 0 then Inl Limit_not_positive
      else case (find (\<lambda>a. ca_id a = source) (hr_articles hr), map_of (hr_terms hr) source) of
        (Some a, Some query_terms) \<Rightarrow>
          (let dense = eligible_top_candidates aw cfg (hr_allowed hr) source pool_size db;
               excluded = set (List.map_filter (\<lambda>(s, t). if s = source then t else None) (hr_blocked hr)) \<union> duplicate_ids hr a \<union> {source};
               bm25_scores = score_documents (aw_log aw) (hr_index hr) query_terms excluded;
               (found, semantic) = lexical_walk (\<lambda>ts. eligible_candidate_scores aw cfg (hr_allowed hr) source ts db)
                 (map fst (rank_scores bm25_scores)) [] dense;
               lexical = take pool_size found
           in bind_ok (rank_hybrid_candidates (map fst dense) lexical bm25_scores semantic limit) (\<lambda>candidates.
             Inr \<lparr>hx_candidates = candidates,
               hx_baseline = (if include_baseline
                 then map (\<lambda>(t, score). cosine_candidate t (clamp_unit score)) (top_candidates aw cfg (hr_allowed hr) source pool_size db)
                 else []),
               hx_dense = length dense, hx_lexical = length lexical, hx_union = card (set (map fst dense) \<union> set lexical)\<rparr>))
      | _ \<Rightarrow> Inr \<lparr>hx_candidates = [], hx_baseline = [], hx_dense = 0, hx_lexical = 0, hx_union = 0\<rparr>)"

section \<open>Embeddings\<close>

definition embedding_dim :: nat where "embedding_dim = 768"

definition input_recipe_version :: nat where "input_recipe_version = 1"

definition batch_size :: nat where "batch_size = 32"

definition validate_embedding_dimension :: "analysis_world \<Rightarrow> analysis_error + unit" where
  "validate_embedding_dimension aw =
     (case aw_embed aw [''LinkMesh dimension probe''] of
        [v] \<Rightarrow> if length v = embedding_dim then Inr () else Inl (Bad_embedding ''wrong dimension'')
      | _ \<Rightarrow> Inl (Bad_embedding ''wrong number of vectors''))"

definition encode_input :: "site_article \<Rightarrow> string" where
  "encode_input a = ar_title a @ [CHR 0x0A] @ ar_text a"

definition stale :: "analysis_world \<Rightarrow> string \<Rightarrow> analysis_db \<Rightarrow> site_article \<Rightarrow> bool" where
  "stale aw model db a =
     (case embedding_of model (ar_id a) db of
        None \<Rightarrow> True
      | Some e \<Rightarrow> em_fingerprint e \<noteq> Some (aw_sha aw (encode_input a)) \<or> em_recipe e \<noteq> Some input_recipe_version
          \<or> em_size e \<noteq> Some embedding_dim)"

definition store_embedding :: "analysis_world \<Rightarrow> string \<Rightarrow> site_article \<times> rat list \<Rightarrow> analysis_db \<Rightarrow> analysis_db" where
  "store_embedding aw model av db =
     (let (a, v) = av;
          row = \<lparr>em_article = ar_id a, em_model = model, em_vector = v, em_fingerprint = Some (aw_sha aw (encode_input a)),
            em_recipe = Some input_recipe_version, em_size = Some (length v)\<rparr>
      in if embedding_of model (ar_id a) db = None then db\<lparr>an_embeddings := an_embeddings db @ [row]\<rparr>
         else db\<lparr>an_embeddings := update_where (\<lambda>e. em_article e = ar_id a \<and> em_model e = model) (\<lambda>_. row) (an_embeddings db)\<rparr>)"

text \<open>One page of articles: what it encodes, or why it cannot.\<close>

definition embed_page ::
  "analysis_world \<Rightarrow> analysis_config \<Rightarrow> site_article list \<Rightarrow> analysis_db \<Rightarrow> analysis_error + (nat \<times> analysis_db)" where
  "embed_page aw cfg page db =
     (let batch = filter (stale aw (ax_model cfg) db) page
      in if list_ex (\<lambda>a. ax_max_chars cfg < str_len (ar_text a)) page then Inl Text_too_long
         else if batch = [] then Inr (0, db)
         else
           (let vectors = aw_embed aw (map encode_input batch)
            in if length vectors \<noteq> length batch then Inl (Bad_embedding ''wrong number of vectors'')
               else if \<not> list_all (\<lambda>v. length v = embedding_dim) vectors then Inl (Bad_embedding ''wrong dimension'')
               else Inr (length batch, fold (store_embedding aw (ax_model cfg)) (zip batch vectors) db)))"

text \<open>Pages of 32 articles by id, each committed.\<close>

function embed_pages ::
  "analysis_world \<Rightarrow> analysis_config \<Rightarrow> site_article list \<Rightarrow> nat \<Rightarrow> analysis_db \<Rightarrow> (analysis_error + nat) \<times> analysis_db" where
  "embed_pages aw cfg articles encoded db =
     (if articles = [] then (Inr encoded, db)
      else case embed_page aw cfg (take batch_size articles) db of
             Inl e \<Rightarrow> (Inl e, db)
           | Inr (n, db') \<Rightarrow> embed_pages aw cfg (drop batch_size articles) (encoded + n) db')"
  by pat_completeness auto

termination by (relation "measure (\<lambda>(_, _, articles, _, _). length articles)") (auto simp: batch_size_def)

declare embed_pages.simps [simp del]

definition active_articles :: "nat \<Rightarrow> analysis_db \<Rightarrow> site_article list" where
  "active_articles site db = sort_key ar_id (filter (\<lambda>a. ar_site a = site \<and> ar_active a) (co_articles (an_corpus db)))"

definition embed_missing :: "analysis_world \<Rightarrow> analysis_config \<Rightarrow> nat \<Rightarrow> analysis_db \<Rightarrow> (analysis_error + nat) \<times> analysis_db" where
  "embed_missing aw cfg site db =
     (if ax_max_articles cfg < length (active_articles site db) then (Inl Too_many_articles, db)
      else embed_pages aw cfg (active_articles site db) 0 db)"

fun embed_sites :: "analysis_world \<Rightarrow> analysis_config \<Rightarrow> nat list \<Rightarrow> nat \<Rightarrow> analysis_db \<Rightarrow> (analysis_error + nat) \<times> analysis_db" where
  "embed_sites aw cfg [] encoded db = (Inr encoded, db)"
| "embed_sites aw cfg (s # ss) encoded db =
     (case embed_missing aw cfg s db of
        (Inl e, db') \<Rightarrow> (Inl e, db')
      | (Inr n, db') \<Rightarrow> embed_sites aw cfg ss (encoded + n) db')"

section \<open>The allowed targets\<close>

definition pool_targets :: "analysis_db \<Rightarrow> (site_article \<times> site) list" where
  "pool_targets db = List.map_filter (\<lambda>a. case get_row site_id (ar_site a) (an_sites db) of
       None \<Rightarrow> None | Some st \<Rightarrow> if site_platform st = Pool \<and> ar_active a then Some (a, st) else None)
     (co_articles (an_corpus db))"

definition external_target_context ::
  "idna \<Rightarrow> int \<Rightarrow> nat \<Rightarrow> analysis_db \<Rightarrow> analysis_error + (nat list \<times> (nat \<times> evaluation \<times> json) list)" where
  "external_target_context idna today site db =
     (let policy = policy_state (an_policies db) site;
          judge = (\<lambda>owned (a, st). map_option (\<lambda>e. (ar_id a, e, trust_component idna today st (ar_url a) policy owned e))
            (evaluate_external_url idna today st (ar_url a) policy owned))
      in case managed_domains idna (an_sites db) of
           None \<Rightarrow> Inl Bad_rule
         | Some owned \<Rightarrow>
             (case all_some (map (judge owned) (pool_targets db)) of
                None \<Rightarrow> Inl Bad_rule
              | Some evaluations \<Rightarrow>
                  Inr (sort (remdups (map ar_id (active_articles site db)
                         @ map fst (filter (\<lambda>(_, e, _). te_eligible e) evaluations))), evaluations)))"

section \<open>A run\<close>

datatype ranking_mode = Baseline_mode | Shadow_mode | Hybrid_mode

definition ranking_mode_of :: "string option \<Rightarrow> analysis_error + ranking_mode" where
  "ranking_mode_of override =
     (case override of
        None \<Rightarrow> Inr Hybrid_mode
      | Some m \<Rightarrow> if m = ''baseline'' then Inr Baseline_mode else if m = ''shadow'' then Inr Shadow_mode
          else if m = ''hybrid'' then Inr Hybrid_mode else Inl (Bad_mode m))"

definition baseline_rows :: "analysis_world \<Rightarrow> analysis_config \<Rightarrow> nat list \<Rightarrow> nat \<Rightarrow> nat \<Rightarrow> analysis_db \<Rightarrow> ranked_candidate list" where
  "baseline_rows aw cfg allowed source k db =
     map (\<lambda>(t, score). cosine_candidate t score) (top_candidates aw cfg (Some allowed) source k db)"

definition evenly_spaced_ids :: "nat list \<Rightarrow> nat \<Rightarrow> nat set" where
  "evenly_spaced_ids ids maximum =
     (let n = min maximum (length ids)
      in if n = 0 then {} else set (map (\<lambda>i. ids ! (i * length ids div n)) [0..<n]))"

definition open_statuses :: "suggestion_status set" where
  "open_statuses = {Pending, Approved, Applying}"

definition lifetime_statuses :: "suggestion_status set" where
  "lifetime_statuses = insert Applied open_statuses"

definition count_of :: "nat \<Rightarrow> suggestion_status set \<Rightarrow> nat \<Rightarrow> suggestion list \<Rightarrow> nat" where
  "count_of site statuses source ss =
     length (filter (\<lambda>s. sg_site s = site \<and> sg_status s \<in> statuses \<and> sg_source s = source) ss)"

definition site_capacity :: "analysis_config \<Rightarrow> nat \<Rightarrow> nat list \<Rightarrow> suggestion list \<Rightarrow> nat" where
  "site_capacity cfg site sources ss =
     min (length sources * ax_cap cfg) (ax_site_cap cfg)
       - length (filter (\<lambda>s. sg_site s = site \<and> sg_status s \<in> open_statuses) ss)"

text \<open>What stays the same through a run.\<close>

record run_context =
  rx_site :: nat
  rx_job :: "nat option"
  rx_mode :: ranking_mode
  rx_comparison :: bool
  rx_settings :: editorial_settings
  rx_profile :: "feedback_profile option"
  rx_allowed :: "nat list"
  rx_trust :: "(nat \<times> evaluation \<times> json) list"
  rx_snapshot :: graph_snapshot
  rx_features :: "(nat \<times> graph_feature) list"
  rx_ranker :: "hybrid_ranker option"
  rx_shadow :: "nat set"
  rx_open :: "nat \<Rightarrow> nat"
  rx_given :: "nat \<Rightarrow> nat"

record run_state =
  rs_db :: analysis_db
  rs_capacity :: int
  rs_created :: nat
  rs_eligible :: nat
  rs_hybrid :: nat
  rs_fallback :: nat
  rs_dense :: nat
  rs_lexical :: nat
  rs_union :: nat
  rs_overlap :: rat
  rs_exact :: nat
  rs_selected :: nat
  rs_searches :: nat
  rs_external :: nat
  rs_credits :: nat
  rs_filtered :: "(string \<times> nat) list"
  rs_reordered :: nat

datatype source_outcome = Stop run_state | Next run_state | Abort analysis_error

text \<open>The candidates of one source, the method they go by, and the counters.\<close>

definition shadow_overlap :: "nat \<Rightarrow> nat list \<Rightarrow> nat list \<Rightarrow> rat" where
  "shadow_overlap limit baseline_ids hybrid_ids =
     fdiv (of_nat (card (set baseline_ids \<inter> set hybrid_ids)))
       (of_nat (max 1 (min limit (card (set baseline_ids \<union> set hybrid_ids)))))"

definition source_candidates ::
  "analysis_world \<Rightarrow> analysis_config \<Rightarrow> run_context \<Rightarrow> nat \<Rightarrow> int \<Rightarrow> run_state
     \<Rightarrow> ranked_candidate list \<times> suggestion_method \<times> run_state" where
  "source_candidates aw cfg rx source remaining w =
     (let has_capacity = 0 < remaining;
          shadow_selected = (rx_mode rx = Shadow_mode \<and> source \<in> rx_shadow rx);
          pool_limit = (if rx_profile rx \<noteq> None \<and> has_capacity \<and> \<not> rx_comparison rx
                        then max (nat remaining) feedback_candidate_pool else nat remaining);
          plain = baseline_rows aw cfg (rx_allowed rx) source pool_limit (rs_db w);
          fallback = (if has_capacity then plain else [], Baseline_cosine, w\<lparr>rs_fallback := rs_fallback w + 1\<rparr>)
      in if rx_mode rx = Baseline_mode \<or> (rx_mode rx = Shadow_mode \<and> \<not> shadow_selected) then (plain, Baseline_cosine, w)
         else case rx_ranker rx of
           None \<Rightarrow> fallback
         | Some hr \<Rightarrow>
             (let limit = (if shadow_selected then ax_cap cfg else pool_limit)
              in case rank aw cfg hr source limit (rx_mode rx = Shadow_mode) (rs_db w) of
                   Inl _ \<Rightarrow> fallback
                 | Inr h \<Rightarrow>
                     (let w = w\<lparr>rs_hybrid := rs_hybrid w + 1, rs_dense := rs_dense w + hx_dense h,
                            rs_lexical := rs_lexical w + hx_lexical h, rs_union := rs_union w + hx_union h\<rparr>
                      in if rx_mode rx = Hybrid_mode then (hx_candidates h, Hybrid_bm25, w)
                         else
                           (let rows = take limit (hx_baseline h); baseline_ids = map rc_target rows;
                                hybrid_ids = map rc_target (hx_candidates h)
                            in (if has_capacity then take (nat remaining) rows else [], Baseline_cosine,
                                w\<lparr>rs_overlap := fadd (rs_overlap w) (shadow_overlap limit baseline_ids hybrid_ids),
                                  rs_exact := rs_exact w + (if baseline_ids = hybrid_ids then 1 else 0)\<rparr>)))))"

definition ordering_for :: "analysis_config \<Rightarrow> run_context \<Rightarrow> nat \<Rightarrow> suggestion_method \<Rightarrow> ordering_context" where
  "ordering_for cfg rx source method = \<lparr>ox_method = method, ox_min_percent = es_min_score_percent (rx_settings rx),
     ox_features = rx_features rx, ox_snapshot = rx_snapshot rx, ox_source = source, ox_mode = gcf_mode (ax_graph cfg),
     ox_boost = gcf_boost (ax_graph cfg), ox_min_relevance = ss_min_score (ax_search cfg), ox_profile = rx_profile rx,
     ox_weight = es_weight (rx_settings rx), ox_trust = map (\<lambda>(i, _, j). (i, j)) (rx_trust rx)\<rparr>"

definition insert_candidate :: "run_context \<Rightarrow> nat \<Rightarrow> suggestion_method \<Rightarrow> ordered_candidate \<Rightarrow> analysis_db \<Rightarrow> analysis_db" where
  "insert_candidate rx source method oc db =
     (let i = next_id sg_id (an_suggestions db); c = oc_candidate oc; components = map_option JObj (oc_components oc)
      in add_suggestion
           ((new_suggestion i (rx_site rx) source (Some (rc_target c)) None method (rc_semantic c))\<lparr>sg_components := components\<rparr>)
           \<lparr>gt_suggestion = i, gt_job = rx_job rx, gt_retrieval = oc_retrieval oc, gt_ranking = oc_ranking oc, gt_rank = oc_rank oc,
             gt_features = components, gt_snippet = None, gt_provider = None, gt_request = None, gt_provider_score = None,
             gt_query = None\<rparr> db)"

definition add_counts :: "(string \<times> nat) list \<Rightarrow> (string \<times> nat) list \<Rightarrow> (string \<times> nat) list" where
  "add_counts before counts = foldl (\<lambda>d (k, n). AList.update k (or_else (map_of d k) 0 + n) d) before counts"

text \<open>The writing half of a source that has room: internal rows first, the web for what is missing.\<close>

definition write_source ::
  "analysis_world \<Rightarrow> analysis_config \<Rightarrow> run_context \<Rightarrow> nat \<Rightarrow> int \<Rightarrow> ranked_candidate list \<Rightarrow> suggestion_method \<Rightarrow> run_state
     \<Rightarrow> analysis_error + run_state" where
  "write_source aw cfg rx source remaining candidates method w =
     (case order_candidates (ordering_for cfg rx source method) remaining candidates of
        Inl e \<Rightarrow> Inl (Ranking_failed e)
      | Inr (items, reordered) \<Rightarrow>
          (let db = fold (insert_candidate rx source method) items (rs_db w);
               w = w\<lparr>rs_created := rs_created w + length items, rs_reordered := rs_reordered w + (if reordered then 1 else 0)\<rparr>;
               missing = remaining - int (length items)
           in bind_ok (if 0 < missing
                then (case get_row ar_id source (co_articles (an_corpus db)) of
                        None \<Rightarrow> Inl Source_disappeared
                      | Some a \<Rightarrow> fill_external_suggestion_gap (aw_idna aw) (aw_embed aw) (aw_search aw) (ax_search cfg) (rx_site rx)
                          (es_min_score_percent (rx_settings rx)) a missing (rx_job rx) db)
                else Inr (\<lparr>fr_searched = 0, fr_created = 0, fr_credits = 0, fr_filtered = []\<rparr>, db)) (\<lambda>(r, db).
                Inr (w\<lparr>rs_db := db, rs_searches := rs_searches w + fr_searched r, rs_external := rs_external w + fr_created r,
                  rs_credits := rs_credits w + fr_credits r, rs_created := rs_created w + fr_created r,
                  rs_filtered := add_counts (rs_filtered w) (fr_filtered r),
                  rs_capacity := rs_capacity w - int (length items + fr_created r)\<rparr>))))"

definition remaining_room :: "analysis_config \<Rightarrow> run_context \<Rightarrow> nat \<Rightarrow> run_state \<Rightarrow> int" where
  "remaining_room cfg rx source w =
     min (min (int (ax_cap cfg) - int (rx_open rx source)) (int (ax_lifetime cfg) - int (rx_given rx source))) (rs_capacity w)"

definition source_step :: "analysis_world \<Rightarrow> analysis_config \<Rightarrow> run_context \<Rightarrow> nat \<Rightarrow> run_state \<Rightarrow> source_outcome" where
  "source_step aw cfg rx source w =
     (let remaining = remaining_room cfg rx source w;
          has_capacity = 0 < remaining;
          shadow_selected = (rx_mode rx = Shadow_mode \<and> source \<in> rx_shadow rx)
      in if rx_mode rx = Hybrid_mode \<and> rs_capacity w \<le> 0 then Stop w
         else if rx_comparison rx \<and> \<not> shadow_selected then Next w
         else if \<not> has_capacity \<and> \<not> shadow_selected then Next w
         else if rx_mode rx = Hybrid_mode \<and> has_capacity \<and> ax_sources cfg \<le> rs_selected w then Stop w
         else
           (let w = w\<lparr>rs_selected := rs_selected w + (if rx_mode rx = Hybrid_mode \<and> has_capacity then 1 else 0),
                   rs_eligible := rs_eligible w + (if has_capacity then 1 else 0)\<rparr>;
                (candidates, method, w) = source_candidates aw cfg rx source remaining w
            in if has_capacity \<and> \<not> rx_comparison rx
               then (case write_source aw cfg rx source remaining candidates method w of Inl e \<Rightarrow> Abort e | Inr w \<Rightarrow> Next w)
               else Next w))"

text \<open>The loop over the sources; its variable is the function's parameter \<open>article_id\<close>, which \<open>visited\<close> follows.\<close>

fun run_sources ::
  "analysis_world \<Rightarrow> analysis_config \<Rightarrow> run_context \<Rightarrow> nat option \<Rightarrow> nat list \<Rightarrow> run_state
     \<Rightarrow> (analysis_error + nat option) \<times> run_state" where
  "run_sources aw cfg rx visited [] w = (Inr visited, w)"
| "run_sources aw cfg rx visited (a # as) w =
     (case source_step aw cfg rx a w of
        Stop w' \<Rightarrow> (Inr (Some a), w')
      | Abort e \<Rightarrow> (Inl e, w)
      | Next w' \<Rightarrow> run_sources aw cfg rx (Some a) as w')"

record analysis_result =
  az_source_article :: "nat option"
  az_encoded :: nat
  az_final :: run_state
  az_context :: run_context
  az_eligible_external :: nat
  az_blocked_external :: nat
  az_feedback_samples :: nat
  az_sources_selected :: nat
  az_mean_dense :: rat
  az_mean_lexical :: rat
  az_mean_union :: rat
  az_shadow_overlap :: rat
  az_shadow_exact :: rat

definition mean_of :: "nat \<Rightarrow> rat \<Rightarrow> nat \<Rightarrow> rat" where
  "mean_of places amount n = (if n = 0 then 0 else fround places (fdiv amount (of_nat n)))"

definition analysis_summary :: "run_context \<Rightarrow> nat option \<Rightarrow> nat \<Rightarrow> run_state \<Rightarrow> analysis_result" where
  "analysis_summary rx visited encoded w = \<lparr>az_source_article = visited, az_encoded = encoded, az_final = w, az_context = rx,
     az_eligible_external = length (filter (\<lambda>(_, e, _). te_eligible e) (rx_trust rx)),
     az_blocked_external = length (filter (\<lambda>(_, e, _). \<not> te_eligible e) (rx_trust rx)),
     az_feedback_samples = (case rx_profile rx of None \<Rightarrow> 0 | Some p \<Rightarrow> fp_samples p),
     az_sources_selected = (if rx_mode rx = Hybrid_mode then rs_selected w else card (rx_shadow rx)),
     az_mean_dense = mean_of 2 (of_nat (rs_dense w)) (rs_hybrid w),
     az_mean_lexical = mean_of 2 (of_nat (rs_lexical w)) (rs_hybrid w),
     az_mean_union = mean_of 2 (of_nat (rs_union w)) (rs_hybrid w),
     az_shadow_overlap = mean_of 4 (rs_overlap w) (rs_hybrid w), az_shadow_exact = mean_of 4 (of_nat (rs_exact w)) (rs_hybrid w)\<rparr>"

text \<open>The part after the embeddings are in place.\<close>

definition suggest ::
  "analysis_world \<Rightarrow> analysis_config \<Rightarrow> editorial_settings \<Rightarrow> nat \<Rightarrow> nat option \<Rightarrow> nat option \<Rightarrow> ranking_mode \<Rightarrow> bool
     \<Rightarrow> nat list \<times> (nat \<times> evaluation \<times> json) list \<Rightarrow> graph_snapshot \<Rightarrow> nat \<Rightarrow> analysis_db
     \<Rightarrow> (analysis_error + analysis_result) \<times> analysis_db" where
  "suggest aw cfg es site job article mode comparison context snapshot encoded db =
     (let profile = load_editorial_feedback es site (an_suggestions db);
          ranker = (if mode = Baseline_mode then None
            else case load_ranker cfg site (Some (fst context)) db of Inl _ \<Rightarrow> None | Inr hr \<Rightarrow> Some hr);
          sources = filter (\<lambda>i. case article of None \<Rightarrow> True | Some a \<Rightarrow> i = a) (map ar_id (active_articles site db));
          rx = \<lparr>rx_site = site, rx_job = job, rx_mode = mode, rx_comparison = comparison, rx_settings = es, rx_profile = profile,
            rx_allowed = fst context, rx_trust = snd context, rx_snapshot = snapshot,
            rx_features = snapshot_features (gs_id snapshot) (an_graph db), rx_ranker = ranker,
            rx_shadow = (if mode = Shadow_mode then evenly_spaced_ids sources (ax_sources cfg) else {}),
            rx_open = (\<lambda>i. count_of site open_statuses i (an_suggestions db)),
            rx_given = (\<lambda>i. count_of site lifetime_statuses i (an_suggestions db))\<rparr>;
          start = \<lparr>rs_db = db, rs_capacity = int (site_capacity cfg site sources (an_suggestions db)), rs_created = 0, rs_eligible = 0,
            rs_hybrid = 0, rs_fallback = 0, rs_dense = 0, rs_lexical = 0, rs_union = 0, rs_overlap = 0, rs_exact = 0, rs_selected = 0,
            rs_searches = 0, rs_external = 0, rs_credits = 0, rs_filtered = [], rs_reordered = 0\<rparr>
      in case run_sources aw cfg rx article sources start of
           (Inl e, w) \<Rightarrow> (Inl e, rs_db w)
         | (Inr visited, w) \<Rightarrow> (Inr (analysis_summary rx visited encoded w), rs_db w))"

definition generate_suggestions ::
  "analysis_world \<Rightarrow> analysis_config \<Rightarrow> (nat \<Rightarrow> editorial_settings) \<Rightarrow> int \<Rightarrow> time \<Rightarrow> nat \<Rightarrow> nat option \<Rightarrow> nat option
     \<Rightarrow> string option \<Rightarrow> bool \<Rightarrow> analysis_db \<Rightarrow> (analysis_error + analysis_result) \<times> analysis_db" where
  "generate_suggestions aw cfg settings today now site job article override comparison db =
     (case get_row site_id site (an_sites db) of
        None \<Rightarrow> (Inl Site_missing, db)
      | Some st \<Rightarrow>
          if site_platform st = Pool then (Inl Pool_site, db)
          else case bind_ok (external_target_context (aw_idna aw) today site db) (\<lambda>c.
                 bind_ok (validate_embedding_dimension aw) (\<lambda>_. Inr c)) of
            Inl e \<Rightarrow> (Inl e, db)
          | Inr context \<Rightarrow>
              (case embed_missing aw cfg site db of
                 (Inl e, db) \<Rightarrow> (Inl e, db)
               | (Inr encoded, db) \<Rightarrow>
                   (case ensure_graph_snapshot (aw_sha aw) (ax_graph cfg) now site (an_graph db) of
                      Inl _ \<Rightarrow> (Inl Graph_failed, db)
                    | Inr (snapshot, _, g) \<Rightarrow>
                        (let db = db\<lparr>an_graph := g\<rparr>;
                             pool_sites = sort (remdups (map ar_site (filter (\<lambda>a. ar_id a \<in> set (fst context) \<and> ar_site a \<noteq> site)
                               (co_articles (an_corpus db)))))
                         in case embed_sites aw cfg pool_sites encoded db of
                              (Inl e, db) \<Rightarrow> (Inl e, db)
                            | (Inr encoded, db) \<Rightarrow>
                                (case ranking_mode_of override of
                                   Inl e \<Rightarrow> (Inl e, db)
                                 | Inr mode \<Rightarrow>
                                     if comparison \<and> mode \<noteq> Shadow_mode then (Inl Comparison_needs_shadow, db)
                                     else suggest aw cfg (settings site) site job article mode comparison context snapshot encoded db)))))"

section \<open>The lexical pool\<close>

definition eligible_targets :: "analysis_world \<Rightarrow> analysis_config \<Rightarrow> nat list option \<Rightarrow> nat \<Rightarrow> analysis_db \<Rightarrow> nat set" where
  "eligible_targets aw cfg allowed source db =
     (case pair_rows aw (ax_model cfg) source db of None \<Rightarrow> {}
      | Some (a1, e1, rows) \<Rightarrow> row_target ` {r \<in> set rows. pilot_eligible cfg allowed db a1 e1 r})"

lemma eligible_scores_keys:
  "fst ` set (eligible_candidate_scores aw cfg allowed source ts db) = set ts \<inter> eligible_targets aw cfg allowed source db"
proof (cases "pair_rows aw (ax_model cfg) source db")
  case (Some p)
  obtain a1 e1 rows where p: "p = (a1, e1, rows)" by (cases p)
  have "fst ` set (eligible_candidate_scores aw cfg allowed source ts db)
      = row_target ` {r \<in> set rows. pilot_eligible cfg allowed db a1 e1 r \<and> row_target r \<in> set ts}"
    by (cases "ts = []") (simp_all add: eligible_candidate_scores_def Some p image_image)
  also have "\<dots> = set ts \<inter> row_target ` {r \<in> set rows. pilot_eligible cfg allowed db a1 e1 r}" by blast
  finally show ?thesis by (simp add: eligible_targets_def Some p)
qed (simp add: eligible_candidate_scores_def eligible_targets_def)

lemma nearest_keys: "fst ` set (nearest k rows) \<subseteq> row_target ` set rows"
  by (auto simp: nearest_def dest!: in_set_takeD)

lemma dense_keys: "fst ` set (eligible_top_candidates aw cfg allowed source k db) \<subseteq> eligible_targets aw cfg allowed source db"
proof (cases "pair_rows aw (ax_model cfg) source db")
  case (Some p)
  obtain a1 e1 rows where p: "p = (a1, e1, rows)" by (cases p)
  show ?thesis
    using nearest_keys [of k "filter (pilot_eligible cfg allowed db a1 e1) rows"]
    by (simp add: eligible_top_candidates_def eligible_targets_def Some p)
qed (simp add: eligible_top_candidates_def)

lemma foldl_update_pairs:
  "fst ` set (foldl (\<lambda>d (t, score). AList.update t score d) d xs) = fst ` set d \<union> fst ` set xs"
  using foldl_update_keys [of fst "\<lambda>d. snd" d xs] by (simp add: case_prod_unfold)

lemma lexical_walk_spec:
  "(\<And>ts. fst ` set (check ts) = set ts \<inter> E) \<Longrightarrow> fst ` set semantic \<subseteq> E \<Longrightarrow> set found \<subseteq> fst ` set semantic \<Longrightarrow>
    take pool_size (fst (lexical_walk check ranked found semantic)) = take pool_size (found @ filter (\<lambda>t. t \<in> E) ranked)
    \<and> fst ` set (snd (lexical_walk check ranked found semantic)) \<subseteq> E
    \<and> fst ` set semantic \<subseteq> fst ` set (snd (lexical_walk check ranked found semantic))
    \<and> set (fst (lexical_walk check ranked found semantic)) \<subseteq> fst ` set (snd (lexical_walk check ranked found semantic))"
proof (induction check ranked found semantic rule: lexical_walk.induct)
  case (1 check ranked found semantic)
  show ?case
  proof (cases "ranked = [] \<or> pool_size \<le> length found")
    case True
    then show ?thesis using 1 by (auto simp: lexical_walk.simps [of check ranked])
  next
    case False
    note check = "1.prems"(1)
    define page where "page = take pool_size ranked"
    define unknown where "unknown = filter (\<lambda>t. map_of semantic t = None) page"
    define semantic' where "semantic' = foldl (\<lambda>d (t, score). AList.update t score d) semantic (check unknown)"
    define found' where "found' = found @ filter (\<lambda>t. map_of semantic' t \<noteq> None) page"
    have walk: "lexical_walk check ranked found semantic = lexical_walk check (drop pool_size ranked) found' semantic'"
      using False by (subst lexical_walk.simps) (simp add: Let_def page_def unknown_def semantic'_def found'_def)
    have keys: "fst ` set semantic' = fst ` set semantic \<union> fst ` set (check unknown)"
      unfolding semantic'_def by (rule foldl_update_pairs)
    have mem: "map_of semantic' t \<noteq> None \<longleftrightarrow> t \<in> E" if "t \<in> set page" for t
    proof -
      have "map_of semantic' t \<noteq> None \<longleftrightarrow> t \<in> fst ` set semantic \<or> t \<in> set unknown \<inter> E"
        using keys by (simp add: map_of_eq_None_iff check)
      moreover have "t \<in> set unknown \<longleftrightarrow> t \<notin> fst ` set semantic"
        using that by (simp add: unknown_def map_of_eq_None_iff)
      ultimately show ?thesis using "1.prems"(2) by blast
    qed
    have found': "found' = found @ filter (\<lambda>t. t \<in> E) page"
      unfolding found'_def using mem by (simp cong: filter_cong)
    have inside: "fst ` set semantic' \<subseteq> E" using keys "1.prems"(2) by (auto simp: check)
    have known: "set found' \<subseteq> fst ` set semantic'"
      using "1.prems"(3) keys mem by (auto simp: found'_def map_of_eq_None_iff)
    have rest: "found' @ filter (\<lambda>t. t \<in> E) (drop pool_size ranked) = found @ filter (\<lambda>t. t \<in> E) ranked"
      unfolding found' page_def by (metis append.assoc append_take_drop_id filter_append)
    note IH = "1.IH" [OF False page_def unknown_def semantic'_def check inside, folded found'_def, OF known]
    have "fst ` set semantic \<subseteq> fst ` set semantic'" unfolding keys by (rule Un_upper1)
    then show ?thesis
      unfolding walk using IH [unfolded rest] by (intro conjI) (elim conjE, erule (1) order_trans | elim conjE, assumption)+
  qed
qed



section \<open>What every proposal must satisfy\<close>

definition allowed_pair :: "nat list option \<Rightarrow> nat \<Rightarrow> analysis_db \<Rightarrow> nat \<Rightarrow> bool" where
  "allowed_pair allowed source db t \<longleftrightarrow>
     t \<noteq> source \<and> list_ex (\<lambda>a. ar_id a = t \<and> ar_active a) (co_articles (an_corpus db))
       \<and> (case allowed of None \<Rightarrow> True | Some ids \<Rightarrow> t \<in> set ids)
       \<and> \<not> linked source t (an_corpus db) \<and> \<not> decided source t (an_suggestions db) \<and> \<not> mirrored source t (an_suggestions db)"

lemma pair_rows_source:
  assumes "pair_rows aw model source db = Some (a1, e1, rows)"
  shows "ar_id a1 = source"
  using assms by (auto simp: pair_rows_def dest!: get_row_Some split: option.splits)

lemma pair_rows_target:
  assumes "pair_rows aw model source db = Some (a1, e1, rows)" and "r \<in> set rows"
  shows "fst r \<in> set (co_articles (an_corpus db))" and "row_target r \<noteq> source"
proof -
  obtain e2 where "pair_row_of aw model source e1 db e2 = Some r"
    using assms by (auto simp: pair_rows_def List.map_filter_def split: option.splits)
  then obtain a2 where a2: "get_row ar_id (em_article e2) (co_articles (an_corpus db)) = Some a2" "fst r = a2" "em_article e2 \<noteq> source"
    by (auto simp: pair_row_of_def split: if_splits option.splits)
  then show "fst r \<in> set (co_articles (an_corpus db))" "row_target r \<noteq> source"
    using get_row_Some [OF a2(1)] by (simp_all add: row_target_def)
qed

lemma row_allowed:
  assumes "pair_rows aw model source db = Some (a1, e1, rows)" and "r \<in> set rows" and "baseline_eligible cfg allowed db a1 r"
  shows "allowed_pair allowed source db (row_target r)"
proof -
  note t = pair_rows_target [OF assms(1,2)]
  have "ar_active (fst r)" "case allowed of None \<Rightarrow> True | Some ids \<Rightarrow> row_target r \<in> set ids"
    "\<not> linked source (row_target r) (an_corpus db)" "\<not> decided source (row_target r) (an_suggestions db)"
    "\<not> mirrored source (row_target r) (an_suggestions db)"
    using assms(3) pair_rows_source [OF assms(1)]
    by (auto simp: baseline_eligible_def row_target_def case_prod_unfold Let_def split: option.splits)
  then show ?thesis using t by (cases allowed) (auto simp: allowed_pair_def list_ex_iff row_target_def)
qed

lemma eligible_allowed: "t \<in> eligible_targets aw cfg allowed source db \<Longrightarrow> allowed_pair allowed source db t"
  by (auto simp: eligible_targets_def pilot_eligible_def case_prod_unfold Let_def intro: row_allowed split: option.splits)

lemma nearest_rows: "x \<in> fst ` set (nearest k rows) \<Longrightarrow> \<exists>r\<in>set rows. x = row_target r"
  using nearest_keys [of k rows] by auto

lemma top_allowed:
  assumes "t \<in> fst ` set (top_candidates aw cfg allowed source k db)"
  shows "allowed_pair allowed source db t"
proof (cases "pair_rows aw (ax_model cfg) source db")
  case (Some p)
  obtain a1 e1 rows where p: "p = (a1, e1, rows)" by (cases p)
  have "t \<in> fst ` set (nearest k (filter (baseline_eligible cfg allowed db a1) rows))"
    using assms by (simp add: top_candidates_def Some p)
  from nearest_rows [OF this] show ?thesis using row_allowed [OF Some [unfolded p]] by auto
qed (use assms in \<open>simp add: top_candidates_def\<close>)

lemma nearest_length: "length (nearest k rows) \<le> k"
  by (simp add: nearest_def)

lemma top_length: "length (top_candidates aw cfg allowed source k db) \<le> k"
  using nearest_length by (auto simp: top_candidates_def split: option.splits)

section \<open>The hybrid ranking\<close>

lemma rank_outcome:
  assumes "limit \<noteq> 0"
  shows "\<exists>h. rank aw cfg hr source limit baseline db = Inr h \<and> distinct (map rc_target (hx_candidates h))
    \<and> length (hx_candidates h) \<le> limit
    \<and> rc_target ` set (hx_candidates h) \<subseteq> eligible_targets aw cfg (hr_allowed hr) source db"
proof (cases "find (\<lambda>a. ca_id a = source) (hr_articles hr) \<noteq> None \<and> map_of (hr_terms hr) source \<noteq> None")
  case False
  then show ?thesis using assms by (auto simp: rank_def split: option.splits)
next
  case True
  then obtain a terms where found: "find (\<lambda>a. ca_id a = source) (hr_articles hr) = Some a" "map_of (hr_terms hr) source = Some terms"
    by blast
  define E where "E = eligible_targets aw cfg (hr_allowed hr) source db"
  define dense where "dense = eligible_top_candidates aw cfg (hr_allowed hr) source pool_size db"
  define excluded where "excluded = set (List.map_filter (\<lambda>(s, t). if s = source then t else None) (hr_blocked hr)) \<union> duplicate_ids hr a \<union> {source}"
  define scores where "scores = score_documents (aw_log aw) (hr_index hr) terms excluded"
  define check where "check = (\<lambda>ts. eligible_candidate_scores aw cfg (hr_allowed hr) source ts db)"
  obtain walked semantic where walk: "lexical_walk check (map fst (rank_scores scores)) [] dense = (walked, semantic)" by fastforce
  have "fst ` set dense \<subseteq> E" unfolding dense_def E_def by (rule dense_keys)
  moreover have "\<And>ts. fst ` set (check ts) = set ts \<inter> E" unfolding check_def E_def by (rule eligible_scores_keys)
  ultimately have keys: "fst ` set semantic \<subseteq> E" "fst ` set dense \<subseteq> fst ` set semantic" "set walked \<subseteq> fst ` set semantic"
    using lexical_walk_spec [of check E dense "[]" "map fst (rank_scores scores)"] by (simp_all add: walk)
  define lexical where "lexical = take pool_size walked"
  have known: "map_of semantic t \<noteq> None" if "t \<in> set (take pool_size (map fst dense)) \<union> set (take pool_size lexical)" for t
  proof -
    have "t \<in> fst ` set dense \<or> t \<in> set walked" using that by (auto simp: lexical_def dest!: in_set_takeD)
    then show ?thesis unfolding map_of_keys using keys(2,3) by blast
  qed
  obtain cs where cs: "rank_hybrid_candidates (map fst dense) lexical scores semantic limit = Inr cs"
    using rank_hybrid_total [OF assms known] by blast
  note shape = hybrid_shape [OF cs]
  have "set lexical \<subseteq> E" using keys(1,3) set_take_subset [of pool_size walked] unfolding lexical_def by (meson subset_trans)
  then have "set (map fst dense) \<union> set lexical \<subseteq> E" using keys(1,2) unfolding set_map by (intro Un_least) (meson subset_trans)
  then have inside: "rc_target ` set cs \<subseteq> E" using shape(2) by (meson subset_trans)
  have "\<exists>h. rank aw cfg hr source limit baseline db = Inr h \<and> hx_candidates h = cs"
    using assms unfolding rank_def found option.case prod.case Let_def excluded_def [symmetric] dense_def [symmetric] scores_def [symmetric]
      check_def [symmetric] walk lexical_def [symmetric] cs bind_ok_simps by simp
  then show ?thesis using shape(1,3) inside by (auto simp: E_def)
qed


text \<open>C27. A hybrid ranking with a positive limit never raises, whatever the corpus, the BM25 index and the tables
  hold: every id it fuses has a semantic score. Its rows are at most \<open>limit\<close>, no target twice, and each target is an
  active page other than the source, of the allowed set, that the source does not link yet, that no suggestion in
  force already proposes for it, and that has no standing suggestion back to the source.\<close>

theorem hybrid_rank_never_fails:
  assumes "limit \<noteq> 0"
  shows "\<exists>h. rank aw cfg hr source limit baseline db = Inr h \<and> distinct (map rc_target (hx_candidates h))
    \<and> length (hx_candidates h) \<le> limit
    \<and> list_all (\<lambda>c. allowed_pair (hr_allowed hr) source db (rc_target c)) (hx_candidates h)"
proof -
  obtain h where h: "rank aw cfg hr source limit baseline db = Inr h" "distinct (map rc_target (hx_candidates h))"
    "length (hx_candidates h) \<le> limit" "rc_target ` set (hx_candidates h) \<subseteq> eligible_targets aw cfg (hr_allowed hr) source db"
    using rank_outcome [OF assms] by blast
  then have "list_all (\<lambda>c. allowed_pair (hr_allowed hr) source db (rc_target c)) (hx_candidates h)"
    unfolding list_all_iff using eligible_allowed by blast
  with h show ?thesis by blast
qed



section \<open>What a source adds\<close>

lemma insert_items_extends:
  "\<exists>rows. extends rows db (fold (insert_candidate rx source method) items db) \<and> list_all (fresh_row (rx_site rx) source) rows
     \<and> map sg_target rows = map (\<lambda>i. Some (rc_target (oc_candidate i))) items"
proof (induction items arbitrary: db)
  case (Cons i items)
  have one: "\<exists>r. extends [r] db (insert_candidate rx source method i db) \<and> fresh_row (rx_site rx) source r
      \<and> sg_target r = Some (rc_target (oc_candidate i))"
    by (simp add: insert_candidate_def extends_def add_suggestion_def Let_def fresh_row_def new_suggestion_def)
  then obtain r where r: "extends [r] db (insert_candidate rx source method i db)" "fresh_row (rx_site rx) source r"
    "sg_target r = Some (rc_target (oc_candidate i))" by blast
  obtain rows where rows: "extends rows (insert_candidate rx source method i db) (fold (insert_candidate rx source method) (i # items) db)"
    "list_all (fresh_row (rx_site rx) source) rows" "map sg_target rows = map (\<lambda>i. Some (rc_target (oc_candidate i))) items"
    using Cons.IH [of "insert_candidate rx source method i db"] by auto
  show ?case using extends_trans [OF r(1) rows(1)] r(2,3) rows(2,3) by (intro exI [of _ "r # rows"]) simp
qed simp

lemma write_source_extends:
  assumes "write_source aw cfg rx source remaining candidates method w = Inr w'"
  shows "\<exists>rows. extends rows (rs_db w) (rs_db w') \<and> list_all (fresh_row (rx_site rx) source) rows \<and> length rows \<le> nat remaining
    \<and> mset (List.map_filter sg_target rows) \<subseteq># mset (map rc_target candidates)
    \<and> rs_capacity w' = rs_capacity w - int (length rows) \<and> rs_created w' = rs_created w + length rows"
proof -
  obtain items reordered where items: "order_candidates (ordering_for cfg rx source method) remaining candidates = Inr (items, reordered)"
    using assms by (auto simp: write_source_def split: sum.splits)
  define db where "db = fold (insert_candidate rx source method) items (rs_db w)"
  obtain rows where rows: "extends rows (rs_db w) db" "list_all (fresh_row (rx_site rx) source) rows"
    "map sg_target rows = map (\<lambda>i. Some (rc_target (oc_candidate i))) items"
    using insert_items_extends unfolding db_def by blast
  have len: "length rows = length items" using rows(3) by (metis length_map)
  obtain ordered where ordered: "map oc_candidate items = take (nat remaining) ordered"
    "mset ordered \<subseteq># mset candidates"
    using order_candidates_cases [OF items] by (metis multiset_filter_subset mset_filter)
  have few: "length items \<le> nat remaining"
    by (metis length_map length_take min.cobounded2 ordered(1))
  have "mset (map oc_candidate items) \<subseteq># mset candidates"
    unfolding ordered(1) using ordered(2)
    by (metis append_take_drop_id mset_append mset_subset_eq_add_left subset_mset.order_trans)
  then have targets: "mset (map (rc_target \<circ> oc_candidate) items) \<subseteq># mset (map rc_target candidates)"
    by (metis image_mset_subseteq_mono list.map_comp mset_map)
  have internal: "List.map_filter sg_target rows = map (rc_target \<circ> oc_candidate) items"
    using rows(3) by (induction rows arbitrary: items) (auto simp: List.map_filter_simps Cons_eq_map_conv)
  define missing where "missing = remaining - int (length items)"
  define step where "step = (if 0 < missing
      then (case get_row ar_id source (co_articles (an_corpus db)) of
              None \<Rightarrow> Inl Source_disappeared
            | Some a \<Rightarrow> fill_external_suggestion_gap (aw_idna aw) (aw_embed aw) (aw_search aw) (ax_search cfg) (rx_site rx)
                (es_min_score_percent (rx_settings rx)) a missing (rx_job rx) db)
      else Inr (\<lparr>fr_searched = 0, fr_created = 0, fr_credits = 0, fr_filtered = []\<rparr>, db))"
  obtain r db2 where step: "step = Inr (r, db2)" and w': "rs_db w' = db2"
    "rs_capacity w' = rs_capacity w - int (length items + fr_created r)" "rs_created w' = rs_created w + length items + fr_created r"
    using assms unfolding write_source_def items sum.case prod.case Let_def db_def [symmetric] missing_def [symmetric] step_def [symmetric]
    by (auto simp: bind_ok_eq_Inr)
  obtain rows2 where rows2: "extends rows2 db db2" "list_all (fresh_row (rx_site rx) source) rows2"
    "list_all (\<lambda>r. sg_target r = None) rows2" "fr_created r = length rows2" "length rows2 \<le> nat missing"
  proof (cases "0 < missing")
    case True
    then obtain a where a: "get_row ar_id source (co_articles (an_corpus db)) = Some a"
      using step by (auto simp: step_def split: option.splits)
    then have "ar_id a = source" by (auto dest: get_row_Some)
    then show thesis using fill_external_extends [OF step [unfolded step_def a option.case if_P [OF True]]] that
      by (auto simp: searched_rows_def list_all_iff)
  next
    case False
    then show thesis using step that [of "[]"] by (auto simp: step_def)
  qed
  have "List.map_filter sg_target (rows @ rows2) = List.map_filter sg_target rows"
    using rows2(3) by (induction rows2) (auto simp: List.map_filter_def)
  then show ?thesis
    using extends_trans [OF rows(1) rows2(1)] rows(2) rows2(2,4,5) w' targets few
    by (intro exI [of _ "rows @ rows2"]) (auto simp: internal len missing_def)
qed



lemma source_candidates_keeps:
  assumes "source_candidates aw cfg rx source remaining w = (cs, meth, w')"
  shows "rs_db w' = rs_db w \<and> rs_capacity w' = rs_capacity w \<and> rs_created w' = rs_created w"
  using assms
  by (auto simp: source_candidates_def Let_def split: if_splits option.splits sum.splits)

text \<open>The key of the embedding table, and what the constructor of the ranker sets.\<close>

definition unique_embeddings :: "string \<Rightarrow> analysis_db \<Rightarrow> bool" where
  "unique_embeddings model db \<longleftrightarrow> distinct (map em_article (filter (\<lambda>e. em_model e = model) (an_embeddings db)))"

definition ranker_fits :: "run_context \<Rightarrow> bool" where
  "ranker_fits rx \<longleftrightarrow> (case rx_ranker rx of None \<Rightarrow> True | Some hr \<Rightarrow> hr_allowed hr = Some (sort (rx_allowed rx)))"

lemma allowed_pair_sort [simp]: "allowed_pair (Some (sort xs)) = allowed_pair (Some xs)"
  by (intro ext) (simp add: allowed_pair_def)

lemma pair_row_target:
  assumes "pair_row_of aw model source e1 db e2 = Some r"
  shows "row_target r = em_article e2" and "em_model e2 = model"
  using assms by (auto simp: pair_row_of_def row_target_def dest!: get_row_Some split: if_splits option.splits)

lemma pair_rows_distinct:
  assumes "pair_rows aw model source db = Some (a1, e1, rows)" and "unique_embeddings model db"
  shows "distinct (map row_target rows)"
proof -
  have "distinct (map row_target (List.map_filter f es)) \<and>
      set (map row_target (List.map_filter f es)) \<subseteq> em_article ` set (filter (\<lambda>e. em_model e = model) es)"
    if "\<And>e r. f e = Some r \<Longrightarrow> row_target r = em_article e \<and> em_model e = model"
      "distinct (map em_article (filter (\<lambda>e. em_model e = model) es))" for f es
    using that(2)
  proof (induction es)
    case (Cons e es)
    then have ih: "distinct (map row_target (List.map_filter f es))"
      "set (map row_target (List.map_filter f es)) \<subseteq> em_article ` set (filter (\<lambda>e. em_model e = model) es)"
      by (auto split: if_splits)
    show ?case
    proof (cases "f e")
      case None
      then have "List.map_filter f (e # es) = List.map_filter f es" by (simp add: List.map_filter_simps)
      then show ?thesis using ih by auto
    next
      case (Some r)
      then have "List.map_filter f (e # es) = r # List.map_filter f es" by (simp add: List.map_filter_simps)
      moreover have "em_article e \<notin> em_article ` set (filter (\<lambda>e. em_model e = model) es)"
        using Cons.prems that(1) [OF Some] by simp
      ultimately show ?thesis using ih that(1) [OF Some] by auto
    qed
  qed (simp add: List.map_filter_simps)
  moreover have "row_target r = em_article e \<and> em_model e = model" if "pair_row_of aw model source e1 db e = Some r" for e r
    using pair_row_target [OF that] by simp
  ultimately have "distinct (map row_target (List.map_filter (pair_row_of aw model source e1 db) (an_embeddings db)))"
    using assms(2) unfolding unique_embeddings_def by blast
  moreover have "rows = List.map_filter (pair_row_of aw model source e1 db) (an_embeddings db)"
    using assms(1) by (auto simp: pair_rows_def split: option.splits)
  ultimately show ?thesis by simp
qed

lemma top_distinct:
  assumes "unique_embeddings (ax_model cfg) db"
  shows "distinct (map fst (top_candidates aw cfg allowed source k db))"
proof (cases "pair_rows aw (ax_model cfg) source db")
  case (Some p)
  obtain a1 e1 rows where p: "p = (a1, e1, rows)" by (cases p)
  define picked where "picked = sort_key (\<lambda>r. (snd (snd (snd r)), row_target r)) (filter (baseline_eligible cfg allowed db a1) rows)"
  have "distinct (map row_target (filter (baseline_eligible cfg allowed db a1) rows))"
    using pair_rows_distinct [OF Some [unfolded p] assms] by (rule distinct_map_filter)
  then have "distinct (map row_target picked)"
    by (simp add: picked_def distinct_map)
  then have "distinct (map row_target (take k picked))" by (simp add: distinct_take flip: take_map)
  then show ?thesis by (simp add: top_candidates_def Some p nearest_def picked_def comp_def)
qed (simp add: top_candidates_def)

lemma baseline_rows_shape:
  assumes "unique_embeddings (ax_model cfg) db"
  shows "distinct (map rc_target (baseline_rows aw cfg allowed source k db))
    \<and> list_all (\<lambda>c. allowed_pair (Some allowed) source db (rc_target c)) (baseline_rows aw cfg allowed source k db)"
proof -
  have targets: "map rc_target (baseline_rows aw cfg allowed source k db) = map fst (top_candidates aw cfg (Some allowed) source k db)"
    by (simp add: baseline_rows_def cosine_candidate_def case_prod_unfold comp_def)
  have "list_all (allowed_pair (Some allowed) source db) (map rc_target (baseline_rows aw cfg allowed source k db))"
    unfolding targets list_all_iff using top_allowed by (metis list.set_map)
  then have "list_all (\<lambda>c. allowed_pair (Some allowed) source db (rc_target c)) (baseline_rows aw cfg allowed source k db)"
    by (simp only: list.pred_map comp_def)
  then show ?thesis using top_distinct [OF assms] targets by simp
qed

lemma rank_baseline:
  assumes "rank aw cfg hr source limit baseline db = Inr h"
  shows "map rc_target (hx_baseline h) = [] \<or> map rc_target (hx_baseline h) = map fst (top_candidates aw cfg (hr_allowed hr) source pool_size db)"
  using assms
  by (auto simp: rank_def Let_def bind_ok_eq_Inr cosine_candidate_def case_prod_unfold comp_def split: if_splits option.splits)

lemma rank_limit: "rank aw cfg hr source limit baseline db = Inr h \<Longrightarrow> limit \<noteq> 0"
  by (intro notI) (simp add: rank_def)

lemma source_candidates_allowed:
  assumes found: "source_candidates aw cfg rx source remaining w = (cs, meth, w')"
    and fits: "ranker_fits rx" and unique: "unique_embeddings (ax_model cfg) (rs_db w)"
  shows "distinct (map rc_target cs) \<and> list_all (\<lambda>c. allowed_pair (Some (rx_allowed rx)) source (rs_db w) (rc_target c)) cs"
proof -
  define ok where "ok = (\<lambda>cs :: ranked_candidate list. distinct (map rc_target cs) \<and> list_all (\<lambda>c. allowed_pair (Some (rx_allowed rx)) source (rs_db w) (rc_target c)) cs)"
  have plain: "ok (baseline_rows aw cfg (rx_allowed rx) source k (rs_db w))" for k
    unfolding ok_def by (rule baseline_rows_shape [OF unique])
  have none: "ok []" by (simp add: ok_def)
  have shorter: "ok xs \<Longrightarrow> ok (take n xs)" for xs n
    unfolding ok_def by (auto simp: list_all_iff distinct_take simp flip: take_map dest!: in_set_takeD)
  have ranked: "ok (hx_candidates h) \<and> ok (hx_baseline h)"
    if hr: "rx_ranker rx = Some hr" and h: "rank aw cfg hr source limit baseline (rs_db w) = Inr h" for hr limit baseline h
  proof
    have allowed: "allowed_pair (hr_allowed hr) = allowed_pair (Some (rx_allowed rx))"
      using fits by (simp add: ranker_fits_def hr)
    have shape: "distinct (map rc_target (hx_candidates h))"
      "rc_target ` set (hx_candidates h) \<subseteq> eligible_targets aw cfg (hr_allowed hr) source (rs_db w)"
      using rank_outcome [OF rank_limit [OF h], of aw cfg hr source baseline "rs_db w"] h by auto
    then show "ok (hx_candidates h)"
      unfolding ok_def list_all_iff allowed [symmetric] using eligible_allowed by blast
    have "map rc_target (hx_baseline h) = [] \<or> map rc_target (hx_baseline h) = map fst (top_candidates aw cfg (hr_allowed hr) source pool_size (rs_db w))"
      by (rule rank_baseline [OF h])
    moreover have "list_all (allowed_pair (hr_allowed hr) source (rs_db w)) (map fst (top_candidates aw cfg (hr_allowed hr) source pool_size (rs_db w)))"
      unfolding list_all_iff using top_allowed by (metis list.set_map)
    ultimately have "distinct (map rc_target (hx_baseline h)) \<and> list_all (allowed_pair (hr_allowed hr) source (rs_db w)) (map rc_target (hx_baseline h))"
      using top_distinct [OF unique] by auto
    then show "ok (hx_baseline h)" by (simp only: ok_def allowed list.pred_map comp_def)
  qed
  have "ok cs"
    using found plain none shorter ranked
    by (auto simp: source_candidates_def Let_def split: if_splits option.splits sum.splits)
  then show ?thesis by (simp only: ok_def)
qed



lemma distinct_submset:
  assumes "mset xs \<subseteq># mset ys" and "distinct ys"
  shows "distinct xs"
proof -
  obtain zs where "mset ys = mset (xs @ zs)"
    using assms(1) by (metis ex_mset mset_append subset_mset.less_eqE)
  then show ?thesis using assms(2) by (metis distinct_append mset_eq_imp_distinct_iff)
qed

lemma source_step_extends:
  assumes "source_step aw cfg rx source w = Next w' \<or> source_step aw cfg rx source w = Stop w'"
  shows "\<exists>rows. extends rows (rs_db w) (rs_db w') \<and> list_all (fresh_row (rx_site rx) source) rows
    \<and> int (length rows) \<le> max 0 (remaining_room cfg rx source w)
    \<and> rs_capacity w' = rs_capacity w - int (length rows) \<and> rs_created w' = rs_created w + length rows
    \<and> (ranker_fits rx \<and> unique_embeddings (ax_model cfg) (rs_db w)
         \<longrightarrow> distinct (List.map_filter sg_target rows)
           \<and> list_all (allowed_pair (Some (rx_allowed rx)) source (rs_db w)) (List.map_filter sg_target rows))"
proof -
  define remaining where "remaining = remaining_room cfg rx source w"
  define v where "v = w\<lparr>rs_selected := rs_selected w + (if rx_mode rx = Hybrid_mode \<and> 0 < remaining then 1 else 0),
      rs_eligible := rs_eligible w + (if 0 < remaining then 1 else 0)\<rparr>"
  obtain cs meth u where found: "source_candidates aw cfg rx source remaining v = (cs, meth, u)"
    by (cases "source_candidates aw cfg rx source remaining v")
  have v: "rs_db v = rs_db w" "rs_capacity v = rs_capacity w" "rs_created v = rs_created w" by (simp_all add: v_def)
  note u = source_candidates_keeps [OF found, unfolded v]
  consider "rs_db w' = rs_db w" "rs_capacity w' = rs_capacity w" "rs_created w' = rs_created w"
    | "0 < remaining" "write_source aw cfg rx source remaining cs meth u = Inr w'"
    using assms u unfolding source_step_def Let_def remaining_def [symmetric] v_def [symmetric] found
    by (auto split: if_splits sum.splits)
  then show ?thesis
  proof cases
    case 1
    then show ?thesis by (intro exI [of _ "[]"]) (simp add: List.map_filter_simps)
  next
    case 2
    obtain rows where rows: "extends rows (rs_db u) (rs_db w')" "list_all (fresh_row (rx_site rx) source) rows"
      "length rows \<le> nat remaining" "mset (List.map_filter sg_target rows) \<subseteq># mset (map rc_target cs)"
      "rs_capacity w' = rs_capacity u - int (length rows)" "rs_created w' = rs_created u + length rows"
      using write_source_extends [OF 2(2)] by blast
    have "distinct (List.map_filter sg_target rows)
        \<and> list_all (allowed_pair (Some (rx_allowed rx)) source (rs_db w)) (List.map_filter sg_target rows)"
      if "ranker_fits rx \<and> unique_embeddings (ax_model cfg) (rs_db w)"
    proof -
      have cs: "distinct (map rc_target cs)" "list_all (allowed_pair (Some (rx_allowed rx)) source (rs_db w)) (map rc_target cs)"
        using source_candidates_allowed [OF found] that v by (simp_all add: list.pred_map comp_def)
      have "distinct (List.map_filter sg_target rows)"
        using distinct_submset [OF rows(4) cs(1)] .
      moreover have "set (List.map_filter sg_target rows) \<subseteq> set (map rc_target cs)"
        using rows(4) by (metis set_mset_mono set_mset_mset)
      ultimately show ?thesis using cs(2) unfolding list_all_iff by blast
    qed
    then show ?thesis using rows 2(1) u by (intro exI [of _ rows]) (simp add: remaining_def)
  qed
qed

section \<open>The run keeps its caps\<close>

lemma extends_empty: "extends [] db db' \<Longrightarrow> an_suggestions db' = an_suggestions db"
  by (simp add: extends_def)

lemma run_sources_extends:
  assumes "run_sources aw cfg rx visited sources w = (out, w')" and "distinct sources"
  shows "\<exists>rows. extends rows (rs_db w) (rs_db w')
    \<and> list_all (\<lambda>s. sg_site s = rx_site rx \<and> sg_status s = Pending \<and> sg_source s \<in> set sources) rows
    \<and> int (length rows) \<le> max 0 (rs_capacity w)
    \<and> (\<forall>a. int (length (filter (\<lambda>s. sg_source s = a) rows)) \<le> max 0 (int (ax_cap cfg) - int (rx_open rx a)))
    \<and> (\<forall>a. int (length (filter (\<lambda>s. sg_source s = a) rows)) \<le> max 0 (int (ax_lifetime cfg) - int (rx_given rx a)))
    \<and> rs_created w' = rs_created w + length rows"
  using assms
proof (induction sources arbitrary: visited w)
  case (Cons a sources)
  have step: "\<exists>rows. extends rows (rs_db w) (rs_db v) \<and> list_all (fresh_row (rx_site rx) a) rows
      \<and> int (length rows) \<le> max 0 (remaining_room cfg rx a w)
      \<and> rs_capacity v = rs_capacity w - int (length rows) \<and> rs_created v = rs_created w + length rows"
    if "source_step aw cfg rx a w = Next v \<or> source_step aw cfg rx a w = Stop v" for v
    using source_step_extends [OF that] by blast
  have only: "filter (\<lambda>s. sg_source s = b) rows = (if b = a then rows else [])" if "list_all (fresh_row (rx_site rx) a) rows" for b rows
    using that by (induction rows) (auto simp: fresh_row_def)
  show ?case
  proof (cases "source_step aw cfg rx a w")
    case (Stop v)
    then have "w' = v" using Cons.prems by simp
    obtain rows where "extends rows (rs_db w) (rs_db v)" "list_all (fresh_row (rx_site rx) a) rows"
      "int (length rows) \<le> max 0 (remaining_room cfg rx a w)" "rs_created v = rs_created w + length rows"
      using step Stop by blast
    then show ?thesis unfolding \<open>w' = v\<close>
      by (intro exI [of _ rows]) (auto simp: only remaining_room_def fresh_row_def elim: list.pred_mono_strong)
  next
    case (Abort e)
    then show ?thesis using Cons.prems by (intro exI [of _ "[]"]) simp
  next
    case (Next v)
    obtain rows where rows: "extends rows (rs_db w) (rs_db v)" "list_all (fresh_row (rx_site rx) a) rows"
      "int (length rows) \<le> max 0 (remaining_room cfg rx a w)" "rs_capacity v = rs_capacity w - int (length rows)"
      "rs_created v = rs_created w + length rows"
      using step Next by blast
    obtain later where later: "extends later (rs_db v) (rs_db w')"
      "list_all (\<lambda>s. sg_site s = rx_site rx \<and> sg_status s = Pending \<and> sg_source s \<in> set sources) later"
      "int (length later) \<le> max 0 (rs_capacity v)"
      "\<And>b. int (length (filter (\<lambda>s. sg_source s = b) later)) \<le> max 0 (int (ax_cap cfg) - int (rx_open rx b))"
      "\<And>b. int (length (filter (\<lambda>s. sg_source s = b) later)) \<le> max 0 (int (ax_lifetime cfg) - int (rx_given rx b))"
      "rs_created w' = rs_created v + length later"
      using Cons.IH [of "Some a" v] Cons.prems Next by auto
    have "filter (\<lambda>s. sg_source s = a) later = []"
      using later(2) Cons.prems(2) by (auto simp: filter_empty_conv list_all_iff)
    then have count: "length (filter (\<lambda>s. sg_source s = b) (rows @ later))
        = (if b = a then length rows else length (filter (\<lambda>s. sg_source s = b) later))" for b
      using only [OF rows(2)] by simp
    have "list_all (\<lambda>s. sg_site s = rx_site rx \<and> sg_status s = Pending \<and> sg_source s \<in> set (a # sources)) (rows @ later)"
      using rows(2) later(2) by (auto simp: list_all_iff fresh_row_def)
    moreover have "int (length (rows @ later)) \<le> max 0 (rs_capacity w)"
      using rows(3,4) later(3) by (auto simp: remaining_room_def max_def min_def split: if_splits)
    moreover have "int (length (filter (\<lambda>s. sg_source s = b) (rows @ later))) \<le> max 0 (int (ax_cap cfg) - int (rx_open rx b))"
      "int (length (filter (\<lambda>s. sg_source s = b) (rows @ later))) \<le> max 0 (int (ax_lifetime cfg) - int (rx_given rx b))" for b
      using rows(3) later(4,5) [of b] unfolding count by (auto simp: remaining_room_def)
    ultimately show ?thesis
      using extends_trans [OF rows(1) later(1)] rows(5) later(6) by (intro exI [of _ "rows @ later"]) simp
  qed
qed (auto intro: exI [of _ "[]"])



section \<open>What comes before the sources\<close>

definition keeps_corpus :: "string \<Rightarrow> analysis_db \<Rightarrow> analysis_db \<Rightarrow> bool" where
  "keeps_corpus model db db' \<longleftrightarrow> an_corpus db' = an_corpus db \<and> (unique_embeddings model db \<longrightarrow> unique_embeddings model db')"

lemma keeps_refl [simp]: "keeps_corpus model db db"
  by (simp add: keeps_corpus_def)

lemma keeps_trans: "keeps_corpus model db db' \<Longrightarrow> keeps_corpus model db' db'' \<Longrightarrow> keeps_corpus model db db''"
  by (simp add: keeps_corpus_def)

lemma store_embedding_keeps: "keeps_corpus model db (store_embedding aw model av db)"
proof -
  obtain a v where av: "av = (a, v)" by (cases av)
  have new: "embedding_of model i db = None \<longleftrightarrow> i \<notin> em_article ` set (filter (\<lambda>e. em_model e = model) (an_embeddings db))" for i
    by (auto simp: embedding_of_def find_None_iff)
  have replace: "map em_article (filter (\<lambda>e. em_model e = model) (update_where (\<lambda>e. em_article e = i \<and> em_model e = model) (\<lambda>_. row) es))
      = map em_article (filter (\<lambda>e. em_model e = model) es)" if "em_article row = i" "em_model row = model" for row i es
    using that by (induction es) (auto simp: update_where_def)
  show ?thesis
    unfolding keeps_corpus_def unique_embeddings_def
    by (cases "embedding_of model (ar_id a) db = None") (simp_all add: store_embedding_def av Let_def replace new)
qed

lemma store_embeddings_keep: "keeps_corpus model db (fold (store_embedding aw model) avs db)"
proof (induction avs arbitrary: db)
  case (Cons av avs)
  show ?case using keeps_trans [OF store_embedding_keeps Cons.IH] by simp
qed simp

lemma embed_page_keeps: "embed_page aw cfg page db = Inr (n, db') \<Longrightarrow> keeps_corpus (ax_model cfg) db db'"
  by (auto simp: embed_page_def Let_def store_embeddings_keep split: if_splits)

lemma embed_pages_keep: "keeps_corpus (ax_model cfg) db (snd (embed_pages aw cfg articles encoded db))"
proof (induction aw cfg articles encoded db rule: embed_pages.induct)
  case (1 aw cfg articles encoded db)
  show ?case
  proof (cases "articles = []")
    case False
    show ?thesis
    proof (cases "embed_page aw cfg (take batch_size articles) db")
      case (Inr p)
      obtain n d where "p = (n, d)" by (cases p)
      then show ?thesis
        using 1 [OF False] False Inr keeps_trans [OF embed_page_keeps] by (auto simp: embed_pages.simps [of _ _ articles])
    qed (simp add: embed_pages.simps [of _ _ articles])
  qed (simp add: embed_pages.simps)
qed

lemma embed_missing_keeps: "keeps_corpus (ax_model cfg) db (snd (embed_missing aw cfg site db))"
  by (simp add: embed_missing_def embed_pages_keep)

lemma embed_sites_keep: "keeps_corpus (ax_model cfg) db (snd (embed_sites aw cfg sites encoded db))"
proof (induction sites arbitrary: encoded db)
  case (Cons s sites)
  obtain r d where r: "embed_missing aw cfg s db = (r, d)" by fastforce
  have "keeps_corpus (ax_model cfg) db d" using embed_missing_keeps [of cfg db aw s] by (simp add: r)
  then show ?case using Cons.IH keeps_trans by (auto simp: r split: sum.splits)
qed simp

lemma snapshot_keeps:
  assumes "ensure_graph_snapshot sha gc now site (an_graph db) = Inr (snapshot, created, g)"
  shows "keeps_corpus model db (db\<lparr>an_graph := g\<rparr>)"
proof -
  have "gd_corpus g = an_corpus db"
    using assms by (auto simp: ensure_graph_snapshot_def Let_def bind_ok_eq_Inr split: prod.splits option.splits)
  then show ?thesis by (simp add: keeps_corpus_def unique_embeddings_def)
qed

text \<open>A run either stops before the sources, with the corpus as it was, or runs them on such a table.\<close>

lemma analysis_cases:
  assumes gen: "generate_suggestions aw cfg settings today now site job article override comparison db = (result, db')"
  shows "(an_corpus db' = an_corpus db \<and> (\<exists>e. result = Inl e))
    \<or> (\<exists>d mode targets snapshot encoded. keeps_corpus (ax_model cfg) db d
         \<and> suggest aw cfg (settings site) site job article mode comparison targets snapshot encoded d = (result, db'))"
proof -
  have stop: ?thesis if "keeps_corpus (ax_model cfg) db d" "(Inl e, d) = (result, db')" for e d
    using that by (auto simp: keeps_corpus_def)
  show ?thesis
  proof (cases "get_row site_id site (an_sites db)")
    case None
    then show ?thesis using gen by (intro stop [OF keeps_refl]) (auto simp: generate_suggestions_def)
  next
    case (Some st)
    define ctx where "ctx = bind_ok (external_target_context (aw_idna aw) today site db) (\<lambda>c. bind_ok (validate_embedding_dimension aw) (\<lambda>_. Inr c))"
    note gen1 = gen [unfolded generate_suggestions_def Some option.case, folded ctx_def]
    show ?thesis
    proof (cases "site_platform st = Pool \<or> (\<exists>e. ctx = Inl e)")
      case True
      then obtain e where "(Inl e, db) = (result, db')" using gen1 by (auto split: if_splits)
      then show ?thesis by (rule stop [OF keeps_refl])
    next
      case False
      then obtain targets where ctx: "ctx = Inr targets" by (cases ctx) auto
      obtain r1 d1 where d1: "embed_missing aw cfg site db = (r1, d1)" by fastforce
      have k1: "keeps_corpus (ax_model cfg) db d1" using embed_missing_keeps [of cfg db aw site] by (simp add: d1)
      note gen2 = gen1 [unfolded ctx sum.case d1 prod.case]
      show ?thesis
      proof (cases r1)
        case (Inl e)
        then show ?thesis using gen2 False by (intro stop [OF k1, of e]) auto
      next
        case (Inr n)
        note gen3 = gen2 [unfolded Inr sum.case]
        show ?thesis
        proof (cases "ensure_graph_snapshot (aw_sha aw) (ax_graph cfg) now site (an_graph d1)")
          case (Inl e)
          then show ?thesis using gen3 False by (intro stop [OF k1, of Graph_failed]) auto
        next
          case (Inr p)
          obtain snapshot created g where p: "p = (snapshot, created, g)" by (cases p)
          define d2 where "d2 = d1\<lparr>an_graph := g\<rparr>"
          have k2: "keeps_corpus (ax_model cfg) db d2"
            unfolding d2_def by (rule keeps_trans [OF k1 snapshot_keeps [OF Inr [unfolded p]]])
          note gen4 = gen3 [unfolded Inr p sum.case prod.case Let_def, folded d2_def]
          define pools where "pools = sort (remdups (map ar_site (filter (\<lambda>a. ar_id a \<in> set (fst targets) \<and> ar_site a \<noteq> site) (co_articles (an_corpus d2)))))"
          obtain r3 d3 where d3: "embed_sites aw cfg pools n d2 = (r3, d3)" by fastforce
          have k3: "keeps_corpus (ax_model cfg) db d3"
            using keeps_trans [OF k2 embed_sites_keep [of cfg d2 aw pools n]] by (simp add: d3)
          have out: "(case r3 of Inl e \<Rightarrow> (Inl e, d3)
              | Inr encoded \<Rightarrow>
                  (case ranking_mode_of override of
                     Inl e \<Rightarrow> (Inl e, d3)
                   | Inr mode \<Rightarrow>
                       if comparison \<and> mode \<noteq> Shadow_mode then (Inl Comparison_needs_shadow, d3)
                       else suggest aw cfg (settings site) site job article mode comparison targets snapshot encoded d3)) = (result, db')"
            using gen4 False by (simp add: pools_def [symmetric] d3 split: sum.splits)
          show ?thesis
          proof (cases r3)
            case (Inl e)
            then show ?thesis using out by (intro stop [OF k3, of e]) simp
          next
            case (Inr encoded)
            note out = out [unfolded Inr sum.case]
            show ?thesis
            proof (cases "ranking_mode_of override")
              case (Inl e)
              then show ?thesis using out by (intro stop [OF k3, of e]) simp
            next
              case (Inr mode)
              show ?thesis
              proof (cases "comparison \<and> mode \<noteq> Shadow_mode")
                case True
                then show ?thesis using out Inr by (intro stop [OF k3, of Comparison_needs_shadow]) simp
              next
                case False
                then show ?thesis using out [unfolded Inr sum.case if_not_P [OF False]] k3 by blast
              qed
            qed
          qed
        qed
      qed
    qed
  qed
qed



section \<open>Pairs\<close>

definition live_pairs :: "suggestion list \<Rightarrow> (nat \<times> nat option) list" where
  "live_pairs ss = map (\<lambda>s. (sg_source s, sg_target s)) (filter (\<lambda>s. sg_target s \<noteq> None \<and> sg_status s \<noteq> Expired) ss)"

text \<open>No pair is on record twice unless it expired, and no two standing rows link a pair of pages both ways.\<close>

definition pairs_sound :: "suggestion list \<Rightarrow> bool" where
  "pairs_sound ss \<longleftrightarrow> distinct (live_pairs ss)
     \<and> list_all (\<lambda>s. case sg_target s of None \<Rightarrow> True | Some t \<Rightarrow> sg_status s \<notin> standing \<or> \<not> mirrored (sg_source s) t ss) ss"

lemma map_filter_mem: "t \<in> set (List.map_filter f xs) \<longleftrightarrow> (\<exists>x\<in>set xs. f x = Some t)"
  by (force simp: List.map_filter_def)

lemma fresh_live_pairs:
  "list_all (fresh_row site source) rows \<Longrightarrow> live_pairs rows = map (\<lambda>t. (source, Some t)) (List.map_filter sg_target rows)"
proof (induction rows)
  case (Cons r rows)
  then show ?case by (cases "sg_target r") (auto simp: live_pairs_def fresh_row_def List.map_filter_simps)
qed (simp add: live_pairs_def List.map_filter_simps)

lemma pairs_sound_step:
  assumes sound: "pairs_sound ss" and fresh: "list_all (fresh_row site source) rows"
    and dist: "distinct (List.map_filter sg_target rows)"
    and ok: "\<And>t. t \<in> set (List.map_filter sg_target rows) \<Longrightarrow> t \<noteq> source \<and> \<not> decided source t ss \<and> \<not> mirrored source t ss"
  shows "pairs_sound (ss @ rows)"
proof -
  have rowsD: "sg_source r = source" "sg_status r = Pending" if "r \<in> set rows" for r
    using fresh that by (auto simp: list_all_iff fresh_row_def)
  have "live_pairs (ss @ rows) = live_pairs ss @ live_pairs rows" by (simp add: live_pairs_def)
  moreover have "distinct (live_pairs rows)"
    using dist by (simp add: fresh_live_pairs [OF fresh] distinct_map inj_on_def)
  moreover have "set (live_pairs ss) \<inter> set (live_pairs rows) = {}"
  proof -
    have "(source, Some t) \<notin> set (live_pairs ss)" if "t \<in> set (List.map_filter sg_target rows)" for t
      using ok [OF that] by (auto simp: live_pairs_def decided_def list_ex_iff)
    then show ?thesis unfolding fresh_live_pairs [OF fresh] by auto
  qed
  moreover have "distinct (live_pairs ss)" using sound by (simp add: pairs_sound_def)
  ultimately have distinct_all: "distinct (live_pairs (ss @ rows))" by simp
  have old: "\<not> mirrored (sg_source s) t (ss @ rows)" if s: "s \<in> set ss" "sg_target s = Some t" "sg_status s \<in> standing" for s t
  proof
    assume "mirrored (sg_source s) t (ss @ rows)"
    moreover have "\<not> mirrored (sg_source s) t ss"
      using sound s by (auto simp: pairs_sound_def list_all_iff)
    ultimately obtain r where r: "r \<in> set rows" "sg_source r = t" "sg_target r = Some (sg_source s)"
      by (auto simp: mirrored_def list_ex_iff)
    then have "t = source" "sg_source s \<in> set (List.map_filter sg_target rows)"
      using rowsD by (auto simp: map_filter_mem)
    moreover have "mirrored source (sg_source s) ss"
      using s \<open>t = source\<close> by (auto simp: mirrored_def list_ex_iff)
    ultimately show False using ok by blast
  qed
  have new: "\<not> mirrored (sg_source r) t (ss @ rows)" if r: "r \<in> set rows" "sg_target r = Some t" for r t
  proof
    assume m: "mirrored (sg_source r) t (ss @ rows)"
    have t: "t \<in> set (List.map_filter sg_target rows)" using r by (auto simp: map_filter_mem)
    then have "\<not> mirrored source t ss" "t \<noteq> source" using ok by auto
    with m rowsD(1) [OF r(1)] obtain r' where "r' \<in> set rows" "sg_source r' = t" by (auto simp: mirrored_def list_ex_iff)
    then show False using rowsD(1) \<open>t \<noteq> source\<close> by auto
  qed
  show ?thesis
    unfolding pairs_sound_def list_all_iff using distinct_all old new by (auto split: option.splits)
qed

lemma unique_extends: "extends rows db db' \<Longrightarrow> unique_embeddings model db \<Longrightarrow> unique_embeddings model db'"
  by (simp add: extends_def unique_embeddings_def)

lemma run_sources_pairs:
  assumes "run_sources aw cfg rx visited sources w = (out, w')" and fits: "ranker_fits rx"
    and "unique_embeddings (ax_model cfg) (rs_db w)" and "pairs_sound (an_suggestions (rs_db w))"
  shows "pairs_sound (an_suggestions (rs_db w'))"
  using assms(1,3,4)
proof (induction sources arbitrary: visited w)
  case (Cons a sources)
  have step: "pairs_sound (an_suggestions (rs_db v)) \<and> unique_embeddings (ax_model cfg) (rs_db v)"
    if st: "source_step aw cfg rx a w = Next v \<or> source_step aw cfg rx a w = Stop v" for v
  proof -
    obtain rows where rows: "extends rows (rs_db w) (rs_db v)" "list_all (fresh_row (rx_site rx) a) rows"
      "distinct (List.map_filter sg_target rows)"
      "list_all (allowed_pair (Some (rx_allowed rx)) a (rs_db w)) (List.map_filter sg_target rows)"
      using source_step_extends [OF st] fits Cons.prems(2) by blast
    have "pairs_sound (an_suggestions (rs_db w) @ rows)"
      using Cons.prems(3) rows(2,3)
    proof (rule pairs_sound_step)
      fix t
      assume "t \<in> set (List.map_filter sg_target rows)"
      then have "allowed_pair (Some (rx_allowed rx)) a (rs_db w) t" using rows(4) by (auto simp: list_all_iff)
      then show "t \<noteq> a \<and> \<not> decided a t (an_suggestions (rs_db w)) \<and> \<not> mirrored a t (an_suggestions (rs_db w))"
        by (simp add: allowed_pair_def)
    qed
    then show ?thesis using rows(1) unique_extends [OF rows(1) Cons.prems(2)] by (simp add: extends_def)
  qed
  show ?case
  proof (cases "source_step aw cfg rx a w")
    case (Next v)
    then show ?thesis using step Cons.prems Cons.IH [of "Some a" v] by simp
  next
    case (Stop v)
    then show ?thesis using step Cons.prems by simp
  next
    case (Abort e)
    then show ?thesis using Cons.prems by simp
  qed
qed simp

section \<open>A whole run\<close>

definition run_sources_of :: "nat \<Rightarrow> nat option \<Rightarrow> analysis_db \<Rightarrow> nat list" where
  "run_sources_of site article db = filter (\<lambda>i. case article of None \<Rightarrow> True | Some a \<Rightarrow> i = a) (map ar_id (active_articles site db))"

lemma load_ranker_fits: "load_ranker cfg site allowed db = Inr hr \<Longrightarrow> hr_allowed hr = map_option sort allowed"
  by (auto simp: load_ranker_def new_ranker_def Let_def bind_ok_eq_Inr split: if_splits)

lemma suggest_run:
  assumes "suggest aw cfg es site job article mode comparison targets snapshot encoded db = (result, db')"
  obtains rx out w w' where "run_sources aw cfg rx article (run_sources_of site article db) w = (out, w')"
    and "rs_db w = db" and "rs_db w' = db'" and "ranker_fits rx" and "rx_site rx = site" and "rs_created w = 0"
    and "rs_capacity w = int (site_capacity cfg site (run_sources_of site article db) (an_suggestions db))"
    and "rx_open rx = (\<lambda>i. count_of site open_statuses i (an_suggestions db))"
    and "rx_given rx = (\<lambda>i. count_of site lifetime_statuses i (an_suggestions db))"
    and "\<And>az. result = Inr az \<Longrightarrow> az_final az = w' \<and> out = Inr (az_source_article az)"
proof -
  define sources where "sources = run_sources_of site article db"
  define rx where "rx = \<lparr>rx_site = site, rx_job = job, rx_mode = mode, rx_comparison = comparison, rx_settings = es,
     rx_profile = load_editorial_feedback es site (an_suggestions db), rx_allowed = fst targets, rx_trust = snd targets,
     rx_snapshot = snapshot, rx_features = snapshot_features (gs_id snapshot) (an_graph db),
     rx_ranker = (if mode = Baseline_mode then None
       else case load_ranker cfg site (Some (fst targets)) db of Inl _ \<Rightarrow> None | Inr hr \<Rightarrow> Some hr),
     rx_shadow = (if mode = Shadow_mode then evenly_spaced_ids sources (ax_sources cfg) else {}),
     rx_open = (\<lambda>i. count_of site open_statuses i (an_suggestions db)),
     rx_given = (\<lambda>i. count_of site lifetime_statuses i (an_suggestions db))\<rparr>"
  define start where "start = \<lparr>rs_db = db, rs_capacity = int (site_capacity cfg site sources (an_suggestions db)), rs_created = 0,
     rs_eligible = 0, rs_hybrid = 0, rs_fallback = 0, rs_dense = 0, rs_lexical = 0, rs_union = 0, rs_overlap = 0, rs_exact = 0,
     rs_selected = 0, rs_searches = 0, rs_external = 0, rs_credits = 0, rs_filtered = [], rs_reordered = 0\<rparr>"
  obtain out w' where run: "run_sources aw cfg rx article sources start = (out, w')" by fastforce
  have result: "(case run_sources aw cfg rx article sources start of
         (Inl e, w) \<Rightarrow> (Inl e, rs_db w)
       | (Inr visited, w) \<Rightarrow> (Inr (analysis_summary rx visited encoded w), rs_db w)) = (result, db')"
    using assms unfolding suggest_def Let_def sources_def rx_def start_def run_sources_of_def .
  have fits: "ranker_fits rx"
    using load_ranker_fits [of cfg site "Some (fst targets)" db]
    by (cases "load_ranker cfg site (Some (fst targets)) db") (simp_all add: ranker_fits_def rx_def)
  show thesis
  proof (rule that)
    show "run_sources aw cfg rx article (run_sources_of site article db) start = (out, w')" using run by (simp add: sources_def)
    show "rs_db w' = db'" using result by (auto simp: run split: sum.splits)
    show "az_final az = w' \<and> out = Inr (az_source_article az)" if "result = Inr az" for az
      using result that by (auto simp: run analysis_summary_def split: sum.splits)
    show "ranker_fits rx" by (rule fits)
  qed (simp_all add: start_def rx_def sources_def)
qed

lemma count_fresh:
  assumes "list_all (\<lambda>s. sg_site s = site \<and> sg_status s = Pending) rows" and "Pending \<in> statuses"
  shows "count_of site statuses a (ss @ rows) = count_of site statuses a ss + length (filter (\<lambda>s. sg_source s = a) rows)"
proof -
  have "filter (\<lambda>s. sg_site s = site \<and> sg_status s \<in> statuses \<and> sg_source s = a) rows = filter (\<lambda>s. sg_source s = a) rows"
    using assms by (intro filter_cong) (auto simp: list_all_iff)
  then show ?thesis by (simp add: count_of_def)
qed

definition open_total :: "nat \<Rightarrow> suggestion list \<Rightarrow> nat" where
  "open_total site ss = length (filter (\<lambda>s. sg_site s = site \<and> sg_status s \<in> open_statuses) ss)"

lemma open_total_fresh:
  assumes "list_all (\<lambda>s. sg_site s = site \<and> sg_status s = Pending) rows"
  shows "open_total site (ss @ rows) = open_total site ss + length rows"
proof -
  have "filter (\<lambda>s. sg_site s = site \<and> sg_status s \<in> open_statuses) rows = rows"
    using assms by (auto simp: list_all_iff filter_id_conv open_statuses_def)
  then show ?thesis by (simp add: open_total_def)
qed

lemma run_sources_distinct: "primary ar_id (co_articles (an_corpus db)) \<Longrightarrow> distinct (run_sources_of site article db)"
  unfolding run_sources_of_def active_articles_def primary_def
  by (intro distinct_filter) (simp add: distinct_map_filter distinct_map inj_on_def)

lemma run_sources_active:
  "i \<in> set (run_sources_of site article db) \<Longrightarrow> active_site_article site (an_corpus db) i \<and> (case article of None \<Rightarrow> True | Some a \<Rightarrow> i = a)"
  by (auto simp: run_sources_of_def active_articles_def active_site_article_def list_ex_iff)

lemma analysis_rows:
  assumes articles: "primary ar_id (co_articles (an_corpus db))"
    and gen: "generate_suggestions aw cfg settings today now site job article override comparison db = (result, db')"
  shows "\<exists>rows. an_suggestions db' = an_suggestions db @ rows
    \<and> list_all (\<lambda>s. sg_site s = site \<and> sg_status s = Pending \<and> sg_source s \<in> set (run_sources_of site article db)) rows
    \<and> length rows \<le> site_capacity cfg site (run_sources_of site article db) (an_suggestions db)
    \<and> (\<forall>a. length (filter (\<lambda>s. sg_source s = a) rows) \<le> ax_cap cfg - count_of site open_statuses a (an_suggestions db))
    \<and> (\<forall>a. length (filter (\<lambda>s. sg_source s = a) rows) \<le> ax_lifetime cfg - count_of site lifetime_statuses a (an_suggestions db))
    \<and> (\<forall>az. result = Inr az \<longrightarrow> rs_created (az_final az) = length rows)"
proof -
  consider "an_corpus db' = an_corpus db" "\<exists>e. result = Inl e"
    | d mode targets snapshot encoded where "keeps_corpus (ax_model cfg) db d"
        "suggest aw cfg (settings site) site job article mode comparison targets snapshot encoded d = (result, db')"
    using analysis_cases [OF gen] by blast
  then show ?thesis
  proof cases
    case 1
    then show ?thesis by (intro exI [of _ "[]"]) auto
  next
    case 2
    have same: "an_corpus d = an_corpus db" using 2(1) by (simp add: keeps_corpus_def)
    then have sources: "run_sources_of site article d = run_sources_of site article db"
      by (simp add: run_sources_of_def active_articles_def)
    obtain rx out w w' where run: "run_sources aw cfg rx article (run_sources_of site article db) w = (out, w')"
      and w: "rs_db w = d" "rs_db w' = db'" "rx_site rx = site" "rs_created w = 0"
        "rs_capacity w = int (site_capacity cfg site (run_sources_of site article db) (an_suggestions db))"
        "rx_open rx = (\<lambda>i. count_of site open_statuses i (an_suggestions db))"
        "rx_given rx = (\<lambda>i. count_of site lifetime_statuses i (an_suggestions db))"
      and final: "\<And>az. result = Inr az \<Longrightarrow> az_final az = w' \<and> out = Inr (az_source_article az)"
      using suggest_run [OF 2(2)] unfolding sources same by metis
    obtain rows where rows: "extends rows d db'"
      "list_all (\<lambda>s. sg_site s = site \<and> sg_status s = Pending \<and> sg_source s \<in> set (run_sources_of site article db)) rows"
      "int (length rows) \<le> max 0 (rs_capacity w)"
      "\<And>a. int (length (filter (\<lambda>s. sg_source s = a) rows)) \<le> max 0 (int (ax_cap cfg) - int (rx_open rx a))"
      "\<And>a. int (length (filter (\<lambda>s. sg_source s = a) rows)) \<le> max 0 (int (ax_lifetime cfg) - int (rx_given rx a))"
      "rs_created w' = length rows"
      using run_sources_extends [OF run run_sources_distinct [OF articles]] unfolding w by auto
    have "length (filter (\<lambda>s. sg_source s = a) rows) \<le> ax_cap cfg - count_of site open_statuses a (an_suggestions db)"
      "length (filter (\<lambda>s. sg_source s = a) rows) \<le> ax_lifetime cfg - count_of site lifetime_statuses a (an_suggestions db)" for a
      using rows(4,5) [of a] unfolding w by linarith+
    moreover have "length rows \<le> site_capacity cfg site (run_sources_of site article db) (an_suggestions db)"
      using rows(3) by (simp add: w)
    ultimately show ?thesis using rows(1,2,6) final by (intro exI [of _ rows]) (auto simp: extends_def same)
  qed
qed



text \<open>C8. Whatever the mode, the ranker and the search provider do, a run only appends pending rows, for active
  pages of the site (for the one page it was asked about, if any). No page ends with more open suggestions than the
  cap per source, or with more live and applied ones than the lifetime cap, unless it had them before the run;
  the same holds for the site and its own cap. A run that reports a result reports exactly the rows it added.\<close>

theorem generation_stays_within_caps:
  assumes "primary ar_id (co_articles (an_corpus db))"
    and "generate_suggestions aw cfg settings today now site job article override comparison db = (result, db')"
  shows "\<exists>rows. an_suggestions db' = an_suggestions db @ rows
    \<and> list_all (\<lambda>s. sg_site s = site \<and> sg_status s = Pending \<and> active_site_article site (an_corpus db) (sg_source s)
         \<and> (article = None \<or> article = Some (sg_source s))) rows
    \<and> (\<forall>a. count_of site open_statuses a (an_suggestions db') \<le> max (count_of site open_statuses a (an_suggestions db)) (ax_cap cfg)
         \<and> count_of site lifetime_statuses a (an_suggestions db')
             \<le> max (count_of site lifetime_statuses a (an_suggestions db)) (ax_lifetime cfg))
    \<and> open_total site (an_suggestions db') \<le> max (open_total site (an_suggestions db)) (ax_site_cap cfg)
    \<and> (\<forall>az. result = Inr az \<longrightarrow> rs_created (az_final az) = length rows)"
proof -
  obtain rows where rows: "an_suggestions db' = an_suggestions db @ rows"
    "list_all (\<lambda>s. sg_site s = site \<and> sg_status s = Pending \<and> sg_source s \<in> set (run_sources_of site article db)) rows"
    "length rows \<le> site_capacity cfg site (run_sources_of site article db) (an_suggestions db)"
    "\<And>a. length (filter (\<lambda>s. sg_source s = a) rows) \<le> ax_cap cfg - count_of site open_statuses a (an_suggestions db)"
    "\<And>a. length (filter (\<lambda>s. sg_source s = a) rows) \<le> ax_lifetime cfg - count_of site lifetime_statuses a (an_suggestions db)"
    "\<And>az. result = Inr az \<Longrightarrow> rs_created (az_final az) = length rows"
    using analysis_rows [OF assms] by blast
  have fresh: "list_all (\<lambda>s. sg_site s = site \<and> sg_status s = Pending) rows"
    using rows(2) by (auto simp: list_all_iff)
  have active: "list_all (\<lambda>s. sg_site s = site \<and> sg_status s = Pending \<and> active_site_article site (an_corpus db) (sg_source s)
         \<and> (article = None \<or> article = Some (sg_source s))) rows"
    using rows(2)
  proof (rule list.pred_mono_strong)
    fix s
    assume "sg_site s = site \<and> sg_status s = Pending \<and> sg_source s \<in> set (run_sources_of site article db)"
    then show "sg_site s = site \<and> sg_status s = Pending \<and> active_site_article site (an_corpus db) (sg_source s)
        \<and> (article = None \<or> article = Some (sg_source s))"
      using run_sources_active [of "sg_source s" site article db] by (cases article) auto
  qed
  have caps: "count_of site open_statuses a (an_suggestions db') \<le> max (count_of site open_statuses a (an_suggestions db)) (ax_cap cfg)"
    "count_of site lifetime_statuses a (an_suggestions db') \<le> max (count_of site lifetime_statuses a (an_suggestions db)) (ax_lifetime cfg)" for a
    using rows(4,5) [of a] by (simp_all add: rows(1) count_fresh [OF fresh] open_statuses_def lifetime_statuses_def)
  have "open_total site (an_suggestions db') \<le> max (open_total site (an_suggestions db)) (ax_site_cap cfg)"
    using rows(3) unfolding rows(1) open_total_fresh [OF fresh] site_capacity_def open_total_def [symmetric] by linarith
  with rows(1,6) active caps show ?thesis by (intro exI conjI allI impI) assumption+
qed

text \<open>C5. Generation never proposes what is already decided: if no pair of pages is on record twice (expired rows apart)
  and no two standing rows link two pages both ways, both still hold after any run, finished or aborted. The only
  assumption is the key of the embedding table.\<close>

theorem generation_never_mirrors:
  assumes "unique_embeddings (ax_model cfg) db" and "pairs_sound (an_suggestions db)"
  shows "pairs_sound (an_suggestions (snd (generate_suggestions aw cfg settings today now site job article override comparison db)))"
proof -
  obtain result db' where gen: "generate_suggestions aw cfg settings today now site job article override comparison db = (result, db')"
    by fastforce
  consider "an_corpus db' = an_corpus db"
    | d mode targets snapshot encoded where "keeps_corpus (ax_model cfg) db d"
        "suggest aw cfg (settings site) site job article mode comparison targets snapshot encoded d = (result, db')"
    using analysis_cases [OF gen] by blast
  then have "pairs_sound (an_suggestions db')"
  proof cases
    case 2
    obtain rx out w w' where run: "run_sources aw cfg rx article (run_sources_of site article d) w = (out, w')"
      "rs_db w = d" "rs_db w' = db'" "ranker_fits rx"
      using suggest_run [OF 2(2)] by metis
    then show ?thesis
      using run_sources_pairs [OF run(1,4)] assms 2(1) by (simp add: keeps_corpus_def)
  qed (use assms(2) in simp)
  then show ?thesis by (simp add: gen)
qed

text \<open>C28. A run asked for one page adds nothing as soon as the site has as many open suggestions as the cap per source,
  even if that page has none: the room of the site is computed as the number of sources in the run times the cap,
  less the open suggestions of the whole site.\<close>

theorem single_article_run_starves:
  assumes "primary ar_id (co_articles (an_corpus db))" and "ax_cap cfg \<le> open_total site (an_suggestions db)"
  shows "an_suggestions (snd (generate_suggestions aw cfg settings today now site job (Some a) override comparison db)) = an_suggestions db"
proof -
  obtain result db' where gen: "generate_suggestions aw cfg settings today now site job (Some a) override comparison db = (result, db')"
    by fastforce
  obtain rows where rows: "an_suggestions db' = an_suggestions db @ rows"
    "length rows \<le> site_capacity cfg site (run_sources_of site (Some a) db) (an_suggestions db)"
    using analysis_rows [OF assms(1) gen] by blast
  have "set (run_sources_of site (Some a) db) \<subseteq> {a}"
    using run_sources_active [where article = "Some a"] by auto
  then have "card (set (run_sources_of site (Some a) db)) \<le> card {a}" by (intro card_mono) simp_all
  then have "length (run_sources_of site (Some a) db) \<le> 1"
    using distinct_card [OF run_sources_distinct [OF assms(1)], of site "Some a"] by simp
  then have "length (run_sources_of site (Some a) db) * ax_cap cfg \<le> open_total site (an_suggestions db)"
    using assms(2) mult_le_mono1 [of "length (run_sources_of site (Some a) db)" 1 "ax_cap cfg"] by linarith
  then have "site_capacity cfg site (run_sources_of site (Some a) db) (an_suggestions db) = 0"
    by (simp add: site_capacity_def open_total_def)
  then show ?thesis using rows by (simp add: gen)
qed

text \<open>The loop variable replaces the parameter, so a run over a whole site reports a source page.\<close>

lemma run_sources_visited:
  "run_sources aw cfg rx visited sources w = (Inr v, w') \<Longrightarrow> (if sources = [] then v = visited else v \<in> Some ` set sources)"
proof (induction sources arbitrary: visited w)
  case (Cons a sources)
  show ?case
  proof (cases "source_step aw cfg rx a w")
    case (Next u)
    then have "if sources = [] then v = Some a else v \<in> Some ` set sources"
      using Cons.prems by (intro Cons.IH) simp
    then show ?thesis by (auto split: if_splits)
  qed (use Cons.prems in auto)
qed simp

lemma whole_site_run_names_a_source:
  assumes "generate_suggestions aw cfg settings today now site job None override comparison db = (Inr az, db')"
    and "active_articles site db \<noteq> []"
  shows "az_source_article az \<noteq> None"
proof -
  obtain d mode targets snapshot encoded where d: "keeps_corpus (ax_model cfg) db d"
    "suggest aw cfg (settings site) site job None mode comparison targets snapshot encoded d = (Inr az, db')"
    using analysis_cases [OF assms(1)] by auto
  obtain rx out w w' where run: "run_sources aw cfg rx None (run_sources_of site None d) w = (out, w')" "out = Inr (az_source_article az)"
    using suggest_run [OF d(2)] by metis
  have "run_sources_of site None d \<noteq> []"
    using assms(2) d(1) by (simp add: run_sources_of_def active_articles_def keeps_corpus_def)
  then show ?thesis using run_sources_visited [OF run(1) [unfolded run(2)]] by auto
qed


section \<open>Two pages\<close>

definition sample_page :: "nat \<Rightarrow> site_article" where
  "sample_page i = \<lparr>ar_id = i, ar_site = 1, ar_url = ''https://a.com/'' @ digits i, ar_title = ''Bread'', ar_text = ''flour'',
     ar_external_id = None, ar_html = None, ar_language = None, ar_published = None, ar_active = True, ar_last_run = None\<rparr>"

definition sample_analysis :: analysis_db where
  "sample_analysis = \<lparr>an_graph = \<lparr>gd_corpus = \<lparr>co_articles = [sample_page 1, sample_page 2, sample_page 3], co_taxonomies = [],
       co_article_taxonomies = [], co_links = [], co_runs = [], co_diagnostics = [],
       co_suggestions = [new_suggestion 1 1 1 (Some 2) None Baseline_cosine (1 / 2)]\<rparr>, gd_snapshots = [], gd_features = []\<rparr>,
     an_sites = [\<lparr>site_id = 1, site_tenant = 1, site_base_url = ''https://a.com'', site_platform = WordPress, wp_username = None,
       pool_source_approved = False, pool_source_failures = 0, pool_source_quarantined = False,
       pool_source_quarantine_reason = None, domain_registered_at = None\<rparr>],
     an_policies = [], an_embeddings = [], an_traces = [], an_events = [], an_audit = []\<rparr>"

definition sample_world :: analysis_world where
  "sample_world = \<lparr>aw_idna = Some, aw_embed = map (\<lambda>_. replicate 768 0), aw_distance = (\<lambda>_ _. 1 / 4), aw_log = (\<lambda>_. 1),
     aw_sha = (\<lambda>s. s), aw_search = (\<lambda>_ _ _. Search_raised Not_configured)\<rparr>"

definition sample_analysis_config :: analysis_config where
  "sample_analysis_config = \<lparr>ax_search = \<lparr>ss_model = ''m'', ss_min_score = 1 / 2, ss_max_results = 5, ss_provider = ''tavily''\<rparr>,
     ax_graph = sample_config, ax_max_articles = 100, ax_max_corpus = 100, ax_max_chars = 1000, ax_duplicate = 9 / 10,
     ax_titles = [], ax_slugs = [], ax_cap = 1, ax_lifetime = 2, ax_sources = 10, ax_site_cap = 10\<rparr>"

definition sample_editorial :: editorial_settings where
  "sample_editorial = \<lparr>es_enabled = False, es_weight = 0, es_min_samples = 1, es_min_score_percent = 0\<rparr>"

lemma sample_analysis_facts:
  "primary ar_id (co_articles (an_corpus sample_analysis))" "unique_embeddings model sample_analysis"
  "pairs_sound (an_suggestions sample_analysis)" "open_total 1 (an_suggestions sample_analysis) = 1"
  "count_of 1 open_statuses 1 (an_suggestions sample_analysis) = 1" "count_of 1 open_statuses 2 (an_suggestions sample_analysis) = 0"
  by (simp_all add: sample_analysis_def sample_page_def primary_def unique_embeddings_def pairs_sound_def live_pairs_def
      new_suggestion_def mirrored_def open_total_def open_statuses_def count_of_def)

definition sample_ranker :: hybrid_ranker where
  "sample_ranker = \<lparr>hr_articles = [\<lparr>ca_id = 1, ca_title = ''Bread'', ca_text = ''flour'', ca_fingerprint = None, ca_taxonomies = []\<rparr>],
     hr_blocked = [(1, Some 2)], hr_allowed = None, hr_terms = [(1, [''bread'', ''flour''])],
     hr_index = \<lparr>bx_k1 = 3 / 2, bx_b = 3 / 4, bx_count = 1, bx_lengths = [(1, 2)], bx_average = 2,
       bx_postings = [(''bread'', [(1, 1), (3, 1)]), (''flour'', [(1, 1), (2, 1)])]\<rparr>\<rparr>"

lemma hybrid_rank_never_fails_witness:
  "\<exists>h. rank sample_world sample_analysis_config sample_ranker 1 3 False sample_analysis = Inr h \<and> length (hx_candidates h) \<le> 3"
  using hybrid_rank_never_fails [of 3 sample_world sample_analysis_config sample_ranker 1 False sample_analysis] by auto

lemma generation_stays_within_caps_witness:
  "\<exists>result db'. generate_suggestions sample_world sample_analysis_config (\<lambda>_. sample_editorial) 0 7 1 None None None False sample_analysis
      = (result, db')
    \<and> count_of 1 open_statuses 1 (an_suggestions db') \<le> 1 \<and> open_total 1 (an_suggestions db') \<le> 10"
proof -
  obtain result db' where gen: "generate_suggestions sample_world sample_analysis_config (\<lambda>_. sample_editorial) 0 7 1 None None None
      False sample_analysis = (result, db')"
    by fastforce
  from generation_stays_within_caps [OF sample_analysis_facts(1) gen]
  have "count_of 1 open_statuses 1 (an_suggestions db') \<le> max (count_of 1 open_statuses 1 (an_suggestions sample_analysis)) 1"
    "open_total 1 (an_suggestions db') \<le> max (open_total 1 (an_suggestions sample_analysis)) 10"
    by (auto simp: sample_analysis_config_def)
  then have "count_of 1 open_statuses 1 (an_suggestions db') \<le> 1 \<and> open_total 1 (an_suggestions db') \<le> 10"
    unfolding sample_analysis_facts by simp
  then show ?thesis using gen by blast
qed

lemma generation_never_mirrors_witness:
  "pairs_sound (an_suggestions (snd (generate_suggestions sample_world sample_analysis_config (\<lambda>_. sample_editorial) 0 7 1 None None
     (Some ''baseline'') False sample_analysis)))"
  by (rule generation_never_mirrors [OF sample_analysis_facts(2,3)])

lemma single_article_run_starves_witness:
  "count_of 1 open_statuses 2 (an_suggestions sample_analysis) = 0
    \<and> site_capacity sample_analysis_config 1 (run_sources_of 1 None sample_analysis) (an_suggestions sample_analysis) = 2
    \<and> an_suggestions (snd (generate_suggestions sample_world sample_analysis_config (\<lambda>_. sample_editorial) 0 7 1 None (Some 2) None False
        sample_analysis)) = an_suggestions sample_analysis"
proof -
  have "length (run_sources_of 1 None sample_analysis) = 3"
    by (simp add: run_sources_of_def active_articles_def sample_analysis_def sample_page_def)
  then have "site_capacity sample_analysis_config 1 (run_sources_of 1 None sample_analysis) (an_suggestions sample_analysis) = 2"
    using sample_analysis_facts(4) by (simp add: site_capacity_def sample_analysis_config_def open_total_def)
  moreover have "ax_cap sample_analysis_config \<le> open_total 1 (an_suggestions sample_analysis)"
    unfolding sample_analysis_facts by (simp add: sample_analysis_config_def)
  ultimately show ?thesis
    using single_article_run_starves [OF sample_analysis_facts(1)] sample_analysis_facts(6) by blast
qed

end
