(* ===== verification/Splice.thy ===== *)
theory Splice
  imports PublicationPlans Url "HOL-Library.Sublist"
begin

text \<open>
  Where a link goes in a live post: the scanner, the anchor search and \<open>preview_links\<close> of
  \<^verbatim>\<open>app/connectors/wordpress.py\<close>. Each regular expression is the matcher that gives what \<open>re\<close> finds first at
  a position, alternatives and repetitions in the order they are tried; \<open>finditer\<close> runs a matcher over a text.
  A text is its UTF-8 bytes and a position is a byte offset, except for the gap between links, which is counted in
  code points as the code does. The Unicode tables are parameters: white space, word characters and
  \<open>str.lower\<close>. Parsing the finished HTML for its links (lxml) and \<open>urljoin\<close> are parameters as well.
\<close>

section \<open>Characters\<close>

record unicode =
  uc_space :: "string \<Rightarrow> bool"
  uc_word :: "string \<Rightarrow> bool"
  uc_lower :: "string \<Rightarrow> string"

text \<open>The first and the last code point of a text, as its bytes.\<close>

definition first_char :: "string \<Rightarrow> string" where
  "first_char s = take 1 s @ takeWhile continuation (drop 1 s)"

definition last_char :: "string \<Rightarrow> string" where
  "last_char s = rev (take (Suc (length (takeWhile continuation (rev s)))) (rev s))"

definition space_at :: "unicode \<Rightarrow> string \<Rightarrow> bool" where
  "space_at uc s \<longleftrightarrow> s \<noteq> [] \<and> \<not> continuation (hd s) \<and> uc_space uc (first_char s)"

definition word_at :: "unicode \<Rightarrow> string \<Rightarrow> bool" where
  "word_at uc s \<longleftrightarrow> s \<noteq> [] \<and> uc_word uc (first_char s)"

definition word_before :: "unicode \<Rightarrow> string \<Rightarrow> bool" where
  "word_before uc s \<longleftrightarrow> s \<noteq> [] \<and> uc_word uc (last_char s)"

section \<open>Matching\<close>

text \<open>\<open>re.finditer\<close>: non-overlapping matches from the left. A matcher sees the text before and after a position
  and gives the length of its match; no pattern here matches the empty text.\<close>

type_synonym 'v matcher = "string \<Rightarrow> string \<Rightarrow> ('v \<times> nat) option"

function finditer :: "'v matcher \<Rightarrow> string \<Rightarrow> string \<Rightarrow> (nat \<times> nat \<times> 'v) list" where
  "finditer m pre [] = []"
| "finditer m pre (c # s) =
     (case m pre (c # s) of
        Some (v, Suc n) \<Rightarrow> (length pre, length pre + Suc n, v) # finditer m (pre @ c # take n s) (drop n s)
      | _ \<Rightarrow> finditer m (pre @ [c]) s)"
  by pat_completeness auto
termination by (relation "measure (\<lambda>(_, _, s). length s)") auto

fun index_of :: "string \<Rightarrow> string \<Rightarrow> nat option" where
  "index_of w [] = (if w = [] then Some 0 else None)"
| "index_of w (c # s) = (if prefix w (c # s) then Some 0 else map_option Suc (index_of w s))"

text \<open>A literal, \<open>re.escape(w)\<close>, and \<open>s.count(w)\<close>.\<close>

definition literal :: "string \<Rightarrow> unit matcher" where
  "literal w pre s = (if prefix w s then Some ((), length w) else None)"

definition occurrences :: "string \<Rightarrow> string \<Rightarrow> nat" where
  "occurrences w s = length (finditer (literal w) [] s)"

section \<open>Tags and prose\<close>

definition splice_ok :: "string set" where
  "splice_ok = {''div'', ''section'', ''article'', ''main'', ''ul'', ''ol'', ''dl'', ''p'', ''li'', ''dd'',
     ''em'', ''strong'', ''b'', ''i'', ''u'', ''span'', ''small'', ''sub'', ''sup'', ''mark''}"

definition splice_text :: "string set" where "splice_text = {''p'', ''li'', ''dd''}"

definition void_elements :: "string set" where
  "void_elements = {''area'', ''base'', ''br'', ''col'', ''embed'', ''hr'', ''img'', ''input'', ''link'', ''meta'',
     ''param'', ''source'', ''track'', ''wbr''}"

text \<open>The groups of \<open>_TAG_RE\<close>: a comment has none, a tag has whether it closes, its name and whether it ends in a slash.\<close>

datatype tag = Comment | Tag bool string bool

fun name_run :: "unicode \<Rightarrow> string \<Rightarrow> string" where
  "name_run uc [] = []"
| "name_run uc (c # s) =
     (if c = CHR ''/'' \<or> c = CHR ''>'' \<or> space_at uc (c # s) then [] else c # name_run uc s)"

definition comment_at :: "string \<Rightarrow> (tag \<times> nat) option" where
  "comment_at s =
     (if prefix ''<!--'' s then map_option (\<lambda>n. (Comment, n + 7)) (index_of ''-->'' (drop 4 s)) else None)"

text \<open>No part of the second alternative matches \<open>>\<close>, so the tag ends at the first one; the slash before it, when it is
  not the one that opens the tag, is the group \<open>(/?)\<close>.\<close>

definition element_at :: "unicode \<Rightarrow> string \<Rightarrow> (tag \<times> nat) option" where
  "element_at uc s =
     (case s of
        [] \<Rightarrow> None
      | x # t \<Rightarrow>
          if x \<noteq> CHR ''<'' then None
          else (let closing = (take 1 t = ''/''); u = (if closing then drop 1 t else t)
                in case u of
                     [] \<Rightarrow> None
                   | c # v \<Rightarrow>
                       if is_alpha c \<and> CHR ''>'' \<in> set v
                       then (let body = takeWhile (\<lambda>x. x \<noteq> CHR ''>'') v
                             in Some (Tag closing (c # name_run uc v) (body \<noteq> [] \<and> last body = CHR ''/''),
                                  (if closing then 4 else 3) + length body))
                       else None))"

definition tag_re :: "unicode \<Rightarrow> tag matcher" where
  "tag_re uc pre s = (case comment_at s of Some r \<Rightarrow> Some r | None \<Rightarrow> element_at uc s)"

definition shortcode_re :: "unit matcher" where
  "shortcode_re pre s =
     (case s of
        [] \<Rightarrow> None
      | x # t \<Rightarrow>
          if x = CHR ''['' \<and> CHR '']'' \<in> set t then Some ((), length (takeWhile (\<lambda>x. x \<noteq> CHR '']'') t) + 2) else None)"

text \<open>The state of the pass: the open elements, outermost first, how many of them are not in the list, where the last tag
  ended, and the regions found.\<close>

record pass =
  ps_stack :: "string list"
  ps_blocked :: int
  ps_cursor :: nat
  ps_regions :: "(nat \<times> nat) list"

definition prose_open :: "string list \<Rightarrow> bool" where
  "prose_open stack \<longleftrightarrow> stack = [] \<or> (\<exists>name\<in>set stack. name \<in> splice_text)"

definition unlisted :: "string list \<Rightarrow> int" where
  "unlisted stack = int (length (filter (\<lambda>name. name \<notin> splice_ok) stack))"

definition close_region :: "nat \<Rightarrow> pass \<Rightarrow> pass" where
  "close_region i p =
     (if ps_blocked p = 0 \<and> prose_open (ps_stack p) \<and> ps_cursor p < i
      then p\<lparr>ps_regions := ps_regions p @ [(ps_cursor p, i)]\<rparr> else p)"

definition innermost :: "string \<Rightarrow> string list \<Rightarrow> nat" where
  "innermost name stack = length stack - 1 - length (takeWhile (\<lambda>n. n \<noteq> name) (rev stack))"

definition step_tag :: "unicode \<Rightarrow> tag \<Rightarrow> pass \<Rightarrow> pass" where
  "step_tag uc t p =
     (case t of
        Comment \<Rightarrow> p
      | Tag closing raw self_closing \<Rightarrow>
          (let name = uc_lower uc raw; stack = ps_stack p
           in if closing then
                (if name \<in> set stack
                 then (let index = innermost name stack
                       in p\<lparr>ps_blocked := ps_blocked p - unlisted (drop index stack), ps_stack := take index stack\<rparr>)
                 else p)
              else if \<not> self_closing \<and> name \<notin> void_elements
                   then p\<lparr>ps_stack := stack @ [name], ps_blocked := ps_blocked p + (if name \<in> splice_ok then 0 else 1)\<rparr>
                   else p))"

definition start_pass :: pass where
  "start_pass = \<lparr>ps_stack = [], ps_blocked = 0, ps_cursor = 0, ps_regions = []\<rparr>"

definition scan_tags :: "unicode \<Rightarrow> (nat \<times> nat \<times> tag) list \<Rightarrow> pass \<Rightarrow> pass" where
  "scan_tags uc ms p = fold (\<lambda>(i, j, t) p. step_tag uc t ((close_region i p)\<lparr>ps_cursor := j\<rparr>)) ms p"

definition prose_regions :: "unicode \<Rightarrow> string \<Rightarrow> (nat \<times> nat) list" where
  "prose_regions uc content =
     ps_regions (close_region (length content) (scan_tags uc (finditer (tag_re uc) [] content) start_pass))"

section \<open>Finding the anchor\<close>

datatype token = Blanks | Amp | Plain char

fun tokens :: "unicode \<Rightarrow> bool \<Rightarrow> string \<Rightarrow> token list" where
  "tokens uc in_space [] = []"
| "tokens uc in_space (c # s) =
     (if in_space \<and> continuation c then tokens uc True s
      else if space_at uc (c # s) then (if in_space then tokens uc True s else Blanks # tokens uc True s)
      else (if c = CHR ''&'' then Amp else Plain c) # tokens uc False s)"

text \<open>One unit of \<open>\s|&nbsp;|&#160;\<close> and what is left after one or more of them, the longest run first.\<close>

definition blank_unit :: "unicode \<Rightarrow> string \<Rightarrow> nat" where
  "blank_unit uc s =
     (if space_at uc s then length (first_char s)
      else if prefix ''&nbsp;'' s \<or> prefix ''&#160;'' s then 6 else 0)"

function after_blanks :: "unicode \<Rightarrow> string \<Rightarrow> string list" where
  "after_blanks uc s =
     (if s = [] \<or> blank_unit uc s = 0 then []
      else (let t = drop (blank_unit uc s) s in after_blanks uc t @ [t]))"
  by pat_completeness auto
termination by (relation "measure (length \<circ> snd)") auto

definition first_some :: "('a \<Rightarrow> 'b option) \<Rightarrow> 'a list \<Rightarrow> 'b option" where
  "first_some f xs = foldr (\<lambda>x r. case f x of Some y \<Rightarrow> Some y | None \<Rightarrow> r) xs None"

text \<open>The text left after the tokens, in the order backtracking finds it; \<open>fits\<close> is the guard behind the last token.\<close>

fun match_tokens :: "unicode \<Rightarrow> (string \<Rightarrow> bool) \<Rightarrow> token list \<Rightarrow> string \<Rightarrow> string option" where
  "match_tokens uc fits [] s = (if fits s then Some s else None)"
| "match_tokens uc fits (Blanks # ts) s = first_some (match_tokens uc fits ts) (after_blanks uc s)"
| "match_tokens uc fits (Amp # ts) s =
     first_some (match_tokens uc fits ts)
       ((if prefix ''&'' s then [drop 1 s] else []) @ (if prefix ''&amp;'' s then [drop 5 s] else []))"
| "match_tokens uc fits (Plain c # ts) s = (if prefix [c] s then match_tokens uc fits ts (drop 1 s) else None)"

definition anchor_regex :: "unicode \<Rightarrow> string \<Rightarrow> unit matcher" where
  "anchor_regex uc anchor pre s =
     (if uc_word uc (first_char anchor) \<and> word_before uc pre then None
      else map_option (\<lambda>r. ((), length s - length r))
        (match_tokens uc (\<lambda>r. \<not> (uc_word uc (last_char anchor) \<and> word_at uc r)) (tokens uc False anchor) s))"

definition spans :: "(nat \<times> nat \<times> 'v) list \<Rightarrow> (nat \<times> nat) list" where
  "spans = map (\<lambda>(i, j, _). (i, j))"

definition linkable :: "unicode \<Rightarrow> string \<Rightarrow> nat \<times> nat \<Rightarrow> bool" where
  "linkable uc content m =
     ((\<exists>(start, end)\<in>set (prose_regions uc content). start \<le> fst m \<and> snd m \<le> end)
      \<and> \<not> (\<exists>(start, end)\<in>set (spans (finditer shortcode_re [] content)). start < snd m \<and> fst m < end))"

definition anchor_span :: "unicode \<Rightarrow> string \<Rightarrow> string \<Rightarrow> (nat \<times> nat) option" where
  "anchor_span uc content anchor =
     (case filter (linkable uc content) (spans (finditer (anchor_regex uc anchor) [] content)) of
        [m] \<Rightarrow> Some m | _ \<Rightarrow> None)"

section \<open>Inserting a link\<close>

record splice_settings =
  publish_max_in_text_links_per_article :: nat
  publish_min_in_text_gap_chars :: nat

definition in_text_mark :: string where "in_text_mark = ''data-linkmesh=\"in-text\"''"

text \<open>The code-point offset of a byte offset.\<close>

definition offset :: "string \<Rightarrow> nat \<Rightarrow> int" where
  "offset content i = int (str_len (take i content))"

definition crowds_existing_link :: "splice_settings \<Rightarrow> string \<Rightarrow> nat \<times> nat \<Rightarrow> bool" where
  "crowds_existing_link cfg content m =
     (let gap = int (publish_min_in_text_gap_chars cfg)
      in 0 < gap
         \<and> (\<exists>(i, _)\<in>set (spans (finditer (literal in_text_mark) [] content)).
              offset content (fst m) - gap < offset content i \<and> offset content i < offset content (snd m) + gap))"

definition html_escape :: "string \<Rightarrow> string" where
  "html_escape s = concat (map (\<lambda>c.
     if c = CHR ''&'' then ''&amp;'' else if c = CHR ''<'' then ''&lt;'' else if c = CHR ''>'' then ''&gt;''
     else if c = CHR 0x22 then ''&quot;'' else if c = CHR 0x27 then ''&#x27;'' else [c]) s)"

definition open_link :: "string \<Rightarrow> string" where
  "open_link href = ''<a '' @ in_text_mark @ '' href=\"'' @ href @ ''\">''"

definition close_link :: string where "close_link = ''</a>''"

definition read_also_block :: "string \<Rightarrow> string \<Rightarrow> string" where
  "read_also_block href anchor =
     CHR 0x0A # ''<!-- wp:paragraph -->'' @ CHR 0x0A # ''<p>Read also: <a href=\"'' @ href @ ''\">'' @ anchor
       @ ''</a></p>'' @ CHR 0x0A # ''<!-- /wp:paragraph -->''"

datatype link_outcome = Inserted | Block | Already_present

definition suggestion_target_url :: "article list \<Rightarrow> suggestion \<Rightarrow> string option" where
  "suggestion_target_url articles s =
     (if truthy (sg_external_url s) then sg_external_url s
      else map_option ar_url (Option.bind (sg_target s) (\<lambda>t. get_row ar_id t articles)))"

definition suggestion_target_title :: "article list \<Rightarrow> suggestion \<Rightarrow> string option" where
  "suggestion_target_title articles s =
     (if truthy (sg_external_title s) then sg_external_title s
      else case Option.bind (sg_target s) (\<lambda>t. get_row ar_id t articles) of
             Some a \<Rightarrow> Some (ar_title a) | None \<Rightarrow> suggestion_target_url articles s)"

text \<open>\<open>url\<close> and \<open>title\<close> are the two texts above; the title is only read where the row has no anchor.\<close>

definition insert_link ::
  "unicode \<Rightarrow> splice_settings \<Rightarrow> string \<Rightarrow> string \<Rightarrow> string \<Rightarrow> string option \<Rightarrow> string \<times> link_outcome" where
  "insert_link uc cfg content url title anchor =
     (let href = html_escape url;
          at_limit = publish_max_in_text_links_per_article cfg \<le> occurrences in_text_mark content;
          found = (if truthy anchor \<and> \<not> at_limit then anchor_span uc content (or_else anchor []) else None)
      in case (case found of Some m \<Rightarrow> if crowds_existing_link cfg content m then None else Some m | None \<Rightarrow> None) of
           Some (start, end) \<Rightarrow>
             (take start content @ open_link href @ take (end - start) (drop start content) @ close_link @ drop end content,
              Inserted)
         | None \<Rightarrow>
             (content @ read_also_block href (html_escape (if truthy anchor then or_else anchor [] else title)), Block))"

section \<open>Previewing a post\<close>

text \<open>\<open>parse\<close> gives the \<open>href\<close> attributes of a text that is not blank, \<open>None\<close> where lxml finds no document;
  \<open>join\<close> is \<open>urljoin\<close>, \<open>None\<close> where it raises \<open>ValueError\<close>.\<close>

record html_parser =
  parse_hrefs :: "string \<Rightarrow> string list option"
  url_join :: "string \<Rightarrow> string \<Rightarrow> string option"

definition all_hrefs :: "html_parser \<Rightarrow> string \<Rightarrow> string \<Rightarrow> string list" where
  "all_hrefs hp content page =
     (if strip content = [] then []
      else case parse_hrefs hp content of None \<Rightarrow> [] | Some hrefs \<Rightarrow> List.map_filter (url_join hp page) hrefs)"

definition outcome_name :: "link_outcome \<Rightarrow> string" where
  "outcome_name oc = (case oc of Inserted \<Rightarrow> ''inserted'' | Block \<Rightarrow> ''block'' | Already_present \<Rightarrow> ''already_present'')"

text \<open>The loop; \<open>None\<close> where a row has no target to link.\<close>

fun place_links ::
  "unicode \<Rightarrow> splice_settings \<Rightarrow> article list \<Rightarrow> string set \<Rightarrow> string \<Rightarrow> suggestion list \<Rightarrow> (string \<times> link_outcome list) option" where
  "place_links uc cfg articles existing content [] = Some (content, [])"
| "place_links uc cfg articles existing content (s # ss) =
     (case (suggestion_target_url articles s, suggestion_target_title articles s) of
        (Some url, Some title) \<Rightarrow>
          if url \<in> existing
          then map_option (map_prod id (Cons Already_present)) (place_links uc cfg articles existing content ss)
          else (let (content, oc) = insert_link uc cfg content url title (sg_anchor s)
                in map_option (map_prod id (Cons oc)) (place_links uc cfg articles (insert url existing) content ss))
      | _ \<Rightarrow> None)"

text \<open>\<open>read\<close> is the edit-context read of a post, by its WordPress id; \<open>None\<close> is any exception of it.\<close>

definition preview_links ::
  "unicode \<Rightarrow> splice_settings \<Rightarrow> html_parser \<Rightarrow> article list \<Rightarrow> (string \<Rightarrow> string option) \<Rightarrow> preview" where
  "preview_links uc cfg hp articles read suggestions =
     (case suggestions of
        [] \<Rightarrow> Some ([], [], [])
      | s # _ \<Rightarrow>
          (case get_row ar_id (sg_source s) articles of
             None \<Rightarrow> None
           | Some source \<Rightarrow>
               if \<not> truthy (ar_external_id source) then None
               else (case read (or_else (ar_external_id source) []) of
                       None \<Rightarrow> None
                     | Some content \<Rightarrow>
                         map_option (\<lambda>(updated, outcomes). (content, updated, map outcome_name outcomes))
                           (place_links uc cfg articles (set (all_hrefs hp content (ar_url source))) content suggestions))))"

section \<open>Matches of a pattern\<close>

lemma finditer_Cons:
  "finditer m pre (c # s) =
     (case m pre (c # s) of
        Some (v, Suc n) \<Rightarrow>
          (length pre, length pre + Suc n, v) # finditer m (pre @ take (Suc n) (c # s)) (drop (Suc n) (c # s))
      | _ \<Rightarrow> finditer m (pre @ [c]) s)"
  by (auto split: option.splits nat.splits)

declare finditer.simps(2) [simp del]

lemma finditer_step:
  assumes "s \<noteq> []"
  obtains (hit) v n where "m pre s = Some (v, n)" "0 < n"
      "finditer m pre s = (length pre, length pre + n, v) # finditer m (pre @ take n s) (drop n s)"
    | (miss) "\<And>v n. m pre s = Some (v, n) \<Longrightarrow> n = 0" "finditer m pre s = finditer m (pre @ take 1 s) (drop 1 s)"
proof -
  obtain c t where s: "s = c # t" using assms by (cases s) auto
  show thesis
  proof (cases "\<exists>v n. m pre s = Some (v, Suc n)")
    case True
    then obtain v n where "m pre s = Some (v, Suc n)" by blast
    then show thesis using hit [of v "Suc n"] by (simp add: s finditer_Cons)
  next
    case False
    then have "finditer m pre s = finditer m (pre @ take 1 s) (drop 1 s)"
      by (auto simp: s finditer_Cons split: option.splits nat.splits)
    moreover have "n = 0" if "m pre s = Some (v, n)" for v n using False that by (cases n) auto
    ultimately show thesis using miss by blast
  qed
qed

locale pattern =
  fixes m :: "'v matcher"
  assumes in_text: "m pre s = Some (v, n) \<Longrightarrow> n \<le> length s"
begin

lemma match_at:
  "(i, j, v) \<in> set (finditer m pre s) \<Longrightarrow>
     length pre \<le> i \<and> i < j \<and> j \<le> length pre + length s \<and> m (take i (pre @ s)) (drop i (pre @ s)) = Some (v, j - i)"
proof (induction s arbitrary: pre rule: measure_induct_rule [where f = length])
  case (less s)
  then have "s \<noteq> []" by auto
  then show ?case
  proof (cases rule: finditer_step [of s m pre])
    case (hit w n)
    note n = in_text [OF hit(1)]
    from less.prems hit consider "i = length pre" "j = length pre + n" "v = w"
      | "(i, j, v) \<in> set (finditer m (pre @ take n s) (drop n s))" by auto
    then show ?thesis
    proof cases
      case 2
      have "length (drop n s) < length s" using \<open>s \<noteq> []\<close> hit(2) by simp
      with less.IH [OF this 2] n show ?thesis by (auto simp: min.absorb2)
    qed (use n hit in simp)
  next
    case miss
    with less.prems have "(i, j, v) \<in> set (finditer m (pre @ take 1 s) (drop 1 s))" by simp
    from less.IH [OF _ this] \<open>s \<noteq> []\<close> show ?thesis by (cases s) auto
  qed
qed

lemma matches_ordered:
  "sorted_wrt (\<lambda>x y. fst (snd x) \<le> fst y) (finditer m pre s)"
proof (induction s arbitrary: pre rule: measure_induct_rule [where f = length])
  case (less s)
  show ?case
  proof (cases "s = []")
    case False
    then show ?thesis
    proof (cases rule: finditer_step [of s m pre])
      case (hit w n)
      note n = in_text [OF hit(1)]
      have "length pre + n \<le> i" if "(i, j, v) \<in> set (finditer m (pre @ take n s) (drop n s))" for i j v
        using match_at [OF that] n by (simp add: min.absorb2)
      moreover have "sorted_wrt (\<lambda>x y. fst (snd x) \<le> fst y) (finditer m (pre @ take n s) (drop n s))"
        by (rule less) (use False hit(2) in simp)
      ultimately show ?thesis unfolding hit(3) by auto
    next
      case miss
      with less [of "drop 1 s" "pre @ take 1 s"] False show ?thesis by simp
    qed
  qed simp
qed

end

lemma takeWhile_shorter: "x \<in> set xs \<Longrightarrow> \<not> P x \<Longrightarrow> length (takeWhile P xs) < length xs"
  by (induction xs) auto

interpretation literal: pattern "literal w" for w
  by unfold_locales (auto simp: literal_def prefix_length_le split: if_splits)

interpretation shortcode: pattern shortcode_re
proof
  fix pre s v n
  assume "shortcode_re pre s = Some (v, n)"
  then obtain t where s: "s = CHR ''['' # t" and t: "CHR '']'' \<in> set t"
    and n: "n = length (takeWhile (\<lambda>x. x \<noteq> CHR '']'') t) + 2"
    by (auto simp: shortcode_re_def split: list.splits if_splits)
  have "length (takeWhile (\<lambda>x. x \<noteq> CHR '']'') t) < length t" by (rule takeWhile_shorter [OF t]) simp
  then show "n \<le> length s" by (simp add: s n)
qed


lemma index_of_le: "index_of w s = Some n \<Longrightarrow> n + length w \<le> length s"
  by (induction w s arbitrary: n rule: index_of.induct) (auto dest: prefix_length_le split: if_splits)

lemma comment_at_Some:
  assumes "comment_at s = Some (t, n)"
  shows "t = Comment \<and> 7 \<le> n \<and> n \<le> length s"
  using assms index_of_le [of "''-->''" "drop 4 s"] by (auto simp: comment_at_def split: if_splits)

lemma element_at_Some:
  assumes "element_at uc s = Some (t, n)"
  obtains closing c v where "s = CHR ''<'' # (if closing then ''/'' else []) @ c # v" "is_alpha c" "CHR ''>'' \<in> set v"
    "n = (if closing then 4 else 3) + length (takeWhile (\<lambda>x. x \<noteq> CHR ''>'') v)"
    "t = Tag closing (c # name_run uc v) (takeWhile (\<lambda>x. x \<noteq> CHR ''>'') v \<noteq> []
       \<and> last (takeWhile (\<lambda>x. x \<noteq> CHR ''>'') v) = CHR ''/'')"
proof -
  obtain u where s: "s = CHR ''<'' # u" using assms by (auto simp: element_at_def split: list.splits if_splits)
  let ?cl = "take 1 u = ''/''"
  define w where "w = (if ?cl then drop 1 u else u)"
  have u: "u = (if ?cl then ''/'' else []) @ w" by (cases u) (auto simp: w_def)
  have *: "(case w of [] \<Rightarrow> None
         | c # v \<Rightarrow> if is_alpha c \<and> CHR ''>'' \<in> set v
             then (let body = takeWhile (\<lambda>x. x \<noteq> CHR ''>'') v
                   in Some (Tag ?cl (c # name_run uc v) (body \<noteq> [] \<and> last body = CHR ''/''), (if ?cl then 4 else 3) + length body))
             else None) = Some (t, n)"
    using assms unfolding element_at_def s w_def Let_def by (simp only: list.case simp_thms if_False)
  then obtain c v where "w = c # v" "is_alpha c" "CHR ''>'' \<in> set v" by (auto split: list.splits if_splits)
  then show thesis using that [of ?cl c v] * u s by (simp add: Let_def cong: if_cong)
qed

lemma element_at_le: "element_at uc s = Some (t, n) \<Longrightarrow> n \<le> length s"
  by (erule element_at_Some) (auto dest: takeWhile_shorter [where P = "\<lambda>x. x \<noteq> CHR ''>''"])

interpretation tags: pattern "tag_re uc" for uc
  by unfold_locales (auto simp: tag_re_def dest: comment_at_Some element_at_le split: option.splits)

lemma after_blanks_le: "r \<in> set (after_blanks uc s) \<Longrightarrow> length r < length s"
proof (induction uc s rule: after_blanks.induct)
  case (1 uc s)
  show ?case
  proof (cases "s = [] \<or> blank_unit uc s = 0")
    case True
    with 1 show ?thesis by (subst (asm) after_blanks.simps) auto
  next
    case False
    with 1(2) have "r = drop (blank_unit uc s) s \<or> r \<in> set (after_blanks uc (drop (blank_unit uc s) s))"
      by (subst (asm) after_blanks.simps) (auto simp: Let_def)
    then show ?thesis using False 1(1) [OF False refl] by auto
  qed
qed

declare after_blanks.simps [simp del]

lemma first_some_Some: "first_some f xs = Some y \<Longrightarrow> \<exists>x\<in>set xs. f x = Some y"
  by (induction xs) (auto simp: first_some_def split: option.splits)

lemma first_some_None: "first_some f xs = None \<longleftrightarrow> (\<forall>x\<in>set xs. f x = None)"
  by (induction xs) (auto simp: first_some_def split: option.splits)

lemma match_tokens_le: "match_tokens uc fits ts s = Some r \<Longrightarrow> length r \<le> length s"
proof (induction uc fits ts s arbitrary: r rule: match_tokens.induct)
  case (2 uc fits ts s)
  then show ?case by (auto dest!: first_some_Some after_blanks_le) (meson after_blanks_le le_trans less_or_eq_imp_le)
next
  case (3 uc fits ts s)
  then show ?case by (fastforce dest!: first_some_Some split: if_splits)
qed (fastforce split: if_splits)+

interpretation anchors: pattern "anchor_regex uc anchor" for uc anchor
  by unfold_locales (auto simp: anchor_regex_def dest: match_tokens_le split: if_splits)

section \<open>What a region is\<close>

text \<open>The elements open at a position, by their tags alone: a start tag opens an element that is neither void nor closes
  itself, an end tag closes the innermost open element of its name and all within it.\<close>

definition after_tag :: "unicode \<Rightarrow> string list \<Rightarrow> tag \<Rightarrow> string list" where
  "after_tag uc stack t =
     (case t of
        Comment \<Rightarrow> stack
      | Tag closing raw self_closing \<Rightarrow>
          (let name = uc_lower uc raw
           in if closing then (if name \<in> set stack then take (innermost name stack) stack else stack)
              else if self_closing \<or> name \<in> void_elements then stack else stack @ [name]))"

definition tags_of :: "unicode \<Rightarrow> string \<Rightarrow> (nat \<times> nat \<times> tag) list" where
  "tags_of uc content = finditer (tag_re uc) [] content"

definition open_elements :: "unicode \<Rightarrow> string \<Rightarrow> nat \<Rightarrow> string list" where
  "open_elements uc content i =
     foldl (after_tag uc) [] (map (snd \<circ> snd) (filter (\<lambda>t. fst (snd t) \<le> i) (tags_of uc content)))"

text \<open>Prose: every open element is in the list, and one of them holds text unless none is open.\<close>

definition is_prose :: "string list \<Rightarrow> bool" where
  "is_prose stack \<longleftrightarrow> set stack \<subseteq> splice_ok \<and> (stack = [] \<or> set stack \<inter> splice_text \<noteq> {})"

lemma unlisted_append: "unlisted (a @ b) = unlisted a + unlisted b"
  by (simp add: unlisted_def)

lemma unlisted_single: "unlisted [x] = (if x \<in> splice_ok then 0 else 1)"
  by (simp add: unlisted_def)

lemma unlisted_take: "unlisted s - unlisted (drop n s) = unlisted (take n s)"
  using unlisted_append [of "take n s" "drop n s"] by simp

lemma unlisted_zero: "unlisted s = 0 \<longleftrightarrow> set s \<subseteq> splice_ok"
  by (auto simp: unlisted_def filter_empty_conv)

lemma step_tag_pass:
  "ps_stack (step_tag uc t p) = after_tag uc (ps_stack p) t"
  "ps_cursor (step_tag uc t p) = ps_cursor p" "ps_regions (step_tag uc t p) = ps_regions p"
  "ps_blocked p = unlisted (ps_stack p) \<Longrightarrow> ps_blocked (step_tag uc t p) = unlisted (ps_stack (step_tag uc t p))"
  by (auto simp: step_tag_def after_tag_def Let_def unlisted_take unlisted_append unlisted_single split: tag.splits)

lemma close_region_pass:
  "ps_stack (close_region i p) = ps_stack p" "ps_blocked (close_region i p) = ps_blocked p"
  "ps_blocked p = unlisted (ps_stack p) \<Longrightarrow>
     (a, b) \<in> set (ps_regions (close_region i p))
       \<longleftrightarrow> (a, b) \<in> set (ps_regions p) \<or> is_prose (ps_stack p) \<and> a = ps_cursor p \<and> b = i \<and> a < b"
  by (auto simp: close_region_def is_prose_def prose_open_def unlisted_zero)

definition last_end :: "nat \<Rightarrow> (nat \<times> nat \<times> tag) list \<Rightarrow> nat" where
  "last_end c ms = (if ms = [] then c else fst (snd (last ms)))"

definition next_start :: "nat \<Rightarrow> (nat \<times> nat \<times> tag) list \<Rightarrow> nat" where
  "next_start n ms = (case ms of [] \<Rightarrow> n | m # _ \<Rightarrow> fst m)"

lemma ex_split_Cons:
  "(\<exists>u v. m # ms = u @ v \<and> Q u v) \<longleftrightarrow> Q [] (m # ms) \<or> (\<exists>u v. ms = u @ v \<and> Q (m # u) v)"
  by (auto simp: Cons_eq_append_conv)

lemma scan_regions:
  assumes "ps_blocked p = unlisted (ps_stack p)"
  shows "(a, b) \<in> set (ps_regions (close_region n (scan_tags uc ms p)))
    \<longleftrightarrow> (a, b) \<in> set (ps_regions p)
      \<or> (\<exists>seen rest. ms = seen @ rest \<and> a = last_end (ps_cursor p) seen \<and> b = next_start n rest \<and> a < b
            \<and> is_prose (foldl (after_tag uc) (ps_stack p) (map (snd \<circ> snd) seen)))"
  using assms
proof (induction ms arbitrary: p)
  case Nil
  then show ?case by (auto simp: scan_tags_def close_region_pass(3) last_end_def next_start_def)
next
  case (Cons m ms)
  obtain i j t where m: "m = (i, j, t)" by (cases m) auto
  define q where "q = step_tag uc t ((close_region i p)\<lparr>ps_cursor := j\<rparr>)"
  have q: "ps_blocked q = unlisted (ps_stack q)" "ps_stack q = after_tag uc (ps_stack p) t" "ps_cursor q = j"
    "ps_regions q = ps_regions (close_region i p)"
    using Cons.prems by (simp_all add: q_def step_tag_pass close_region_pass)
  have scan: "scan_tags uc (m # ms) p = scan_tags uc ms q" by (simp add: scan_tags_def m q_def)
  have "(\<exists>seen rest. m # ms = seen @ rest \<and> a = last_end (ps_cursor p) seen \<and> b = next_start n rest \<and> a < b
            \<and> is_prose (foldl (after_tag uc) (ps_stack p) (map (snd \<circ> snd) seen)))
      \<longleftrightarrow> is_prose (ps_stack p) \<and> a = ps_cursor p \<and> b = i \<and> a < b
        \<or> (\<exists>seen rest. ms = seen @ rest \<and> a = last_end (ps_cursor q) seen \<and> b = next_start n rest \<and> a < b
            \<and> is_prose (foldl (after_tag uc) (ps_stack q) (map (snd \<circ> snd) seen)))"
    unfolding ex_split_Cons by (simp add: last_end_def next_start_def m q(2,3) cong: conj_cong) blast
  then show ?case unfolding scan Cons.IH [OF q(1)] q(4) close_region_pass(3) [OF Cons.prems] by blast
qed

lemma tag_bounds:
  assumes "(i, j, t) \<in> set (tags_of uc content)"
  shows "i < j" "j \<le> length content"
  using tags.match_at [OF assms [unfolded tags_of_def]] by simp_all

lemma tags_sorted: "sorted_wrt (\<lambda>x y. fst (snd x) \<le> fst y) (tags_of uc content)"
  unfolding tags_of_def by (rule tags.matches_ordered)

text \<open>Cutting the tags of a text at a position no tag covers.\<close>

lemma filter_sorted_prefix:
  "sorted_wrt (\<lambda>x y. P y \<longrightarrow> P x) xs \<Longrightarrow> filter P xs = takeWhile P xs \<and> filter (\<lambda>x. \<not> P x) xs = dropWhile P xs"
  by (induction xs) (auto simp: filter_empty_conv filter_id_conv)

lemma tags_cut:
  defines "P \<equiv> \<lambda>a t. fst (snd t) \<le> a"
  shows "tags_of uc content = filter (P a) (tags_of uc content) @ filter (\<lambda>t. \<not> P a t) (tags_of uc content)"
proof -
  have "sorted_wrt (\<lambda>x y. P a y \<longrightarrow> P a x) (tags_of uc content)"
    using tags_sorted [of uc content]
  proof (rule sorted_wrt_mono_rel [rotated])
    fix x y
    assume "x \<in> set (tags_of uc content)" "y \<in> set (tags_of uc content)" "fst (snd x) \<le> fst y"
    then show "P a y \<longrightarrow> P a x" using tag_bounds(1) [of "fst y" "fst (snd y)" "snd (snd y)" uc content] by (simp add: P_def)
  qed
  then show ?thesis using filter_sorted_prefix [of "P a" "tags_of uc content"] by simp
qed

lemma seen_are_before:
  assumes tags: "tags_of uc content = seen @ rest" and ab: "last_end 0 seen < next_start (length content) rest"
  shows "seen = filter (\<lambda>t. fst (snd t) \<le> last_end 0 seen) (tags_of uc content)"
    and "t \<in> set seen \<Longrightarrow> fst (snd t) \<le> last_end 0 seen"
    and "t \<in> set rest \<Longrightarrow> next_start (length content) rest \<le> fst t"
    and "next_start (length content) rest \<le> length content"
proof -
  have srt: "sorted_wrt (\<lambda>x y. fst (snd x) \<le> fst y) (seen @ rest)" using tags_sorted [of uc content] tags by simp
  have lt: "fst t < fst (snd t)" "fst (snd t) \<le> length content" if "t \<in> set (seen @ rest)" for t
    using tag_bounds [of "fst t" "fst (snd t)" "snd (snd t)" uc content] that tags by simp_all
  show seen: "fst (snd t) \<le> last_end 0 seen" if "t \<in> set seen" for t
  proof -
    from that obtain ts where ts: "seen = ts @ [last seen]" by (metis append_butlast_last_id empty_iff list.set(1))
    have "t = last seen \<or> fst (snd t) \<le> fst (last seen)"
      using srt that by (subst (asm) (1 2) ts) (auto simp: sorted_wrt_append)
    moreover have "last seen \<in> set (seen @ rest)" using that by (cases seen) auto
    ultimately show ?thesis using lt [of "last seen"] that by (auto simp: last_end_def)
  qed
  show rest: "next_start (length content) rest \<le> fst t" if "t \<in> set rest" for t
    using srt that lt [of "hd rest"] by (cases rest) (auto simp: next_start_def sorted_wrt_append)
  show "next_start (length content) rest \<le> length content"
    using lt [of "hd rest"] by (cases rest) (auto simp: next_start_def)
  have "\<not> fst (snd t) \<le> last_end 0 seen" if "t \<in> set rest" for t
    using rest [OF that] lt [of t] that ab by simp
  then show "seen = filter (\<lambda>t. fst (snd t) \<le> last_end 0 seen) (tags_of uc content)"
    using seen by (auto simp: tags filter_id_conv filter_empty_conv)
qed

lemma region_gaps:
  "(a, b) \<in> set (prose_regions uc content)
    \<longleftrightarrow> (\<exists>seen rest. tags_of uc content = seen @ rest \<and> a = last_end 0 seen \<and> b = next_start (length content) rest
          \<and> a < b \<and> is_prose (open_elements uc content a))"
proof -
  have same: "foldl (after_tag uc) [] (map (snd \<circ> snd) seen) = open_elements uc content (last_end 0 seen)"
    if "tags_of uc content = seen @ rest" "last_end 0 seen < next_start (length content) rest" for seen rest
    using seen_are_before(1) [OF that] by (simp add: open_elements_def)
  have "(a, b) \<in> set (prose_regions uc content)
    \<longleftrightarrow> (\<exists>seen rest. tags_of uc content = seen @ rest \<and> a = last_end 0 seen \<and> b = next_start (length content) rest
          \<and> a < b \<and> is_prose (foldl (after_tag uc) [] (map (snd \<circ> snd) seen)))"
    using scan_regions [of start_pass a b "length content" uc "tags_of uc content"]
    by (simp add: prose_regions_def tags_of_def start_pass_def unlisted_def)
  then show ?thesis using same by (metis (no_types, lifting))
qed

lemma region_is_prose:
  assumes "(a, b) \<in> set (prose_regions uc content)"
  shows "a < b" "b \<le> length content" "is_prose (open_elements uc content a)"
    and "(i, j, t) \<in> set (tags_of uc content) \<Longrightarrow> j \<le> a \<or> b \<le> i"
proof -
  from assms obtain seen rest where *: "tags_of uc content = seen @ rest" "a = last_end 0 seen"
      "b = next_start (length content) rest" "a < b" "is_prose (open_elements uc content a)"
    unfolding region_gaps by blast
  note cut = seen_are_before [OF *(1) *(4) [unfolded *(2,3)]]
  show "a < b" "is_prose (open_elements uc content a)" by fact+
  show "b \<le> length content" using cut(4) *(3) by simp
  show "j \<le> a \<or> b \<le> i" if "(i, j, t) \<in> set (tags_of uc content)"
    using that cut(2,3) [of "(i, j, t)"] *(1-3) by auto
qed

lemma gap_is_cut:
  assumes "a < b" and "a = 0 \<or> a \<in> (\<lambda>t. fst (snd t)) ` set (tags_of uc content)"
    and "b = length content \<or> b \<in> fst ` set (tags_of uc content)"
    and free: "\<And>i j t. (i, j, t) \<in> set (tags_of uc content) \<Longrightarrow> j \<le> a \<or> b \<le> i"
  shows "\<exists>seen rest. tags_of uc content = seen @ rest \<and> a = last_end 0 seen \<and> b = next_start (length content) rest"
proof -
  define P where "P = (\<lambda>t :: nat \<times> nat \<times> tag. fst (snd t) \<le> a)"
  define seen rest where "seen = filter P (tags_of uc content)" and "rest = filter (\<lambda>t. \<not> P t) (tags_of uc content)"
  have cut: "tags_of uc content = seen @ rest" unfolding seen_def rest_def P_def by (rule tags_cut)
  have srt: "sorted_wrt (\<lambda>x y. fst (snd x) \<le> fst y) (seen @ rest)" using tags_sorted [of uc content] cut by simp
  have lt: "fst t < fst (snd t)" "fst (snd t) \<le> length content" if "t \<in> set (seen @ rest)" for t
    using tag_bounds [of "fst t" "fst (snd t)" "snd (snd t)" uc content] that cut by simp_all
  have in_rest: "b \<le> fst t" if "t \<in> set rest" for t
    using free [of "fst t" "fst (snd t)" "snd (snd t)"] that by (auto simp: rest_def P_def)
  have "a = last_end 0 seen"
  proof (cases seen rule: rev_cases)
    case Nil
    have False if "t \<in> set (tags_of uc content)" "a = fst (snd t)" for t
      using that Nil by (auto simp: seen_def P_def filter_empty_conv)
    then show ?thesis using assms(2) Nil by (auto simp: last_end_def)
  next
    case (snoc ts t)
    have "t \<in> set seen" using snoc by simp
    then have "fst (snd t) \<le> a" "0 < fst (snd t)" using lt(1) [of t] by (auto simp: seen_def P_def)
    moreover have "a \<le> fst (snd t)"
      using assms(2)
    proof
      assume "a \<in> (\<lambda>t. fst (snd t)) ` set (tags_of uc content)"
      then obtain u where u: "u \<in> set (tags_of uc content)" "a = fst (snd u)" by blast
      then have "u \<in> set seen" by (simp add: seen_def P_def)
      then have "u = t \<or> fst (snd u) \<le> fst t" using srt by (auto simp: snoc sorted_wrt_append)
      moreover have "fst t < fst (snd t)" by (rule lt(1)) (simp add: snoc)
      ultimately show ?thesis using u(2) by auto
    qed simp
    ultimately show ?thesis by (simp add: last_end_def snoc)
  qed
  moreover have "b = next_start (length content) rest"
  proof (cases rest)
    case Nil
    have False if "t \<in> set (tags_of uc content)" "b = fst t" for t
    proof -
      have "fst t < fst (snd t)" using lt(1) that(1) cut by simp
      moreover have "P t" using that(1) Nil by (simp add: rest_def filter_empty_conv)
      ultimately show False using \<open>a < b\<close> that(2) by (simp add: P_def)
    qed
    then show ?thesis using assms(3) Nil by (auto simp: next_start_def)
  next
    case (Cons t ts)
    have t: "t \<in> set rest" "fst t < length content" using lt [of t] Cons by auto
    have "fst t \<le> b"
      using assms(3)
    proof
      assume "b \<in> fst ` set (tags_of uc content)"
      then obtain u where u: "u \<in> set (tags_of uc content)" "b = fst u" by blast
      have "fst u < fst (snd u)" using lt(1) u(1) cut by simp
      then have "u \<in> set rest" using \<open>a < b\<close> u by (simp add: rest_def P_def)
      then have "u = t \<or> fst (snd t) \<le> fst u" using srt by (auto simp: Cons sorted_wrt_append)
      moreover have "fst t < fst (snd t)" by (rule lt(1)) (simp add: Cons)
      ultimately show ?thesis using u(2) by auto
    qed (use t in simp)
    then show ?thesis using in_rest [OF t(1)] by (simp add: next_start_def Cons)
  qed
  ultimately show ?thesis using cut by blast
qed

text \<open>C17. The regions in which a link may be put are exactly the stretches of text between two neighbouring tags (or the ends
  of the post) at which every open element is one of the listed ones and one of them holds text, unless nothing is
  open; no tag and no comment reaches into one. The running counter of unlisted elements never drifts from the
  stack of open elements, however badly nested the markup is.\<close>

theorem regions_are_the_prose_gaps:
  "(a, b) \<in> set (prose_regions uc content)
    \<longleftrightarrow> a < b \<and> (a = 0 \<or> a \<in> (\<lambda>t. fst (snd t)) ` set (tags_of uc content))
      \<and> (b = length content \<or> b \<in> fst ` set (tags_of uc content))
      \<and> list_all (\<lambda>(i, j, _). j \<le> a \<or> b \<le> i) (tags_of uc content)
      \<and> is_prose (open_elements uc content a)"
  (is "?L \<longleftrightarrow> ?R")
proof
  assume L: ?L
  then obtain seen rest where *: "tags_of uc content = seen @ rest" "a = last_end 0 seen"
      "b = next_start (length content) rest"
    unfolding region_gaps by blast
  have "a = 0 \<or> a \<in> (\<lambda>t. fst (snd t)) ` set (tags_of uc content)"
    using * by (cases seen rule: rev_cases) (auto simp: last_end_def)
  moreover have "b = length content \<or> b \<in> fst ` set (tags_of uc content)"
    using * by (cases rest) (auto simp: next_start_def)
  ultimately show ?R using region_is_prose [OF L] by (auto simp: list_all_iff)
next
  assume R: ?R
  then have "\<exists>seen rest. tags_of uc content = seen @ rest \<and> a = last_end 0 seen \<and> b = next_start (length content) rest"
    by (intro gap_is_cut) (auto simp: list_all_iff)
  then show ?L using R unfolding region_gaps by blast
qed

section \<open>The anchor in the text\<close>

lemma anchor_span_Some:
  assumes "anchor_span uc content anchor = Some (i, j)"
  shows "filter (linkable uc content) (spans (finditer (anchor_regex uc anchor) [] content)) = [(i, j)]"
    and "i < j" "j \<le> length content" "linkable uc content (i, j)"
    and "anchor_regex uc anchor (take i content) (drop i content) = Some ((), j - i)"
proof -
  show one: "filter (linkable uc content) (spans (finditer (anchor_regex uc anchor) [] content)) = [(i, j)]"
    using assms by (auto simp: anchor_span_def split: list.splits)
  then have "(i, j) \<in> set (filter (linkable uc content) (spans (finditer (anchor_regex uc anchor) [] content)))" by simp
  then have "(i, j) \<in> set (spans (finditer (anchor_regex uc anchor) [] content))" and "linkable uc content (i, j)"
    unfolding set_filter by blast+
  then have "(i, j, ()) \<in> set (finditer (anchor_regex uc anchor) [] content)" by (auto simp: spans_def)
  from anchors.match_at [OF this] \<open>linkable uc content (i, j)\<close>
  show "i < j" "j \<le> length content" "linkable uc content (i, j)"
    "anchor_regex uc anchor (take i content) (drop i content) = Some ((), j - i)" by simp_all
qed

lemma linkable_prose:
  assumes "linkable uc content (i, j)" and "i < j"
  shows "is_prose (open_elements uc content i)"
    and "t \<in> set (tags_of uc content) \<Longrightarrow> fst (snd t) \<le> i \<or> j \<le> fst t"
    and "\<And>a b v. (a, b, v) \<in> set (finditer shortcode_re [] content) \<Longrightarrow> b \<le> i \<or> j \<le> a"
proof -
  from assms obtain a b where ab: "(a, b) \<in> set (prose_regions uc content)" "a \<le> i" "j \<le> b"
    by (auto simp: linkable_def)
  note region = region_is_prose [OF ab(1)]
  have free: "fst (snd t) \<le> a \<or> b \<le> fst t" if "t \<in> set (tags_of uc content)" for t
    using region(4) [of "fst t" "fst (snd t)" "snd (snd t)"] that by simp
  show "fst (snd t) \<le> i \<or> j \<le> fst t" if "t \<in> set (tags_of uc content)" for t
    using free [OF that] ab by auto
  have "fst (snd t) \<le> a \<longleftrightarrow> fst (snd t) \<le> i" if "t \<in> set (tags_of uc content)" for t
    using free [OF that] ab assms(2) tag_bounds(1) [of "fst t" "fst (snd t)" "snd (snd t)" uc content] that by auto
  then have "filter (\<lambda>t. fst (snd t) \<le> i) (tags_of uc content) = filter (\<lambda>t. fst (snd t) \<le> a) (tags_of uc content)"
    by (intro filter_cong) auto
  then show "is_prose (open_elements uc content i)" using region(3) by (simp add: open_elements_def)
  show "b' \<le> i \<or> j \<le> a'" if "(a', b', v) \<in> set (finditer shortcode_re [] content)" for a' b' v
    using assms that by (fastforce simp: linkable_def spans_def)
qed

text \<open>How a stored text reads as an anchor: a run of blanks for a run of blanks, an ampersand plain or escaped,
  everything else as it is. \<open>r\<close> is what follows.\<close>

inductive blanks :: "unicode \<Rightarrow> string \<Rightarrow> string \<Rightarrow> bool" for uc where
  one: "s \<noteq> [] \<Longrightarrow> blank_unit uc s \<noteq> 0 \<Longrightarrow> blanks uc s (drop (blank_unit uc s) s)"
| more: "s \<noteq> [] \<Longrightarrow> blank_unit uc s \<noteq> 0 \<Longrightarrow> blanks uc (drop (blank_unit uc s) s) r \<Longrightarrow> blanks uc s r"

inductive reads :: "unicode \<Rightarrow> token list \<Rightarrow> string \<Rightarrow> string \<Rightarrow> bool" for uc where
  none: "reads uc [] s s"
| plain: "reads uc ts s r \<Longrightarrow> reads uc (Plain c # ts) (c # s) r"
| amp: "reads uc ts s r \<Longrightarrow> reads uc (Amp # ts) (CHR ''&'' # s) r"
| entity: "reads uc ts s r \<Longrightarrow> reads uc (Amp # ts) (''&amp;'' @ s) r"
| blank: "blanks uc s t \<Longrightarrow> reads uc ts t r \<Longrightarrow> reads uc (Blanks # ts) s r"

inductive_cases reads_cases: "reads uc [] s r" "reads uc (Plain c # ts) s r" "reads uc (Amp # ts) s r" "reads uc (Blanks # ts) s r"

inductive_simps reads_Amp: "reads uc (Amp # ts) s r"

lemma reads_Amp_split:
  "reads uc (Amp # ts) s r \<longleftrightarrow> (\<exists>t. (s = CHR ''&'' # t \<or> s = ''&amp;'' @ t) \<and> reads uc ts t r)"
  by (simp only: reads_Amp append_Cons append_Nil conj_disj_distribL ex_disj_distrib conj_commute)

lemma after_blanks_iff: "r \<in> set (after_blanks uc s) \<longleftrightarrow> blanks uc s r"
proof
  show "blanks uc s r" if "r \<in> set (after_blanks uc s)"
    using that
  proof (induction uc s rule: after_blanks.induct)
    case (1 uc s)
    show ?case
    proof (cases "s = [] \<or> blank_unit uc s = 0")
      case True
      with 1(2) show ?thesis by (subst (asm) after_blanks.simps) simp
    next
      case False
      with 1(2) have "r = drop (blank_unit uc s) s \<or> r \<in> set (after_blanks uc (drop (blank_unit uc s) s))"
        by (subst (asm) after_blanks.simps) (auto simp: Let_def)
      then show ?thesis using False 1(1) [OF False refl] by (auto intro: blanks.intros)
    qed
  qed
  show "r \<in> set (after_blanks uc s)" if "blanks uc s r"
    using that by induction (subst after_blanks.simps, simp add: Let_def)+
qed

lemma match_tokens_spec:
  "(case match_tokens uc fits ts s of
      None \<Rightarrow> \<not> (\<exists>r. reads uc ts s r \<and> fits r)
    | Some r \<Rightarrow> reads uc ts s r \<and> fits r)"
proof (induction uc fits ts s rule: match_tokens.induct)
  case (1 uc fits s)
  then show ?case by (auto intro: none elim: reads_cases)
next
  case (2 uc fits ts s)
  show ?case
  proof (cases "match_tokens uc fits (Blanks # ts) s")
    case None
    then have "match_tokens uc fits ts t = None" if "blanks uc s t" for t
      using that by (simp add: first_some_None after_blanks_iff)
    then have "\<not> (\<exists>r. reads uc ts t r \<and> fits r)" if "blanks uc s t" for t
      using 2 [of t] that by (simp add: after_blanks_iff)
    then show ?thesis using None by (auto elim: reads_cases)
  next
    case (Some r)
    then obtain t where t: "blanks uc s t" "match_tokens uc fits ts t = Some r"
      by (auto dest: first_some_Some simp: after_blanks_iff)
    then show ?thesis using 2 [of t] Some by (auto simp: after_blanks_iff intro: blank)
  qed
next
  case (3 uc fits ts s)
  let ?after = "(if prefix ''&'' s then [drop 1 s] else []) @ (if prefix ''&amp;'' s then [drop 5 s] else [])"
  have after: "t \<in> set ?after \<longleftrightarrow> s = CHR ''&'' # t \<or> s = ''&amp;'' @ t" for t
    by (cases s) (auto simp: prefix_Cons elim!: prefixE)
  have reads: "reads uc (Amp # ts) s r \<longleftrightarrow> (\<exists>t\<in>set ?after. reads uc ts t r)" for r
    by (simp only: Bex_def after reads_Amp_split)
  show ?case
  proof (cases "match_tokens uc fits (Amp # ts) s")
    case None
    then have "match_tokens uc fits ts t = None" if "t \<in> set ?after" for t
      using that by (simp only: match_tokens.simps first_some_None)
    then have "\<not> (\<exists>r. reads uc ts t r \<and> fits r)" if "t \<in> set ?after" for t
      using 3 [of t] that by simp
    then have "\<not> (\<exists>r. reads uc (Amp # ts) s r \<and> fits r)" unfolding reads by blast
    then show ?thesis unfolding None by simp
  next
    case (Some r)
    then obtain t where t: "t \<in> set ?after" "match_tokens uc fits ts t = Some r"
      by (auto simp only: match_tokens.simps dest: first_some_Some)
    then have "reads uc ts t r \<and> fits r" using 3 [of t] t by (simp only: option.case)
    then have "reads uc (Amp # ts) s r \<and> fits r" unfolding reads using t(1) by blast
    then show ?thesis unfolding Some by (simp only: option.case)
  qed
next
  case (4 uc fits c ts s)
  then show ?case by (auto elim!: reads_cases intro: plain simp: prefix_def split: option.splits)
qed

lemma word_after: "length r \<le> length s \<Longrightarrow> suffix r s \<Longrightarrow> drop (length s - length r) s = r"
  by (auto simp: suffix_def)

lemma blanks_suffix: "blanks uc s r \<Longrightarrow> suffix r s"
  by (induction rule: blanks.induct) (auto intro: suffix_drop suffix_order.trans)

lemma reads_suffix: "reads uc ts s r \<Longrightarrow> suffix r s"
proof (induction rule: reads.induct)
  case (entity ts s r)
  then show ?case by (auto simp: suffix_def)
qed (auto intro: suffix_ConsI suffix_order.trans dest: blanks_suffix)

definition anchor_fits :: "unicode \<Rightarrow> string \<Rightarrow> string \<Rightarrow> string \<Rightarrow> string \<Rightarrow> bool" where
  "anchor_fits uc anchor pre words post \<longleftrightarrow>
     reads uc (tokens uc False anchor) (words @ post) post
     \<and> \<not> (uc_word uc (first_char anchor) \<and> word_before uc pre) \<and> \<not> (uc_word uc (last_char anchor) \<and> word_at uc post)"

lemma anchor_regex_spec:
  "(case anchor_regex uc anchor pre s of
      None \<Rightarrow> \<not> (\<exists>words post. s = words @ post \<and> anchor_fits uc anchor pre words post)
    | Some (_, n) \<Rightarrow> anchor_fits uc anchor pre (take n s) (drop n s))"
proof -
  let ?fits = "\<lambda>r. \<not> (uc_word uc (last_char anchor) \<and> word_at uc r)"
  note spec = match_tokens_spec [where uc = uc and fits = ?fits and ts = "tokens uc False anchor" and s = s]
  show ?thesis
  proof (cases "match_tokens uc ?fits (tokens uc False anchor) s")
    case None
    with spec show ?thesis by (auto simp: anchor_regex_def anchor_fits_def)
  next
    case (Some r)
    with spec have r: "reads uc (tokens uc False anchor) s r" "?fits r" by simp_all
    from reads_suffix [OF r(1)] obtain w where s: "s = w @ r" by (auto simp: suffix_def)
    then show ?thesis using Some r by (auto simp: anchor_regex_def anchor_fits_def)
  qed
qed

section \<open>Counting a mark\<close>

text \<open>All places a word stands at; for a word whose first character does not come again in it, these are the ones
  \<open>s.count\<close> counts.\<close>

fun hits :: "string \<Rightarrow> string \<Rightarrow> nat" where
  "hits w [] = 0"
| "hits w (c # s) = (if prefix w (c # s) then 1 else 0) + hits w s"

lemma prefix_cut: "x \<notin> set w \<Longrightarrow> prefix w (a @ x # b) \<longleftrightarrow> prefix w a"
proof (induction a arbitrary: w)
  case Nil
  then show ?case by (cases w) auto
next
  case (Cons c a)
  then show ?case by (cases w) auto
qed

lemma hits_cut: "x \<notin> set w \<Longrightarrow> w \<noteq> [] \<Longrightarrow> hits w (a @ x # b) = hits w a + hits w b"
proof (induction a)
  case Nil
  then show ?case by (cases w) auto
next
  case (Cons c a)
  then show ?case using prefix_cut [of x w "c # a" b] by simp
qed

lemma hits_append: "hits w a + hits w b \<le> hits w (a @ b)"
proof (induction a)
  case (Cons c a)
  then show ?case using prefix_prefix [of w "c # a" b] by auto
qed simp

lemma hits_position: "hits w s \<noteq> 0 \<Longrightarrow> \<exists>a b. s = a @ b \<and> prefix w b"
proof (induction s)
  case (Cons c s)
  show ?case
  proof (cases "prefix w (c # s)")
    case False
    with Cons obtain a b where "s = a @ b" "prefix w b" by auto
    then show ?thesis by (metis append_Cons)
  qed (metis append_Nil)
qed simp

lemma hits_lacking: "x \<in> set w \<Longrightarrow> x \<notin> set s \<Longrightarrow> hits w s = 0"
proof (induction s)
  case (Cons c s)
  then have "\<not> prefix w (c # s)" using set_mono_prefix [of w "c # s"] by auto
  with Cons show ?case by simp
qed simp

lemma hits_free: "hd w \<notin> set a \<Longrightarrow> w \<noteq> [] \<Longrightarrow> hits w (a @ s) = hits w s"
proof (induction a)
  case (Cons c a)
  then show ?case by (cases w) auto
qed simp

lemma occurrences_hits:
  assumes "w \<noteq> []" and "hd w \<notin> set (tl w)"
  shows "length (finditer (literal w) pre s) = hits w s"
proof (induction s arbitrary: pre rule: measure_induct_rule [where f = length])
  case (less s)
  show ?case
  proof (cases s)
    case (Cons c t)
    show ?thesis
    proof (cases "prefix w s")
      case True
      then obtain r where r: "s = w @ r" by (auto elim: prefixE)
      obtain n where n: "length w = Suc n" using assms(1) by (cases w) auto
      have "hits w s = Suc (hits w r)"
        using True assms hits_free [of w "tl w" r] r by (cases w) auto
      moreover have "length (finditer (literal w) (pre @ w) r) = hits w r" using less [of r] r assms(1) by simp
      moreover have "finditer (literal w) pre s = (length pre, length pre + length w, ()) # finditer (literal w) (pre @ w) r"
        using True n r unfolding Cons finditer_Cons by (simp add: literal_def flip: Cons)
      ultimately show ?thesis by simp
    next
      case False
      then show ?thesis using less [of t "pre @ [c]"] by (simp add: Cons finditer_Cons literal_def)
    qed
  qed simp
qed

lemma mark_hits: "occurrences in_text_mark s = hits in_text_mark s"
  unfolding occurrences_def by (rule occurrences_hits) (simp_all add: in_text_mark_def)

lemma mark_chars:
  "in_text_mark \<noteq> []" "CHR ''<'' \<notin> set in_text_mark" "CHR ''>'' \<notin> set in_text_mark" "CHR '' '' \<notin> set in_text_mark"
  "CHR 0x0A \<notin> set in_text_mark" "CHR 0x22 \<in> set in_text_mark"
  by (simp_all add: in_text_mark_def)

lemmas mark_cut = hits_cut [OF mark_chars(2,1)] hits_cut [OF mark_chars(3,1)] hits_cut [OF mark_chars(4,1)]
  hits_cut [OF mark_chars(5,1)]

lemma escape_unquoted: "CHR 0x22 \<notin> set (html_escape s)"
  by (auto simp: html_escape_def split: if_splits)

lemma quoted_attribute:
  assumes "CHR 0x22 \<notin> set h"
  shows "hits in_text_mark (''href='' @ CHR 0x22 # h @ [CHR 0x22]) = 0"
proof -
  let ?q = "\<lambda>s. length (filter (\<lambda>c. c = CHR 0x22) s)" and ?u = "takeWhile (\<lambda>c. c \<noteq> CHR 0x22)"
  have "\<not> prefix in_text_mark b" if s: "''href='' @ CHR 0x22 # h @ [CHR 0x22] = a @ b" for a b
  proof
    assume "prefix in_text_mark b"
    then obtain c where b: "b = in_text_mark @ c" by (auto elim: prefixE)
    have "?q (''href='' @ CHR 0x22 # h @ [CHR 0x22]) = 2" using assms by (simp add: filter_empty_conv) (metis (mono_tags) filter_False length_0_conv)
    moreover have "?q (a @ b) = ?q a + 2 + ?q c" by (simp add: b in_text_mark_def)
    moreover have "?q (''href='' @ CHR 0x22 # h @ [CHR 0x22]) = ?q (a @ b)" using s by (rule arg_cong)
    ultimately have "?q a = 0" by linarith
    then have "CHR 0x22 \<notin> set a" by (auto simp: filter_empty_conv)
    then have "?u (a @ b) = a @ ?u b" by (auto simp: takeWhile_append)
    then have "length (?u (a @ b)) = length a + 14" by (simp add: b in_text_mark_def)
    moreover have "length (?u (''href='' @ CHR 0x22 # h @ [CHR 0x22])) = 5" by simp
    ultimately show False unfolding s by simp
  qed
  then show ?thesis using hits_position by blast
qed

lemma open_link_marks: "CHR 0x22 \<notin> set h \<Longrightarrow> hits in_text_mark (pre @ open_link h @ s) = hits in_text_mark pre + 1 + hits in_text_mark s"
proof -
  assume h: "CHR 0x22 \<notin> set h"
  have "pre @ open_link h @ s
      = pre @ CHR ''<'' # ''a'' @ CHR '' '' # in_text_mark @ CHR '' '' # (''href='' @ CHR 0x22 # h @ [CHR 0x22]) @ CHR ''>'' # s"
    by (simp add: open_link_def)
  then show ?thesis
    by (simp only: mark_cut quoted_attribute [OF h]) (simp add: in_text_mark_def)
qed

lemma in_text_marks:
  assumes "CHR 0x22 \<notin> set h"
  shows "hits in_text_mark (pre @ open_link h @ words @ close_link @ post) \<le> Suc (hits in_text_mark (pre @ words @ post))"
proof -
  have "words @ close_link @ post = words @ CHR ''<'' # ''/a'' @ CHR ''>'' # post" by (simp add: close_link_def)
  then have "hits in_text_mark (words @ close_link @ post) = hits in_text_mark words + hits in_text_mark post"
    by (simp only: mark_cut) (simp add: in_text_mark_def)
  then show ?thesis
    using open_link_marks [OF assms] hits_append [of in_text_mark pre "words @ post"] hits_append [of in_text_mark words post]
    by (simp del: append_assoc)
qed

lemma block_marks:
  assumes "CHR 0x22 \<notin> set h" and "CHR 0x22 \<notin> set a"
  shows "hits in_text_mark (content @ read_also_block h a) = hits in_text_mark content"
proof -
  have "content @ read_also_block h a
      = content @ CHR 0x0A # ''<!-- wp:paragraph --'' @ CHR ''>'' # (CHR 0x0A # ''<p>Read also:'') @ CHR '' '' # ''<a'' @ CHR '' ''
        # (''href='' @ CHR 0x22 # h @ [CHR 0x22]) @ CHR ''>'' # a @ CHR ''<'' # ''/a></p>'' @ CHR 0x0A # ''<!-- /wp:paragraph -->''"
    by (simp add: read_also_block_def)
  then show ?thesis
    using hits_lacking [OF mark_chars(6) assms(2)]
    by (simp only: mark_cut quoted_attribute [OF assms(1)]) (simp add: in_text_mark_def)
qed

section \<open>What an insertion does\<close>

text \<open>The place of a link in the prose of \<open>pre @ words @ post\<close>.\<close>

definition in_prose :: "unicode \<Rightarrow> string \<Rightarrow> string \<Rightarrow> string \<Rightarrow> bool" where
  "in_prose uc pre words post \<longleftrightarrow>
     words \<noteq> [] \<and> is_prose (open_elements uc (pre @ words @ post) (length pre))
     \<and> list_all (\<lambda>(i, j, _). j \<le> length pre \<or> length pre + length words \<le> i)
         (tags_of uc (pre @ words @ post))
     \<and> list_all (\<lambda>(i, j, _). j \<le> length pre \<or> length pre + length words \<le> i)
         (finditer shortcode_re [] (pre @ words @ post))"

lemma insert_link_cases:
  obtains (in_text) i j where "anchor \<noteq> None" "anchor_span uc content (or_else anchor []) = Some (i, j)"
      "occurrences in_text_mark content < publish_max_in_text_links_per_article cfg"
      "\<not> crowds_existing_link cfg content (i, j)"
      "insert_link uc cfg content url title anchor
        = (take i content @ open_link (html_escape url) @ take (j - i) (drop i content) @ close_link @ drop j content, Inserted)"
    | (block) words where "insert_link uc cfg content url title anchor
        = (content @ read_also_block (html_escape url) (html_escape words), Block)"
proof (cases "case (if truthy anchor \<and> \<not> publish_max_in_text_links_per_article cfg \<le> occurrences in_text_mark content
      then anchor_span uc content (or_else anchor []) else None) of
    Some m \<Rightarrow> if crowds_existing_link cfg content m then None else Some m | None \<Rightarrow> None")
  case None
  then show thesis using block by (simp add: insert_link_def Let_def)
next
  case (Some m)
  obtain i j where m: "m = (i, j)" by (cases m)
  have "truthy anchor" "anchor_span uc content (or_else anchor []) = Some (i, j)"
    "occurrences in_text_mark content < publish_max_in_text_links_per_article cfg" "\<not> crowds_existing_link cfg content (i, j)"
    using Some m by (auto split: option.splits if_splits)
  moreover have "anchor \<noteq> None" using calculation(1) by (auto simp: truthy_def split: option.splits)
  ultimately show thesis using Some m by (intro in_text) (simp_all add: insert_link_def Let_def)
qed

lemma inserted_link:
  assumes "insert_link uc cfg content url title anchor = (updated, Inserted)"
  shows "\<exists>pre words post. content = pre @ words @ post
    \<and> updated = pre @ open_link (html_escape url) @ words @ close_link @ post
    \<and> in_prose uc pre words post
    \<and> anchor_fits uc (or_else anchor []) pre words post
    \<and> filter (linkable uc content) (spans (finditer (anchor_regex uc (or_else anchor [])) [] content))
        = [(length pre, length pre + length words)]
    \<and> occurrences in_text_mark content < publish_max_in_text_links_per_article cfg
    \<and> \<not> crowds_existing_link cfg content (length pre, length pre + length words)"
proof (cases rule: insert_link_cases [where anchor = anchor and uc = uc and content = content and cfg = cfg and url = url and title = title])
  case (in_text i j)
  note span = anchor_span_Some [OF in_text(2)]
  define pre words post where "pre = take i content" and "words = take (j - i) (drop i content)" and "post = drop j content"
  have content: "content = pre @ words @ post"
  proof -
    have "drop j content = drop (j - i) (drop i content)" using span(2) by simp
    then show ?thesis by (simp only: pre_def words_def post_def append_take_drop_id)
  qed
  have len: "length pre = i" "length pre + length words = j" using span(2,3) by (simp_all add: pre_def words_def)
  have "in_prose uc pre words post"
    using linkable_prose [OF span(4,2)] span(2) len
    unfolding in_prose_def content [symmetric] list_all_iff by fastforce
  moreover have "anchor_fits uc (or_else anchor []) pre words post"
    using anchor_regex_spec [where uc = uc and anchor = "or_else anchor []" and pre = "take i content" and s = "drop i content"] span(2,3)
    by (simp add: span(5) pre_def words_def post_def)
  moreover have "updated = pre @ open_link (html_escape url) @ words @ close_link @ post"
    using assms unfolding in_text(5) pre_def words_def post_def by simp
  moreover have "filter (linkable uc content) (spans (finditer (anchor_regex uc (or_else anchor [])) [] content))
      = [(length pre, length pre + length words)]"
    using span(1) unfolding len(2) unfolding len(1) .
  moreover have "\<not> crowds_existing_link cfg content (length pre, length pre + length words)"
    using in_text(4) unfolding len(2) unfolding len(1) .
  ultimately show ?thesis using in_text(3)
    by (intro exI [of _ pre] exI [of _ words] exI [of _ post] conjI content)
next
  case (block words)
  with assms show ?thesis by simp
qed

text \<open>C3. A link is put into the text only where it is safe: the words it wraps are the one place in the post that reads
  as the chosen anchor (white space and escaped ampersands aside, on word borders) and is prose outside every tag,
  comment and shortcode; every element open there is a listed one, so never a heading, a quotation, code or another link;
  the post still has room for an in-text link and no earlier one stands within the gap. Every byte of the post
  stays, in order, around the two insertions.\<close>

theorem in_text_link_is_in_prose:
  assumes "insert_link uc cfg content url title anchor = (updated, Inserted)"
  shows "\<exists>pre words post. content = pre @ words @ post
    \<and> updated = pre @ open_link (html_escape url) @ words @ close_link @ post
    \<and> in_prose uc pre words post
    \<and> anchor_fits uc (or_else anchor []) pre words post
    \<and> filter (linkable uc content) (spans (finditer (anchor_regex uc (or_else anchor [])) [] content))
        = [(length pre, length pre + length words)]
    \<and> occurrences in_text_mark content < publish_max_in_text_links_per_article cfg
    \<and> \<not> crowds_existing_link cfg content (length pre, length pre + length words)"
  using assms by (rule inserted_link)

section \<open>What a preview does\<close>

text \<open>A post with links added, one after another: the specification of the loop. A link goes around words of the prose
  while the limit is not reached, or into a paragraph of its own behind the text.\<close>

inductive linked :: "unicode \<Rightarrow> nat \<Rightarrow> string \<Rightarrow> string \<Rightarrow> (string \<times> link_outcome) list \<Rightarrow> bool" for uc limit c where
  nothing: "linked uc limit c c []"
| in_text: "linked uc limit c (pre @ words @ post) links \<Longrightarrow> in_prose uc pre words post
    \<Longrightarrow> occurrences in_text_mark (pre @ words @ post) < limit
    \<Longrightarrow> linked uc limit c (pre @ open_link (html_escape url) @ words @ close_link @ post) (links @ [(url, Inserted)])"
| block: "linked uc limit c d links
    \<Longrightarrow> linked uc limit c (d @ read_also_block (html_escape url) (html_escape words)) (links @ [(url, Block)])"

lemma linked_keeps: "linked uc limit c d links \<Longrightarrow> subseq c d"
proof (induction rule: linked.induct)
  case (in_text pre words post links url)
  have "subseq (pre @ words @ post) (pre @ open_link (html_escape url) @ words @ close_link @ post)"
    by (intro list_emb_append_mono list_emb_append2 subseq_order.refl)
  then show ?case using in_text.IH by (rule subseq_order.trans [rotated])
qed (auto intro: list_emb_append2 list_emb_prefix subseq_order.trans [rotated] simp: subseq_rev_drop_many)

lemma linked_marks: "linked uc limit c d links \<Longrightarrow> occurrences in_text_mark d \<le> max limit (occurrences in_text_mark c)"
proof (induction rule: linked.induct)
  case (in_text pre words post links url)
  then show ?case
    using in_text_marks [OF escape_unquoted, of pre url words post] unfolding mark_hits by linarith
next
  case (block d links url words)
  then show ?case unfolding mark_hits by (simp add: block_marks escape_unquoted)
qed simp

lemma linked_trans: "linked uc limit d e links' \<Longrightarrow> linked uc limit c d links \<Longrightarrow> linked uc limit c e (links @ links')"
proof (induction rule: linked.induct)
  case (in_text pre words post links' url)
  then show ?case using linked.in_text [of uc limit c pre words post "links @ links'" url] by simp
next
  case (block d' links' url words)
  then show ?case using linked.block [of uc limit c d' "links @ links'" url words] by simp
qed simp

lemma insert_link_linked:
  assumes "insert_link uc cfg content url title anchor = (updated, oc)"
  shows "linked uc (publish_max_in_text_links_per_article cfg) content updated [(url, oc)] \<and> oc \<noteq> Already_present"
proof (cases oc)
  case Inserted
  from inserted_link [OF assms [unfolded Inserted]] obtain pre words post where
    at: "content = pre @ words @ post" "updated = pre @ open_link (html_escape url) @ words @ close_link @ post"
    and prose: "in_prose uc pre words post"
    and room: "occurrences in_text_mark content < publish_max_in_text_links_per_article cfg"
    by (elim exE conjE) (rule that)
  have "linked uc (publish_max_in_text_links_per_article cfg) (pre @ words @ post)
      (pre @ open_link (html_escape url) @ words @ close_link @ post) ([] @ [(url, Inserted)])"
    by (rule linked.in_text [OF linked.nothing prose room [unfolded at(1)]])
  then show ?thesis unfolding at Inserted by simp
next
  case Block
  then show ?thesis
    using assms linked.block [OF linked.nothing] by (cases rule: insert_link_cases [where anchor = anchor and uc = uc and content = content and cfg = cfg and url = url and title = title]) auto
next
  case Already_present
  then show ?thesis
    using assms by (cases rule: insert_link_cases [where anchor = anchor and uc = uc and content = content and cfg = cfg and url = url and title = title]) auto
qed

lemma place_links_linked:
  assumes "place_links uc cfg articles existing content ss = Some (updated, outcomes)"
  shows "\<exists>links. linked uc (publish_max_in_text_links_per_article cfg) content updated links
    \<and> map snd links = filter (\<lambda>oc. oc \<noteq> Already_present) outcomes \<and> length outcomes = length ss
    \<and> distinct (map fst links) \<and> fst ` set links \<inter> existing = {}
    \<and> (\<forall>s\<in>set ss. \<exists>url. suggestion_target_url articles s = Some url \<and> url \<in> existing \<union> fst ` set links)"
  using assms
proof (induction uc cfg articles existing content ss arbitrary: outcomes rule: place_links.induct)
  case (1 uc cfg articles existing content)
  then show ?case by (auto intro: linked.nothing)
next
  case (2 uc cfg articles existing content s ss)
  from 2(3) obtain url title where u: "suggestion_target_url articles s = Some url"
      "suggestion_target_title articles s = Some title"
    by (auto split: option.splits)
  show ?case
  proof (cases "url \<in> existing")
    case True
    with 2(3) u obtain ocs where ocs: "outcomes = Already_present # ocs"
        "place_links uc cfg articles existing content ss = Some (updated, ocs)" by auto
    from 2(1) [OF _ u(1) u(2) True ocs(2)] show ?thesis using u(1) True ocs(1) by auto
  next
    case False
    obtain content' oc where ins: "insert_link uc cfg content url title (sg_anchor s) = (content', oc)" by (cases "insert_link uc cfg content url title (sg_anchor s)")
    with 2(3) u False obtain ocs where ocs: "outcomes = oc # ocs"
        "place_links uc cfg articles (insert url existing) content' ss = Some (updated, ocs)" by auto
    note one = insert_link_linked [OF ins]
    from 2(2) [OF _ u(1) u(2) False ins [symmetric] refl ocs(2)] obtain links where
      links: "linked uc (publish_max_in_text_links_per_article cfg) content' updated links"
        "map snd links = filter (\<lambda>oc. oc \<noteq> Already_present) ocs" "length ocs = length ss" "distinct (map fst links)"
        "fst ` set links \<inter> insert url existing = {}"
        "\<forall>s\<in>set ss. \<exists>u. suggestion_target_url articles s = Some u \<and> u \<in> insert url existing \<union> fst ` set links"
      by auto
    have "linked uc (publish_max_in_text_links_per_article cfg) content updated ((url, oc) # links)"
      using linked_trans [OF links(1), of content "[(url, oc)]"] one by simp
    then show ?thesis using links one False u(1) ocs(1)
      by (intro exI [of _ "(url, oc) # links"]) auto
  qed
qed

lemma snapshot_outcomes: "snapshot_from articles i ss outs = Some items \<Longrightarrow> map it_outcome items = outs"
  by (induction articles i ss outs arbitrary: items rule: snapshot_from.induct) (auto split: option.splits)

lemma outcome_names:
  "map outcome_name (filter (\<lambda>oc. oc \<noteq> Already_present) ocs) = filter (\<lambda>name. name \<noteq> ''already_present'') (map outcome_name ocs)"
  by (induction ocs) (auto simp: outcome_name_def split: link_outcome.splits)

text \<open>C4. A prepared plan adds links and changes nothing else: its original text is the live post as it was read, its
  updated text is that post with links put around words of its prose or behind it, so every byte of the post is still
  there in its order. Every target of the selection that was not linked before is linked exactly once, targets that were
  linked already are left alone, the recorded outcomes say which links went where, and the number of in-text marks
  never exceeds the limit unless the post already did.\<close>

theorem prepared_plan_only_adds_links:
  assumes "render_plan sha (preview_links uc cfg hp (st_articles st) read) i site st source ids = Prepared p"
  shows "\<exists>a links. a \<in> set (st_articles st) \<and> read (or_else (ar_external_id a) []) = Some (pl_original p)
    \<and> linked uc (publish_max_in_text_links_per_article cfg) (pl_original p) (pl_updated p) links
    \<and> subseq (pl_original p) (pl_updated p)
    \<and> occurrences in_text_mark (pl_updated p)
        \<le> max (publish_max_in_text_links_per_article cfg) (occurrences in_text_mark (pl_original p))
    \<and> distinct (map fst links) \<and> fst ` set links \<inter> set (all_hrefs hp (pl_original p) (ar_url a)) = {}
    \<and> list_all (\<lambda>s. list_ex (\<lambda>url. suggestion_target_url (st_articles st) s = Some url)
          (all_hrefs hp (pl_original p) (ar_url a) @ map fst links)) (present_rows st ids)
    \<and> map (outcome_name \<circ> snd) links = filter (\<lambda>name. name \<noteq> ''already_present'') (map it_outcome (pl_items p))"
proof -
  from assms obtain s ss where rows: "present_rows st ids = s # ss"
    by (auto simp: render_plan_def split: list.splits)
  obtain a original updated outcomes items where a: "get_row ar_id (sg_source s) (st_articles st) = Some a"
    and view: "preview_links uc cfg hp (st_articles st) read (s # ss) = Some (original, updated, outcomes)"
    and items: "snapshot_items (st_articles st) (s # ss) outcomes = Some items"
    and p: "p = new_plan sha i site source (ar_url a) original updated items"
    using assms by (auto simp: render_plan_def rows split: option.splits)
  from view a obtain ocs where live: "read (or_else (ar_external_id a) []) = Some original"
    and place: "place_links uc cfg (st_articles st) (set (all_hrefs hp original (ar_url a))) original (s # ss) = Some (updated, ocs)"
    and outs: "outcomes = map outcome_name ocs"
    by (auto simp: preview_links_def simp del: place_links.simps split: option.splits if_splits)
  obtain links where links:
    "linked uc (publish_max_in_text_links_per_article cfg) original updated links"
    "map snd links = filter (\<lambda>oc. oc \<noteq> Already_present) ocs" "distinct (map fst links)"
    "fst ` set links \<inter> set (all_hrefs hp original (ar_url a)) = {}"
    and targets: "\<forall>s'\<in>set (s # ss). \<exists>url. suggestion_target_url (st_articles st) s' = Some url
        \<and> url \<in> set (all_hrefs hp original (ar_url a)) \<union> fst ` set links"
    using place_links_linked [OF place] by blast
  have plan: "pl_original p = original" "pl_updated p = updated" "pl_items p = items"
    by (simp_all add: p new_plan_def hashed_def draft_plan_def)
  have "list_all (\<lambda>s. list_ex (\<lambda>url. suggestion_target_url (st_articles st) s = Some url)
      (all_hrefs hp original (ar_url a) @ map fst links)) (s # ss)"
    unfolding list_all_iff list_ex_iff set_append set_map using targets by blast
  moreover have "map (outcome_name \<circ> snd) links = filter (\<lambda>name. name \<noteq> ''already_present'') (map it_outcome items)"
  proof -
    have "map it_outcome items = outcomes" using items snapshot_outcomes by (simp add: snapshot_items_def)
    moreover have "map (outcome_name \<circ> snd) links = map outcome_name (map snd links)" by simp
    ultimately show ?thesis by (simp add: outs links(2) outcome_names del: map_map)
  qed
  moreover have "a \<in> set (st_articles st)" using get_row_Some [OF a] by simp
  ultimately show ?thesis
    unfolding plan rows using live links linked_keeps [OF links(1)] linked_marks [OF links(1)] by blast
qed

section \<open>The rest of the post is read as before\<close>

text \<open>Where a comment or a tag begins. In a finished text each such place lies in a comment or tag that also ends.\<close>

definition opens_markup :: "string \<Rightarrow> bool" where
  "opens_markup s \<longleftrightarrow> prefix ''<!--'' s \<or> (prefix ''<'' s \<and> drop 1 s \<noteq> [] \<and> is_alpha (hd (drop 1 s)))
     \<or> (prefix ''</'' s \<and> drop 2 s \<noteq> [] \<and> is_alpha (hd (drop 2 s)))"

definition covered :: "unicode \<Rightarrow> string \<Rightarrow> nat \<Rightarrow> bool" where
  "covered uc content i \<longleftrightarrow> (\<exists>t\<in>set (tags_of uc content). fst t \<le> i \<and> i < fst (snd t))"

definition finished :: "unicode \<Rightarrow> string \<Rightarrow> nat \<Rightarrow> bool" where
  "finished uc content n \<longleftrightarrow>
     list_all (\<lambda>i. opens_markup (drop i content) \<longrightarrow> covered uc content i) [0..<n]"

lemma element_at_opens: "element_at uc s = Some r \<Longrightarrow> prefix ''<'' s \<and> (drop 1 s \<noteq> [] \<and> is_alpha (hd (drop 1 s))
    \<or> prefix ''</'' s \<and> drop 2 s \<noteq> [] \<and> is_alpha (hd (drop 2 s)))"
  by (cases r) (auto elim!: element_at_Some)

definition tag_here :: "unicode \<Rightarrow> string \<Rightarrow> (tag \<times> nat) option" where
  "tag_here uc s = tag_re uc [] s"

lemma tag_re_here: "tag_re uc pre s = tag_here uc s"
  by (simp add: tag_here_def tag_re_def)

lemma not_opens: "\<not> opens_markup s \<Longrightarrow> tag_here uc s = None"
proof -
  assume "\<not> opens_markup s"
  moreover have "comment_at s = None" using \<open>\<not> opens_markup s\<close> by (simp add: comment_at_def opens_markup_def)
  moreover have "element_at uc s = None"
    using element_at_opens [of uc s] \<open>\<not> opens_markup s\<close> by (cases "element_at uc s") (auto simp: opens_markup_def)
  ultimately show ?thesis by (simp add: tag_here_def tag_re_def)
qed

definition shift :: "nat \<Rightarrow> nat \<times> nat \<times> tag \<Rightarrow> nat \<times> nat \<times> tag" where
  "shift k = (\<lambda>(i, j, t). (i + k, j + k, t))"

lemma shift_simps [simp]: "shift k (i, j, t) = (i + k, j + k, t)" "fst (shift k x) = fst x + k"
  "fst (snd (shift k x)) = fst (snd x) + k" "snd (snd (shift k x)) = snd (snd x)" "shift k (shift l x) = shift (l + k) x"
  by (simp_all add: shift_def split_beta)

lemma map_shift: "map (shift k) (map (shift l) ts) = map (shift (l + k)) ts"
  by simp

lemma filter_shift:
  "filter (\<lambda>t. fst (snd t) \<le> m + k) (map (shift k) ts) = map (shift k) (filter (\<lambda>t. fst (snd t) \<le> m) ts)"
  by (simp add: filter_map comp_def)

lemma tag_here_length: "tag_here uc s = Some (t, n) \<Longrightarrow> 0 < n \<and> n \<le> length s"
  using tags.in_text [of uc "[]" s t n]
  by (auto simp: tag_here_def tag_re_def split: option.splits if_splits dest: comment_at_Some elim!: element_at_Some)

lemma finditer_shift: "finditer (tag_re uc) (p @ pre) s = map (shift (length p)) (finditer (tag_re uc) pre s)"
proof (induction s arbitrary: pre rule: measure_induct_rule [where f = length])
  case (less s)
  show ?case
  proof (cases s)
    case (Cons c r)
    show ?thesis
    proof (cases "tag_here uc s")
      case None
      then have "finditer (tag_re uc) q s = finditer (tag_re uc) (q @ [c]) r" for q
        by (simp add: Cons finditer_Cons tag_re_here)
      then show ?thesis using less [of r "pre @ [c]"] by (simp add: Cons)
    next
      case (Some x)
      obtain t n where x: "x = (t, n)" by (cases x)
      note n = tag_here_length [OF Some [unfolded x]]
      then obtain k where k: "n = Suc k" by (cases n) auto
      have "finditer (tag_re uc) q s = (length q, length q + n, t) # finditer (tag_re uc) (q @ take n s) (drop n s)" for q
        using Some x k by (simp add: Cons finditer_Cons tag_re_here)
      then show ?thesis using less [of "drop n s" "pre @ take n s"] n by (simp add: Cons k)
    qed
  qed simp
qed

lemma tags_of_shift: "finditer (tag_re uc) p s = map (shift (length p)) (tags_of uc s)"
  using finditer_shift [of uc p "[]" s] by (simp add: tags_of_def)

lemma tags_of_Nil [simp]: "tags_of uc [] = []"
  by (simp add: tags_of_def)

lemma tags_of_hit:
  assumes "tag_here uc s = Some (t, n)"
  shows "tags_of uc s = (0, n, t) # map (shift n) (tags_of uc (drop n s))"
proof -
  note n = tag_here_length [OF assms]
  then obtain c r k where s: "s = c # r" "n = Suc k" by (cases s; cases n) auto
  then have "tags_of uc s = (0, n, t) # finditer (tag_re uc) (take n s) (drop n s)"
    using assms by (simp add: tags_of_def finditer_Cons tag_re_here)
  then show ?thesis using n tags_of_shift [of uc "take n s" "drop n s"] by (simp add: min.absorb2)
qed

lemma tags_of_miss: "s \<noteq> [] \<Longrightarrow> tag_here uc s = None \<Longrightarrow> tags_of uc s = map (shift 1) (tags_of uc (drop 1 s))"
  using tags_of_shift [of uc "take 1 s" "drop 1 s"] by (cases s) (simp_all add: tags_of_def finditer_Cons tag_re_here)

text \<open>A match depends on the text it covers only.\<close>

lemma index_of_here: "index_of w (w @ z) = Some 0"
proof (cases "w @ z")
  case (Cons c s)
  then have "prefix w (c # s)" by (metis prefixI)
  then show ?thesis by (simp add: Cons)
qed simp

lemma index_of_stable: "index_of w s = Some n \<Longrightarrow> index_of w (take (n + length w) s @ z) = Some n"
proof (induction w s arbitrary: n rule: index_of.induct)
  case (1 w)
  then show ?case by (cases z) (auto split: if_splits)
next
  case (2 w c s)
  show ?case
  proof (cases "prefix w (c # s)")
    case True
    then have "n = 0" "take (length w) (c # s) = w" using 2(2) by (auto elim!: prefixE)
    then show ?thesis using index_of_here by simp
  next
    case False
    then obtain k where k: "n = Suc k" "index_of w s = Some k" using 2(2) by auto
    have "\<not> prefix w (c # take (k + length w) s @ z)"
    proof
      assume "prefix w (c # take (k + length w) s @ z)"
      then have "w = take (length w) (c # take (k + length w) s @ z)" by (metis append_eq_conv_conj prefixE)
      also have "\<dots> = take (length w) (c # s)"
        using index_of_le [OF k(2)] by (cases w) (simp_all add: take_Cons')
      finally show False using False by (metis take_is_prefix)
    qed
    then show ?thesis using 2(1) [OF False k(2)] k(1) by simp
  qed
qed

lemma name_run_stable: "CHR ''>'' \<notin> set b \<Longrightarrow> name_run uc (b @ CHR ''>'' # z) = name_run uc (b @ CHR ''>'' # z')"
proof (induction b)
  case (Cons c b)
  have "takeWhile continuation (b @ CHR ''>'' # z) = takeWhile continuation (b @ CHR ''>'' # z')"
    by (induction b) (simp_all add: continuation_def)
  then have "space_at uc (c # b @ CHR ''>'' # z) \<longleftrightarrow> space_at uc (c # b @ CHR ''>'' # z')"
    by (simp add: space_at_def first_char_def)
  then show ?case using Cons by simp
qed simp

lemma element_at_intro:
  assumes "is_alpha c" and "CHR ''>'' \<notin> set body"
  shows "element_at uc (CHR ''<'' # (if closing then ''/'' else []) @ c # body @ CHR ''>'' # z)
    = Some (Tag closing (c # name_run uc (body @ [CHR ''>''])) (body \<noteq> [] \<and> last body = CHR ''/''),
        (if closing then 4 else 3) + length body)"
proof -
  have "c \<noteq> CHR ''/''" using assms(1) by (auto simp: is_alpha_def)
  moreover have "takeWhile (\<lambda>x. x \<noteq> CHR ''>'') (body @ CHR ''>'' # z) = body" using assms(2) by (induction body) auto
  moreover have "name_run uc (body @ CHR ''>'' # z) = name_run uc (body @ CHR ''>'' # [])" by (rule name_run_stable [OF assms(2)])
  ultimately show ?thesis using assms(1) by (auto simp: element_at_def Let_def)
qed

lemma cut_at: "x \<in> set v \<Longrightarrow> \<exists>r. v = takeWhile (\<lambda>y. y \<noteq> x) v @ x # r"
  by (induction v) auto

lemma tag_here_stable:
  assumes "tag_here uc s = Some (t, n)"
  shows "tag_here uc (take n s @ z) = Some (t, n)"
proof (cases "comment_at s")
  case (Some r)
  with assms have "r = (t, n)" by (simp add: tag_here_def tag_re_def)
  with Some obtain k where k: "prefix ''<!--'' s" "index_of ''-->'' (drop 4 s) = Some k" "t = Comment" "n = k + 7"
    by (auto simp: comment_at_def split: if_splits)
  have "take n s @ z = ''<!--'' @ (take (k + length ''-->'') (drop 4 s) @ z)"
    using k(1) by (auto simp: k(4) eval_nat_numeral elim!: prefixE)
  then have "comment_at (take n s @ z) = Some (t, n)"
    using index_of_stable [OF k(2), of z] k(3,4) by (simp only: comment_at_def) simp
  then show ?thesis by (simp add: tag_here_def tag_re_def)
next
  case None
  with assms have "element_at uc s = Some (t, n)" by (simp add: tag_here_def tag_re_def)
  then show ?thesis
  proof (cases rule: element_at_Some)
    case (1 closing c v)
    define body where "body = takeWhile (\<lambda>x. x \<noteq> CHR ''>'') v"
    obtain r where v: "v = body @ CHR ''>'' # r"
      using cut_at [OF 1(3)] unfolding body_def by blast
    have free: "CHR ''>'' \<notin> set body" unfolding body_def using set_takeWhileD by fastforce
    have n: "n = (if closing then 4 else 3) + length body" using 1(4) unfolding body_def .
    have "name_run uc v = name_run uc (body @ [CHR ''>''])" unfolding v by (rule name_run_stable [OF free])
    then have t: "t = Tag closing (c # name_run uc (body @ [CHR ''>''])) (body \<noteq> [] \<and> last body = CHR ''/'')"
      using 1(5) by (simp flip: body_def)
    have cut: "take n s @ z = CHR ''<'' # (if closing then ''/'' else []) @ c # body @ CHR ''>'' # z"
      by (cases closing) (simp_all add: 1(1) v n eval_nat_numeral)
    have "element_at uc (take n s @ z) = Some (t, n)"
      unfolding cut unfolding t n by (rule element_at_intro [OF 1(2) free])
    moreover have "comment_at (take n s @ z) = None"
      unfolding cut using 1(2) by (auto simp: comment_at_def is_alpha_def)
    ultimately show ?thesis by (simp add: tag_here_def tag_re_def)
  qed
qed

text \<open>Replacing the end of a text does not change the tags before it.\<close>

lemma tags_before:
  assumes "\<And>i j t. (i, j, t) \<in> set (tags_of uc (u @ v)) \<Longrightarrow> i < length u \<Longrightarrow> j \<le> length u"
    and "\<And>i. i < length u \<Longrightarrow> covered uc (u @ v) i \<or> tag_here uc (drop i u @ v') = None"
  shows "tags_of uc (u @ v') = filter (\<lambda>t. fst (snd t) \<le> length u) (tags_of uc (u @ v)) @ map (shift (length u)) (tags_of uc v')"
  using assms
proof (induction u rule: measure_induct_rule [where f = length])
  case (less u)
  show ?case
  proof (cases "u = []")
    case True
    have "filter (\<lambda>t. fst (snd t) \<le> 0) (tags_of uc v) = []"
      using tag_bounds(1) [of _ _ _ uc v] by (fastforce simp: filter_empty_conv)
    then show ?thesis by (simp add: True shift_def)
  next
    case u: False
    show ?thesis
    proof (cases "tag_here uc (u @ v)")
      case None
      have tags: "tags_of uc (u @ v) = map (shift 1) (tags_of uc (drop 1 u @ v))"
        using tags_of_miss [OF _ None] u by (cases u) simp_all
      then have here: "tag_here uc (u @ v') = None" using less.prems(2) [of 0] u by (auto simp: covered_def)
      have "tags_of uc (drop 1 u @ v') = filter (\<lambda>t. fst (snd t) \<le> length (drop 1 u)) (tags_of uc (drop 1 u @ v))
          @ map (shift (length (drop 1 u))) (tags_of uc v')"
      proof (rule less.IH)
        show "length (drop 1 u) < length u" using u by simp
        show "j \<le> length (drop 1 u)" if "(i, j, t) \<in> set (tags_of uc (drop 1 u @ v))" "i < length (drop 1 u)" for i j t
        proof -
          have "(i + 1, j + 1, t) \<in> set (tags_of uc (u @ v))" unfolding tags using that(1) by force
          moreover have "i + 1 < length u" using that(2) by simp
          ultimately have "j + 1 \<le> length u" by (rule less.prems(1))
          then show ?thesis by simp
        qed
        show "covered uc (drop 1 u @ v) i \<or> tag_here uc (drop i (drop 1 u) @ v') = None"
          if "i < length (drop 1 u)" for i
        proof -
          have "i + 1 < length u" using that by simp
          from less.prems(2) [OF this] show ?thesis by (auto simp: covered_def tags)
        qed
      qed
      then have "map (shift 1) (tags_of uc (drop 1 u @ v'))
          = filter (\<lambda>t. fst (snd t) \<le> length (drop 1 u) + 1) (tags_of uc (u @ v)) @ map (shift (length (drop 1 u) + 1)) (tags_of uc v')"
        by (simp only: map_append map_shift filter_shift tags)
      moreover have "tags_of uc (u @ v') = map (shift 1) (tags_of uc (drop 1 u @ v'))"
        using tags_of_miss [OF _ here] u by (cases u) simp_all
      moreover have "length u = length (drop 1 u) + 1" using u by simp
      ultimately show ?thesis by (simp only:)
    next
      case (Some x)
      obtain t n where x: "x = (t, n)" by (cases x)
      note hit = tags_of_hit [OF Some [unfolded x]]
      have n: "0 < n" "n \<le> length u" using tag_here_length [OF Some [unfolded x]] less.prems(1) [of 0 n t] hit u by auto
      then have tags: "tags_of uc (u @ v) = (0, n, t) # map (shift n) (tags_of uc (drop n u @ v))" using hit by simp
      have "tag_here uc (take n u @ (drop n u @ v')) = Some (t, n)"
        using tag_here_stable [OF Some [unfolded x], of "drop n u @ v'"] n by simp
      then have here: "tag_here uc (u @ v') = Some (t, n)" by (simp flip: append_assoc)
      have "tags_of uc (drop n u @ v') = filter (\<lambda>t. fst (snd t) \<le> length (drop n u)) (tags_of uc (drop n u @ v))
          @ map (shift (length (drop n u))) (tags_of uc v')"
      proof (rule less.IH)
        show "length (drop n u) < length u" using u n by simp
        show "j \<le> length (drop n u)" if "(i, j, t) \<in> set (tags_of uc (drop n u @ v))" "i < length (drop n u)" for i j t
        proof -
          have "(i + n, j + n, t) \<in> set (tags_of uc (u @ v))" unfolding tags using that(1) by force
          moreover have "i + n < length u" using that(2) by simp
          ultimately have "j + n \<le> length u" by (rule less.prems(1))
          then show ?thesis by simp
        qed
        show "covered uc (drop n u @ v) i \<or> tag_here uc (drop i (drop n u) @ v') = None"
          if "i < length (drop n u)" for i
        proof -
          have "i + n < length u" using that by simp
          from less.prems(2) [OF this] show ?thesis by (auto simp: covered_def tags)
        qed
      qed
      then have "map (shift n) (tags_of uc (drop n u @ v'))
          = filter (\<lambda>t. fst (snd t) \<le> length (drop n u) + n) (map (shift n) (tags_of uc (drop n u @ v)))
            @ map (shift (length (drop n u) + n)) (tags_of uc v')"
        by (simp only: map_append map_shift filter_shift)
      moreover have "tags_of uc (u @ v') = (0, n, t) # map (shift n) (tags_of uc (drop n u @ v'))"
        using tags_of_hit [OF here] n by simp
      moreover have "length u = length (drop n u) + n" using n by simp
      ultimately show ?thesis by (simp only: tags filter.simps append_Cons fst_conv snd_conv le_add2 if_True)
    qed
  qed
qed

lemma opens_markup_stays: "x \<noteq> [] \<Longrightarrow> opens_markup (x @ CHR ''<'' # z) \<Longrightarrow> opens_markup (x @ z')"
  by (cases x; cases "tl x"; cases "tl (tl x)"; cases "tl (tl (tl x))")
    (auto simp: opens_markup_def is_alpha_def)

lemma open_link_tag:
  assumes "CHR ''>'' \<notin> set href" and "uc_space uc '' ''"
  shows "tag_here uc (open_link href @ s) = Some (Tag False ''a'' False, length (open_link href))"
proof -
  define body where "body = '' '' @ in_text_mark @ '' href=\"'' @ href @ ''\"''"
  have free: "CHR ''>'' \<notin> set body" using assms(1) by (auto simp: body_def in_text_mark_def)
  have link: "open_link href @ s = CHR ''<'' # (if False then ''/'' else []) @ CHR ''a'' # body @ CHR ''>'' # s"
    by (simp add: open_link_def body_def)
  have "name_run uc (body @ [CHR ''>'']) = []"
    using assms(2) by (simp add: body_def space_at_def first_char_def in_text_mark_def continuation_def)
  moreover have "\<not> (body \<noteq> [] \<and> last body = CHR ''/'')" by (simp add: body_def)
  moreover have "length (open_link href) = 3 + length body" by (simp add: open_link_def body_def)
  moreover have "comment_at (open_link href @ s) = None" by (simp add: comment_at_def open_link_def)
  ultimately show ?thesis
    using element_at_intro [OF _ free, of "CHR ''a''" uc False s]
    unfolding tag_here_def tag_re_def link by (simp add: is_alpha_def)
qed

lemma close_link_tag: "tag_here uc (close_link @ s) = Some (Tag True ''a'' False, 4)"
  using element_at_intro [of "CHR ''a''" "[]" uc True s]
  by (simp add: tag_here_def tag_re_def close_link_def comment_at_def is_alpha_def)

lemma spliced_tags:
  assumes prose: "in_prose uc pre words post"
    and finished: "finished uc (pre @ words @ post) (length pre + length words)"
    and href: "CHR ''>'' \<notin> set href" and blank: "uc_space uc '' ''"
  defines "content \<equiv> pre @ words @ post" and "l \<equiv> length (open_link href)" and "n \<equiv> length pre" and "k \<equiv> length words"
  shows "tags_of uc (pre @ open_link href @ words @ close_link @ post)
    = filter (\<lambda>t. fst (snd t) \<le> n) (tags_of uc content)
      @ [(n, n + l, Tag False ''a'' False), (n + l + k, n + l + k + 4, Tag True ''a'' False)]
      @ map (shift (l + 4)) (filter (\<lambda>t. n < fst (snd t)) (tags_of uc content))"
proof -
  have k: "0 < k" and sep: "\<And>i j t. (i, j, t) \<in> set (tags_of uc content) \<Longrightarrow> j \<le> n \<or> n + k \<le> i"
    using prose by (auto simp: in_prose_def content_def n_def k_def list_all_iff)
  have here: "covered uc content i \<or> tag_here uc (drop i content) = None" if "i < n + k" for i
  proof -
    have "opens_markup (drop i content) \<Longrightarrow> covered uc content i"
      using finished that unfolding finished_def list_all_iff content_def n_def k_def by simp
    then show ?thesis using not_opens [of "drop i content" uc] by metis
  qed
  have still: "covered uc content i \<or> (\<forall>z. drop i (take (n + k) content) = x @ y \<and> x \<noteq> [] \<longrightarrow> tag_here uc (x @ CHR ''<'' # z) = None)"
    if "i < n + k" for i x y
  proof (cases "covered uc content i")
    case False
    then have quiet: "\<not> opens_markup (drop i content)"
      using finished that by (auto simp: finished_def list_all_iff content_def n_def k_def)
    have "tag_here uc (x @ CHR ''<'' # z) = None" if x: "drop i (take (n + k) content) = x @ y" "x \<noteq> []" for z
    proof (rule not_opens, rule notI)
      assume "opens_markup (x @ CHR ''<'' # z)"
      then have "opens_markup (x @ y @ post)" by (rule opens_markup_stays [OF x(2)])
      moreover have "drop i content = drop i (take (n + k) content) @ post"
        using \<open>i < n + k\<close> by (simp add: content_def n_def k_def)
      ultimately show False using quiet x(1) by simp
    qed
    then show ?thesis by blast
  qed simp
  have whole: "take (n + k) content = pre @ words" by (simp add: content_def n_def k_def)
  have one: "tags_of uc (pre @ v) = filter (\<lambda>t. fst (snd t) \<le> n) (tags_of uc content) @ map (shift n) (tags_of uc v)"
    if v: "v = words @ post \<or> (\<exists>z. v = CHR ''<'' # z)" for v
    unfolding n_def content_def
  proof (rule tags_before)
    show "j \<le> length pre" if "(i, j, t) \<in> set (tags_of uc (pre @ words @ post))" "i < length pre" for i j t
      using sep [of i j t] that k by (auto simp: content_def n_def)
    show "covered uc (pre @ words @ post) i \<or> tag_here uc (drop i pre @ v) = None" if "i < length pre" for i
      using v
    proof
      assume "v = words @ post"
      then show ?thesis
        using here [of i] that by (simp add: content_def n_def)
    next
      assume "\<exists>z. v = CHR ''<'' # z"
      then show ?thesis using still [of i "drop i pre" words] that whole by (auto simp: n_def content_def)
    qed
  qed
  have before: "filter (\<lambda>t. fst (snd t) \<le> n) (tags_of uc content) @ map (shift n) (tags_of uc (words @ post)) = tags_of uc content"
    using one [of "words @ post"] by (simp add: content_def)
  have after: "map (shift n) (tags_of uc (words @ post)) = filter (\<lambda>t. n < fst (snd t)) (tags_of uc content)"
    using before tags_cut [of uc content n] by (metis (no_types, lifting) linorder_not_less same_append_eq filter_cong)
  have gap: "k \<le> fst t" if "t \<in> set (tags_of uc (words @ post))" for t
  proof -
    have "shift n t \<in> set (filter (\<lambda>t. fst (snd t) \<le> n) (tags_of uc content) @ map (shift n) (tags_of uc (words @ post)))"
      using that by simp
    then have "shift n t \<in> set (tags_of uc content)" by (simp only: before)
    then show ?thesis
      using sep [of "fst t + n" "fst (snd t) + n" "snd (snd t)"] tag_bounds(1) [of "fst t" "fst (snd t)" "snd (snd t)"] that
      by (cases t) auto
  qed
  have two: "tags_of uc (words @ v) = map (shift k) (tags_of uc v)" if v: "v = post \<or> (\<exists>z. v = CHR ''<'' # z)" for v
  proof -
    have none: "filter (\<lambda>t. fst (snd t) \<le> k) (tags_of uc (words @ post)) = []"
      using gap tag_bounds(1) [of _ _ _ uc "words @ post"] by (fastforce simp: filter_empty_conv)
    have "tags_of uc (words @ v) = filter (\<lambda>t. fst (snd t) \<le> length words) (tags_of uc (words @ post)) @ map (shift (length words)) (tags_of uc v)"
    proof (rule tags_before)
      show "j \<le> length words" if "(i, j, t) \<in> set (tags_of uc (words @ post))" "i < length words" for i j t
        using gap [OF that(1)] that(2) by (simp add: k_def)
      show "covered uc (words @ post) i \<or> tag_here uc (drop i words @ v) = None" if i: "i < length words" for i
      proof -
        have free: "\<not> covered uc content (n + i)"
          using sep i by (fastforce simp: covered_def k_def)
        from v show ?thesis
        proof
          assume "v = post"
          then show ?thesis
            using here [of "n + i"] i free by (simp add: content_def n_def k_def)
        next
          assume "\<exists>z. v = CHR ''<'' # z"
          then show ?thesis using still [of "n + i" "drop i words" "[]"] i free whole by (auto simp: n_def k_def)
        qed
      qed
    qed
    then show ?thesis using none by (simp add: k_def)
  qed
  have "tags_of uc (close_link @ post) = (0, 4, Tag True ''a'' False) # map (shift 4) (tags_of uc post)"
    using tags_of_hit [OF close_link_tag, of uc post] by (simp add: close_link_def)
  moreover have "tags_of uc (open_link href @ words @ close_link @ post)
      = (0, l, Tag False ''a'' False) # map (shift l) (tags_of uc (words @ close_link @ post))"
    using tags_of_hit [OF open_link_tag [OF href blank]] by (simp add: l_def)
  moreover have "tags_of uc (words @ close_link @ post) = map (shift k) (tags_of uc (close_link @ post))"
    by (rule two) (simp add: close_link_def)
  moreover have "tags_of uc (pre @ open_link href @ words @ close_link @ post)
      = filter (\<lambda>t. fst (snd t) \<le> n) (tags_of uc content) @ map (shift n) (tags_of uc (open_link href @ words @ close_link @ post))"
    by (rule one) (simp add: open_link_def)
  moreover have "filter (\<lambda>t. n < fst (snd t)) (tags_of uc content) = map (shift n) (map (shift k) (tags_of uc post))"
    using after two [of post] by simp
  ultimately show ?thesis by (simp add: add_ac)
qed

lemma escape_no_tag: "CHR ''>'' \<notin> set (html_escape s)"
  by (auto simp: html_escape_def split: if_splits)

lemma link_closes_itself:
  assumes "uc_lower uc ''a'' = ''a''"
  shows "after_tag uc (after_tag uc stack (Tag False ''a'' False)) (Tag True ''a'' False) = stack"
proof -
  have "''a'' \<notin> void_elements" by (simp add: void_elements_def)
  then have "after_tag uc stack (Tag False ''a'' False) = stack @ [''a'']" using assms by (simp add: after_tag_def)
  moreover have "innermost ''a'' (stack @ [''a'']) = length stack" by (simp add: innermost_def)
  ultimately show ?thesis using assms by (simp add: after_tag_def)
qed

text \<open>C12. A link in the text leaves the rest of the post as it was: when every comment and tag that begins before the end of the
  wrapped words also ends, the tags of the new text are the old ones with \<^verbatim>\<open><a>\<close> and \<^verbatim>\<open></a>\<close> between them and
  nothing else changed but the offsets, and behind the link the same elements are open as before. Nothing of the target URL
  can end the tag early.\<close>

theorem splice_keeps_markup:
  fixes url :: string
  assumes "in_prose uc pre words post" and "finished uc (pre @ words @ post) (length pre + length words)"
    and "uc_space uc '' ''" and "uc_lower uc ''a'' = ''a''"
  defines "updated \<equiv> pre @ open_link (html_escape url) @ words @ close_link @ post"
    and "added \<equiv> length (open_link (html_escape url)) + 4" and "j \<equiv> length pre + length words"
  shows "tags_of uc updated
      = filter (\<lambda>t. fst (snd t) \<le> length pre) (tags_of uc (pre @ words @ post))
        @ [(length pre, length pre + (added - 4), Tag False ''a'' False), (j + (added - 4), j + added, Tag True ''a'' False)]
        @ map (shift added) (filter (\<lambda>t. length pre < fst (snd t)) (tags_of uc (pre @ words @ post)))
    \<and> open_elements uc updated (j + added + i) = open_elements uc (pre @ words @ post) (j + i)"
proof (rule conjI)
  let ?tags = "tags_of uc (pre @ words @ post)"
  show tags: "tags_of uc updated
      = filter (\<lambda>t. fst (snd t) \<le> length pre) ?tags
        @ [(length pre, length pre + (added - 4), Tag False ''a'' False), (j + (added - 4), j + added, Tag True ''a'' False)]
        @ map (shift added) (filter (\<lambda>t. length pre < fst (snd t)) ?tags)"
    using spliced_tags [OF assms(1,2) escape_no_tag assms(3), of url]
    by (simp add: updated_def added_def j_def add_ac)
  define seen rest where "seen = filter (\<lambda>t. fst (snd t) \<le> length pre) ?tags" and "rest = filter (\<lambda>t. length pre < fst (snd t)) ?tags"
  have cut: "?tags = seen @ rest"
    using tags_cut [of uc "pre @ words @ post" "length pre"] by (simp add: seen_def rest_def not_le)
  have seen: "filter (\<lambda>t. fst (snd t) \<le> length pre + k) seen = seen" for k
    by (rule filter_True) (auto simp: seen_def)
  have "filter (\<lambda>t. fst (snd t) \<le> (j + i) + added) (tags_of uc updated)
      = seen @ [(length pre, length pre + (added - 4), Tag False ''a'' False), (j + (added - 4), j + added, Tag True ''a'' False)]
        @ map (shift added) (filter (\<lambda>t. fst (snd t) \<le> j + i) rest)"
    using seen [of "length words + i + added"] unfolding tags seen_def [symmetric] rest_def [symmetric] filter_append filter_shift
    by (simp add: j_def added_def add_ac)
  moreover have "filter (\<lambda>t. fst (snd t) \<le> j + i) ?tags = seen @ filter (\<lambda>t. fst (snd t) \<le> j + i) rest"
    unfolding cut filter_append using seen [of "length words + i"] by (simp add: j_def add_ac)
  ultimately show "open_elements uc updated (j + added + i) = open_elements uc (pre @ words @ post) (j + i)"
    using link_closes_itself [OF assms(4)] by (simp add: open_elements_def add_ac comp_def)
qed

text \<open>Where the premise fails, a link can be swallowed: a stray start of a comment or a tag counts as prose, and so does the
  rest of an attribute value behind a \<^verbatim>\<open>>\<close> in it.\<close>

section \<open>Witnesses\<close>

definition plain_unicode :: unicode where
  "plain_unicode = \<lparr>uc_space = (\<lambda>s. list_all is_space s),
     uc_word = (\<lambda>s. list_all (\<lambda>c. is_alpha c \<or> is_digit_char c \<or> c = CHR ''_'') s), uc_lower = lower\<rparr>"

definition sample_splice :: splice_settings where
  "sample_splice = \<lparr>publish_max_in_text_links_per_article = 3, publish_min_in_text_gap_chars = 300\<rparr>"

lemma sample_insert:
  "insert_link plain_unicode sample_splice ''<p>a big fan</p>'' ''/fans'' ''Fans'' (Some ''fan'')
     = (''<p>a big '' @ open_link ''/fans'' @ ''fan</a></p>'', Inserted)"
  by code_simp

lemma in_text_link_is_in_prose_witness:
  "\<exists>pre words post. ''<p>a big fan</p>'' = pre @ words @ post \<and> in_prose plain_unicode pre words post"
  using in_text_link_is_in_prose [OF sample_insert] by blast

definition sample_rows :: store where
  "sample_rows = \<lparr>st_articles = [\<lparr>ar_id = 2, ar_site = 7, ar_url = ''/p'', ar_title = ''P'', ar_text = [], ar_external_id = Some ''9''\<rparr>],
     st_suggestions = [(new_suggestion 5 7 2 None (Some ''/fans'') External_search 0)
       \<lparr>sg_status := Approved, sg_anchor := Some ''fan'', sg_external_title := Some ''Fans''\<rparr>],
     st_plans = [], st_events = []\<rparr>"

definition no_links :: html_parser where
  "no_links = \<lparr>parse_hrefs = (\<lambda>_. Some []), url_join = (\<lambda>_. Some)\<rparr>"

lemma prepared_plan_only_adds_links_witness:
  "\<exists>p. render_plan id (preview_links plain_unicode sample_splice no_links (st_articles sample_rows) (\<lambda>_. Some ''<p>a big fan</p>''))
        1 7 sample_rows 2 [5] = Prepared p
    \<and> subseq (pl_original p) (pl_updated p) \<and> map it_outcome (pl_items p) = [''inserted'']"
proof -
  let ?preview = "preview_links plain_unicode sample_splice no_links (st_articles sample_rows) (\<lambda>_. Some ''<p>a big fan</p>'')"
  define s where "s = hd (st_suggestions sample_rows)"
  note d = s_def sample_rows_def new_suggestion_def
  have "set (all_hrefs no_links ''<p>a big fan</p>'' ''/p'') = {}"
    by (simp add: all_hrefs_def no_links_def List.map_filter_def)
  then have view: "?preview [s] = Some (''<p>a big fan</p>'', ''<p>a big '' @ open_link ''/fans'' @ ''fan</a></p>'', [''inserted''])"
    using sample_insert
    by (simp add: preview_links_def suggestion_target_url_def suggestion_target_title_def truthy_def get_row_def outcome_name_def d)
  have rows: "present_rows sample_rows [5] = [s]" "covered_by sample_rows 2 = None"
    by (simp_all add: present_rows_def List.map_filter_def find_suggestion_def get_row_def covered_by_def active_plan_def d)
  have "\<exists>art. get_row ar_id (sg_source s) (st_articles sample_rows) = Some art" by (simp add: get_row_def d)
  then obtain art where art: "get_row ar_id (sg_source s) (st_articles sample_rows) = Some art" by blast
  have "\<exists>items. snapshot_items (st_articles sample_rows) [s] [''inserted''] = Some items \<and> map it_outcome items = [''inserted'']"
    by (simp add: snapshot_items_def resolved_target_url_def d)
  then obtain items where items: "snapshot_items (st_articles sample_rows) [s] [''inserted''] = Some items"
    "map it_outcome items = [''inserted'']" by (elim exE conjE) (rule that)
  define p where "p = new_plan id 1 7 2 (ar_url art) ''<p>a big fan</p>'' (''<p>a big '' @ open_link ''/fans'' @ ''fan</a></p>'') items"
  have p: "render_plan id ?preview 1 7 sample_rows 2 [5] = Prepared p"
    unfolding render_plan_def rows(1) p_def by (simp only: list.case option.case prod.case art rows(2) view items(1))
  have "map it_outcome (pl_items p) = [''inserted'']" using items(2) by (simp add: p_def new_plan_def hashed_def draft_plan_def)
  moreover from prepared_plan_only_adds_links [OF p] have "subseq (pl_original p) (pl_updated p)" by blast
  ultimately show ?thesis using p by (intro exI [of _ p] conjI)
qed

lemma open_comment_is_prose:
  "insert_link plain_unicode sample_splice ''<p>x</p><!-- fan'' ''/fans'' ''Fans'' (Some ''fan'')
     = (''<p>x</p><!-- '' @ open_link ''/fans'' @ ''fan</a>'', Inserted)"
  by code_simp

lemma attribute_value_is_prose:
  "insert_link plain_unicode sample_splice ''<p title=\"b > fan\">x</p>'' ''/fans'' ''Fans'' (Some ''fan'')
     = (''<p title=\"b > '' @ open_link ''/fans'' @ ''fan</a>\">x</p>'', Inserted)"
  by code_simp

lemma splice_keeps_markup_witness:
  "tags_of plain_unicode (''<p>a big '' @ open_link (html_escape ''/fans'') @ ''fan'' @ close_link @ ''</p>'')
     = [(0, 3, Tag False ''p'' False), (9, 49, Tag False ''a'' False), (52, 56, Tag True ''a'' False), (56, 60, Tag True ''p'' False)]"
proof -
  have "in_prose plain_unicode ''<p>a big '' ''fan'' ''</p>''" by code_simp
  moreover have "finished plain_unicode (''<p>a big '' @ ''fan'' @ ''</p>'') (length ''<p>a big '' + length ''fan'')" by code_simp
  moreover have "uc_space plain_unicode '' ''" "uc_lower plain_unicode ''a'' = ''a''" by code_simp+
  ultimately have "tags_of plain_unicode (''<p>a big '' @ open_link (html_escape ''/fans'') @ ''fan'' @ close_link @ ''</p>'')
      = filter (\<lambda>t. fst (snd t) \<le> length ''<p>a big '') (tags_of plain_unicode (''<p>a big '' @ ''fan'' @ ''</p>''))
        @ [(length ''<p>a big '', length ''<p>a big '' + (length (open_link (html_escape ''/fans'')) + 4 - 4), Tag False ''a'' False),
           (length ''<p>a big '' + length ''fan'' + (length (open_link (html_escape ''/fans'')) + 4 - 4),
            length ''<p>a big '' + length ''fan'' + (length (open_link (html_escape ''/fans'')) + 4), Tag True ''a'' False)]
        @ map (shift (length (open_link (html_escape ''/fans'')) + 4))
            (filter (\<lambda>t. length ''<p>a big '' < fst (snd t)) (tags_of plain_unicode (''<p>a big '' @ ''fan'' @ ''</p>'')))"
    using splice_keeps_markup [of plain_unicode "''<p>a big ''" "''fan''" "''</p>''" "''/fans''" 0] by blast
  also have "\<dots> = [(0, 3, Tag False ''p'' False), (9, 49, Tag False ''a'' False), (52, 56, Tag True ''a'' False), (56, 60, Tag True ''p'' False)]"
    by code_simp
  finally show ?thesis .
qed

end
