(* ===== verification/Spec2Isabelle.thy ===== *)
theory Spec2Isabelle
  imports Consent Dashboard PublishRoutes Pipelines ContentGraph Generation Splice
begin

text \<open>
  LinkMesh backend (src/app): suggests internal and external links for managed sites, lets
  operators review them, and publishes them to WordPress.
\<close>

end
